(* ===== verification/Prelude.thy ===== *)
theory Prelude
  imports Main "HOL-Library.AList" "HOL-Library.Multiset" "HOL-Library.Sublist" "HOL-Library.Word"
begin

text \<open>
  Shared vocabulary of the development: the Rust containers and integers the runtime crates use,
  as Isabelle functions, with the lemmas the component theories rest on.

  \<^item> \<open>kv\<close>: a hash map that the code iterates over, as an association list whose keys are
    distinct (\<open>kv_ok\<close>); maps that are only looked up are \<open>string \<rightharpoonup> 'v\<close>.
  \<^item> \<open>position\<close>, \<open>insert_at\<close>, \<open>remove_at\<close>: \<open>Iterator::position\<close>,
    \<open>VecDeque::insert\<close>, \<open>Vec::remove\<close>.
  \<^item> unsigned machine integers as \<open>nat\<close> with saturation, wrap-around and failed checks
    written out at the width the code uses.
  \<^item> strings as UTF-8 byte lists, with \<open>str::trim\<close> and \<open>str::chars\<close> on them.
\<close>

named_theorems kv_simps \<open>lookups after updates of a keyed store\<close>
named_theorems inv_intros \<open>operations preserve the invariants of their component\<close>

section \<open>Keyed stores\<close>

text \<open>
  Every map of the runtime is used through lookup, insert and remove. The interface states what
  a client relies on; \<open>kv\<close> lists and function maps both provide it.
\<close>

locale keyed_store =
  fixes get :: "'m \<Rightarrow> 'k \<Rightarrow> 'v option"
    and put :: "'k \<Rightarrow> 'v \<Rightarrow> 'm \<Rightarrow> 'm"
    and del :: "'k \<Rightarrow> 'm \<Rightarrow> 'm"
  assumes get_put: "get (put k v m) k' = (if k' = k then Some v else get m k')"
    and get_del: "get (del k m) k' = (if k' = k then None else get m k')"
begin

lemma get_put_same: "get (put k v m) k = Some v"
  by (simp add: get_put)

lemma get_put_other: "k' \<noteq> k \<Longrightarrow> get (put k v m) k' = get m k'"
  by (simp add: get_put)

lemma get_del_put: "get (del k (put k v m)) k' = get (del k m) k'"
  by (simp add: get_put get_del)

lemma get_put_del: "get (put k v (del k m)) k' = get (put k v m) k'"
  by (simp add: get_put get_del)

lemma get_put_Some_iff:
  "get (put k v m) k' = Some w \<longleftrightarrow> (k' = k \<and> w = v) \<or> (k' \<noteq> k \<and> get m k' = Some w)"
  by (auto simp: get_put)

lemma get_del_Some_iff: "get (del k m) k' = Some w \<longleftrightarrow> k' \<noteq> k \<and> get m k' = Some w"
  by (simp add: get_del)

end

type_synonym ('k, 'v) kv = "('k \<times> 'v) list"

definition kv_put :: "'k \<Rightarrow> 'v \<Rightarrow> ('k, 'v) kv \<Rightarrow> ('k, 'v) kv" where
  "kv_put k v m = AList.update k v m"

definition kv_del :: "'k \<Rightarrow> ('k, 'v) kv \<Rightarrow> ('k, 'v) kv" where
  "kv_del k m = AList.delete k m"

definition kv_retain :: "('k \<Rightarrow> 'v \<Rightarrow> bool) \<Rightarrow> ('k, 'v) kv \<Rightarrow> ('k, 'v) kv" where
  "kv_retain P m = filter (\<lambda>(k, v). P k v) m"

definition kv_ok :: "('k, 'v) kv \<Rightarrow> bool" where
  "kv_ok m \<longleftrightarrow> distinct (map fst m)"

interpretation alist: keyed_store map_of kv_put kv_del
  by unfold_locales (simp_all add: kv_put_def kv_del_def AList.update_conv' AList.delete_conv')

interpretation fun_map: keyed_store "\<lambda>m. m" "\<lambda>k v m. m(k \<mapsto> v)" "\<lambda>k m. m(k := None)"
  by unfold_locales simp_all

declare alist.get_put [simp, kv_simps] alist.get_del [simp, kv_simps]

lemma kv_put_Nil [simp]: "kv_put k v [] = [(k, v)]"
  by (simp add: kv_put_def)

lemma kv_put_Cons [simp]:
  "kv_put k v (p # m) = (if fst p = k then (k, v) # m else p # kv_put k v m)"
  by (simp add: kv_put_def)

lemma kv_del_Nil [simp]: "kv_del k [] = []"
  by (simp add: kv_del_def)

lemma kv_del_Cons [simp]: "kv_del k (p # m) = (if fst p = k then kv_del k m else p # kv_del k m)"
  by (cases p) (simp add: kv_del_def AList.delete_eq)

lemma kv_ok_Nil [simp]: "kv_ok []"
  by (simp add: kv_ok_def)

lemma kv_ok_put [simp, intro]: "kv_ok m \<Longrightarrow> kv_ok (kv_put k v m)"
  by (simp add: kv_ok_def kv_put_def AList.distinct_update)

lemma kv_ok_del [simp, intro]: "kv_ok m \<Longrightarrow> kv_ok (kv_del k m)"
  by (simp add: kv_ok_def kv_del_def AList.distinct_delete)

lemma kv_ok_retain [simp, intro]: "kv_ok m \<Longrightarrow> kv_ok (kv_retain P m)"
  unfolding kv_ok_def kv_retain_def by (induction m) auto

lemma kv_keys_put: "fst ` set (kv_put k v m) = insert k (fst ` set m)"
  by (simp add: kv_put_def AList.dom_update)

lemma kv_keys_del: "fst ` set (kv_del k m) = fst ` set m - {k}"
  by (induction m) auto

lemma kv_in_set_iff: "kv_ok m \<Longrightarrow> (k, v) \<in> set m \<longleftrightarrow> map_of m k = Some v"
  unfolding kv_ok_def by (metis map_of_SomeD map_of_is_SomeI)

lemma kv_get_retain:
  "kv_ok m \<Longrightarrow>
   map_of (kv_retain P m) k =
     (case map_of m k of Some v \<Rightarrow> if P k v then Some v else None | None \<Rightarrow> None)"
  by (induction m)
    (auto simp: kv_ok_def kv_retain_def map_of_eq_None_iff rev_image_eqI split: option.splits)

lemma kv_in_set_put:
  "kv_ok m \<Longrightarrow> p \<in> set (kv_put k v m) \<longleftrightarrow> p = (k, v) \<or> (fst p \<noteq> k \<and> p \<in> set m)"
  using kv_in_set_iff [of m "fst p" "snd p"] kv_in_set_iff [of "kv_put k v m" "fst p" "snd p"]
  by (cases p) auto

lemma kv_in_set_del: "p \<in> set (kv_del k m) \<longleftrightarrow> fst p \<noteq> k \<and> p \<in> set m"
  by (induction m) auto

lemma kv_length_put:
  "length (kv_put k v m) = (if k \<in> fst ` set m then length m else Suc (length m))"
  by (induction m) auto

lemma kv_length_del:
  "kv_ok m \<Longrightarrow> length (kv_del k m) = (if k \<in> fst ` set m then length m - 1 else length m)"
proof (induction m)
  case (Cons p m)
  then show ?case
    by (cases "k \<in> fst ` set m") (auto simp: kv_ok_def kv_del_def dest: length_pos_if_in_set)
qed simp

section \<open>Positions in sequences\<close>

fun position :: "('a \<Rightarrow> bool) \<Rightarrow> 'a list \<Rightarrow> nat option" where
  "position P [] = None"
| "position P (x # xs) = (if P x then Some 0 else map_option Suc (position P xs))"

definition insert_at :: "nat \<Rightarrow> 'a \<Rightarrow> 'a list \<Rightarrow> 'a list" where
  "insert_at i x xs = take i xs @ x # drop i xs"

definition remove_at :: "nat \<Rightarrow> 'a list \<Rightarrow> 'a list" where
  "remove_at i xs = take i xs @ drop (Suc i) xs"

lemma position_SomeD:
  "position P xs = Some i \<Longrightarrow> i < length xs \<and> P (xs ! i) \<and> (\<forall>j < i. \<not> P (xs ! j))"
proof (induction xs arbitrary: i)
  case (Cons x xs)
  show ?case
  proof (cases "P x")
    case False
    with Cons.prems obtain k where "position P xs = Some k" "i = Suc k" by auto
    with Cons.IH [of k] False show ?thesis by (auto simp: less_Suc_eq_0_disj)
  qed (use Cons.prems in auto)
qed simp

lemma position_None_iff: "position P xs = None \<longleftrightarrow> (\<forall>x \<in> set xs. \<not> P x)"
  by (induction xs) auto

lemma position_SomeI: "x \<in> set xs \<Longrightarrow> P x \<Longrightarrow> \<exists>i. position P xs = Some i"
  using position_None_iff [of P xs] by (cases "position P xs") auto

lemma position_split:
  "position P xs = Some i \<Longrightarrow>
   xs = take i xs @ xs ! i # drop (Suc i) xs \<and> (\<forall>y \<in> set (take i xs). \<not> P y) \<and> P (xs ! i)"
  by (auto dest!: position_SomeD simp: id_take_nth_drop in_set_conv_nth)

lemma position_takeWhile:
  "position P xs = Some i \<Longrightarrow>
   take i xs = takeWhile (\<lambda>x. \<not> P x) xs \<and> drop i xs = dropWhile (\<lambda>x. \<not> P x) xs"
  by (induction xs arbitrary: i) (auto split: if_splits)

lemma position_None_takeWhile:
  "position P xs = None \<Longrightarrow>
   takeWhile (\<lambda>x. \<not> P x) xs = xs \<and> dropWhile (\<lambda>x. \<not> P x) xs = []"
  by (induction xs) (auto split: if_splits)

lemma mset_insert_at [simp]: "mset (insert_at i x xs) = add_mset x (mset xs)"
proof -
  have "mset (take i xs) + mset (drop i xs) = mset xs"
    by (metis append_take_drop_id mset_append)
  then show ?thesis by (simp add: insert_at_def)
qed

lemma set_insert_at [simp]: "set (insert_at i x xs) = insert x (set xs)"
  by (metis mset_insert_at set_mset_add_mset_insert set_mset_mset)

lemma length_insert_at [simp]: "length (insert_at i x xs) = Suc (length xs)"
  by (metis mset_insert_at size_add_mset size_mset)

lemma mset_remove_at: "i < length xs \<Longrightarrow> mset xs = add_mset (xs ! i) (mset (remove_at i xs))"
  unfolding remove_at_def by (subst id_take_nth_drop [of i xs]) auto

lemma set_remove_at_subset: "set (remove_at i xs) \<subseteq> set xs"
  unfolding remove_at_def by (auto dest: in_set_takeD in_set_dropD)

lemma length_remove_at: "i < length xs \<Longrightarrow> length (remove_at i xs) = length xs - 1"
  unfolding remove_at_def by simp

lemma remove_at_insert_at: "i \<le> length xs \<Longrightarrow> remove_at i (insert_at i x xs) = xs"
  unfolding remove_at_def insert_at_def by (simp add: min_def)

section \<open>Greatest elements\<close>

text \<open>\<open>Iterator::max\<close> over an ordered type, with \<open>None\<close> on no element.\<close>

definition iter_max :: "('a::linorder) list \<Rightarrow> 'a option" where
  "iter_max xs = (case xs of [] \<Rightarrow> None | y # ys \<Rightarrow> Some (fold max ys y))"

lemma iter_max_Max: "iter_max xs = (if xs = [] then None else Some (Max (set xs)))"
  unfolding iter_max_def by (cases xs) (simp_all only: list.case Max.set_eq_fold, simp_all)

lemma iter_max_props:
  "(iter_max xs = None \<longleftrightarrow> xs = []) \<and>
   (iter_max xs = Some m \<longrightarrow> m \<in> set xs \<and> (\<forall>x \<in> set xs. x \<le> m))"
  by (auto simp: iter_max_Max split: if_splits)

section \<open>Unsigned integers\<close>

definition u64_max :: nat where
  "u64_max = 18446744073709551615"

definition sat_add_u64 :: "nat \<Rightarrow> nat \<Rightarrow> nat" where
  "sat_add_u64 a b = min (a + b) u64_max"

definition wrap_add_u64 :: "nat \<Rightarrow> nat \<Rightarrow> nat" where
  "wrap_add_u64 a b = (a + b) mod (u64_max + 1)"

definition checked_add_u64 :: "nat \<Rightarrow> nat \<Rightarrow> nat option" where
  "checked_add_u64 a b = (if a + b \<le> u64_max then Some (a + b) else None)"

definition div_ceil :: "nat \<Rightarrow> nat \<Rightarrow> nat" where
  "div_ceil a b = a div b + (if a mod b = 0 then 0 else 1)"

lemma sat_add_u64_bound [simp]: "sat_add_u64 a b \<le> u64_max"
  by (simp add: sat_add_u64_def)

lemma sat_add_u64_exact: "a + b \<le> u64_max \<Longrightarrow> sat_add_u64 a b = a + b"
  by (simp add: sat_add_u64_def)

lemma wrap_add_u64_exact: "a + b \<le> u64_max \<Longrightarrow> wrap_add_u64 a b = a + b"
  by (simp add: wrap_add_u64_def)

lemma div_ceil_upper: "0 < b \<Longrightarrow> a \<le> div_ceil a b * b"
  by (auto simp: div_ceil_def algebra_simps)
    (metis add.commute le_add1 mod_div_mult_eq mod_less_divisor nat_add_left_cancel_le
      less_imp_le_nat mult.commute)

section \<open>UTF-8 strings\<close>

text \<open>
  A Rust \<open>str\<close> is valid UTF-8, so its bytes split uniquely into code points: a byte starts a
  new code point unless it is a continuation byte \<open>10xxxxxx\<close>.
\<close>

definition is_utf8_cont :: "char \<Rightarrow> bool" where
  "is_utf8_cont c \<longleftrightarrow> (128::nat) \<le> of_char c \<and> of_char c < (192::nat)"

fun utf8_chars :: "string \<Rightarrow> string list" where
  "utf8_chars [] = []"
| "utf8_chars (c # cs) =
     (case utf8_chars cs of
        [] \<Rightarrow> [[c]]
      | d # ds \<Rightarrow> (if d \<noteq> [] \<and> is_utf8_cont (hd d) then (c # d) # ds else [c] # d # ds))"

lemma concat_utf8_chars [simp]: "concat (utf8_chars s) = s"
  by (induction s) (auto split: list.splits)

lemma utf8_chars_Nil_iff [simp]: "utf8_chars s = [] \<longleftrightarrow> s = []"
  by (cases s) (auto split: list.splits)

text \<open>The code points with the Unicode property White\_Space, as UTF-8 byte sequences.\<close>

definition utf8_whitespace :: "string list" where
  "utf8_whitespace =
     [[CHR 0x09], [CHR 0x0A], [CHR 0x0B], [CHR 0x0C], [CHR 0x0D], [CHR 0x20],
      [CHR 0xC2, CHR 0x85], [CHR 0xC2, CHR 0xA0], [CHR 0xE1, CHR 0x9A, CHR 0x80],
      [CHR 0xE2, CHR 0x80, CHR 0x80], [CHR 0xE2, CHR 0x80, CHR 0x81],
      [CHR 0xE2, CHR 0x80, CHR 0x82], [CHR 0xE2, CHR 0x80, CHR 0x83],
      [CHR 0xE2, CHR 0x80, CHR 0x84], [CHR 0xE2, CHR 0x80, CHR 0x85],
      [CHR 0xE2, CHR 0x80, CHR 0x86], [CHR 0xE2, CHR 0x80, CHR 0x87],
      [CHR 0xE2, CHR 0x80, CHR 0x88], [CHR 0xE2, CHR 0x80, CHR 0x89],
      [CHR 0xE2, CHR 0x80, CHR 0x8A], [CHR 0xE2, CHR 0x80, CHR 0xA8],
      [CHR 0xE2, CHR 0x80, CHR 0xA9], [CHR 0xE2, CHR 0x80, CHR 0xAF],
      [CHR 0xE2, CHR 0x81, CHR 0x9F], [CHR 0xE3, CHR 0x80, CHR 0x80]]"

definition trim_start :: "string \<Rightarrow> string" where
  "trim_start s = concat (dropWhile (\<lambda>c. c \<in> set utf8_whitespace) (utf8_chars s))"

definition trim :: "string \<Rightarrow> string" where
  "trim s =
     concat (rev (dropWhile (\<lambda>c. c \<in> set utf8_whitespace)
       (rev (dropWhile (\<lambda>c. c \<in> set utf8_whitespace) (utf8_chars s)))))"

definition chars_count :: "string \<Rightarrow> nat" where
  "chars_count s = length (utf8_chars s)"

definition contains :: "string \<Rightarrow> string \<Rightarrow> bool" where
  "contains s needle = sublist needle s"

definition ascii_lowercase :: "string \<Rightarrow> string" where
  "ascii_lowercase s =
     map (\<lambda>c. if 65 \<le> (of_char c :: nat) \<and> of_char c \<le> (90 :: nat) then char_of (of_char c + 32 :: nat) else c) s"

text \<open>\<open>[String]::join\<close>.\<close>

fun join :: "string \<Rightarrow> string list \<Rightarrow> string" where
  "join sep [] = []"
| "join sep [x] = x"
| "join sep (x # y # ys) = x @ sep @ join sep (y # ys)"

section \<open>Numbers as text\<close>

text \<open>\<open>Display\<close> of an unsigned integer.\<close>

definition digit_char :: "nat \<Rightarrow> char" where
  "digit_char d = char_of (48 + d)"

fun decimal :: "nat \<Rightarrow> string" where
  "decimal n = (if n < 10 then [digit_char n] else decimal (n div 10) @ [digit_char (n mod 10)])"

declare decimal.simps [simp del]

end
