(* ===== verification/Round_Injection.thy ===== *)
theory Round_Injection
  imports Json
begin

text \<open>
  Round injections: messages that enter a running dialog turn at its next model-round boundary.
  Models the injection types of \<open>runtime-ports/src/agent_api.rs\<close> and, from
  \<open>agent-runtime/src/scheduler.rs\<close>, the per-session buffer
  \<open>SessionRoundInjectionBuffer\<close>, the source used when no scheduler is wired and the
  interrupt a tool pipeline polls. The trait \<open>DialogRoundInjectionSource\<close> is the locale
  \<open>injection_source\<close>; the interrupt's lemmas are proved in it once and hold of both sources.
\<close>

section \<open>Contract types\<close>

datatype round_injection_kind = UserSteering | BackgroundResult | ThreadGoalObjectiveUpdated

datatype tool_preemption =
    NoPreemption
  | InterruptAfterCurrentAtomicUnit
  | CancelRunningCooperatively
  | CancelRunningForcefully

primrec preemption_rank :: "tool_preemption \<Rightarrow> nat" where
  "preemption_rank NoPreemption = 0"
| "preemption_rank InterruptAfterCurrentAtomicUnit = 1"
| "preemption_rank CancelRunningCooperatively = 2"
| "preemption_rank CancelRunningForcefully = 3"

text \<open>The derived \<open>Ord\<close> of the enum: the order of its variants.\<close>

instantiation tool_preemption :: linorder
begin

definition less_eq_tool_preemption :: "tool_preemption \<Rightarrow> tool_preemption \<Rightarrow> bool" where
  "a \<le> b \<longleftrightarrow> preemption_rank a \<le> preemption_rank b"

definition less_tool_preemption :: "tool_preemption \<Rightarrow> tool_preemption \<Rightarrow> bool" where
  "a < b \<longleftrightarrow> preemption_rank a < preemption_rank b"

instance
proof
  fix a b :: tool_preemption
  show "a \<le> b \<Longrightarrow> b \<le> a \<Longrightarrow> a = b"
    by (cases a; cases b) (simp_all add: less_eq_tool_preemption_def)
qed (auto simp: less_eq_tool_preemption_def less_tool_preemption_def)

end

lemmas preemption_order = less_eq_tool_preemption_def less_tool_preemption_def

lemma NoPreemption_least [simp]: "NoPreemption \<le> p"
  by (simp add: less_eq_tool_preemption_def)

lemma NoPreemption_less_iff [simp]: "NoPreemption < p \<longleftrightarrow> p \<noteq> NoPreemption"
  by (cases p) (simp_all add: preemption_order)

definition should_interrupt_after_current_atomic_unit :: "tool_preemption \<Rightarrow> bool" where
  "should_interrupt_after_current_atomic_unit p = (case p of NoPreemption \<Rightarrow> False | _ \<Rightarrow> True)"

definition should_cancel_running_tools :: "tool_preemption \<Rightarrow> bool" where
  "should_cancel_running_tools p =
     (case p of CancelRunningCooperatively \<Rightarrow> True | CancelRunningForcefully \<Rightarrow> True | _ \<Rightarrow> False)"

lemma should_interrupt_iff: "should_interrupt_after_current_atomic_unit p \<longleftrightarrow> NoPreemption < p"
  by (cases p) (simp_all add: should_interrupt_after_current_atomic_unit_def preemption_order)

lemma should_cancel_iff: "should_cancel_running_tools p \<longleftrightarrow> CancelRunningCooperatively \<le> p"
  by (cases p) (simp_all add: should_cancel_running_tools_def preemption_order)

record round_injection_execution_policy =
  policy_tool_preemption :: tool_preemption

definition default_execution_policy ::
  "round_injection_kind \<Rightarrow> round_injection_execution_policy" where
  "default_execution_policy k =
     (case k of
        UserSteering \<Rightarrow> \<lparr>policy_tool_preemption = InterruptAfterCurrentAtomicUnit\<rparr>
      | BackgroundResult \<Rightarrow> \<lparr>policy_tool_preemption = NoPreemption\<rparr>
      | ThreadGoalObjectiveUpdated \<Rightarrow> \<lparr>policy_tool_preemption = NoPreemption\<rparr>)"

datatype round_injection_target = ExactTurn string | CurrentRunningTurn

record agent_input_attachment =
  att_kind :: string
  att_id :: string
  att_metadata :: json_map

record round_injection =
  inj_id :: string
  inj_kind :: round_injection_kind
  inj_execution_policy :: round_injection_execution_policy
  inj_target :: round_injection_target
  inj_content :: string
  inj_display_content :: string
  inj_attachments :: "agent_input_attachment list"
  inj_metadata :: json_map
  inj_created_at :: system_time

section \<open>The per-session buffer\<close>

type_synonym injection_buffer = "string \<rightharpoonup> round_injection list"

definition buffered :: "injection_buffer \<Rightarrow> string \<Rightarrow> round_injection list" where
  "buffered b sid = (case b sid of None \<Rightarrow> [] | Some q \<Rightarrow> q)"

definition buffer_push :: "injection_buffer \<Rightarrow> string \<Rightarrow> round_injection \<Rightarrow> injection_buffer" where
  "buffer_push b sid m = b(sid \<mapsto> buffered b sid @ [m])"

text \<open>
  The loop of \<open>drain_matching_for_turn\<close>, with its two accumulators; its \<open>match\<close> has
  three arms in the order below.
\<close>

definition targets_turn :: "string \<Rightarrow> round_injection \<Rightarrow> bool" where
  "targets_turn tid m =
     (case inj_target m of ExactTurn t \<Rightarrow> t = tid | CurrentRunningTurn \<Rightarrow> True)"

fun drain_loop ::
  "(round_injection \<Rightarrow> bool) \<Rightarrow> string \<Rightarrow> round_injection list \<Rightarrow> round_injection list
   \<Rightarrow> round_injection list \<Rightarrow> round_injection list \<times> round_injection list" where
  "drain_loop mt tid [] taken keep = (taken, keep)"
| "drain_loop mt tid (m # ms) taken keep =
     (if \<not> mt m then drain_loop mt tid ms taken (keep @ [m])
      else case inj_target m of
        ExactTurn t \<Rightarrow>
          if t = tid then drain_loop mt tid ms (taken @ [m]) keep
          else drain_loop mt tid ms taken (keep @ [m])
      | CurrentRunningTurn \<Rightarrow> drain_loop mt tid ms (taken @ [m]) keep)"

definition drain_matching_for_turn ::
  "injection_buffer \<Rightarrow> string \<Rightarrow> string \<Rightarrow> (round_injection \<Rightarrow> bool)
   \<Rightarrow> round_injection list \<times> injection_buffer" where
  "drain_matching_for_turn b sid tid mt =
     (case b sid of
        None \<Rightarrow> ([], b)
      | Some q \<Rightarrow> (let (taken, keep) = drain_loop mt tid q [] [] in (taken, b(sid \<mapsto> keep))))"

definition drain_for_turn ::
  "injection_buffer \<Rightarrow> string \<Rightarrow> string \<Rightarrow> round_injection list \<times> injection_buffer" where
  "drain_for_turn b sid tid = drain_matching_for_turn b sid tid (\<lambda>_. True)"

definition discard_current_running :: "injection_buffer \<Rightarrow> string \<Rightarrow> injection_buffer" where
  "discard_current_running b sid =
     (case b sid of
        None \<Rightarrow> b
      | Some q \<Rightarrow>
          b(sid \<mapsto> filter (\<lambda>m. case inj_target m of ExactTurn _ \<Rightarrow> True | _ \<Rightarrow> False) q))"

definition remove_by_id ::
  "injection_buffer \<Rightarrow> string \<Rightarrow> string \<Rightarrow> round_injection option \<times> injection_buffer" where
  "remove_by_id b sid iid =
     (case b sid of
        None \<Rightarrow> (None, b)
      | Some q \<Rightarrow>
          (case position (\<lambda>m. inj_id m = iid) q of
             None \<Rightarrow> (None, b)
           | Some i \<Rightarrow> (Some (q ! i), b(sid \<mapsto> remove_at i q))))"

definition has_pending_for_turn :: "injection_buffer \<Rightarrow> string \<Rightarrow> string \<Rightarrow> bool" where
  "has_pending_for_turn b sid tid =
     (case b sid of None \<Rightarrow> False | Some q \<Rightarrow> (\<exists>m \<in> set q. targets_turn tid m))"

definition pending_tool_preemption_for_turn ::
  "injection_buffer \<Rightarrow> string \<Rightarrow> string \<Rightarrow> tool_preemption" where
  "pending_tool_preemption_for_turn b sid tid =
     (case b sid of
        None \<Rightarrow> NoPreemption
      | Some q \<Rightarrow>
          (case iter_max (map (\<lambda>m. policy_tool_preemption (inj_execution_policy m))
                            (filter (targets_turn tid) q)) of
             None \<Rightarrow> NoPreemption
           | Some p \<Rightarrow> p))"

definition buffer_clear :: "injection_buffer \<Rightarrow> string \<Rightarrow> injection_buffer" where
  "buffer_clear b sid = b(sid := None)"

definition pending_count :: "injection_buffer \<Rightarrow> string \<Rightarrow> nat" where
  "pending_count b sid = (case b sid of None \<Rightarrow> 0 | Some q \<Rightarrow> length q)"

section \<open>What the buffer operations compute\<close>

lemma drain_loop_eq:
  "drain_loop mt tid ms taken keep =
     (taken @ filter (\<lambda>m. mt m \<and> targets_turn tid m) ms,
      keep @ filter (\<lambda>m. \<not> (mt m \<and> targets_turn tid m)) ms)"
  by (induction mt tid ms taken keep rule: drain_loop.induct)
    (auto simp: targets_turn_def split: round_injection_target.splits)

lemma drain_matching_taken:
  "fst (drain_matching_for_turn b sid tid mt) =
     filter (\<lambda>m. mt m \<and> targets_turn tid m) (buffered b sid)"
  by (simp add: drain_matching_for_turn_def buffered_def drain_loop_eq split: option.split)

lemma drain_matching_kept:
  "buffered (snd (drain_matching_for_turn b sid tid mt)) sid =
     filter (\<lambda>m. \<not> (mt m \<and> targets_turn tid m)) (buffered b sid)"
  by (auto simp: drain_matching_for_turn_def buffered_def drain_loop_eq split: option.split)

lemma drain_matching_other:
  "sid' \<noteq> sid \<Longrightarrow> snd (drain_matching_for_turn b sid tid mt) sid' = b sid'"
  by (auto simp: drain_matching_for_turn_def drain_loop_eq split: option.split)

lemma has_pending_iff:
  "has_pending_for_turn b sid tid \<longleftrightarrow> (\<exists>m \<in> set (buffered b sid). targets_turn tid m)"
  by (auto simp: has_pending_for_turn_def buffered_def split: option.split)

lemma preemption_upper:
  "m \<in> set (buffered b sid) \<Longrightarrow> targets_turn tid m \<Longrightarrow>
   policy_tool_preemption (inj_execution_policy m) \<le> pending_tool_preemption_for_turn b sid tid"
  using iter_max_props [of "map (\<lambda>m. policy_tool_preemption (inj_execution_policy m))
     (filter (targets_turn tid) (buffered b sid))"]
  by (auto simp: pending_tool_preemption_for_turn_def buffered_def filter_empty_conv
      split: option.splits)

lemma preemption_attained:
  assumes "pending_tool_preemption_for_turn b sid tid \<noteq> NoPreemption"
  shows "\<exists>m \<in> set (buffered b sid). targets_turn tid m \<and>
    policy_tool_preemption (inj_execution_policy m) = pending_tool_preemption_for_turn b sid tid"
  using assms iter_max_props [of "map (\<lambda>m. policy_tool_preemption (inj_execution_policy m))
     (filter (targets_turn tid) (buffered b sid))"]
  by (fastforce simp: pending_tool_preemption_for_turn_def buffered_def split: option.splits)

section \<open>Sources of injections and the interrupt that polls them\<close>

text \<open>
  \<open>DialogRoundInjectionInterrupt\<close> holds the identity of a running turn and its source;
  the source's \<open>pending_tool_preemption\<close> is the first argument here.
\<close>

record injection_interrupt =
  int_session_id :: string
  int_turn_id :: string

definition interrupt_pending_tool_preemption ::
  "('s \<Rightarrow> string \<Rightarrow> string \<Rightarrow> tool_preemption) \<Rightarrow> injection_interrupt \<Rightarrow> 's \<Rightarrow> tool_preemption" where
  "interrupt_pending_tool_preemption pre it src = pre src (int_session_id it) (int_turn_id it)"

definition interrupt_should_interrupt ::
  "('s \<Rightarrow> string \<Rightarrow> string \<Rightarrow> tool_preemption) \<Rightarrow> injection_interrupt \<Rightarrow> 's \<Rightarrow> bool" where
  "interrupt_should_interrupt pre it src =
     should_interrupt_after_current_atomic_unit (interrupt_pending_tool_preemption pre it src)"

definition interrupt_should_cancel ::
  "('s \<Rightarrow> string \<Rightarrow> string \<Rightarrow> tool_preemption) \<Rightarrow> injection_interrupt \<Rightarrow> 's \<Rightarrow> bool" where
  "interrupt_should_cancel pre it src =
     should_cancel_running_tools (interrupt_pending_tool_preemption pre it src)"

text \<open>The source used when no scheduler is wired.\<close>

definition noop_has_pending :: "unit \<Rightarrow> string \<Rightarrow> string \<Rightarrow> bool" where
  "noop_has_pending src sid tid = False"

definition noop_pending_tool_preemption :: "unit \<Rightarrow> string \<Rightarrow> string \<Rightarrow> tool_preemption" where
  "noop_pending_tool_preemption src sid tid = NoPreemption"

definition noop_take_pending ::
  "unit \<Rightarrow> string \<Rightarrow> string \<Rightarrow> round_injection list \<times> unit" where
  "noop_take_pending src sid tid = ([], src)"

abbreviation preemption_of :: "round_injection \<Rightarrow> tool_preemption" where
  "preemption_of m \<equiv> policy_tool_preemption (inj_execution_policy m)"

locale injection_source =
  fixes has_pending :: "'s \<Rightarrow> string \<Rightarrow> string \<Rightarrow> bool"
    and preemption :: "'s \<Rightarrow> string \<Rightarrow> string \<Rightarrow> tool_preemption"
    and take_pending :: "'s \<Rightarrow> string \<Rightarrow> string \<Rightarrow> round_injection list \<times> 's"
  assumes pending_iff: "has_pending s sid tid \<longleftrightarrow> fst (take_pending s sid tid) \<noteq> []"
    and taken_targets: "m \<in> set (fst (take_pending s sid tid)) \<Longrightarrow> targets_turn tid m"
    and taken_once: "fst (take_pending (snd (take_pending s sid tid)) sid tid) = []"
    and preemption_bound:
      "m \<in> set (fst (take_pending s sid tid)) \<Longrightarrow> preemption_of m \<le> preemption s sid tid"
    and preemption_source:
      "preemption s sid tid \<noteq> NoPreemption \<Longrightarrow>
       \<exists>m \<in> set (fst (take_pending s sid tid)). preemption_of m = preemption s sid tid"
begin

lemma interrupt_iff:
  "interrupt_should_interrupt preemption it s \<longleftrightarrow>
     (\<exists>m \<in> set (fst (take_pending s (int_session_id it) (int_turn_id it))).
        NoPreemption < preemption_of m)"
  unfolding interrupt_should_interrupt_def interrupt_pending_tool_preemption_def
    should_interrupt_iff
  using preemption_bound preemption_source
  by (metis NoPreemption_least less_le_trans nless_le)

lemma cancel_iff:
  "interrupt_should_cancel preemption it s \<longleftrightarrow>
     (\<exists>m \<in> set (fst (take_pending s (int_session_id it) (int_turn_id it))).
        CancelRunningCooperatively \<le> preemption_of m)"
  unfolding interrupt_should_cancel_def interrupt_pending_tool_preemption_def should_cancel_iff
  using preemption_bound preemption_source [of s "int_session_id it" "int_turn_id it"]
  by (metis (no_types, opaque_lifting) order.trans preemption_rank.simps(1,3)
      less_eq_tool_preemption_def not_numeral_le_zero)

lemma cancel_imp_interrupt:
  "interrupt_should_cancel preemption it s \<Longrightarrow> interrupt_should_interrupt preemption it s"
  by (cases "interrupt_pending_tool_preemption preemption it s")
    (simp_all add: interrupt_should_cancel_def interrupt_should_interrupt_def
      should_cancel_running_tools_def should_interrupt_after_current_atomic_unit_def)

lemma interrupt_imp_pending:
  "interrupt_should_interrupt preemption it s \<Longrightarrow>
   has_pending s (int_session_id it) (int_turn_id it)"
  by (auto simp: interrupt_iff pending_iff)

lemma quiet_after_take:
  "\<not> interrupt_should_interrupt preemption it
      (snd (take_pending s (int_session_id it) (int_turn_id it)))"
  by (simp add: interrupt_iff taken_once)

end

lemma drain_for_turn_taken:
  "fst (drain_for_turn b sid tid) = filter (targets_turn tid) (buffered b sid)"
  by (simp add: drain_for_turn_def drain_matching_taken)

lemma drain_for_turn_state:
  "snd (drain_for_turn b sid tid) =
     b(sid := map_option (filter (\<lambda>m. \<not> targets_turn tid m)) (b sid))"
  by (auto simp: drain_for_turn_def drain_matching_for_turn_def drain_loop_eq fun_eq_iff
      split: option.split)

interpretation buffer_source: injection_source
  has_pending_for_turn pending_tool_preemption_for_turn drain_for_turn
proof
  fix b sid tid m
  show "has_pending_for_turn b sid tid \<longleftrightarrow> fst (drain_for_turn b sid tid) \<noteq> []"
    by (auto simp: has_pending_iff drain_for_turn_taken filter_empty_conv)
  show "m \<in> set (fst (drain_for_turn b sid tid)) \<Longrightarrow> targets_turn tid m"
    by (simp add: drain_for_turn_taken)
  show "fst (drain_for_turn (snd (drain_for_turn b sid tid)) sid tid) = []"
    by (auto simp: drain_for_turn_taken drain_for_turn_state buffered_def filter_empty_conv
        split: option.split)
  show "m \<in> set (fst (drain_for_turn b sid tid)) \<Longrightarrow>
      preemption_of m \<le> pending_tool_preemption_for_turn b sid tid"
    by (auto simp: drain_for_turn_taken preemption_upper)
  show "pending_tool_preemption_for_turn b sid tid \<noteq> NoPreemption \<Longrightarrow>
      \<exists>m \<in> set (fst (drain_for_turn b sid tid)).
        preemption_of m = pending_tool_preemption_for_turn b sid tid"
    by (auto simp: drain_for_turn_taken dest: preemption_attained)
qed

interpretation noop_source: injection_source
  noop_has_pending noop_pending_tool_preemption noop_take_pending
  by unfold_locales
    (simp_all add: noop_has_pending_def noop_pending_tool_preemption_def noop_take_pending_def)

lemma exact_turn_iff:
  "(case inj_target m of ExactTurn _ \<Rightarrow> True | _ \<Rightarrow> False) \<and> targets_turn tid m \<longleftrightarrow>
     inj_target m = ExactTurn tid"
  by (cases "inj_target m") (simp_all add: targets_turn_def)

section \<open>Properties\<close>

text \<open>
  Draining a session for a running turn takes exactly the messages addressed to that turn or
  to whichever turn is running, in arrival order; the messages bound to other turns stay in
  their order, and no other session's buffer changes.
\<close>

theorem drain_partitions:
  "drain_for_turn b sid tid =
     (filter (targets_turn tid) (buffered b sid),
      b(sid := map_option (filter (\<lambda>m. \<not> targets_turn tid m)) (b sid)))"
  by (simp add: prod_eq_iff drain_for_turn_taken drain_for_turn_state)

text \<open>
  The interrupt a tool pipeline polls fires exactly when a message the turn would take asks
  for preemption, it asks for cancelling running tools only when such a message demands it, and
  once the turn has taken its messages it is quiet.
\<close>

theorem interrupt_exact:
  "(interrupt_should_interrupt pending_tool_preemption_for_turn it b \<longleftrightarrow>
      (\<exists>m \<in> set (fst (drain_for_turn b (int_session_id it) (int_turn_id it))).
         preemption_of m \<noteq> NoPreemption)) \<and>
   (interrupt_should_cancel pending_tool_preemption_for_turn it b \<longleftrightarrow>
      (\<exists>m \<in> set (fst (drain_for_turn b (int_session_id it) (int_turn_id it))).
         should_cancel_running_tools (preemption_of m))) \<and>
   \<not> interrupt_should_interrupt pending_tool_preemption_for_turn it
        (snd (drain_for_turn b (int_session_id it) (int_turn_id it)))"
  using buffer_source.interrupt_iff [of it b] buffer_source.cancel_iff [of it b]
    buffer_source.quiet_after_take [of it b]
  by (simp add: should_cancel_iff)

text \<open>
  After the injections scoped to "whatever turn is running" are discarded, a turn of the
  session receives only messages addressed to it by name, and all of those, in their order.
\<close>

theorem discard_keeps_exact_turns:
  "fst (drain_for_turn (discard_current_running b sid) sid tid) =
     filter (\<lambda>m. inj_target m = ExactTurn tid) (buffered b sid)"
  by (auto simp: drain_for_turn_taken discard_current_running_def buffered_def exact_turn_iff
      intro!: filter_cong split: option.split)

end
