(* ===== verification/Dialog_Queue.thy ===== *)
theory Dialog_Queue
  imports Prelude
begin

text \<open>
  The per-session queue of dialog turns, \<open>DialogTurnQueue\<close> of
  \<open>agent-runtime/src/scheduler.rs\<close>, with the submission policy of
  \<open>runtime-ports/src/agent_api.rs\<close> that chooses a turn's priority and whether it is queued.
  Its contract is three first-in first-out lanes, one per priority, served from the highest
  (locale \<open>lane_queue\<close>); the bounded, position-inserting deque of the code refines it.
\<close>

section \<open>Submission policy\<close>

datatype dialog_queue_priority = QLow | QNormal | QHigh

primrec queue_priority_rank :: "dialog_queue_priority \<Rightarrow> nat" where
  "queue_priority_rank QLow = 0"
| "queue_priority_rank QNormal = 1"
| "queue_priority_rank QHigh = 2"

instantiation dialog_queue_priority :: linorder
begin

definition less_eq_dialog_queue_priority ::
  "dialog_queue_priority \<Rightarrow> dialog_queue_priority \<Rightarrow> bool" where
  "a \<le> b \<longleftrightarrow> queue_priority_rank a \<le> queue_priority_rank b"

definition less_dialog_queue_priority ::
  "dialog_queue_priority \<Rightarrow> dialog_queue_priority \<Rightarrow> bool" where
  "a < b \<longleftrightarrow> queue_priority_rank a < queue_priority_rank b"

instance
proof
  fix a b :: dialog_queue_priority
  show "a \<le> b \<Longrightarrow> b \<le> a \<Longrightarrow> a = b"
    by (cases a; cases b) (simp_all add: less_eq_dialog_queue_priority_def)
qed (auto simp: less_eq_dialog_queue_priority_def less_dialog_queue_priority_def)

end

lemmas queue_priority_order = less_eq_dialog_queue_priority_def less_dialog_queue_priority_def

datatype dialog_trigger_source =
    DesktopUi | DesktopApi | AgentSession | ScheduledJob | RemoteRelay | Bot | Cli | SdkHost

record dialog_submission_policy =
  trigger_source :: dialog_trigger_source
  queue_priority :: dialog_queue_priority

definition policy_for_source :: "dialog_trigger_source \<Rightarrow> dialog_submission_policy" where
  "policy_for_source src =
     \<lparr>trigger_source = src,
      queue_priority =
        (case src of
           AgentSession \<Rightarrow> QLow
         | ScheduledJob \<Rightarrow> QLow
         | DesktopUi \<Rightarrow> QNormal | DesktopApi \<Rightarrow> QNormal | Cli \<Rightarrow> QNormal | SdkHost \<Rightarrow> QNormal
         | RemoteRelay \<Rightarrow> QNormal | Bot \<Rightarrow> QNormal)\<rparr>"

datatype dialog_session_state_fact = SessMissing | SessIdle | SessProcessing | SessError

record dialog_submit_queue_facts =
  sqf_session_state :: dialog_session_state_fact
  sqf_queue_has_items :: bool
  sqf_policy :: dialog_submission_policy

datatype dialog_submit_queue_action =
    StartImmediately
  | ClearQueueAndStartImmediately
  | EnqueueThenStartNext
  | EnqueueForActiveTurn

definition resolve_dialog_submit_queue_action ::
  "dialog_submit_queue_facts \<Rightarrow> dialog_submit_queue_action" where
  "resolve_dialog_submit_queue_action f =
     (case sqf_session_state f of
        SessMissing \<Rightarrow> StartImmediately
      | SessError \<Rightarrow> ClearQueueAndStartImmediately
      | SessIdle \<Rightarrow> (if sqf_queue_has_items f then EnqueueThenStartNext else StartImmediately)
      | SessProcessing \<Rightarrow> EnqueueForActiveTurn)"

section \<open>The queue\<close>

record 'a queued_turn =
  qt_priority :: dialog_queue_priority
  qt_turn :: 'a

record 'a dialog_turn_queue =
  dq_max_depth :: nat
  dq_inner :: "string \<rightharpoonup> 'a queued_turn list"

datatype dialog_turn_queue_error = QueueFull string nat

definition default_max_dialog_queue_depth :: nat where
  "default_max_dialog_queue_depth = 20"

definition with_max_depth :: "nat \<Rightarrow> 'a dialog_turn_queue" where
  "with_max_depth n = \<lparr>dq_max_depth = n, dq_inner = (\<lambda>_. None)\<rparr>"

text \<open>\<open>DashMap::entry(..).or_default()\<close>: the session's deque, empty when absent.\<close>

definition deque_of :: "'a dialog_turn_queue \<Rightarrow> string \<Rightarrow> 'a queued_turn list" where
  "deque_of q sid = (case dq_inner q sid of None \<Rightarrow> [] | Some v \<Rightarrow> v)"

definition set_deque ::
  "string \<Rightarrow> 'a queued_turn list \<Rightarrow> 'a dialog_turn_queue \<Rightarrow> 'a dialog_turn_queue" where
  "set_deque sid v q = q\<lparr>dq_inner := (dq_inner q)(sid \<mapsto> v)\<rparr>"

definition depth :: "'a dialog_turn_queue \<Rightarrow> string \<Rightarrow> nat" where
  "depth q sid = (case dq_inner q sid of None \<Rightarrow> 0 | Some v \<Rightarrow> length v)"

definition has_items :: "'a dialog_turn_queue \<Rightarrow> string \<Rightarrow> bool" where
  "has_items q sid = (depth q sid > 0)"

definition enqueue_deque :: "'a queued_turn \<Rightarrow> 'a queued_turn list \<Rightarrow> 'a queued_turn list" where
  "enqueue_deque e v =
     (case position (\<lambda>x. qt_priority x < qt_priority e) v of
        Some i \<Rightarrow> insert_at i e v
      | None \<Rightarrow> v @ [e])"

definition enqueue ::
  "'a dialog_turn_queue \<Rightarrow> string \<Rightarrow> 'a \<Rightarrow> dialog_queue_priority
   \<Rightarrow> (dialog_turn_queue_error + nat) \<times> 'a dialog_turn_queue" where
  "enqueue q sid t p =
     (let v = deque_of q sid in
      if length v \<ge> dq_max_depth q
      then (Inl (QueueFull sid (dq_max_depth q)), set_deque sid v q)
      else
        (let v' = enqueue_deque \<lparr>qt_priority = p, qt_turn = t\<rparr> v
         in (Inr (length v'), set_deque sid v' q)))"

definition clear :: "'a dialog_turn_queue \<Rightarrow> string \<Rightarrow> 'a list \<times> 'a dialog_turn_queue" where
  "clear q sid =
     ((case dq_inner q sid of None \<Rightarrow> [] | Some v \<Rightarrow> map qt_turn v),
      q\<lparr>dq_inner := (dq_inner q)(sid := None)\<rparr>)"

text \<open>\<open>DashMap::remove_if(session, |_, queue| queue.is_empty())\<close>.\<close>

definition remove_if_empty :: "'a dialog_turn_queue \<Rightarrow> string \<Rightarrow> 'a dialog_turn_queue" where
  "remove_if_empty q sid =
     (case dq_inner q sid of
        Some [] \<Rightarrow> q\<lparr>dq_inner := (dq_inner q)(sid := None)\<rparr>
      | _ \<Rightarrow> q)"

definition dequeue_next :: "'a dialog_turn_queue \<Rightarrow> string \<Rightarrow> 'a option \<times> 'a dialog_turn_queue" where
  "dequeue_next q sid =
     (case dq_inner q sid of
        None \<Rightarrow> (None, remove_if_empty q sid)
      | Some [] \<Rightarrow> (None, remove_if_empty q sid)
      | Some (e # v) \<Rightarrow> (Some (qt_turn e), remove_if_empty (set_deque sid v q) sid))"

definition remove_first_matching ::
  "'a dialog_turn_queue \<Rightarrow> string \<Rightarrow> ('a \<Rightarrow> bool) \<Rightarrow> 'a option \<times> 'a dialog_turn_queue" where
  "remove_first_matching q sid P =
     (case dq_inner q sid of
        None \<Rightarrow> (None, remove_if_empty q sid)
      | Some v \<Rightarrow>
          (case position (\<lambda>e. P (qt_turn e)) v of
             None \<Rightarrow> (None, remove_if_empty q sid)
           | Some i \<Rightarrow>
               (Some (qt_turn (v ! i)), remove_if_empty (set_deque sid (remove_at i v) q) sid)))"

text \<open>
  \<open>reorder_subset\<close>: the first loop resolves the identifiers to distinct positions and gives
  up on an unknown or repeated one; the priorities must agree; only then are the turns written
  back to the sorted positions in the order asked for.
\<close>

fun resolve_positions ::
  "('a \<Rightarrow> string option) \<Rightarrow> 'a queued_turn list \<Rightarrow> string list \<Rightarrow> nat list \<Rightarrow> nat list option" where
  "resolve_positions f v [] ps = Some ps"
| "resolve_positions f v (i # is) ps =
     (case position (\<lambda>e. f (qt_turn e) = Some i) v of
        None \<Rightarrow> None
      | Some p \<Rightarrow> if p \<in> set ps then None else resolve_positions f v is (ps @ [p]))"

fun write_turns :: "nat list \<Rightarrow> 'a list \<Rightarrow> 'a queued_turn list \<Rightarrow> 'a queued_turn list" where
  "write_turns (p # ps) (t # ts) v = write_turns ps ts (v[p := (v ! p)\<lparr>qt_turn := t\<rparr>])"
| "write_turns _ _ v = v"

definition reorder_subset ::
  "'a dialog_turn_queue \<Rightarrow> string \<Rightarrow> string list \<Rightarrow> ('a \<Rightarrow> string option)
   \<Rightarrow> bool \<times> 'a dialog_turn_queue" where
  "reorder_subset q sid ids f =
     (case dq_inner q sid of
        None \<Rightarrow> (False, q)
      | Some v \<Rightarrow>
          (case resolve_positions f v ids [] of
             None \<Rightarrow> (False, q)
           | Some ps \<Rightarrow>
               if (case ps of [] \<Rightarrow> False
                   | first # _ \<Rightarrow> (\<exists>p \<in> set ps. qt_priority (v ! p) \<noteq> qt_priority (v ! first)))
               then (False, q)
               else
                 (let turns = map (\<lambda>p. qt_turn (v ! p)) ps
                  in (True, set_deque sid (write_turns (sort ps) turns v) q))))"

definition requeue_front ::
  "'a dialog_turn_queue \<Rightarrow> string \<Rightarrow> 'a \<Rightarrow> dialog_queue_priority \<Rightarrow> 'a dialog_turn_queue" where
  "requeue_front q sid t p =
     set_deque sid (\<lparr>qt_priority = p, qt_turn = t\<rparr> # deque_of q sid) q"

section \<open>Priority order of the deque\<close>

definition sorted_deque :: "'a queued_turn list \<Rightarrow> bool" where
  "sorted_deque v \<longleftrightarrow> sorted_wrt (\<lambda>a b. qt_priority b \<le> qt_priority a) v"

definition queue_ok :: "'a dialog_turn_queue \<Rightarrow> bool" where
  "queue_ok q \<longleftrightarrow>
     (\<forall>sid. sorted_deque (deque_of q sid) \<and> length (deque_of q sid) \<le> dq_max_depth q)"

definition lane :: "'a dialog_turn_queue \<Rightarrow> string \<Rightarrow> dialog_queue_priority \<Rightarrow> 'a list" where
  "lane q sid p = map qt_turn (filter (\<lambda>e. qt_priority e = p) (deque_of q sid))"

text \<open>The order in which a session's lanes are served.\<close>

definition served :: "(dialog_queue_priority \<Rightarrow> 'a list) \<Rightarrow> 'a list" where
  "served l = l QHigh @ l QNormal @ l QLow"

lemma queue_okD:
  "queue_ok q \<Longrightarrow> sorted_deque (deque_of q sid)"
  "queue_ok q \<Longrightarrow> length (deque_of q sid) \<le> dq_max_depth q"
  by (simp_all add: queue_ok_def)

lemma depth_eq: "depth q sid = length (deque_of q sid)"
  by (simp add: depth_def deque_of_def split: option.split)

lemma deque_of_set_deque [simp]:
  "deque_of (set_deque sid v q) sid' = (if sid' = sid then v else deque_of q sid')"
  by (simp add: deque_of_def set_deque_def)

lemma max_depth_set_deque [simp]: "dq_max_depth (set_deque sid v q) = dq_max_depth q"
  by (simp add: set_deque_def)

lemma deque_of_remove_if_empty [simp]: "deque_of (remove_if_empty q sid) = deque_of q"
  by (auto simp: remove_if_empty_def deque_of_def fun_eq_iff split: option.splits list.splits)

lemma max_depth_remove_if_empty [simp]: "dq_max_depth (remove_if_empty q sid) = dq_max_depth q"
  by (simp add: remove_if_empty_def split: option.split list.split)

lemma queue_ok_set_deque:
  "queue_ok q \<Longrightarrow> sorted_deque v \<Longrightarrow> length v \<le> dq_max_depth q \<Longrightarrow> queue_ok (set_deque sid v q)"
  by (simp add: queue_ok_def)

lemma queue_ok_remove_if_empty [simp]: "queue_ok (remove_if_empty q sid) = queue_ok q"
  by (simp add: queue_ok_def)

lemma enqueue_deque_eq:
  "enqueue_deque e v =
     takeWhile (\<lambda>x. \<not> qt_priority x < qt_priority e) v @
     e # dropWhile (\<lambda>x. \<not> qt_priority x < qt_priority e) v"
proof (cases "position (\<lambda>x. qt_priority x < qt_priority e) v")
  case None
  then show ?thesis
    by (simp only: enqueue_deque_def option.case position_None_takeWhile [OF None])
next
  case (Some i)
  then show ?thesis
    by (simp add: enqueue_deque_def insert_at_def position_takeWhile [OF Some])
qed

lemma sorted_deque_dropWhile:
  "sorted_deque v \<Longrightarrow> y \<in> set (dropWhile (\<lambda>x. \<not> qt_priority x < p) v) \<Longrightarrow> qt_priority y < p"
  by (induction v) (auto simp: sorted_deque_def split: if_splits)

lemma sorted_enqueue_deque: "sorted_deque v \<Longrightarrow> sorted_deque (enqueue_deque e v)"
proof -
  let ?P = "\<lambda>x. \<not> qt_priority x < qt_priority e"
  assume v: "sorted_deque v"
  then have "sorted_deque (takeWhile ?P v @ dropWhile ?P v)" by simp
  then have "sorted_wrt (\<lambda>a b. qt_priority b \<le> qt_priority a) (takeWhile ?P v)"
    "sorted_wrt (\<lambda>a b. qt_priority b \<le> qt_priority a) (dropWhile ?P v)"
    by (simp_all only: sorted_deque_def sorted_wrt_append)
  moreover have "qt_priority y \<le> qt_priority e" if "y \<in> set (dropWhile ?P v)" for y
    using sorted_deque_dropWhile [OF v that] by simp
  moreover have "qt_priority e \<le> qt_priority x" if "x \<in> set (takeWhile ?P v)" for x
    using set_takeWhileD [OF that] not_le_imp_less by blast
  ultimately show ?thesis
    by (fastforce simp: sorted_deque_def enqueue_deque_eq sorted_wrt_append)
qed

lemma filter_enqueue_deque:
  assumes "sorted_deque v"
  shows "filter (\<lambda>x. qt_priority x = p) (enqueue_deque e v) =
     filter (\<lambda>x. qt_priority x = p) v @ (if qt_priority e = p then [e] else [])"
proof -
  let ?P = "\<lambda>x. \<not> qt_priority x < qt_priority e" and ?F = "filter (\<lambda>x. qt_priority x = p)"
  have v: "?F v = ?F (takeWhile ?P v) @ ?F (dropWhile ?P v)"
    by (simp only: takeWhile_dropWhile_id flip: filter_append)
  show ?thesis
  proof (cases "qt_priority e = p")
    case True
    then have "qt_priority x \<noteq> p" if "x \<in> set (dropWhile ?P v)" for x
      using sorted_deque_dropWhile [OF assms that] by simp
    then have "?F (dropWhile ?P v) = []"
      by (simp only: filter_empty_conv not_False_eq_True ball_simps) blast
    with True show ?thesis unfolding enqueue_deque_eq v filter_append by simp
  next
    case False
    then show ?thesis unfolding enqueue_deque_eq v filter_append by simp
  qed
qed

lemma sorted_deque_lanes:
  "sorted_deque v \<Longrightarrow>
   v = filter (\<lambda>e. qt_priority e = QHigh) v @ filter (\<lambda>e. qt_priority e = QNormal) v @
       filter (\<lambda>e. qt_priority e = QLow) v"
proof (induction v)
  case (Cons e v)
  then have IH: "v = filter (\<lambda>e. qt_priority e = QHigh) v @
       filter (\<lambda>e. qt_priority e = QNormal) v @ filter (\<lambda>e. qt_priority e = QLow) v"
    by (simp add: sorted_deque_def)
  have le: "qt_priority x \<le> qt_priority e" if "x \<in> set v" for x
    using Cons.prems that by (simp add: sorted_deque_def)
  show ?case
  proof (cases "qt_priority e")
    case QLow
    then have "filter (\<lambda>e. qt_priority e = QHigh) v = []"
      "filter (\<lambda>e. qt_priority e = QNormal) v = []"
      using le by (force simp: filter_empty_conv queue_priority_order)+
    with IH QLow show ?thesis by simp
  next
    case QNormal
    then have "filter (\<lambda>e. qt_priority e = QHigh) v = []"
      using le by (force simp: filter_empty_conv queue_priority_order)
    with IH QNormal show ?thesis by simp
  next
    case QHigh
    with IH show ?thesis by simp
  qed
qed (simp add: sorted_deque_def)

lemma served_lanes: "queue_ok q \<Longrightarrow> served (lane q sid) = map qt_turn (deque_of q sid)"
  using sorted_deque_lanes [OF queue_okD(1), of q sid]
  by (simp add: served_def lane_def flip: map_append)

section \<open>Operations on the lanes\<close>

lemma enqueue_result:
  "fst (enqueue q sid t p) =
     (if dq_max_depth q \<le> depth q sid then Inl (QueueFull sid (dq_max_depth q))
      else Inr (Suc (depth q sid)))"
  by (simp add: enqueue_def Let_def depth_eq enqueue_deque_def split: option.split)

lemma enqueue_deque_of:
  "deque_of (snd (enqueue q sid t p)) sid' =
     (if sid' = sid \<and> depth q sid < dq_max_depth q
      then enqueue_deque \<lparr>qt_priority = p, qt_turn = t\<rparr> (deque_of q sid)
      else deque_of q sid')"
  by (auto simp: enqueue_def Let_def depth_eq)

lemma enqueue_max_depth [simp]: "dq_max_depth (snd (enqueue q sid t p)) = dq_max_depth q"
  by (simp add: enqueue_def Let_def)

lemma length_enqueue_deque [simp]: "length (enqueue_deque e v) = Suc (length v)"
  by (simp add: enqueue_deque_def split: option.split)

lemma queue_ok_enqueue [inv_intros]: "queue_ok q \<Longrightarrow> queue_ok (snd (enqueue q sid t p))"
  by (auto simp: queue_ok_def enqueue_deque_of depth_eq intro: sorted_enqueue_deque)

lemma lane_enqueue:
  "queue_ok q \<Longrightarrow> lane (snd (enqueue q sid t p)) sid' p' =
     (if sid' = sid \<and> p' = p \<and> depth q sid < dq_max_depth q then lane q sid' p' @ [t]
      else lane q sid' p')"
  by (auto simp: lane_def enqueue_deque_of filter_enqueue_deque queue_okD)

lemma dequeue_next_result:
  "fst (dequeue_next q sid) =
     (case deque_of q sid of [] \<Rightarrow> None | e # _ \<Rightarrow> Some (qt_turn e))"
  by (auto simp: dequeue_next_def deque_of_def split: option.split list.split)

lemma dequeue_next_deque_of:
  "deque_of (snd (dequeue_next q sid)) sid' =
     (if sid' = sid then tl (deque_of q sid) else deque_of q sid')"
  by (auto simp: dequeue_next_def split: option.split list.split) (simp_all add: deque_of_def)

lemma dequeue_next_max_depth [simp]: "dq_max_depth (snd (dequeue_next q sid)) = dq_max_depth q"
  by (simp add: dequeue_next_def split: option.split list.split)

lemma sorted_wrt_tl: "sorted_wrt R v \<Longrightarrow> sorted_wrt R (tl v)"
  by (cases v) simp_all

lemma queue_ok_dequeue_next [inv_intros]: "queue_ok q \<Longrightarrow> queue_ok (snd (dequeue_next q sid))"
  by (simp add: queue_ok_def dequeue_next_deque_of sorted_deque_def sorted_wrt_tl
      diff_le_self [THEN le_trans])

lemma remove_first_matching_deque_of:
  "deque_of (snd (remove_first_matching q sid P)) sid' =
     (if sid' = sid
      then case position (\<lambda>e. P (qt_turn e)) (deque_of q sid) of
             None \<Rightarrow> deque_of q sid | Some i \<Rightarrow> remove_at i (deque_of q sid)
      else deque_of q sid')"
  by (auto simp: remove_first_matching_def split: option.split) (simp_all add: deque_of_def)

lemma remove_first_matching_result:
  "fst (remove_first_matching q sid P) = find P (map qt_turn (deque_of q sid))"
proof -
  have "find P (map qt_turn v) =
      map_option (\<lambda>i. qt_turn (v ! i)) (position (\<lambda>e. P (qt_turn e)) v)" for v :: "'a queued_turn list"
    by (induction v) (auto simp: option.map_comp o_def)
  then show ?thesis
    by (auto simp: remove_first_matching_def deque_of_def split: option.split)
qed

lemma sorted_remove_at: "sorted_wrt R v \<Longrightarrow> sorted_wrt R (remove_at i v)"
proof -
  assume "sorted_wrt R v"
  then have "sorted_wrt R (take i v @ drop i v)" by simp
  moreover have "set (drop (Suc i) v) \<subseteq> set (drop i v)"
    by (simp add: set_drop_subset_set_drop)
  moreover have "sorted_wrt R (drop (Suc i) v)"
    using \<open>sorted_wrt R v\<close> by (rule sorted_wrt_drop)
  ultimately show ?thesis by (fastforce simp only: remove_at_def sorted_wrt_append)
qed

lemma queue_ok_remove_first_matching [inv_intros]:
  "queue_ok q \<Longrightarrow> queue_ok (snd (remove_first_matching q sid P))"
proof -
  have "dq_max_depth (snd (remove_first_matching q sid P)) = dq_max_depth q"
    by (simp add: remove_first_matching_def split: option.split)
  then show "queue_ok q \<Longrightarrow> ?thesis"
    by (auto simp: queue_ok_def remove_first_matching_deque_of sorted_deque_def sorted_remove_at
        length_remove_at diff_le_self [THEN le_trans] split: option.split dest!: position_SomeD)
qed

lemma clear_deque_of:
  "deque_of (snd (clear q sid)) sid' = (if sid' = sid then [] else deque_of q sid')"
  "fst (clear q sid) = map qt_turn (deque_of q sid)"
  by (simp_all add: clear_def deque_of_def split: option.split)

lemma queue_ok_clear [inv_intros]: "queue_ok q \<Longrightarrow> queue_ok (snd (clear q sid))"
  using clear_deque_of(1) [of q sid]
  by (auto simp: queue_ok_def sorted_deque_def) (simp_all add: clear_def)

lemma queue_ok_with_max_depth [simp]: "queue_ok (with_max_depth n)"
  by (simp add: queue_ok_def with_max_depth_def deque_of_def sorted_deque_def)

section \<open>The contract: priority lanes\<close>

text \<open>
  \<open>dispatch\<close> takes up to \<open>n\<close> turns, as the scheduler does after each finished turn;
  \<open>submit_all\<close> offers turns one after another and \<open>accepted\<close> are those not refused.
\<close>

fun dispatch :: "('q \<Rightarrow> string \<Rightarrow> 'a option \<times> 'q) \<Rightarrow> nat \<Rightarrow> 'q \<Rightarrow> string \<Rightarrow> 'a list" where
  "dispatch deq 0 q sid = []"
| "dispatch deq (Suc n) q sid =
     (case deq q sid of
        (None, _) \<Rightarrow> []
      | (Some t, q') \<Rightarrow> t # dispatch deq n q' sid)"

fun submit_all ::
  "('q \<Rightarrow> string \<Rightarrow> 'a \<Rightarrow> dialog_queue_priority \<Rightarrow> ('e + nat) \<times> 'q) \<Rightarrow> 'q \<Rightarrow> string
   \<Rightarrow> ('a \<times> dialog_queue_priority) list \<Rightarrow> 'q" where
  "submit_all enq q sid [] = q"
| "submit_all enq q sid ((t, p) # ts) = submit_all enq (snd (enq q sid t p)) sid ts"

fun accepted ::
  "('q \<Rightarrow> string \<Rightarrow> 'a \<Rightarrow> dialog_queue_priority \<Rightarrow> ('e + nat) \<times> 'q) \<Rightarrow> 'q \<Rightarrow> string
   \<Rightarrow> ('a \<times> dialog_queue_priority) list \<Rightarrow> ('a \<times> dialog_queue_priority) list" where
  "accepted enq q sid [] = []"
| "accepted enq q sid ((t, p) # ts) =
     (case enq q sid t p of
        (Inl _, q') \<Rightarrow> accepted enq q' sid ts
      | (Inr _, q') \<Rightarrow> (t, p) # accepted enq q' sid ts)"

definition with_priority :: "dialog_queue_priority \<Rightarrow> ('a \<times> dialog_queue_priority) list \<Rightarrow> 'a list" where
  "with_priority p ts = map fst (filter (\<lambda>tp. snd tp = p) ts)"

locale lane_queue =
  fixes inv :: "'q \<Rightarrow> bool"
    and lanes :: "'q \<Rightarrow> string \<Rightarrow> dialog_queue_priority \<Rightarrow> 'a list"
    and enq :: "'q \<Rightarrow> string \<Rightarrow> 'a \<Rightarrow> dialog_queue_priority \<Rightarrow> ('e + nat) \<times> 'q"
    and deq :: "'q \<Rightarrow> string \<Rightarrow> 'a option \<times> 'q"
  assumes inv_enq: "inv q \<Longrightarrow> inv (snd (enq q s t p))"
    and inv_deq: "inv q \<Longrightarrow> inv (snd (deq q s))"
    and enq_refused: "inv q \<Longrightarrow> fst (enq q s t p) = Inl e \<Longrightarrow> lanes (snd (enq q s t p)) s' = lanes q s'"
    and enq_accepted: "inv q \<Longrightarrow> fst (enq q s t p) = Inr n \<Longrightarrow>
      lanes (snd (enq q s t p)) s' p' =
        (if s' = s \<and> p' = p then lanes q s' p' @ [t] else lanes q s' p')"
    and deq_next: "inv q \<Longrightarrow>
      fst (deq q s) = (case served (lanes q s) of [] \<Rightarrow> None | t # _ \<Rightarrow> Some t)"
    and deq_rest: "inv q \<Longrightarrow> served (lanes (snd (deq q s)) s) = tl (served (lanes q s))"
begin

lemma dispatch_served: "inv q \<Longrightarrow> dispatch deq n q s = take n (served (lanes q s))"
proof (induction n arbitrary: q)
  case (Suc n)
  then show ?case
    using deq_next [of q s] deq_rest [of q s] inv_deq [of q s]
    by (cases "deq q s"; cases "served (lanes q s)") auto
qed simp

lemma inv_submit_all: "inv q \<Longrightarrow> inv (submit_all enq q s ts)"
  by (induction ts arbitrary: q) (auto simp: inv_enq)

lemma lanes_submit_all:
  "inv q \<Longrightarrow> lanes (submit_all enq q s ts) s p = lanes q s p @ with_priority p (accepted enq q s ts)"
proof (induction ts arbitrary: q)
  case (Cons tp ts)
  obtain t p' where tp: "tp = (t, p')" by (cases tp)
  obtain r q' where enq: "enq q s t p' = (r, q')" by (cases "enq q s t p'")
  show ?case
    using Cons.IH [of q'] inv_enq [OF Cons.prems, of s t p'] enq_refused [OF Cons.prems, of s t p']
      enq_accepted [OF Cons.prems, of s t p' _ s p] enq
    by (cases r) (auto simp: tp with_priority_def)
qed (simp add: with_priority_def)

lemma submit_then_dispatch:
  assumes "inv q"
  shows "dispatch deq n (submit_all enq q s ts) s =
    take n (served (\<lambda>p. lanes q s p @ with_priority p (accepted enq q s ts)))"
proof -
  have "lanes (submit_all enq q s ts) s = (\<lambda>p. lanes q s p @ with_priority p (accepted enq q s ts))"
    using lanes_submit_all [OF assms] by (rule ext)
  then show ?thesis
    using dispatch_served [OF inv_submit_all [OF assms], of n s ts s] by simp
qed

end

interpretation dialog_lanes: lane_queue queue_ok lane enqueue dequeue_next
proof
  fix q :: "'a dialog_turn_queue" and s s' t p p' e n
  assume q: "queue_ok q"
  show "queue_ok (snd (enqueue q s t p))" and "queue_ok (snd (dequeue_next q s))"
    using q by (auto intro: inv_intros)
  show "fst (enqueue q s t p) = Inl e \<Longrightarrow> lane (snd (enqueue q s t p)) s' = lane q s'"
    using q by (auto simp: enqueue_result lane_enqueue fun_eq_iff split: if_splits)
  show "fst (enqueue q s t p) = Inr n \<Longrightarrow> lane (snd (enqueue q s t p)) s' p' =
        (if s' = s \<and> p' = p then lane q s' p' @ [t] else lane q s' p')"
    using q by (auto simp: enqueue_result lane_enqueue split: if_splits)
  show "fst (dequeue_next q s) = (case served (lane q s) of [] \<Rightarrow> None | t # _ \<Rightarrow> Some t)"
    by (simp add: served_lanes [OF q] dequeue_next_result split: list.split)
  show "served (lane (snd (dequeue_next q s)) s) = tl (served (lane q s))"
    by (simp add: served_lanes q queue_ok_dequeue_next dequeue_next_deque_of map_tl)
qed

section \<open>Reordering\<close>

lemma resolve_positions_SomeD:
  "resolve_positions f v ids ps = Some qs \<Longrightarrow> distinct ps \<Longrightarrow>
   \<exists>rest. qs = ps @ rest \<and> distinct qs \<and>
     list_all2 (\<lambda>i p. p < length v \<and> f (qt_turn (v ! p)) = Some i) ids rest"
proof (induction f v ids ps rule: resolve_positions.induct)
  case (2 f v i ids ps)
  then obtain p where p: "position (\<lambda>e. f (qt_turn e) = Some i) v = Some p" "p \<notin> set ps"
    by (auto split: option.splits if_splits)
  with 2 obtain rest where
    "qs = (ps @ [p]) @ rest" "distinct qs"
    "list_all2 (\<lambda>i p. p < length v \<and> f (qt_turn (v ! p)) = Some i) ids rest"
    by auto
  then show ?case
    using position_SomeD [OF p(1)] by (intro exI [of _ "p # rest"]) simp
qed simp

lemma write_turns_priorities [simp]:
  "map qt_priority (write_turns ps ts v) = map qt_priority v"
proof (induction ps ts v rule: write_turns.induct)
  case (1 p ps t ts v)
  have "map qt_priority (v[p := (v ! p)\<lparr>qt_turn := t\<rparr>]) = map qt_priority v"
    by (cases "p < length v") (simp_all add: map_update list_update_beyond list_update_same_conv)
  with 1 show ?case by simp
qed simp_all

lemma length_write_turns [simp]: "length (write_turns ps ts v) = length v"
  by (metis length_map write_turns_priorities)

lemma write_turns_other: "j \<notin> set ps \<Longrightarrow> write_turns ps ts v ! j = v ! j"
  by (induction ps ts v rule: write_turns.induct) auto

lemma write_turns_written:
  "distinct ps \<Longrightarrow> length ts = length ps \<Longrightarrow> \<forall>p \<in> set ps. p < length v \<Longrightarrow>
   map (\<lambda>p. qt_turn (write_turns ps ts v ! p)) ps = ts"
proof (induction ps ts v rule: write_turns.induct)
  case (1 p ps t ts v)
  then show ?case by (simp add: write_turns_other)
qed simp_all

lemma write_turns_mset:
  "distinct ps \<Longrightarrow> length ts = length ps \<Longrightarrow> \<forall>p \<in> set ps. p < length v \<Longrightarrow>
   mset (map qt_turn (write_turns ps ts v)) + image_mset (\<lambda>p. qt_turn (v ! p)) (mset ps) =
   mset (map qt_turn v) + mset ts"
proof (induction ps ts v rule: write_turns.induct)
  case (1 p ps t ts v)
  let ?v = "v[p := (v ! p)\<lparr>qt_turn := t\<rparr>]"
  let ?w = "mset (map qt_turn (write_turns (p # ps) (t # ts) v))"
  have kept: "image_mset (\<lambda>p. qt_turn (?v ! p)) (mset ps) = image_mset (\<lambda>p. qt_turn (v ! p)) (mset ps)"
    using "1.prems" by (intro image_mset_cong) (auto simp: nth_list_update)
  have IH: "?w + image_mset (\<lambda>p. qt_turn (v ! p)) (mset ps) = mset (map qt_turn ?v) + mset ts"
    using 1 unfolding kept [symmetric] by simp
  have one: "add_mset (qt_turn (v ! p)) (mset (map qt_turn ?v)) = add_mset t (mset (map qt_turn v))"
    using "1.prems" mset_update [of p "map qt_turn v" t]
    by (simp add: map_update)
  have "?w + image_mset (\<lambda>p. qt_turn (v ! p)) (mset (p # ps)) =
      add_mset (qt_turn (v ! p)) (?w + image_mset (\<lambda>p. qt_turn (v ! p)) (mset ps))"
    by simp
  also have "\<dots> = add_mset (qt_turn (v ! p)) (mset (map qt_turn ?v)) + mset ts"
    unfolding IH by simp
  finally show ?case unfolding one by simp
qed simp_all

lemma reorder_subset_TrueD:
  assumes "reorder_subset q sid ids f = (True, q')"
  shows "\<exists>ps. resolve_positions f (deque_of q sid) ids [] = Some ps \<and>
    (\<forall>i \<in> set ps. \<forall>j \<in> set ps.
       qt_priority (deque_of q sid ! i) = qt_priority (deque_of q sid ! j)) \<and>
    q' = set_deque sid
      (write_turns (sort ps) (map (\<lambda>p. qt_turn (deque_of q sid ! p)) ps) (deque_of q sid)) q"
proof -
  from assms obtain v where v: "dq_inner q sid = Some v"
    by (cases "dq_inner q sid") (simp_all add: reorder_subset_def)
  from assms v obtain ps where ps: "resolve_positions f v ids [] = Some ps"
    by (cases "resolve_positions f v ids []") (simp_all add: reorder_subset_def)
  let ?mixed = "case ps of [] \<Rightarrow> False
    | first # _ \<Rightarrow> (\<exists>p \<in> set ps. qt_priority (v ! p) \<noteq> qt_priority (v ! first))"
  have res: "(if ?mixed then (False, q) else
      (True, set_deque sid (write_turns (sort ps) (map (\<lambda>p. qt_turn (v ! p)) ps) v) q)) = (True, q')"
    using assms unfolding reorder_subset_def v option.case ps Let_def .
  have nm: "\<not> ?mixed"
  proof
    assume mixed: ?mixed
    have "(False, q) = (True, q')" using res unfolding if_P [OF mixed] .
    then show False by simp
  qed
  with res have q': "q' = set_deque sid (write_turns (sort ps) (map (\<lambda>p. qt_turn (v ! p)) ps) v) q"
    unfolding if_not_P [OF nm] by simp
  have same: "\<forall>i \<in> set ps. \<forall>j \<in> set ps. qt_priority (v ! i) = qt_priority (v ! j)"
  proof (cases ps)
    case (Cons first rest)
    with nm have "\<forall>p \<in> set ps. qt_priority (v ! p) = qt_priority (v ! first)" by simp
    then show ?thesis by metis
  qed simp
  have d: "deque_of q sid = v" by (simp add: deque_of_def v)
  show ?thesis unfolding d using ps same q' by blast
qed

lemma reorder_subset_effect:
  assumes "reorder_subset q sid ids f = (True, q')"
  obtains ps where
    "distinct ps" "list_all2 (\<lambda>i p. p < length (deque_of q sid) \<and>
      f (qt_turn (deque_of q sid ! p)) = Some i) ids ps"
    "\<forall>i \<in> set ps. \<forall>j \<in> set ps.
       qt_priority (deque_of q sid ! i) = qt_priority (deque_of q sid ! j)"
    "q' = set_deque sid
      (write_turns (sort ps) (map (\<lambda>p. qt_turn (deque_of q sid ! p)) ps) (deque_of q sid)) q"
proof -
  obtain ps where ps: "resolve_positions f (deque_of q sid) ids [] = Some ps"
    and rest: "\<forall>i \<in> set ps. \<forall>j \<in> set ps.
       qt_priority (deque_of q sid ! i) = qt_priority (deque_of q sid ! j)"
    "q' = set_deque sid
      (write_turns (sort ps) (map (\<lambda>p. qt_turn (deque_of q sid ! p)) ps) (deque_of q sid)) q"
    using reorder_subset_TrueD [OF assms] by blast
  from resolve_positions_SomeD [OF ps] have "distinct ps" "list_all2 (\<lambda>i p. p < length (deque_of q sid) \<and>
      f (qt_turn (deque_of q sid ! p)) = Some i) ids ps"
    by simp_all
  then show thesis using rest that by blast
qed

lemma list_all2_named:
  "list_all2 (\<lambda>i p. p < n \<and> g p = Some i) ids ps \<Longrightarrow>
   (\<forall>p \<in> set ps. p < n) \<and> map g ps = map Some ids"
  by (induction rule: list_all2_induct) auto

lemma reorder_subset_FalseD: "reorder_subset q sid ids f = (False, q') \<Longrightarrow> q' = q"
  by (auto simp: reorder_subset_def Let_def split: option.splits if_split_asm)

lemma sorted_deque_priorities:
  "map qt_priority v = map qt_priority w \<Longrightarrow> sorted_deque v = sorted_deque w"
  using sorted_wrt_map [of "\<lambda>a b. b \<le> a" qt_priority v] sorted_wrt_map [of "\<lambda>a b. b \<le> a" qt_priority w]
  by (simp add: sorted_deque_def)

lemma queue_ok_reorder_subset [inv_intros]:
  assumes "queue_ok q"
  shows "queue_ok (snd (reorder_subset q sid ids f))"
proof (cases "reorder_subset q sid ids f")
  case (Pair ok q')
  show ?thesis
  proof (cases ok)
    case True
    with Pair obtain ps where q': "q' = set_deque sid
      (write_turns (sort ps) (map (\<lambda>p. qt_turn (deque_of q sid ! p)) ps) (deque_of q sid)) q"
      using reorder_subset_TrueD [of q sid ids f q'] by auto
    show ?thesis
      unfolding Pair snd_conv q'
      using queue_okD [OF assms] by (auto intro!: queue_ok_set_deque assms
        simp: sorted_deque_priorities [OF write_turns_priorities])
  next
    case False
    with Pair show ?thesis using reorder_subset_FalseD [of q sid ids f q'] assms by simp
  qed
qed

section \<open>Reachable queues\<close>

text \<open>
  The steps of the queue's public operations, with a ledger of what \<open>requeue_front\<close> has done
  to each session since its deque was last empty: how many turns were put back at the front, and
  whether one of them was put before a turn of higher priority. \<open>requeue_front\<close> checks neither
  the bound nor the order, and nothing makes a caller give back a turn it took from the queue, so
  the two are all that is known of a reachable queue.
\<close>

type_synonym requeue_ledger = "string \<Rightarrow> nat \<times> bool"

definition empty_ledger :: requeue_ledger where
  "empty_ledger = (\<lambda>_. (0, False))"

definition settle_ledger :: "'a dialog_turn_queue \<Rightarrow> requeue_ledger \<Rightarrow> requeue_ledger" where
  "settle_ledger q L = (\<lambda>sid. if deque_of q sid = [] then (0, False) else L sid)"

definition count_requeue ::
  "'a dialog_turn_queue \<Rightarrow> string \<Rightarrow> dialog_queue_priority \<Rightarrow> requeue_ledger \<Rightarrow> requeue_ledger" where
  "count_requeue q sid p L = L(sid :=
     (Suc (fst (L sid)), snd (L sid) \<or> (\<exists>e \<in> set (deque_of q sid). p < qt_priority e)))"

inductive dq_step ::
  "'a dialog_turn_queue \<times> requeue_ledger \<Rightarrow> 'a dialog_turn_queue \<times> requeue_ledger \<Rightarrow> bool" where
  dq_enqueue: "q' = snd (enqueue q sid t p) \<Longrightarrow> dq_step (q, L) (q', settle_ledger q' L)"
| dq_clear: "q' = snd (clear q sid) \<Longrightarrow> dq_step (q, L) (q', settle_ledger q' L)"
| dq_dequeue: "q' = snd (dequeue_next q sid) \<Longrightarrow> dq_step (q, L) (q', settle_ledger q' L)"
| dq_remove: "q' = snd (remove_first_matching q sid P) \<Longrightarrow> dq_step (q, L) (q', settle_ledger q' L)"
| dq_reorder: "q' = snd (reorder_subset q sid ids f) \<Longrightarrow> dq_step (q, L) (q', settle_ledger q' L)"
| dq_requeue: "q' = requeue_front q sid t p \<Longrightarrow> dq_step (q, L) (q', count_requeue q sid p L)"

definition ledger_ok :: "'a dialog_turn_queue \<Rightarrow> requeue_ledger \<Rightarrow> bool" where
  "ledger_ok q L \<longleftrightarrow>
     (\<forall>sid. length (deque_of q sid) \<le> dq_max_depth q + fst (L sid) \<and>
       (\<not> snd (L sid) \<longrightarrow> sorted_deque (deque_of q sid)))"

lemma sorted_deque_Nil [simp]: "sorted_deque []"
  by (simp add: sorted_deque_def)

lemma ledger_ok_settle:
  "ledger_ok q (settle_ledger q' L) \<longleftrightarrow>
   (\<forall>sid. length (deque_of q sid) \<le> dq_max_depth q + (if deque_of q' sid = [] then 0 else fst (L sid)) \<and>
     (deque_of q' sid = [] \<or> \<not> snd (L sid) \<longrightarrow> sorted_deque (deque_of q sid)))"
  by (auto simp: ledger_ok_def settle_ledger_def)

text \<open>A step that only shortens deques, keeps their order of priorities, or inserts in order.\<close>

lemma ledger_ok_shrinks:
  assumes "ledger_ok q L" and "dq_max_depth q' = dq_max_depth q"
    and "\<And>sid. length (deque_of q' sid) \<le> length (deque_of q sid)"
    and "\<And>sid. sorted_deque (deque_of q sid) \<Longrightarrow> sorted_deque (deque_of q' sid)"
  shows "ledger_ok q' (settle_ledger q' L)"
  unfolding ledger_ok_settle
proof (intro allI conjI impI)
  fix sid
  show "length (deque_of q' sid) \<le> dq_max_depth q' + (if deque_of q' sid = [] then 0 else fst (L sid))"
    using assms(1,2) assms(3) [of sid] by (auto simp: ledger_ok_def intro: le_trans)
  assume "deque_of q' sid = [] \<or> \<not> snd (L sid)"
  then show "sorted_deque (deque_of q' sid)"
    using assms(1) assms(4) [of sid] by (auto simp: ledger_ok_def)
qed

lemma ledger_ok_enqueue:
  assumes "ledger_ok q L"
  shows "ledger_ok (snd (enqueue q sid t p)) (settle_ledger (snd (enqueue q sid t p)) L)"
  using assms unfolding ledger_ok_settle
  by (auto simp: ledger_ok_def enqueue_deque_of depth_eq sorted_enqueue_deque)

lemma max_depth_reorder_subset [simp]:
  "dq_max_depth (snd (reorder_subset q sid ids f)) = dq_max_depth q"
  by (auto simp: reorder_subset_def Let_def split: option.split)

lemma reorder_subset_priorities:
  "map qt_priority (deque_of (snd (reorder_subset q sid ids f)) s) = map qt_priority (deque_of q s)"
proof (cases "reorder_subset q sid ids f")
  case (Pair ok q')
  show ?thesis
  proof (cases ok)
    case True
    with Pair show ?thesis using reorder_subset_TrueD [of q sid ids f q'] by auto
  next
    case False
    with Pair show ?thesis using reorder_subset_FalseD [of q sid ids f q'] by simp
  qed
qed

lemma ledger_ok_requeue:
  assumes "ledger_ok q L"
  shows "ledger_ok (requeue_front q sid t p) (count_requeue q sid p L)"
  using assms
  by (auto simp: ledger_ok_def requeue_front_def count_requeue_def sorted_deque_def not_less)

lemma ledger_ok_step:
  "dq_step s s' \<Longrightarrow> ledger_ok (fst s) (snd s) \<Longrightarrow>
   ledger_ok (fst s') (snd s') \<and> dq_max_depth (fst s') = dq_max_depth (fst s)"
proof (induction rule: dq_step.induct)
  case (dq_clear q' q sid L)
  have m: "dq_max_depth q' = dq_max_depth q" by (simp add: dq_clear clear_def)
  with dq_clear show ?case
    using ledger_ok_shrinks [of q L q'] by (simp add: clear_deque_of)
next
  case (dq_dequeue q' q sid L)
  have "length (deque_of q' s) \<le> length (deque_of q s)" for s
    by (simp add: dq_dequeue dequeue_next_deque_of)
  moreover have "sorted_deque (deque_of q s) \<Longrightarrow> sorted_deque (deque_of q' s)" for s
    by (auto simp: dq_dequeue dequeue_next_deque_of sorted_deque_def intro: sorted_wrt_tl)
  ultimately show ?case
    using ledger_ok_shrinks [of q L q'] dq_dequeue by simp
next
  case (dq_remove q' q sid P L)
  have m: "dq_max_depth q' = dq_max_depth q"
    by (simp add: dq_remove remove_first_matching_def split: option.split)
  have "length (deque_of q' s) \<le> length (deque_of q s)" for s
    by (auto simp: dq_remove remove_first_matching_deque_of length_remove_at
        split: option.split dest!: position_SomeD)
  moreover have "sorted_deque (deque_of q s) \<Longrightarrow> sorted_deque (deque_of q' s)" for s
    by (auto simp: dq_remove remove_first_matching_deque_of sorted_deque_def sorted_remove_at
        split: option.split)
  ultimately show ?case
    using ledger_ok_shrinks [of q L q'] dq_remove.prems m by simp
next
  case (dq_reorder q' q sid ids f L)
  have p: "map qt_priority (deque_of q' s) = map qt_priority (deque_of q s)" for s
    unfolding dq_reorder by (rule reorder_subset_priorities)
  have "length (deque_of q' s) \<le> length (deque_of q s)" for s
    using p [of s] by (metis length_map order_refl)
  moreover have "sorted_deque (deque_of q s) \<Longrightarrow> sorted_deque (deque_of q' s)" for s
    using sorted_deque_priorities [OF p] by simp
  ultimately show ?case
    using ledger_ok_shrinks [of q L q'] dq_reorder by simp
qed (simp_all add: ledger_ok_enqueue ledger_ok_requeue, simp add: requeue_front_def)

lemma ledger_ok_steps:
  "dq_step\<^sup>*\<^sup>* s s' \<Longrightarrow> ledger_ok (fst s) (snd s) \<Longrightarrow>
   ledger_ok (fst s') (snd s') \<and> dq_max_depth (fst s') = dq_max_depth (fst s)"
  by (induction rule: rtranclp_induct) (auto dest: ledger_ok_step)

lemma ledger_ok_fresh [simp]: "ledger_ok (with_max_depth n) L"
  by (simp add: ledger_ok_def with_max_depth_def deque_of_def)

text \<open>\<open>queue_ok\<close>, on which the lanes rest, is what an empty ledger gives.\<close>

lemma queue_ok_ledger:
  "queue_ok q \<longleftrightarrow> ledger_ok q empty_ledger"
  by (auto simp: queue_ok_def ledger_ok_def empty_ledger_def)

text \<open>
  A turn put back that has lower priority than what is queued opens a gap in the order: a later
  submission is inserted at the first smaller priority, here the front, and overtakes a turn of its
  own priority that was submitted before it.
\<close>

lemma requeue_lets_later_turn_overtake:
  "map qt_turn (deque_of (snd (enqueue (requeue_front
      (snd (enqueue (with_max_depth 3) ''s'' ''first'' QHigh)) ''s'' ''retried'' QLow)
      ''s'' ''second'' QHigh)) ''s'') = [''second'', ''retried'', ''first'']"
  by code_simp

section \<open>Properties\<close>



text \<open>
  C1. Turns submitted to a session and then dispatched one by one come out highest priority first
  and in submission order within a priority, behind the turns of that priority already queued;
  exactly the accepted turns are dispatched.
\<close>

theorem dialog_dispatch_order:
  assumes "queue_ok q"
  shows "dispatch dequeue_next n (submit_all enqueue q sid ts) sid =
    take n (served (\<lambda>p. lane q sid p @ with_priority p (accepted enqueue q sid ts)))"
  by (rule dialog_lanes.submit_then_dispatch [OF assms])

lemma dialog_dispatch_order_witness:
  "dispatch dequeue_next 3
     (submit_all enqueue (with_max_depth 3) ''s'' [(1::nat, QLow), (2, QHigh), (3, QLow), (4, QHigh)]) ''s''
   = [2, 1, 3]"
  unfolding dialog_dispatch_order [OF queue_ok_with_max_depth] by code_simp

text \<open>
  Submitting to a full session is refused with the depth limit and leaves every deque as it
  was; otherwise the turn is accepted, the new depth is reported, and it joins the end of its own
  priority lane while all other lanes are untouched.
\<close>

theorem enqueue_outcome:
  assumes "queue_ok q"
  shows "if depth q sid = dq_max_depth q
    then fst (enqueue q sid t p) = Inl (QueueFull sid (dq_max_depth q)) \<and>
      (\<forall>s. deque_of (snd (enqueue q sid t p)) s = deque_of q s)
    else fst (enqueue q sid t p) = Inr (depth q sid + 1) \<and>
      depth (snd (enqueue q sid t p)) sid = depth q sid + 1 \<and>
      (\<forall>s p'. lane (snd (enqueue q sid t p)) s p' =
        lane q s p' @ (if s = sid \<and> p' = p then [t] else []))"
  using queue_okD(2) [OF assms, of sid]
  by (auto simp: depth_eq enqueue_result enqueue_deque_of lane_enqueue assms)

lemma enqueue_outcome_witness:
  "fst (enqueue (snd (enqueue (with_max_depth 1) ''s'' (7::nat) QHigh)) ''s'' 8 QLow)
   = Inl (QueueFull ''s'' 1)"
proof -
  let ?q = "snd (enqueue (with_max_depth 1) ''s'' (7::nat) QHigh)"
  have "queue_ok ?q" by (intro inv_intros) simp
  moreover have "depth ?q ''s'' = dq_max_depth ?q" "dq_max_depth ?q = 1" by code_simp+
  ultimately show ?thesis using enqueue_outcome [of ?q "''s''" 8 QLow] by simp
qed

text \<open>
  A successful \<open>reorder_subset\<close> names distinct queued turns of one priority; their
  positions, taken in ascending order, receive exactly those turns in the order asked for. No turn
  is lost or duplicated, no position changes priority, and every other position keeps its turn.
  An unsuccessful one changes nothing.
\<close>

theorem reorder_subset_correct:
  assumes "reorder_subset q sid ids f = (ok, q')"
  shows "(\<not> ok \<longrightarrow> q' = q) \<and>
    (ok \<longrightarrow> (\<exists>ps. distinct ps \<and>
        map (\<lambda>p. f (qt_turn (deque_of q sid ! p))) ps = map Some ids \<and>
        map (\<lambda>p. qt_turn (deque_of q' sid ! p)) (sort ps) =
          map (\<lambda>p. qt_turn (deque_of q sid ! p)) ps \<and>
        (\<forall>j. j \<notin> set ps \<longrightarrow> deque_of q' sid ! j = deque_of q sid ! j)) \<and>
      (\<forall>s. s \<noteq> sid \<longrightarrow> deque_of q' s = deque_of q s) \<and>
      map qt_priority (deque_of q' sid) = map qt_priority (deque_of q sid) \<and>
      mset (map qt_turn (deque_of q' sid)) = mset (map qt_turn (deque_of q sid)))"
proof (cases ok)
  case False
  with assms show ?thesis using reorder_subset_FalseD [of q sid ids f q'] by simp
next
  case True
  with assms have "reorder_subset q sid ids f = (True, q')" by simp
  then obtain ps where ps: "distinct ps"
    and rel: "list_all2 (\<lambda>i p. p < length (deque_of q sid) \<and>
      f (qt_turn (deque_of q sid ! p)) = Some i) ids ps"
    and "\<forall>i \<in> set ps. \<forall>j \<in> set ps.
       qt_priority (deque_of q sid ! i) = qt_priority (deque_of q sid ! j)"
    and q': "q' = set_deque sid (write_turns (sort ps)
      (map (\<lambda>p. qt_turn (deque_of q sid ! p)) ps) (deque_of q sid)) q"
    by (rule reorder_subset_effect)
  have bound: "\<forall>p \<in> set (sort ps). p < length (deque_of q sid)"
    using list_all2_named [OF rel] by simp
  note named = list_all2_named [OF rel, THEN conjunct2]
  let ?ts = "map (\<lambda>p. qt_turn (deque_of q sid ! p)) ps"
  have new: "deque_of q' sid = write_turns (sort ps) ?ts (deque_of q sid)" by (simp add: q')
  have "map (\<lambda>p. qt_turn (deque_of q' sid ! p)) (sort ps) = ?ts"
    unfolding new using ps bound by (intro write_turns_written) simp_all
  moreover have "\<forall>j. j \<notin> set ps \<longrightarrow> deque_of q' sid ! j = deque_of q sid ! j"
    unfolding new by (simp add: write_turns_other)
  moreover have "mset (map qt_turn (deque_of q' sid)) = mset (map qt_turn (deque_of q sid))"
    using write_turns_mset [of "sort ps" ?ts "deque_of q sid"] ps bound by (simp add: new)
  moreover have "map qt_priority (deque_of q' sid) = map qt_priority (deque_of q sid)"
    by (simp add: new)
  moreover have "\<forall>s. s \<noteq> sid \<longrightarrow> deque_of q' s = deque_of q s" by (simp add: q')
  ultimately show ?thesis using True ps named by blast
qed

lemma reorder_subset_correct_witness:
  "mset (map qt_turn (deque_of (snd (reorder_subset
      (submit_all enqueue (with_max_depth 3) ''s'' [(''a'', QLow), (''b'', QHigh), (''c'', QLow)])
      ''s'' [''c'', ''a''] Some)) ''s'')) = {# ''b'', ''c'', ''a'' #}"
proof -
  let ?q = "submit_all enqueue (with_max_depth 3) ''s'' [(''a'', QLow), (''b'', QHigh), (''c'', QLow)]"
  let ?r = "reorder_subset ?q ''s'' [''c'', ''a''] Some"
  have "fst ?r" and start: "map qt_turn (deque_of ?q ''s'') = [''b'', ''a'', ''c'']"
    by code_simp+
  then have "?r = (True, snd ?r)" by (simp only: prod_eq_iff fst_conv snd_conv)
  from reorder_subset_correct [OF this] show ?thesis
    unfolding start by (simp only: simp_thms mset.simps add_mset_commute)
qed

text \<open>
  A turn that was taken for dispatch and could not start is put back: requeueing it at the
  front with the priority it had restores the session's deque exactly, even when the queue has no
  free place by its bound.
\<close>

theorem requeue_restores:
  assumes "deque_of q sid = e # v" and "dequeue_next q sid = (r, q')"
  shows "r = Some (qt_turn e) \<and>
    deque_of (requeue_front q' sid (qt_turn e) (qt_priority e)) = deque_of q"
  using assms dequeue_next_result [of q sid] dequeue_next_deque_of [of q sid]
  by (auto simp: requeue_front_def fun_eq_iff)

lemma requeue_restores_witness:
  "let q = snd (enqueue (with_max_depth 1) ''s'' (7::nat) QHigh);
       q' = snd (dequeue_next q ''s'')
   in deque_of (requeue_front q' ''s'' 7 QHigh) = deque_of q"
proof -
  let ?q = "snd (enqueue (with_max_depth 1) ''s'' (7::nat) QHigh)"
  have "deque_of ?q ''s'' = \<lparr>qt_priority = QHigh, qt_turn = 7\<rparr> # []" by code_simp
  from requeue_restores [OF this, of "fst (dequeue_next ?q ''s'')" "snd (dequeue_next ?q ''s'')"]
  show ?thesis by simp
qed

end
