(* ===== verification/Dialog_Turn.thy ===== *)
theory Dialog_Turn
  imports Round_Injection Dialog_Queue
begin

text \<open>
  The turn a session is running and what happens when it ends: the active-turn store, the set of
  suppressed cancellation replies, the session abort flags, turn outcomes with the plan they give
  rise to, the automated reply to a requesting agent session, steering into the running turn, and
  the delivery of background results (\<open>agent-runtime/src/scheduler.rs\<close> outside its queue and
  its injection buffer, \<open>background_delivery.rs\<close>, the outcome kinds of \<open>events.rs\<close> and
  of \<open>runtime-ports/src/agent_api.rs\<close>). How the concrete scheduler settles the injections of
  a finished turn is \<open>settle_round_injections\<close>.
\<close>

section \<open>Active turns\<close>

record agent_session_reply_route =
  source_session_id :: string
  source_workspace_path :: string
  source_remote_connection_id :: "string option"
  source_remote_ssh_host :: "string option"

record active_dialog_turn =
  at_turn_id :: string
  at_workspace_path :: "string option"
  at_remote_connection_id :: "string option"
  at_remote_ssh_host :: "string option"
  at_agent_type :: string
  at_user_input :: string
  at_user_message_metadata :: "json option"
  at_policy :: dialog_submission_policy
  at_reply_route :: "agent_session_reply_route option"

definition is_agent_session_request :: "active_dialog_turn \<Rightarrow> bool" where
  "is_agent_session_request t \<longleftrightarrow>
     trigger_source (at_policy t) = AgentSession \<and> at_reply_route t \<noteq> None"

definition should_suppress_agent_session_cancelled_reply ::
  "dialog_submission_policy \<Rightarrow> string option \<Rightarrow> string \<Rightarrow> bool" where
  "should_suppress_agent_session_cancelled_reply p src requester \<longleftrightarrow>
     trigger_source p = AgentSession \<and>
     (case src of None \<Rightarrow> False | Some s \<Rightarrow> s = requester)"

definition should_suppress_cancelled_reply_for_requester ::
  "active_dialog_turn \<Rightarrow> string \<Rightarrow> bool" where
  "should_suppress_cancelled_reply_for_requester t requester =
     should_suppress_agent_session_cancelled_reply (at_policy t)
       (map_option source_session_id (at_reply_route t)) requester"

type_synonym active_turn_store = "string \<rightharpoonup> active_dialog_turn"

datatype active_turn_take_result = Matched active_dialog_turn | Absent | DifferentTurn

definition active_insert ::
  "active_turn_store \<Rightarrow> string \<Rightarrow> active_dialog_turn \<Rightarrow> active_turn_store" where
  "active_insert st sid t = st(sid \<mapsto> t)"

definition active_remove ::
  "active_turn_store \<Rightarrow> string \<Rightarrow> active_dialog_turn option \<times> active_turn_store" where
  "active_remove st sid = (st sid, st(sid := None))"

definition take_for_outcome ::
  "active_turn_store \<Rightarrow> string \<Rightarrow> string \<Rightarrow> active_turn_take_result \<times> active_turn_store" where
  "take_for_outcome st sid tid =
     (case st sid of
        Some t \<Rightarrow>
          (if at_turn_id t = tid then (Matched t, st(sid := None)) else (DifferentTurn, st))
      | None \<Rightarrow> (Absent, st))"

definition active_contains :: "active_turn_store \<Rightarrow> string \<Rightarrow> bool" where
  "active_contains st sid = (st sid \<noteq> None)"

definition matches_turn :: "active_turn_store \<Rightarrow> string \<Rightarrow> string \<Rightarrow> bool" where
  "matches_turn st sid tid = (case st sid of None \<Rightarrow> False | Some t \<Rightarrow> at_turn_id t = tid)"

definition matches_agent_session_request :: "active_turn_store \<Rightarrow> string \<Rightarrow> string \<Rightarrow> bool" where
  "matches_agent_session_request st sid tid =
     (case st sid of
        None \<Rightarrow> False
      | Some t \<Rightarrow> at_turn_id t = tid \<and> is_agent_session_request t)"

definition suppression_key_for_requester ::
  "active_turn_store \<Rightarrow> string \<Rightarrow> string \<Rightarrow> (string \<times> string) option" where
  "suppression_key_for_requester st target requester =
     (case st target of
        None \<Rightarrow> None
      | Some t \<Rightarrow>
          if should_suppress_cancelled_reply_for_requester t requester
          then Some (target, at_turn_id t) else None)"

section \<open>Suppressed replies and abort flags\<close>

type_synonym suppression_set = "(string \<times> string) set"

definition suppression_mark :: "suppression_set \<Rightarrow> string \<Rightarrow> string \<Rightarrow> suppression_set" where
  "suppression_mark s sid tid = insert (sid, tid) s"

definition suppression_clear :: "suppression_set \<Rightarrow> string \<Rightarrow> string \<Rightarrow> suppression_set" where
  "suppression_clear s sid tid = s - {(sid, tid)}"

definition suppression_take :: "suppression_set \<Rightarrow> string \<Rightarrow> string \<Rightarrow> bool \<times> suppression_set" where
  "suppression_take s sid tid = ((sid, tid) \<in> s, s - {(sid, tid)})"

type_synonym abort_flags = "string set"

definition abort_mark :: "abort_flags \<Rightarrow> string \<Rightarrow> abort_flags" where
  "abort_mark f sid = insert sid f"

definition abort_clear :: "abort_flags \<Rightarrow> string \<Rightarrow> abort_flags" where
  "abort_clear f sid = f - {sid}"

definition abort_contains :: "abort_flags \<Rightarrow> string \<Rightarrow> bool" where
  "abort_contains f sid = (sid \<in> f)"

section \<open>Turn outcomes\<close>

datatype turn_outcome =
    TurnCompleted string string
  | TurnCancelled string
  | TurnInterrupted string "32 word"
  | TurnFailed string string

datatype turn_outcome_queue_action = DispatchNext | HoldQueue | ClearQueue

datatype turn_outcome_status = StCompleted | StCancelled | StInterrupted | StFailed

definition status_as_str :: "turn_outcome_status \<Rightarrow> string" where
  "status_as_str s =
     (case s of
        StCompleted \<Rightarrow> ''completed'' | StCancelled \<Rightarrow> ''cancelled''
      | StInterrupted \<Rightarrow> ''interrupted'' | StFailed \<Rightarrow> ''failed'')"

definition outcome_turn_id :: "turn_outcome \<Rightarrow> string" where
  "outcome_turn_id oc =
     (case oc of
        TurnCompleted t _ \<Rightarrow> t | TurnCancelled t \<Rightarrow> t | TurnInterrupted t _ \<Rightarrow> t | TurnFailed t _ \<Rightarrow> t)"

definition outcome_status :: "turn_outcome \<Rightarrow> turn_outcome_status" where
  "outcome_status oc =
     (case oc of
        TurnCompleted _ _ \<Rightarrow> StCompleted | TurnCancelled _ \<Rightarrow> StCancelled
      | TurnInterrupted _ _ \<Rightarrow> StInterrupted | TurnFailed _ _ \<Rightarrow> StFailed)"

definition reply_text :: "turn_outcome \<Rightarrow> string" where
  "reply_text oc =
     (case oc of
        TurnCompleted _ r \<Rightarrow> (if trim r = [] then ''(no final text response)'' else r)
      | TurnCancelled _ \<Rightarrow>
          ''The target session cancelled this request before producing a final answer.''
      | TurnInterrupted _ _ \<Rightarrow>
          ''The target session interrupted this request before producing a final answer.''
      | TurnFailed _ e \<Rightarrow>
          ''The target session failed to complete this request.'' @ [CHR 0x0A] @ ''Error: '' @ e)"

definition outcome_queue_action :: "turn_outcome \<Rightarrow> turn_outcome_queue_action" where
  "outcome_queue_action oc =
     (case oc of
        TurnCompleted _ _ \<Rightarrow> DispatchNext | TurnCancelled _ \<Rightarrow> DispatchNext
      | TurnInterrupted _ _ \<Rightarrow> HoldQueue
      | TurnFailed _ _ \<Rightarrow> ClearQueue)"

datatype goal_continuation_action =
    SkipNoActiveTurn
  | AbortForCancelled
  | AbortForInterrupted
  | Evaluate bool

record turn_outcome_lifecycle_plan =
  plan_status :: turn_outcome_status
  plan_queue_action :: turn_outcome_queue_action
  plan_drain_finished_turn_injections :: bool
  plan_goal_continuation :: goal_continuation_action

definition plan_dispatch_next :: "turn_outcome_lifecycle_plan \<Rightarrow> bool" where
  "plan_dispatch_next p = (case plan_queue_action p of DispatchNext \<Rightarrow> True | _ \<Rightarrow> False)"

definition plan_clear_queue :: "turn_outcome_lifecycle_plan \<Rightarrow> bool" where
  "plan_clear_queue p = (case plan_queue_action p of ClearQueue \<Rightarrow> True | _ \<Rightarrow> False)"

definition resolve_turn_outcome_lifecycle_plan ::
  "turn_outcome \<Rightarrow> bool \<Rightarrow> turn_outcome_lifecycle_plan" where
  "resolve_turn_outcome_lifecycle_plan oc has_active =
     (let status = outcome_status oc;
          goal =
            (if \<not> has_active then SkipNoActiveTurn
             else case status of
                    StCancelled \<Rightarrow> AbortForCancelled
                  | StInterrupted \<Rightarrow> AbortForInterrupted
                  | StCompleted \<Rightarrow> Evaluate True
                  | StFailed \<Rightarrow> Evaluate False)
      in \<lparr>plan_status = status,
          plan_queue_action = outcome_queue_action oc,
          plan_drain_finished_turn_injections = (status \<noteq> StInterrupted),
          plan_goal_continuation = goal\<rparr>)"

text \<open>The concrete scheduler's treatment of the round injections of a finished turn.\<close>

definition settle_round_injections ::
  "turn_outcome_lifecycle_plan \<Rightarrow> string \<Rightarrow> turn_outcome \<Rightarrow> injection_buffer \<Rightarrow> injection_buffer" where
  "settle_round_injections plan sid oc b =
     (if plan_drain_finished_turn_injections plan
      then snd (drain_for_turn b sid (outcome_turn_id oc))
      else if plan_status plan = StInterrupted then discard_current_running b sid
      else b)"

record dialog_start_route_facts =
  has_image_contexts :: bool
  has_prepended_messages :: bool

datatype dialog_start_route =
    RoutePlain
  | WithPrependedMessages
  | WithImageContexts
  | WithImageContextsAndPrependedMessages

definition resolve_dialog_start_route :: "dialog_start_route_facts \<Rightarrow> dialog_start_route" where
  "resolve_dialog_start_route f =
     (case (has_image_contexts f, has_prepended_messages f) of
        (False, False) \<Rightarrow> RoutePlain
      | (False, True) \<Rightarrow> WithPrependedMessages
      | (True, False) \<Rightarrow> WithImageContexts
      | (True, True) \<Rightarrow> WithImageContextsAndPrependedMessages)"

section \<open>The reply to a requesting agent session\<close>

datatype dialog_turn_outcome_kind = KCompleted | KCancelled | KInterrupted | KFailed

definition turn_outcome_status_kind :: "turn_outcome_status \<Rightarrow> dialog_turn_outcome_kind" where
  "turn_outcome_status_kind s =
     (case s of
        StCompleted \<Rightarrow> KCompleted | StCancelled \<Rightarrow> KCancelled
      | StInterrupted \<Rightarrow> KInterrupted | StFailed \<Rightarrow> KFailed)"

definition turn_outcome_kind :: "turn_outcome \<Rightarrow> dialog_turn_outcome_kind" where
  "turn_outcome_kind oc = turn_outcome_status_kind (outcome_status oc)"

definition should_skip_agent_session_reply :: "dialog_turn_outcome_kind \<Rightarrow> bool \<Rightarrow> bool" where
  "should_skip_agent_session_reply k suppressed \<longleftrightarrow>
     k = KInterrupted \<or> (k = KCancelled \<and> suppressed)"

record agent_session_reply_plan =
  target_session_id :: string
  target_workspace_path :: string
  target_remote_connection_id :: "string option"
  target_remote_ssh_host :: "string option"
  reply_user_input :: string
  reply_reminder_text :: string
  reply_user_message_metadata :: "json option"

datatype agent_session_reply_action =
    NoReply
  | SkipSuppressedCancelledReply
  | Forward agent_session_reply_plan

definition resolve_agent_session_reply_action ::
  "string \<Rightarrow> active_dialog_turn \<Rightarrow> turn_outcome \<Rightarrow> bool \<Rightarrow> agent_session_reply_action" where
  "resolve_agent_session_reply_action responder t oc suppressed =
     (if \<not> is_agent_session_request t then NoReply
      else if should_skip_agent_session_reply (turn_outcome_kind oc) suppressed
      then SkipSuppressedCancelledReply
      else
        (case at_reply_route t of
           None \<Rightarrow> NoReply
         | Some route \<Rightarrow>
             (let workspace =
                (case at_workspace_path t of None \<Rightarrow> ''<unknown workspace>'' | Some w \<Rightarrow> w)
              in Forward
                \<lparr>target_session_id = source_session_id route,
                 target_workspace_path = source_workspace_path route,
                 target_remote_connection_id = source_remote_connection_id route,
                 target_remote_ssh_host = source_remote_ssh_host route,
                 reply_user_input = reply_text oc,
                 reply_reminder_text =
                   ''This message is an automated reply to a previous SessionMessage call, not a human user message.''
                   @ [CHR 0x0A] @ ''From session: '' @ responder
                   @ [CHR 0x0A] @ ''From workspace: '' @ workspace
                   @ [CHR 0x0A] @ ''Status: '' @ status_as_str (outcome_status oc),
                 reply_user_message_metadata = at_user_message_metadata t\<rparr>)))"

section \<open>Steering and background delivery\<close>

datatype dialog_steer_outcome = Buffered string string string

datatype dialog_steering_action =
    SteerReject string
  | SteerBuffer round_injection dialog_steer_outcome

definition resolve_dialog_steering_action ::
  "string option \<Rightarrow> string \<Rightarrow> string \<Rightarrow> string \<Rightarrow> string option \<Rightarrow> agent_input_attachment list
   \<Rightarrow> json_map \<Rightarrow> string \<Rightarrow> system_time \<Rightarrow> dialog_steering_action" where
  "resolve_dialog_steering_action active sid tid content display atts meta iid now =
     (if active \<noteq> Some tid
      then SteerReject
        (''Dialog turn is no longer running and cannot be steered: session_id='' @ sid @
         '', turn_id='' @ tid)
      else SteerBuffer
        \<lparr>inj_id = iid, inj_kind = UserSteering,
         inj_execution_policy = default_execution_policy UserSteering,
         inj_target = ExactTurn tid, inj_content = content,
         inj_display_content = (case display of None \<Rightarrow> content | Some d \<Rightarrow> d),
         inj_attachments = atts, inj_metadata = meta, inj_created_at = now\<rparr>
        (Buffered sid tid iid))"

datatype background_delivery_action =
    InjectIntoRunningTurn
  | SubmitAgentSessionFollowUp dialog_queue_priority

datatype background_injection_kind = BgThreadGoalObjectiveUpdated | BgBackgroundResult

definition follow_up_submission_policy ::
  "background_delivery_action \<Rightarrow> dialog_submission_policy option" where
  "follow_up_submission_policy a =
     (case a of
        InjectIntoRunningTurn \<Rightarrow> None
      | SubmitAgentSessionFollowUp p \<Rightarrow> Some \<lparr>trigger_source = AgentSession, queue_priority = p\<rparr>)"

definition resolve_background_delivery_action ::
  "dialog_session_state_fact \<Rightarrow> background_delivery_action" where
  "resolve_background_delivery_action s =
     (case s of
        SessProcessing \<Rightarrow> InjectIntoRunningTurn
      | SessMissing \<Rightarrow> SubmitAgentSessionFollowUp (queue_priority (policy_for_source AgentSession))
      | SessIdle \<Rightarrow> SubmitAgentSessionFollowUp (queue_priority (policy_for_source AgentSession))
      | SessError \<Rightarrow> SubmitAgentSessionFollowUp (queue_priority (policy_for_source AgentSession)))"

definition resolve_background_delivery_injection ::
  "background_injection_kind \<Rightarrow> string \<Rightarrow> string \<Rightarrow> string option \<Rightarrow> system_time \<Rightarrow> round_injection" where
  "resolve_background_delivery_injection bk iid content display now =
     (let k = (case bk of BgThreadGoalObjectiveUpdated \<Rightarrow> ThreadGoalObjectiveUpdated
                        | BgBackgroundResult \<Rightarrow> BackgroundResult)
      in \<lparr>inj_id = iid, inj_kind = k, inj_execution_policy = default_execution_policy k,
          inj_target = CurrentRunningTurn, inj_content = content,
          inj_display_content = (case display of None \<Rightarrow> content | Some d \<Rightarrow> d),
          inj_attachments = [], inj_metadata = [], inj_created_at = now\<rparr>)"

definition target_background_delivery_injection_to_turn ::
  "round_injection \<Rightarrow> string \<Rightarrow> round_injection" where
  "target_background_delivery_injection_to_turn m tid = m\<lparr>inj_target := ExactTurn tid\<rparr>"

definition resolve_background_delivery_injection_for_turn ::
  "background_injection_kind \<Rightarrow> string \<Rightarrow> string \<Rightarrow> string option \<Rightarrow> system_time \<Rightarrow> string
   \<Rightarrow> round_injection" where
  "resolve_background_delivery_injection_for_turn bk iid content display now tid =
     target_background_delivery_injection_to_turn
       (resolve_background_delivery_injection bk iid content display now) tid"

definition is_background_result_injection :: "round_injection_kind \<Rightarrow> bool" where
  "is_background_result_injection k = (k = BackgroundResult)"

section \<open>Reports of background runs\<close>

datatype report_policy = PolInherit | PolAlways | PolConditional | PolUnknown string

datatype report_disposition =
    DispPending | DispQuiet | DispReport | DispAttention | DispUnknown string

record background_report =
  rep_disposition :: report_disposition
  rep_reason :: string

record background_decision_usage =
  usage_input_tokens :: "32 word"
  usage_output_tokens :: "32 word"
  usage_total_tokens :: "32 word"
  usage_cached_input_tokens :: "32 word option"

record background_delivery =
  bd_schema_version :: "32 word"
  bd_source :: string
  bd_task_id :: string
  bd_run_id :: string
  bd_execution_generation :: "32 word"
  bd_policy :: report_policy
  bd_disposition :: report_disposition
  bd_decision_source :: string
  bd_reason :: string
  bd_proposal :: "background_report option"
  bd_resolved_at_ms :: "nat option"
  bd_decision_usage :: "background_decision_usage option"

definition background_delivery_schema_version :: "32 word" where
  "background_delivery_schema_version = 1"

definition delivery_pending :: "string \<Rightarrow> string \<Rightarrow> report_policy \<Rightarrow> background_delivery" where
  "delivery_pending task run pol =
     \<lparr>bd_schema_version = background_delivery_schema_version, bd_source = ''scheduled_job'',
      bd_task_id = task, bd_run_id = run, bd_execution_generation = 0, bd_policy = pol,
      bd_disposition = DispPending, bd_decision_source = ''pending'', bd_reason = [],
      bd_proposal = None, bd_resolved_at_ms = None, bd_decision_usage = None\<rparr>"

definition suppresses_report :: "background_delivery \<Rightarrow> bool" where
  "suppresses_report d \<longleftrightarrow>
     (case bd_disposition d of DispPending \<Rightarrow> True | DispQuiet \<Rightarrow> True | _ \<Rightarrow> False) \<and>
     bd_schema_version d = background_delivery_schema_version \<and>
     \<not> (case bd_policy d of PolAlways \<Rightarrow> True | PolUnknown _ \<Rightarrow> True | _ \<Rightarrow> False) \<and>
     (bd_disposition d \<noteq> DispQuiet \<or> bd_resolved_at_ms d \<noteq> None)"

definition usable_report :: "background_report \<Rightarrow> bool" where
  "usable_report r \<longleftrightarrow>
     trim (rep_reason r) \<noteq> [] \<and>
     (case rep_disposition r of
        DispQuiet \<Rightarrow> True | DispReport \<Rightarrow> True | DispAttention \<Rightarrow> True | _ \<Rightarrow> False)"

definition resolve_report ::
  "background_delivery \<Rightarrow> bool \<Rightarrow> string \<Rightarrow> background_report option \<Rightarrow> string \<Rightarrow> nat
   \<Rightarrow> background_delivery" where
  "resolve_report d success finish report src now =
     (let interrupted =
            \<not> success \<or>
            finish \<notin> {''complete'', ''end_turn'', ''stop'', ''background_quiet''};
          (disp, reason, dsrc) =
            (if interrupted then (DispAttention, ''execution_'' @ finish, ''runtime'')
             else if bd_execution_generation d > 0
             then (DispReport, ''recovery_completed'', ''runtime'')
             else if (case bd_policy d of PolAlways \<Rightarrow> True | PolUnknown _ \<Rightarrow> True | _ \<Rightarrow> False)
             then (DispReport, ''policy_requires_report'', ''policy'')
             else case report of
                    Some r \<Rightarrow>
                      if usable_report r then (rep_disposition r, rep_reason r, src)
                      else (DispReport, ''decision_unavailable'', ''fallback'')
                  | None \<Rightarrow> (DispReport, ''decision_unavailable'', ''fallback''))
      in d\<lparr>bd_disposition := disp, bd_reason := reason, bd_decision_source := dsrc,
           bd_resolved_at_ms := Some now\<rparr>)"

definition accepts_quiet_model_end ::
  "background_delivery option \<Rightarrow> bool \<Rightarrow> bool \<Rightarrow> bool \<Rightarrow> bool \<Rightarrow> bool" where
  "accepts_quiet_model_end d more_rounds had_text had_thinking partially_recovered \<longleftrightarrow>
     \<not> more_rounds \<and> \<not> had_text \<and> \<not> had_thinking \<and> \<not> partially_recovered \<and>
     (case d of
        None \<Rightarrow> False
      | Some d \<Rightarrow>
          (case bd_policy d of PolInherit \<Rightarrow> True | PolConditional \<Rightarrow> True | _ \<Rightarrow> False) \<and>
          bd_resolved_at_ms d = None \<and>
          (case bd_proposal d of
             None \<Rightarrow> False
           | Some r \<Rightarrow> rep_disposition r = DispQuiet \<and> trim (rep_reason r) \<noteq> []))"

section \<open>Histories of the active-turn store\<close>

datatype active_op =
    OpInsert string active_dialog_turn
  | OpRemove string
  | OpTake string string

fun active_run ::
  "active_op list \<Rightarrow> active_turn_store \<Rightarrow> (string \<times> active_dialog_turn) list \<times> active_turn_store"
where
  "active_run [] st = ([], st)"
| "active_run (OpInsert sid t # ops) st = active_run ops (active_insert st sid t)"
| "active_run (OpRemove sid # ops) st = active_run ops (snd (active_remove st sid))"
| "active_run (OpTake sid tid # ops) st =
     (case take_for_outcome st sid tid of
        (Matched t, st') \<Rightarrow> (case active_run ops st' of (ts, st'') \<Rightarrow> ((sid, t) # ts, st''))
      | (_, st') \<Rightarrow> active_run ops st')"

fun inserted_turns :: "active_op list \<Rightarrow> (string \<times> active_dialog_turn) list" where
  "inserted_turns [] = []"
| "inserted_turns (OpInsert sid t # ops) = (sid, t) # inserted_turns ops"
| "inserted_turns (OpRemove sid # ops) = inserted_turns ops"
| "inserted_turns (OpTake sid tid # ops) = inserted_turns ops"

lemma active_run_count:
  "count (mset (fst (active_run ops st))) (s, t) + of_bool (snd (active_run ops st) s = Some t)
     \<le> count (mset (inserted_turns ops)) (s, t) + of_bool (st s = Some t)"
proof (induction ops arbitrary: st)
  case (Cons op ops)
  show ?case
  proof (cases op)
    case (OpInsert sid t')
    then show ?thesis using Cons [of "st(sid \<mapsto> t')"] by (auto simp: active_insert_def fun_upd_def split: if_splits)
  next
    case (OpRemove sid)
    then show ?thesis using Cons [of "st(sid := None)"] by (auto simp: active_remove_def fun_upd_def split: if_splits)
  next
    case (OpTake sid tid)
    show ?thesis
    proof (cases "\<exists>t. st sid = Some t \<and> at_turn_id t = tid")
      case True
      then obtain t' where t: "st sid = Some t'" "at_turn_id t' = tid" by blast
      then have "take_for_outcome st sid tid = (Matched t', st(sid := None))"
        by (simp add: take_for_outcome_def)
      with Cons [of "st(sid := None)"] t OpTake show ?thesis by (auto simp: fun_upd_def split: prod.split if_splits)
    next
      case False
      then have "take_for_outcome st sid tid = (Absent, st) \<or>
          take_for_outcome st sid tid = (DifferentTurn, st)"
        by (auto simp: take_for_outcome_def split: option.split)
      then show ?thesis using Cons [of st] OpTake by auto
    qed
  qed
qed simp

section \<open>Properties\<close>

definition example_turn :: active_dialog_turn where
  "example_turn =
     \<lparr>at_turn_id = ''t1'', at_workspace_path = None, at_remote_connection_id = None,
      at_remote_ssh_host = None, at_agent_type = ''agentic'', at_user_input = ''hi'',
      at_user_message_metadata = None, at_policy = policy_for_source AgentSession,
      at_reply_route = Some
        \<lparr>source_session_id = ''req'', source_workspace_path = ''/w'',
         source_remote_connection_id = None, source_remote_ssh_host = None\<rparr>\<rparr>"

text \<open>
  C3. Whatever order outcomes arrive in, the turns handed to outcome processing are among the turns
  registered as active, with multiplicity: no registered turn is settled twice, and an outcome of
  an older generation never takes a newer turn's metadata.
\<close>

theorem outcomes_settle_registered_turns_once:
  "mset (fst (active_run ops (\<lambda>_. None))) \<subseteq># mset (inserted_turns ops) \<and>
   (fst (take_for_outcome st sid tid) = Matched t \<longleftrightarrow> st sid = Some t \<and> at_turn_id t = tid) \<and>
   (fst (take_for_outcome st sid tid) = DifferentTurn \<longrightarrow> snd (take_for_outcome st sid tid) = st)"
proof (intro conjI)
  show "mset (fst (active_run ops (\<lambda>_. None))) \<subseteq># mset (inserted_turns ops)"
  proof (rule mset_subset_eqI)
    fix p
    show "count (mset (fst (active_run ops (\<lambda>_. None)))) p \<le> count (mset (inserted_turns ops)) p"
      using active_run_count [of ops "\<lambda>_. None" "fst p" "snd p"] by simp
  qed
qed (auto simp: take_for_outcome_def split: option.split)

lemma outcomes_settle_registered_turns_once_witness:
  "snd (take_for_outcome [''s'' \<mapsto> example_turn] ''s'' ''t0'') = [''s'' \<mapsto> example_turn]"
  using outcomes_settle_registered_turns_once [of "[]" "[''s'' \<mapsto> example_turn]" "''s''" "''t0''"]
  by (simp add: take_for_outcome_def example_turn_def)

text \<open>
  When a session cancels its own request, the marker it leaves makes exactly the cancelled
  outcome of exactly that turn stay silent: the reply is skipped and the marker is used up, while a
  turn that completed in the race still answers the requester, and nobody else gets a marker.
\<close>

theorem cancelled_reply_suppressed_once:
  assumes "suppression_key_for_requester st target requester = Some (s, tid)"
    and "st target = Some turn"
  shows "s = target \<and> tid = at_turn_id turn \<and>
    (case suppression_take (suppression_mark marks s tid) s tid of
       (m, marks') \<Rightarrow>
         resolve_agent_session_reply_action target turn (TurnCancelled tid) m =
           SkipSuppressedCancelledReply \<and>
         (\<exists>plan. resolve_agent_session_reply_action target turn (TurnCompleted tid r) m = Forward plan \<and>
           target_session_id plan = requester \<and> reply_user_input plan = reply_text (TurnCompleted tid r)) \<and>
         \<not> fst (suppression_take marks' s tid) \<and>
         (\<forall>t'. t' \<noteq> tid \<longrightarrow> fst (suppression_take marks' s t') = fst (suppression_take marks s t'))) \<and>
    (\<forall>other. other \<noteq> requester \<longrightarrow> suppression_key_for_requester st target other = None)"
  using assms
  by (auto simp: suppression_key_for_requester_def should_suppress_cancelled_reply_for_requester_def
      should_suppress_agent_session_cancelled_reply_def suppression_take_def suppression_mark_def
      resolve_agent_session_reply_action_def is_agent_session_request_def
      should_skip_agent_session_reply_def turn_outcome_kind_def turn_outcome_status_kind_def
      outcome_status_def Let_def split: option.splits if_splits)

lemma cancelled_reply_suppressed_once_witness:
  "resolve_agent_session_reply_action ''s'' example_turn (TurnCancelled ''t1'')
     (fst (suppression_take (suppression_mark {} ''s'' ''t1'') ''s'' ''t1''))
   = SkipSuppressedCancelledReply"
proof -
  let ?st = "(\<lambda>_. None)(''s'' \<mapsto> example_turn)"
  have "suppression_key_for_requester ?st ''s'' ''req'' = Some (''s'', ''t1'')" by code_simp
  moreover have "?st ''s'' = Some example_turn" by simp
  ultimately show ?thesis
    by (elim cancelled_reply_suppressed_once [of ?st "''s''" "''req''" "''s''" "''t1''" example_turn "[]" "{}",
        unfolded split_beta, THEN conjunct2, THEN conjunct2, THEN conjunct1, THEN conjunct1])
qed

text \<open>
  Steering is accepted only for the running turn, and an accepted message is delivered to that
  turn and to no other: buffering it makes the turn's next drain end with it, no other turn's drain
  sees it, it survives an interruption of the turn, and any other outcome of the turn discards it.
\<close>

theorem steering_reaches_exactly_its_turn:
  assumes "resolve_dialog_steering_action active sid tid content display atts meta iid now
    = SteerBuffer m out"
  shows "active = Some tid \<and> out = Buffered sid tid iid \<and>
    fst (drain_for_turn (buffer_push b sid m) sid tid) = fst (drain_for_turn b sid tid) @ [m] \<and>
    (\<forall>t. t \<noteq> tid \<longrightarrow> fst (drain_for_turn (buffer_push b sid m) sid t) = fst (drain_for_turn b sid t)) \<and>
    (outcome_turn_id oc = tid \<longrightarrow>
      (m \<in> set (buffered (settle_round_injections
          (resolve_turn_outcome_lifecycle_plan oc act) sid oc (buffer_push b sid m)) sid)
       \<longleftrightarrow> outcome_status oc = StInterrupted))"
proof -
  have m: "active = Some tid" "out = Buffered sid tid iid" "inj_target m = ExactTurn tid"
    using assms by (auto simp: resolve_dialog_steering_action_def split: if_splits)
  then have t: "targets_turn t m \<longleftrightarrow> t = tid" for t by (auto simp: targets_turn_def)
  have push: "buffered (buffer_push b sid m) sid = buffered b sid @ [m]"
    by (simp add: buffered_def buffer_push_def)
  have dropped: "buffered (snd (drain_for_turn b' sid t)) sid = filter (\<lambda>m. \<not> targets_turn t m) (buffered b' sid)"
    for b' t by (simp add: drain_for_turn_def drain_matching_kept)
  have kept: "m \<in> set (buffered (discard_current_running b' sid) sid) \<longleftrightarrow> m \<in> set (buffered b' sid)" for b'
    using m(3) by (auto simp: discard_current_running_def buffered_def split: option.splits round_injection_target.splits)
  show ?thesis
    using m t by (auto simp: drain_for_turn_taken push dropped kept settle_round_injections_def
        resolve_turn_outcome_lifecycle_plan_def Let_def)
qed

lemma steering_reaches_exactly_its_turn_witness:
  "\<exists>m out. resolve_dialog_steering_action (Some ''t1'') ''s'' ''t1'' ''go left'' None [] [] ''i1'' 0
      = SteerBuffer m out \<and>
     fst (drain_for_turn (buffer_push (\<lambda>_. None) ''s'' m) ''s'' ''t1'') = [m]"
proof -
  let ?r = "resolve_dialog_steering_action (Some ''t1'') ''s'' ''t1'' ''go left'' None [] [] ''i1'' 0"
  obtain m out where r: "?r = SteerBuffer m out"
    by (simp add: resolve_dialog_steering_action_def)
  have "fst (drain_for_turn (\<lambda>_. None) ''s'' ''t1'') = []" by code_simp
  with steering_reaches_exactly_its_turn [OF r, of "\<lambda>_. None"] r show ?thesis by simp
qed

text \<open>
  Resolving a background run lets its result be suppressed only for a clean first-generation run
  whose policy permits it and whose usable report asked for quiet; a failed, unusual or recovered
  run, an \<open>always\<close> or unknown policy, or a missing or empty report is always published, and
  the decision is stamped with its time.
\<close>

theorem background_result_suppressed_iff:
  "(suppresses_report (resolve_report d success finish report src now) \<longleftrightarrow>
     success \<and> finish \<in> {''complete'', ''end_turn'', ''stop'', ''background_quiet''} \<and>
     bd_execution_generation d = 0 \<and> bd_policy d \<in> {PolInherit, PolConditional} \<and>
     bd_schema_version d = background_delivery_schema_version \<and>
     (\<exists>r. report = Some r \<and> rep_disposition r = DispQuiet \<and> trim (rep_reason r) \<noteq> [])) \<and>
   bd_resolved_at_ms (resolve_report d success finish report src now) = Some now"
  by (cases "bd_policy d"; cases report)
    (auto simp: resolve_report_def suppresses_report_def usable_report_def Let_def word_gt_0
      split: report_disposition.splits)

end
