(* ===== verification/Agentic_Events.thy ===== *)
theory Agentic_Events
  imports Json Dialog_Turn
begin

text \<open>
  The runtime's event vocabulary, \<open>contracts/events/src/agentic.rs\<close>: every event with all of
  its fields in the order of the source, the session and turn an event belongs to, default
  priorities, and the envelope with its order. An \<open>f64\<close> or \<open>f32\<close> field is the word of its
  bits; \<open>usize\<close> and \<open>u64\<close> fields are \<open>nat\<close>, \<open>u32\<close> and \<open>u16\<close> fields are words.
\<close>

section \<open>Types of the core contracts that events carry\<close>

record tool_error_detail =
  ted_code :: string
  ted_kind :: string

datatype error_category =
    CatNetwork | CatAuth | CatRateLimit | CatContextOverflow | CatTimeout | CatProviderQuota
  | CatProviderBilling | CatProviderUnavailable | CatPermission | CatInvalidRequest
  | CatContentPolicy | CatModelError | CatUnknown

record ai_error_detail =
  aed_category :: error_category
  aed_provider :: "string option"
  aed_provider_code :: "string option"
  aed_provider_message :: "string option"
  aed_request_id :: "string option"
  aed_http_status :: "16 word option"
  aed_retryable :: "bool option"
  aed_action_hints :: "string list"
  aed_recovery_constraint :: "string option"

datatype session_execution_target_kind = TargetLocal | TargetManagedWorktree | TargetExistingWorktree

datatype worktree_lifecycle = LifeManaged | LifePermanent | LifeExternal

record session_execution_target =
  set_kind :: session_execution_target_kind
  set_worktree_id :: "string option"
  set_root_path :: string
  set_base_ref :: "string option"
  set_base_commit :: "string option"
  set_branch :: "string option"
  set_lifecycle :: "worktree_lifecycle option"

record tool_image_attachment =
  tia_mime_type :: string
  tia_data_base64 :: string

datatype reasoning_content_kind = RckReasoning | RckSummary

datatype session_continuation_policy = Reusable | FreshOnly

section \<open>Parts of events\<close>

record model_routing_decision =
  mrd_route :: string
  mrd_latency_ms :: nat
  mrd_fallback_reason :: "string option"

datatype event_priority = Critical | High | Normal | Low

primrec event_priority_rank :: "event_priority \<Rightarrow> nat" where
  "event_priority_rank Critical = 0"
| "event_priority_rank High = 1"
| "event_priority_rank Normal = 2"
| "event_priority_rank Low = 3"

instantiation event_priority :: linorder
begin

definition less_eq_event_priority :: "event_priority \<Rightarrow> event_priority \<Rightarrow> bool" where
  "a \<le> b \<longleftrightarrow> event_priority_rank a \<le> event_priority_rank b"

definition less_event_priority :: "event_priority \<Rightarrow> event_priority \<Rightarrow> bool" where
  "a < b \<longleftrightarrow> event_priority_rank a < event_priority_rank b"

instance
proof
  fix a b :: event_priority
  show "a \<le> b \<Longrightarrow> b \<le> a \<Longrightarrow> a = b"
    by (cases a; cases b) (simp_all add: less_eq_event_priority_def)
qed (auto simp: less_eq_event_priority_def less_event_priority_def)

end

lemmas event_priority_order = less_eq_event_priority_def less_event_priority_def

lemma Critical_least [simp]: "Critical \<le> p"
  by (simp add: less_eq_event_priority_def)

record subagent_parent_info =
  spi_tool_call_id :: string
  spi_session_id :: string
  spi_dialog_turn_id :: string

datatype deep_review_queue_status =
    DrqQueuedForCapacity | DrqPausedByUser | DrqRunning | DrqCapacitySkipped

datatype deep_review_queue_reason =
    ProviderRateLimit | ProviderConcurrencyLimit | RetryAfter | LocalConcurrencyCap
  | LaunchBatchBlocked | TemporaryOverload

record deep_review_queue_state =
  drs_tool_id :: string
  drs_subagent_type :: string
  drs_status :: deep_review_queue_status
  drs_reason :: "deep_review_queue_reason option"
  drs_queued_reviewer_count :: nat
  drs_active_reviewer_count :: "nat option"
  drs_effective_parallel_instances :: "nat option"
  drs_optional_reviewer_count :: "nat option"
  drs_queue_elapsed_ms :: "nat option"
  drs_run_elapsed_ms :: "nat option"
  drs_max_queue_wait_seconds :: "nat option"
  drs_session_concurrency_high :: bool

record model_round_attempt_tool_diagnostic =
  mtd_tool_id :: "string option"
  mtd_tool_name :: "string option"
  mtd_raw_arguments :: "string option"
  mtd_validation_error :: "string option"

record model_round_attempt_diagnostic =
  mad_attempt_id :: string
  mad_attempt_index :: "32 word"
  mad_category :: string
  mad_raw_error :: "string option"
  mad_tool_calls :: "model_round_attempt_tool_diagnostic list"

section \<open>Tool events\<close>

record tool_event_identity =
  tei_tool_id :: string
  tei_tool_name :: string
  tei_effective_tool_name :: "string option"

definition identity_direct :: "string \<Rightarrow> string \<Rightarrow> tool_event_identity" where
  "identity_direct tid name =
     \<lparr>tei_tool_id = tid, tei_tool_name = name, tei_effective_tool_name = None\<rparr>"

definition identity_resolved :: "string \<Rightarrow> string \<Rightarrow> string \<Rightarrow> tool_event_identity" where
  "identity_resolved tid name eff =
     \<lparr>tei_tool_id = tid, tei_tool_name = name,
      tei_effective_tool_name = (if name \<noteq> eff then Some eff else None)\<rparr>"

definition effective_name :: "tool_event_identity \<Rightarrow> string" where
  "effective_name i =
     (case tei_effective_tool_name i of Some n \<Rightarrow> n | None \<Rightarrow> tei_tool_name i)"

text \<open>
  The timings of a finished tool call appear in the order queue wait, preflight, confirmation
  wait, execution.
\<close>

datatype (plugins only: code size) tool_event_data =
    EarlyDetected tool_event_identity
  | ParamsPartial tool_event_identity string
  | GenUIStream tool_event_identity string nat string string bool "string option" "string option"
      "string option" "string option" "nat option"
  | Queued tool_event_identity nat
  | Waiting tool_event_identity "string list"
  | Started tool_event_identity json "nat option"
  | Progress tool_event_identity string "32 word"
  | Streaming tool_event_identity nat
  | StreamChunk tool_event_identity json
  | ConfirmationNeeded tool_event_identity json "nat option"
  | Confirmed tool_event_identity
  | Rejected tool_event_identity
  | Completed tool_event_identity json "string option" "tool_image_attachment list option" nat
      "nat option" "nat option" "nat option" "nat option"
  | Failed tool_event_identity string "tool_error_detail option" "nat option"
      "nat option" "nat option" "nat option" "nat option"
  | Cancelled tool_event_identity string "nat option"
      "nat option" "nat option" "nat option" "nat option"

definition tool_identity :: "tool_event_data \<Rightarrow> tool_event_identity" where
  "tool_identity t =
     (case t of
        EarlyDetected i \<Rightarrow> i
      | ParamsPartial i _ \<Rightarrow> i
      | GenUIStream i _ _ _ _ _ _ _ _ _ _ \<Rightarrow> i
      | Queued i _ \<Rightarrow> i
      | Waiting i _ \<Rightarrow> i
      | Started i _ _ \<Rightarrow> i
      | Progress i _ _ \<Rightarrow> i
      | Streaming i _ \<Rightarrow> i
      | StreamChunk i _ \<Rightarrow> i
      | ConfirmationNeeded i _ _ \<Rightarrow> i
      | Confirmed i \<Rightarrow> i
      | Rejected i \<Rightarrow> i
      | Completed i _ _ _ _ _ _ _ _ \<Rightarrow> i
      | Failed i _ _ _ _ _ _ _ \<Rightarrow> i
      | Cancelled i _ _ _ _ _ _ \<Rightarrow> i)"

definition tool_id :: "tool_event_data \<Rightarrow> string" where
  "tool_id t = tei_tool_id (tool_identity t)"

definition wire_tool_name :: "tool_event_data \<Rightarrow> string" where
  "wire_tool_name t = tei_tool_name (tool_identity t)"

definition effective_tool_name :: "tool_event_data \<Rightarrow> string" where
  "effective_tool_name t = effective_name (tool_identity t)"

definition tool_default_priority :: "tool_event_data \<Rightarrow> event_priority" where
  "tool_default_priority t =
     (case t of
        Cancelled _ _ _ _ _ _ _ \<Rightarrow> Critical
      | Started _ _ _ \<Rightarrow> High
      | Completed _ _ _ _ _ _ _ _ _ \<Rightarrow> High
      | Failed _ _ _ _ _ _ _ _ \<Rightarrow> High
      | ConfirmationNeeded _ _ _ \<Rightarrow> High
      | EarlyDetected _ \<Rightarrow> Normal
      | ParamsPartial _ _ \<Rightarrow> Normal
      | GenUIStream _ _ _ _ _ _ _ _ _ _ _ \<Rightarrow> Normal
      | Queued _ _ \<Rightarrow> Normal
      | Waiting _ _ \<Rightarrow> Normal
      | Progress _ _ _ \<Rightarrow> Normal
      | Streaming _ _ \<Rightarrow> Normal
      | StreamChunk _ _ \<Rightarrow> Normal
      | Confirmed _ \<Rightarrow> Normal
      | Rejected _ \<Rightarrow> Normal)"

lemma effective_name_resolved: "effective_name (identity_resolved tid name eff) = eff"
  by (simp add: effective_name_def identity_resolved_def)

lemma effective_name_direct: "effective_name (identity_direct tid name) = name"
  by (simp add: effective_name_def identity_direct_def)

section \<open>Events\<close>

datatype (plugins only: code size) agentic_event =
    SessionCreated string string string "string option" "string option"
      "session_execution_target option" "string option" "string option" "string option"
  | SessionStateChanged string string
  | SessionHistoryChanged string "string option"
  | SessionDeleted string
  | SessionTitleGenerated string string string
  | PromptSuggestionGenerated string string string
  | ImageAnalysisStarted string nat string "json option"
  | ImageAnalysisCompleted string bool nat
  | DialogTurnStarted string string nat string "string option" "json option"
  | SubagentSessionLinked string string string string string "string option" "string option"
      "string option" "session_continuation_policy option"
  | DialogTurnCompleted string string nat nat nat "string option" "bool option" "string option"
      "bool option" "background_delivery option"
  | DialogTurnCancelled string string
  | DialogTurnInterrupted string string "32 word" "string option"
  | DialogTurnRecovered string string "32 word"
  | DialogTurnFailed string string string "error_category option" "ai_error_detail option"
  | TokenUsageUpdated string string string string nat "nat option" nat "nat option" bool
      "nat option" "json option"
  | ContextCompressionStarted string string string string nat nat
  | ContextCompressionCompleted string string string nat nat nat "64 word" nat bool string bool
  | ContextCompressionFailed string string string string
  | ThreadGoalUpdated string "json option"
  | ModelRoundStarted string string string "string option" nat string string
      "model_routing_decision option"
  | ModelRoundAttemptSuperseded string string string model_round_attempt_diagnostic
  | ModelRoundCompleted string string string bool "nat option" "string option" string string
      "nat option" "nat option" "nat option" "nat option" "32 word option" "string option"
      "json option"
  | TextChunk string string string "string option" "32 word option" string
  | ThinkingChunk string string string "string option" "32 word option" string
      "reasoning_content_kind option" bool
  | ToolEvent string string string "string option" "32 word option" tool_event_data
  | DeepReviewQueueStateChanged string string deep_review_queue_state
  | SystemError "string option" string bool
  | UserSteeringInjected string string nat string string string
  | SessionModelFallbackApplied string string string string
  | SessionReasoningPresetAutoCleared string string string

definition event_session_id :: "agentic_event \<Rightarrow> string option" where
  "event_session_id e =
     (case e of
        SessionCreated s _ _ _ _ _ _ _ _ \<Rightarrow> Some s
      | SessionStateChanged s _ \<Rightarrow> Some s
      | SessionHistoryChanged s _ \<Rightarrow> Some s
      | SessionDeleted s \<Rightarrow> Some s
      | SessionTitleGenerated s _ _ \<Rightarrow> Some s
      | PromptSuggestionGenerated s _ _ \<Rightarrow> Some s
      | ImageAnalysisStarted s _ _ _ \<Rightarrow> Some s
      | ImageAnalysisCompleted s _ _ \<Rightarrow> Some s
      | DialogTurnStarted s _ _ _ _ _ \<Rightarrow> Some s
      | SubagentSessionLinked s _ _ _ _ _ _ _ _ \<Rightarrow> Some s
      | DialogTurnCompleted s _ _ _ _ _ _ _ _ _ \<Rightarrow> Some s
      | TokenUsageUpdated s _ _ _ _ _ _ _ _ _ _ \<Rightarrow> Some s
      | ContextCompressionStarted s _ _ _ _ _ \<Rightarrow> Some s
      | ContextCompressionCompleted s _ _ _ _ _ _ _ _ _ _ \<Rightarrow> Some s
      | ContextCompressionFailed s _ _ _ \<Rightarrow> Some s
      | ThreadGoalUpdated s _ \<Rightarrow> Some s
      | DialogTurnCancelled s _ \<Rightarrow> Some s
      | DialogTurnInterrupted s _ _ _ \<Rightarrow> Some s
      | DialogTurnRecovered s _ _ \<Rightarrow> Some s
      | DialogTurnFailed s _ _ _ _ \<Rightarrow> Some s
      | ModelRoundStarted s _ _ _ _ _ _ _ \<Rightarrow> Some s
      | ModelRoundAttemptSuperseded s _ _ _ \<Rightarrow> Some s
      | TextChunk s _ _ _ _ _ \<Rightarrow> Some s
      | ThinkingChunk s _ _ _ _ _ _ _ \<Rightarrow> Some s
      | ModelRoundCompleted s _ _ _ _ _ _ _ _ _ _ _ _ _ _ \<Rightarrow> Some s
      | ToolEvent s _ _ _ _ _ \<Rightarrow> Some s
      | UserSteeringInjected s _ _ _ _ _ \<Rightarrow> Some s
      | DeepReviewQueueStateChanged s _ _ \<Rightarrow> Some s
      | SessionModelFallbackApplied s _ _ _ \<Rightarrow> Some s
      | SessionReasoningPresetAutoCleared s _ _ \<Rightarrow> Some s
      | SystemError s _ _ \<Rightarrow> s)"

definition event_turn_id :: "agentic_event \<Rightarrow> string option" where
  "event_turn_id e =
     (case e of
        DialogTurnStarted _ t _ _ _ _ \<Rightarrow> Some t
      | DialogTurnCompleted _ t _ _ _ _ _ _ _ _ \<Rightarrow> Some t
      | DialogTurnCancelled _ t \<Rightarrow> Some t
      | DialogTurnInterrupted _ t _ _ \<Rightarrow> Some t
      | DialogTurnRecovered _ t _ \<Rightarrow> Some t
      | DialogTurnFailed _ t _ _ _ \<Rightarrow> Some t
      | TokenUsageUpdated _ t _ _ _ _ _ _ _ _ _ \<Rightarrow> Some t
      | ContextCompressionStarted _ t _ _ _ _ \<Rightarrow> Some t
      | ContextCompressionCompleted _ t _ _ _ _ _ _ _ _ _ \<Rightarrow> Some t
      | ContextCompressionFailed _ t _ _ \<Rightarrow> Some t
      | ModelRoundStarted _ t _ _ _ _ _ _ \<Rightarrow> Some t
      | ModelRoundAttemptSuperseded _ t _ _ \<Rightarrow> Some t
      | ModelRoundCompleted _ t _ _ _ _ _ _ _ _ _ _ _ _ _ \<Rightarrow> Some t
      | TextChunk _ t _ _ _ _ \<Rightarrow> Some t
      | ThinkingChunk _ t _ _ _ _ _ _ \<Rightarrow> Some t
      | ToolEvent _ t _ _ _ _ \<Rightarrow> Some t
      | DeepReviewQueueStateChanged _ t _ \<Rightarrow> Some t
      | UserSteeringInjected _ t _ _ _ _ \<Rightarrow> Some t
      | _ \<Rightarrow> None)"

definition event_default_priority :: "agentic_event \<Rightarrow> event_priority" where
  "event_default_priority e =
     (case e of
        SystemError _ _ _ \<Rightarrow> Critical
      | DialogTurnFailed _ _ _ _ _ \<Rightarrow> Critical
      | DialogTurnCancelled _ _ \<Rightarrow> Critical
      | DialogTurnInterrupted _ _ _ _ \<Rightarrow> Critical
      | DialogTurnRecovered _ _ _ \<Rightarrow> Critical
      | SessionStateChanged _ _ \<Rightarrow> High
      | SessionHistoryChanged _ _ \<Rightarrow> High
      | SessionTitleGenerated _ _ _ \<Rightarrow> High
      | SessionModelFallbackApplied _ _ _ _ \<Rightarrow> High
      | SessionReasoningPresetAutoCleared _ _ _ \<Rightarrow> High
      | SubagentSessionLinked _ _ _ _ _ _ _ _ _ \<Rightarrow> High
      | DeepReviewQueueStateChanged _ _ _ \<Rightarrow> High
      | ContextCompressionFailed _ _ _ _ \<Rightarrow> High
      | ImageAnalysisStarted _ _ _ _ \<Rightarrow> Normal
      | ImageAnalysisCompleted _ _ _ \<Rightarrow> Normal
      | TextChunk _ _ _ _ _ _ \<Rightarrow> Normal
      | ThinkingChunk _ _ _ _ _ _ _ _ \<Rightarrow> Normal
      | ModelRoundStarted _ _ _ _ _ _ _ _ \<Rightarrow> Normal
      | ModelRoundAttemptSuperseded _ _ _ _ \<Rightarrow> Normal
      | ModelRoundCompleted _ _ _ _ _ _ _ _ _ _ _ _ _ _ _ \<Rightarrow> Normal
      | TokenUsageUpdated _ _ _ _ _ _ _ _ _ _ _ \<Rightarrow> Normal
      | DialogTurnCompleted _ _ _ _ _ _ _ _ _ _ \<Rightarrow> Normal
      | ContextCompressionStarted _ _ _ _ _ _ \<Rightarrow> Normal
      | ThreadGoalUpdated _ _ \<Rightarrow> Normal
      | UserSteeringInjected _ _ _ _ _ _ \<Rightarrow> Normal
      | PromptSuggestionGenerated _ _ _ \<Rightarrow> Normal
      | ContextCompressionCompleted _ _ _ _ _ _ _ _ _ _ _ \<Rightarrow> Normal
      | ToolEvent _ _ _ _ _ t \<Rightarrow> tool_default_priority t
      | _ \<Rightarrow> Low)"

section \<open>Envelopes\<close>

text \<open>
  \<open>AgenticEventEnvelope\<close>. Its random identifier and its timestamp are arguments of
  \<open>envelope_new\<close>; \<open>Ord\<close> compares priority, then timestamp, so it is a preorder: two
  envelopes compare equal when both agree.
\<close>

record envelope =
  env_id :: string
  env_event :: agentic_event
  env_priority :: event_priority
  env_timestamp :: system_time

definition envelope_new ::
  "string \<Rightarrow> system_time \<Rightarrow> agentic_event \<Rightarrow> event_priority \<Rightarrow> envelope" where
  "envelope_new eid now e p =
     \<lparr>env_id = eid, env_event = e, env_priority = p, env_timestamp = now\<rparr>"

definition envelope_le :: "envelope \<Rightarrow> envelope \<Rightarrow> bool" where
  "envelope_le a b \<longleftrightarrow>
     env_priority a < env_priority b \<or>
     (env_priority a = env_priority b \<and> env_timestamp a \<le> env_timestamp b)"

lemma envelope_le_refl [simp]: "envelope_le a a"
  by (simp add: envelope_le_def)

lemma envelope_le_trans: "envelope_le a b \<Longrightarrow> envelope_le b c \<Longrightarrow> envelope_le a c"
  by (auto simp: envelope_le_def)

lemma envelope_le_total: "envelope_le a b \<or> envelope_le b a"
  by (auto simp: envelope_le_def)

end
