(* ===== verification/Session_Channels.thy ===== *)
theory Session_Channels
  imports Prelude
begin

text \<open>
  The session-scoped broadcast channels of \<open>agent-runtime/src/event_queue.rs\<close>: the channel
  map, the receiver count of each channel, the flag that lets the enqueue path skip the map, and
  the two-phase \<open>subscribe_session\<close> and \<open>Drop\<close> of \<open>SessionEventReceiver\<close> as steps that
  interleave between threads at their lock sections.

  A channel is the number under which it was allocated (its \<open>Arc\<close> identity); the map is the
  only owner that outlives a step, so a \<open>Weak\<close> reference upgrades exactly while its channel is
  in the map or in the hands of a subscriber.
\<close>

section \<open>State\<close>

record channel_state =
  ch_map :: "(string, nat) kv"
  ch_receivers :: "nat \<Rightarrow> nat"
  ch_next :: nat
  ch_flag :: bool

definition channels_init :: channel_state where
  "channels_init = \<lparr>ch_map = [], ch_receivers = (\<lambda>_. 0), ch_next = 0, ch_flag = False\<rparr>"

text \<open>Lookup on the enqueue path: the flag first, then the map.\<close>

definition session_channel :: "channel_state \<Rightarrow> string option \<Rightarrow> nat option" where
  "session_channel s sid =
     (if ch_flag s
      then (case sid of None \<Rightarrow> None | Some i \<Rightarrow> map_of (ch_map s) i)
      else None)"

section \<open>Lock sections\<close>

definition add_receiver :: "nat \<Rightarrow> channel_state \<Rightarrow> channel_state" where
  "add_receiver c s = s\<lparr>ch_receivers := (ch_receivers s)(c := ch_receivers s c + 1)\<rparr>"

definition drop_receiver :: "nat \<Rightarrow> channel_state \<Rightarrow> channel_state" where
  "drop_receiver c s = s\<lparr>ch_receivers := (ch_receivers s)(c := ch_receivers s c - 1)\<rparr>"

text \<open>
  \<open>subscribe_session\<close>, first section (read lock): subscribe to the session's channel when there
  is one, otherwise allocate a candidate channel with its first receiver.
\<close>

definition subscribe_lookup :: "string \<Rightarrow> channel_state \<Rightarrow> (nat + nat) \<times> channel_state" where
  "subscribe_lookup sid s =
     (case map_of (ch_map s) sid of
        Some c \<Rightarrow> (Inl c, add_receiver c s)
      | None \<Rightarrow>
          (Inr (ch_next s),
           s\<lparr>ch_receivers := (ch_receivers s)(ch_next s := 1), ch_next := ch_next s + 1\<rparr>))"

text \<open>
  Second section (write lock): another subscriber may have inserted a channel in between; then
  that one is used and the candidate dies with its receiver.
\<close>

definition subscribe_insert :: "string \<Rightarrow> nat \<Rightarrow> channel_state \<Rightarrow> nat \<times> channel_state" where
  "subscribe_insert sid candidate s =
     (case map_of (ch_map s) sid of
        Some c \<Rightarrow> (c, drop_receiver candidate (add_receiver c s))
      | None \<Rightarrow> (candidate, s\<lparr>ch_map := kv_put sid candidate (ch_map s), ch_flag := True\<rparr>))"

text \<open>\<open>Drop\<close>: the receiver goes first; the channel is looked at under the write lock.\<close>

definition drop_finish :: "string \<Rightarrow> nat \<Rightarrow> channel_state \<Rightarrow> channel_state" where
  "drop_finish sid c s =
     (let remove = (case map_of (ch_map s) sid of
                      None \<Rightarrow> False
                    | Some current \<Rightarrow> current = c \<and> ch_receivers s current = 0);
          m = (if remove then kv_del sid (ch_map s) else ch_map s)
      in s\<lparr>ch_map := m, ch_flag := (m \<noteq> [])\<rparr>)"

section \<open>Interleaved steps\<close>

text \<open>
  What the threads hold: \<open>Subscribing\<close> after the first section of a subscription that found no
  channel, \<open>Receiving\<close> a live receiver, \<open>Dropping\<close> one between the two sections of its drop.
\<close>

datatype channel_holder = Subscribing string nat | Receiving string nat | Dropping string nat

inductive channel_step ::
  "channel_state \<times> channel_holder multiset \<Rightarrow> channel_state \<times> channel_holder multiset \<Rightarrow> bool" where
  sub_found: "subscribe_lookup sid s = (Inl c, s') \<Longrightarrow>
    channel_step (s, H) (s', add_mset (Receiving sid c) H)"
| sub_candidate: "subscribe_lookup sid s = (Inr c, s') \<Longrightarrow>
    channel_step (s, H) (s', add_mset (Subscribing sid c) H)"
| sub_commit: "subscribe_insert sid c s = (c', s') \<Longrightarrow>
    channel_step (s, add_mset (Subscribing sid c) H) (s', add_mset (Receiving sid c') H)"
| drop_begin:
    "channel_step (s, add_mset (Receiving sid c) H) (drop_receiver c s, add_mset (Dropping sid c) H)"
| drop_gone: "map_of (ch_map s) sid \<noteq> Some c \<Longrightarrow>
    channel_step (s, add_mset (Dropping sid c) H) (s, H)"
| drop_end:
    "channel_step (s, add_mset (Dropping sid c) H) (drop_finish sid c s, H)"

definition holds_receiver :: "nat \<Rightarrow> channel_holder \<Rightarrow> bool" where
  "holds_receiver c h =
     (case h of Subscribing _ c' \<Rightarrow> c' = c | Receiving _ c' \<Rightarrow> c' = c | Dropping _ _ \<Rightarrow> False)"

definition receivers_held :: "nat \<Rightarrow> channel_holder multiset \<Rightarrow> nat" where
  "receivers_held c H = size (filter_mset (holds_receiver c) H)"

fun holder_channel :: "channel_holder \<Rightarrow> nat" where
  "holder_channel (Subscribing _ c) = c"
| "holder_channel (Receiving _ c) = c"
| "holder_channel (Dropping _ c) = c"

definition channels_inv :: "channel_state \<Rightarrow> channel_holder multiset \<Rightarrow> bool" where
  "channels_inv s H \<longleftrightarrow>
     kv_ok (ch_map s) \<and>
     (\<forall>a b c. map_of (ch_map s) a = Some c \<longrightarrow> a \<noteq> b \<longrightarrow> map_of (ch_map s) b \<noteq> Some c) \<and>
     (ch_flag s \<longleftrightarrow> ch_map s \<noteq> []) \<and>
     (\<forall>c. ch_receivers s c = receivers_held c H) \<and>
     (\<forall>sid c. map_of (ch_map s) sid = Some c \<longrightarrow> c < ch_next s) \<and>
     (\<forall>h. h \<in># H \<longrightarrow> holder_channel h < ch_next s) \<and>
     (\<forall>sid c. Receiving sid c \<in># H \<longrightarrow> map_of (ch_map s) sid = Some c) \<and>
     (\<forall>sid c. Subscribing sid c \<in># H \<longrightarrow> receivers_held c H = 1) \<and>
     (\<forall>sid c sid'. Subscribing sid c \<in># H \<longrightarrow> map_of (ch_map s) sid' \<noteq> Some c) \<and>
     (\<forall>sid c. map_of (ch_map s) sid = Some c \<longrightarrow> Receiving sid c \<in># H \<or> Dropping sid c \<in># H)"

lemma receivers_held_add [simp]:
  "receivers_held c (add_mset h H) = of_bool (holds_receiver c h) + receivers_held c H"
  by (simp add: receivers_held_def)

lemma receivers_held_empty [simp]: "receivers_held c {#} = 0"
  by (simp add: receivers_held_def)

lemma holds_receiver_simps [simp]:
  "holds_receiver c (Subscribing sid c') \<longleftrightarrow> c' = c"
  "holds_receiver c (Receiving sid c') \<longleftrightarrow> c' = c"
  "\<not> holds_receiver c (Dropping sid c')"
  by (simp_all add: holds_receiver_def)

lemma receivers_held_zero: "receivers_held c H = 0 \<longleftrightarrow> (\<forall>h. h \<in># H \<longrightarrow> \<not> holds_receiver c h)"
  by (induction H) auto

lemma receivers_held_zeroD:
  "receivers_held c H = 0 \<Longrightarrow> Receiving sid c \<notin># H \<and> Subscribing sid c \<notin># H"
  using receivers_held_zero [of c H] by fastforce

lemma receivers_held_fresh: "\<forall>h. h \<in># H \<longrightarrow> holder_channel h < n \<Longrightarrow> receivers_held n H = 0"
  by (auto simp: receivers_held_zero holds_receiver_def split: channel_holder.splits)

lemma kv_put_not_Nil [simp]: "kv_put k v m \<noteq> []"
  by (cases m) simp_all

lemma channels_invI:
  assumes "kv_ok (ch_map s)"
    and "\<And>a b c. map_of (ch_map s) a = Some c \<Longrightarrow> a \<noteq> b \<Longrightarrow> map_of (ch_map s) b \<noteq> Some c"
    and "ch_flag s \<longleftrightarrow> ch_map s \<noteq> []"
    and "\<And>c. ch_receivers s c = receivers_held c H"
    and "\<And>sid c. map_of (ch_map s) sid = Some c \<Longrightarrow> c < ch_next s"
    and "\<And>h. h \<in># H \<Longrightarrow> holder_channel h < ch_next s"
    and "\<And>sid c. Receiving sid c \<in># H \<Longrightarrow> map_of (ch_map s) sid = Some c"
    and "\<And>sid c. Subscribing sid c \<in># H \<Longrightarrow> receivers_held c H = 1"
    and "\<And>sid c sid'. Subscribing sid c \<in># H \<Longrightarrow> map_of (ch_map s) sid' \<noteq> Some c"
    and "\<And>sid c. map_of (ch_map s) sid = Some c \<Longrightarrow> Receiving sid c \<in># H \<or> Dropping sid c \<in># H"
  shows "channels_inv s H"
  using assms unfolding channels_inv_def by blast

lemma channels_invD:
  assumes "channels_inv s H"
  shows "kv_ok (ch_map s)"
    and "map_of (ch_map s) a = Some c \<Longrightarrow> a \<noteq> b \<Longrightarrow> map_of (ch_map s) b \<noteq> Some c"
    and "ch_flag s \<longleftrightarrow> ch_map s \<noteq> []"
    and "ch_receivers s c = receivers_held c H"
    and "map_of (ch_map s) sid = Some c \<Longrightarrow> c < ch_next s"
    and "h \<in># H \<Longrightarrow> holder_channel h < ch_next s"
    and "Receiving sid c \<in># H \<Longrightarrow> map_of (ch_map s) sid = Some c"
    and "Subscribing sid c \<in># H \<Longrightarrow> receivers_held c H = 1"
    and "Subscribing sid c \<in># H \<Longrightarrow> map_of (ch_map s) sid' \<noteq> Some c"
    and "map_of (ch_map s) sid = Some c \<Longrightarrow> Receiving sid c \<in># H \<or> Dropping sid c \<in># H"
  using assms unfolding channels_inv_def by blast+

lemma inv_sub_found:
  assumes "channels_inv s H" and "subscribe_lookup sid s = (Inl c, s')"
  shows "channels_inv s' (add_mset (Receiving sid c) H)"
proof -
  from assms(2) have c: "map_of (ch_map s) sid = Some c" and s': "s' = add_receiver c s"
    by (auto simp: subscribe_lookup_def split: option.splits)
  note I = channels_invD [OF assms(1)]
  have fields: "ch_map s' = ch_map s" "ch_flag s' = ch_flag s" "ch_next s' = ch_next s"
    "ch_receivers s' = (ch_receivers s)(c := ch_receivers s c + 1)"
    by (simp_all add: s' add_receiver_def)
  show ?thesis
  proof (rule channels_invI, unfold fields, goal_cases)
    case (4 e)
    show ?case by (simp add: I(4))
  next
    case (6 h)
    then show ?case using I(6) [of h] I(5) [OF c] by auto
  next
    case (7 a e)
    then show ?case using I(7) [of a e] c by auto
  next
    case (8 a e)
    then have e: "Subscribing a e \<in># H" by simp
    then have "e \<noteq> c" using I(9) [of a e sid] c by auto
    with e show ?case using I(8) [of a e] by simp
  next
    case (9 a e a')
    then show ?case using I(9) [of a e a'] by simp
  next
    case (10 a e)
    then show ?case using I(10) [of a e] by auto
  next
    case (2 a b e)
    then show ?case by (rule I(2))
  qed (rule I(1) I(3) I(5), assumption?)+
qed

lemma inv_sub_candidate:
  assumes "channels_inv s H" and "subscribe_lookup sid s = (Inr c, s')"
  shows "channels_inv s' (add_mset (Subscribing sid c) H)"
proof -
  from assms(2) have c: "c = ch_next s" and
    s': "s' = s\<lparr>ch_receivers := (ch_receivers s)(ch_next s := 1), ch_next := ch_next s + 1\<rparr>"
    by (auto simp: subscribe_lookup_def split: option.splits)
  have fresh: "receivers_held (ch_next s) H = 0"
    using assms(1) by (intro receivers_held_fresh) (simp add: channels_inv_def)
  note I = channels_invD [OF assms(1)]
  note unused = receivers_held_zeroD [OF fresh]
  have fields: "ch_map s' = ch_map s" "ch_flag s' = ch_flag s" "ch_next s' = Suc (ch_next s)"
    "ch_receivers s' = (ch_receivers s)(c := 1)"
    by (simp_all add: s' c)
  show ?thesis
  proof (rule channels_invI, unfold fields, goal_cases)
    case (4 e)
    show ?case using fresh by (simp add: I(4) c)
  next
    case (5 a e)
    then show ?case using I(5) [of a e] by simp
  next
    case (6 h)
    then show ?case using I(6) [of h] c by auto
  next
    case (7 a e)
    then show ?case using I(7) [of a e] by simp
  next
    case (8 a e)
    then show ?case using I(8) [of a e] unused fresh c by auto
  next
    case (9 a e a')
    then show ?case using I(9) [of a e a'] I(5) [of a' e] c by auto
  next
    case (10 a e)
    then show ?case using I(10) [of a e] by auto
  next
    case (2 a b e)
    then show ?case by (rule I(2))
  qed (rule I(1) I(3))+
qed

lemma inv_sub_commit:
  assumes "channels_inv s (add_mset (Subscribing sid c) H)" and "subscribe_insert sid c s = (c', s')"
  shows "channels_inv s' (add_mset (Receiving sid c') H)"
proof -
  from assms(1) have held: "receivers_held c H = 0" and unmapped: "\<forall>sid. map_of (ch_map s) sid \<noteq> Some c"
    unfolding channels_inv_def by force+
  note gone = receivers_held_zeroD [OF held]
  show ?thesis
  proof (cases "map_of (ch_map s) sid")
    case None
    then have "c' = c" "s' = s\<lparr>ch_map := kv_put sid c (ch_map s), ch_flag := True\<rparr>"
      using assms(2) by (auto simp: subscribe_insert_def)
    note s' = this
    note I = channels_invD [OF assms(1)]
    have m: "ch_map s' = kv_put sid c (ch_map s)" by (simp add: s')
    have put: "map_of (ch_map s') a = Some e \<longleftrightarrow>
        (a = sid \<and> e = c) \<or> (a \<noteq> sid \<and> map_of (ch_map s) a = Some e)" for a e
      by (auto simp: m)
    show ?thesis
      unfolding s'(1)
    proof (rule channels_invI, goal_cases)
      case 1 show ?case using I(1) by (simp add: m)
    next
      case (2 a b e)
      then show ?case using I(2) [of a e b] unmapped by (auto simp: put)
    next
      case 3 show ?case by (simp add: s')
    next
      case (4 e)
      show ?case using I(4) [of e] by (simp add: s')
    next
      case (5 a e)
      then show ?case using I(5) [of a e] I(6) [of "Subscribing sid c"] by (auto simp: m s' split: if_splits)
    next
      case (6 h)
      then show ?case using I(6) [of h] I(6) [of "Subscribing sid c"] by (auto simp: s')
    next
      case (7 a e)
      then show ?case using I(7) [of a e] None by (auto simp: put)
    next
      case (8 a e)
      then have e: "Subscribing a e \<in># H" by simp
      then have "e \<noteq> c" using gone by auto
      with e show ?case using I(8) [of a e] by simp
    next
      case (9 a e a')
      then have e: "Subscribing a e \<in># H" by simp
      then have "e \<noteq> c" using gone by auto
      with e show ?case using I(9) [of a e a'] by (simp add: put)
    next
      case (10 a e)
      then show ?case using I(10) [of a e] by (auto simp: put)
    qed
  next
    case (Some d)
    then have s': "c' = d" "s' = drop_receiver c (add_receiver d s)"
      using assms(2) by (auto simp: subscribe_insert_def)
    note I = channels_invD [OF assms(1)]
    from unmapped Some have "d \<noteq> c" by auto
    have fields: "ch_map s' = ch_map s" "ch_flag s' = ch_flag s" "ch_next s' = ch_next s"
      "ch_receivers s' = (ch_receivers s)(d := ch_receivers s d + 1, c := ch_receivers s c - 1)"
      using \<open>d \<noteq> c\<close> by (auto simp: s' drop_receiver_def add_receiver_def)
    show ?thesis
      unfolding s'(1)
    proof (rule channels_invI, unfold fields, goal_cases)
      case (4 e)
      show ?case using I(4) [of e] \<open>d \<noteq> c\<close> by (auto simp: I(4))
    next
      case (6 h)
      then show ?case using I(6) [of h] I(5) [OF Some] by auto
    next
      case (7 a e)
      then show ?case using I(7) [of a e] Some by auto
    next
      case (8 a e)
      then have e: "Subscribing a e \<in># H" by simp
      then have "e \<noteq> c" "e \<noteq> d" using gone I(9) [of a e sid] Some by auto
      with e show ?case using I(8) [of a e] by simp
    next
      case (9 a e a')
      then show ?case using I(9) [of a e a'] by simp
    next
      case (10 a e)
      then show ?case using I(10) [of a e] by auto
    next
      case (2 a b e)
      then show ?case by (rule I(2))
    qed (rule I(1) I(3) I(5), assumption?)+
  qed
qed

lemma inv_drop_begin:
  assumes "channels_inv s (add_mset (Receiving sid c) H)"
  shows "channels_inv (drop_receiver c s) (add_mset (Dropping sid c) H)"
proof (rule channels_invI, goal_cases)
  note I = channels_invD [OF assms]
  have mapped: "map_of (ch_map s) sid = Some c" by (rule I(7)) simp
  { case 1 show ?case using I(1) by (simp add: drop_receiver_def) }
  { case 2 then show ?case using I(2) by (simp add: drop_receiver_def) }
  { case 3 show ?case using I(3) by (simp add: drop_receiver_def) }
  { case (4 d) show ?case using I(4) [of d] I(4) [of c] by (auto simp: drop_receiver_def) }
  { case 5 then show ?case using I(5) by (simp add: drop_receiver_def) }
  { case (6 h) then show ?case using I(6) [of h] I(5) [OF mapped] by (auto simp: drop_receiver_def) }
  { case (7 sid' d) then show ?case using I(7) [of sid' d] by (simp add: drop_receiver_def) }
  { case (8 sid' d) then show ?case using I(8) [of sid' d] I(9) [of sid' d sid] mapped by auto }
  { case (9 sid' d) then show ?case using I(9) [of sid' d] by (simp add: drop_receiver_def) }
  { case (10 sid' d) then show ?case using I(10) [of sid' d] by (auto simp: drop_receiver_def) }
qed

lemma inv_dropping_removed:
  assumes "channels_inv s (add_mset (Dropping sid c) H)"
    and "map_of (ch_map s) sid = Some c \<Longrightarrow> Receiving sid c \<in># H"
  shows "channels_inv s H"
proof (rule channels_invI)
  note I = channels_invD [OF assms(1)]
  show "ch_receivers s d = receivers_held d H" for d using I(4) [of d] by simp
  show "Receiving a d \<in># H \<or> Dropping a d \<in># H" if "map_of (ch_map s) a = Some d" for a d
    using I(10) [OF that] that assms(2) by auto
  show "receivers_held d H = 1" if "Subscribing a d \<in># H" for a d
    using I(8) [of a d] that by simp
  show "holder_channel h < ch_next s" if "h \<in># H" for h using I(6) [of h] that by simp
  show "map_of (ch_map s) a = Some d" if "Receiving a d \<in># H" for a d
    using I(7) [of a d] that by simp
  show "map_of (ch_map s) a' \<noteq> Some d" if "Subscribing a d \<in># H" for a d a'
    using I(9) [of a d a'] that by simp
qed (use channels_invD(1-3,5) [OF assms(1)] in \<open>blast+\<close>)

lemma inv_drop_gone:
  "channels_inv s (add_mset (Dropping sid c) H) \<Longrightarrow> map_of (ch_map s) sid \<noteq> Some c \<Longrightarrow> channels_inv s H"
  using inv_dropping_removed by blast

lemma inv_drop_end:
  assumes "channels_inv s (add_mset (Dropping sid c) H)"
  shows "channels_inv (drop_finish sid c s) H"
proof (cases "map_of (ch_map s) sid = Some c \<and> ch_receivers s c = 0")
  case True
  then have s': "drop_finish sid c s =
      s\<lparr>ch_map := kv_del sid (ch_map s), ch_flag := (kv_del sid (ch_map s) \<noteq> [])\<rparr>"
    by (simp add: drop_finish_def Let_def)
  from True assms have "receivers_held c H = 0" unfolding channels_inv_def by simp
  note gone = receivers_held_zeroD [OF this]
  note I = channels_invD [OF assms]
  show ?thesis
  proof (rule channels_invI, goal_cases)
    case (10 sid' d)
    then have "sid' \<noteq> sid" "map_of (ch_map s) sid' = Some d" by (auto simp: s' split: if_splits)
    then show ?case using I(10) [of sid' d] by auto
  next
    case (2 a b d)
    then show ?case using I(2) [of a d b] by (auto simp: s' split: if_splits)
  next
    case (7 sid' d)
    then have "sid' \<noteq> sid \<or> d \<noteq> c" using gone by blast
    with 7 show ?case using I(7) [of sid' d] True by (auto simp: s')
  next
    case (9 sid' d a)
    then show ?case using I(9) [of sid' d a] by (auto simp: s')
  next
    case (5 a d)
    then show ?case using I(5) [of a d] by (auto simp: s' split: if_splits)
  next
    case (6 h)
    then show ?case using I(6) [of h] by (simp add: s')
  next
    case (8 a d)
    then show ?case using I(8) [of a d] by (simp add: s')
  next
    case (4 d)
    show ?case using I(4) [of d] by (simp add: s')
  qed (use I(1) in \<open>simp_all add: s'\<close>)
next
  case False
  then have s': "drop_finish sid c s = s\<lparr>ch_flag := (ch_map s \<noteq> [])\<rparr>"
    by (auto simp: drop_finish_def Let_def split: option.splits)
  have "Receiving sid c \<in># H" if "map_of (ch_map s) sid = Some c"
  proof -
    from False that assms have "receivers_held c H \<noteq> 0" unfolding channels_inv_def by simp
    then obtain h where h: "h \<in># H" "holds_receiver c h"
      using receivers_held_zero [of c H] by auto
    note I = channels_invD [OF assms]
    show ?thesis
    proof (cases h)
      case (Subscribing a d)
      with h I(9) [of a c sid] that show ?thesis by simp
    next
      case (Receiving a d)
      with h have r: "Receiving a c \<in># H" by simp
      with I(7) [of a c] I(2) [of a c sid] that have "a = sid" by auto
      with r show ?thesis by simp
    qed (use h in simp)
  qed
  with assms have "channels_inv s H" by (rule inv_dropping_removed)
  moreover have "drop_finish sid c s = s"
    unfolding s' using channels_invD(3) [OF assms] by simp
  ultimately show ?thesis by simp
qed

lemma channel_step_inv:
  "channel_step sh sh' \<Longrightarrow> channels_inv (fst sh) (snd sh) \<Longrightarrow> channels_inv (fst sh') (snd sh')"
proof (induction rule: channel_step.induct)
  case (drop_gone s sid c H)
  then show ?case using inv_drop_gone [of s sid c H] by simp
qed (simp_all add: inv_sub_found inv_sub_candidate inv_sub_commit inv_drop_begin inv_drop_end)

lemma channels_inv_init: "channels_inv channels_init {#}"
  by (simp add: channels_inv_def channels_init_def)

lemma channels_inv_reachable:
  "channel_step\<^sup>*\<^sup>* (channels_init, {#}) sh \<Longrightarrow> channels_inv (fst sh) (snd sh)"
  by (induction rule: rtranclp_induct) (simp_all add: channels_inv_init channel_step_inv)

section \<open>Properties\<close>

text \<open>
  C14. However subscriptions and drops interleave at their lock sections, a live session receiver is
  always reachable from the enqueue path through the channel it listens on; a receiver of the
  session is never cut off because another one of the same session went away.
\<close>

theorem live_receiver_is_routed:
  assumes "channel_step\<^sup>*\<^sup>* (channels_init, {#}) (s, H)" and "Receiving sid c \<in># H"
  shows "session_channel s (Some sid) = Some c \<and> 0 < ch_receivers s c"
proof -
  from channels_inv_reachable [OF assms(1)] have inv: "channels_inv s H" by simp
  then have "map_of (ch_map s) sid = Some c" "ch_flag s \<longleftrightarrow> ch_map s \<noteq> []"
    "ch_receivers s c = receivers_held c H"
    using assms(2) unfolding channels_inv_def by blast+
  moreover have "receivers_held c H \<noteq> 0" using assms(2) receivers_held_zeroD [of c H sid] by blast
  ultimately show ?thesis by (auto simp: session_channel_def)
qed

lemma subscribe_race:
  "channel_step\<^sup>*\<^sup>* (channels_init, {#})
     (\<lparr>ch_map = [(''s'', 1)], ch_receivers = ((\<lambda>_. 0)(1 := 2)), ch_next = 2, ch_flag = True\<rparr>,
      {# Receiving ''s'' 1, Receiving ''s'' 1 #})"
proof -
  let ?s = "\<lambda>m r n f. \<lparr>ch_map = m, ch_receivers = r, ch_next = n, ch_flag = f\<rparr>"
  let ?z = "\<lambda>_. 0 :: nat"
  have 1: "channel_step (channels_init, {#}) (?s [] (?z(0 := 1)) 1 False, {# Subscribing ''s'' 0 #})"
    by (rule sub_candidate) (simp add: subscribe_lookup_def channels_init_def)
  have 2: "channel_step (?s [] (?z(0 := 1)) 1 False, {# Subscribing ''s'' 0 #})
      (?s [] (?z(0 := 1, 1 := 1)) 2 False, {# Subscribing ''s'' 1, Subscribing ''s'' 0 #})"
    by (rule sub_candidate) (simp add: subscribe_lookup_def)
  have 3: "channel_step (?s [] (?z(0 := 1, 1 := 1)) 2 False, {# Subscribing ''s'' 1, Subscribing ''s'' 0 #})
      (?s [(''s'', 1)] (?z(0 := 1, 1 := 1)) 2 True, {# Receiving ''s'' 1, Subscribing ''s'' 0 #})"
    by (rule sub_commit) (simp add: subscribe_insert_def)
  have 4: "channel_step (?s [(''s'', 1)] (?z(0 := 1, 1 := 1)) 2 True, {# Receiving ''s'' 1, Subscribing ''s'' 0 #})
      (?s [(''s'', 1)] (?z(1 := 2)) 2 True, {# Receiving ''s'' 1, Receiving ''s'' 1 #})"
    unfolding add_mset_commute [of "Receiving ''s'' 1" "Subscribing ''s'' 0"]
    by (rule sub_commit) (auto simp: subscribe_insert_def add_receiver_def drop_receiver_def fun_eq_iff)
  from 1 2 3 4 show ?thesis
    by (rule converse_rtranclp_into_rtranclp [OF _ converse_rtranclp_into_rtranclp
          [OF _ converse_rtranclp_into_rtranclp [OF _ r_into_rtranclp]]])
qed

lemma live_receiver_is_routed_witness:
  "session_channel
     \<lparr>ch_map = [(''s'', 1)], ch_receivers = ((\<lambda>_. 0)(1 := 2)), ch_next = 2, ch_flag = True\<rparr>
     (Some ''s'') = Some 1"
  using live_receiver_is_routed [OF subscribe_race, of "''s''" 1] by simp

text \<open>
  No channel leaks: in every reachable state each entry of the channel map has a receiver or a
  drop in progress, so once the last receiver is gone and its drop has finished the session has no
  entry; the flag tells exactly whether the map is empty.
\<close>

theorem idle_sessions_keep_no_channel:
  assumes "channel_step\<^sup>*\<^sup>* (channels_init, {#}) (s, H)"
  shows "(map_of (ch_map s) sid = Some c \<longrightarrow> Receiving sid c \<in># H \<or> Dropping sid c \<in># H) \<and>
    (ch_flag s \<longleftrightarrow> ch_map s \<noteq> []) \<and> (H = {#} \<longrightarrow> ch_map s = [] \<and> \<not> ch_flag s)"
proof -
  from channels_inv_reachable [OF assms] have inv: "channels_inv s H" by simp
  then have mapped: "\<forall>sid c. map_of (ch_map s) sid = Some c \<longrightarrow> Receiving sid c \<in># H \<or> Dropping sid c \<in># H"
    and flag: "ch_flag s \<longleftrightarrow> ch_map s \<noteq> []"
    unfolding channels_inv_def by blast+
  have "ch_map s = []" if "H = {#}"
    using mapped that by (cases "ch_map s") (auto split: if_splits)
  with mapped flag show ?thesis by blast
qed

lemma idle_sessions_keep_no_channel_witness:
  "ch_flag \<lparr>ch_map = [(''s'', 1)], ch_receivers = ((\<lambda>_. 0)(1 := 2)), ch_next = 2, ch_flag = True\<rparr>"
  using idle_sessions_keep_no_channel [OF subscribe_race] by simp

end
