(* ===== verification/Event_Queue.thy ===== *)
theory Event_Queue
  imports Agentic_Events Session_Channels
begin

text \<open>
  \<open>EventQueue\<close> of \<open>agent-runtime/src/event_queue.rs\<close>: the bounded priority queue with its
  three admission policies, batch dequeueing with acknowledgements, session clearing, statistics,
  and the broadcasts that do not depend on the queue's capacity.

  \<open>BinaryHeap<Reverse<Envelope>>\<close> is the list of its elements in iteration order with
  \<open>heap_push\<close> and \<open>heap_pop\<close>; the standard library fixes neither the iteration order nor
  which of several equal elements is popped, and no property depends on the choice made here
  (locale \<open>min_heap\<close>). A send on a broadcast channel is an entry of a log. The code holds the queue
  lock for the first section of each operation only and then takes the locks of the
  acknowledgements and of the statistics one after another, so each such section is a state
  transformer of its own; an operation is their composition, and the step relation interleaves the
  sections of concurrent calls in any order. The random event identifier and the clock are arguments.
\<close>

section \<open>Minimum heaps\<close>

fun pop_batch :: "('h \<Rightarrow> ('a \<times> 'h) option) \<Rightarrow> nat \<Rightarrow> 'h \<Rightarrow> 'a list \<times> 'h" where
  "pop_batch pop 0 h = ([], h)"
| "pop_batch pop (Suc n) h =
     (case pop h of
        None \<Rightarrow> ([], h)
      | Some (x, h') \<Rightarrow> (case pop_batch pop n h' of (xs, h'') \<Rightarrow> (x # xs, h'')))"

locale min_heap =
  fixes le :: "'a \<Rightarrow> 'a \<Rightarrow> bool"
    and elems :: "'h \<Rightarrow> 'a multiset"
    and push :: "'a \<Rightarrow> 'h \<Rightarrow> 'h"
    and pop :: "'h \<Rightarrow> ('a \<times> 'h) option"
  assumes le_trans: "le a b \<Longrightarrow> le b c \<Longrightarrow> le a c"
    and elems_push: "elems (push x h) = add_mset x (elems h)"
    and pop_None: "pop h = None \<longleftrightarrow> elems h = {#}"
    and pop_elems: "pop h = Some (x, h') \<Longrightarrow> elems h = add_mset x (elems h')"
    and pop_min: "pop h = Some (x, h') \<Longrightarrow> y \<in># elems h' \<Longrightarrow> le x y"
begin

lemma batch_elems: "pop_batch pop n h = (xs, h') \<Longrightarrow> elems h = mset xs + elems h'"
proof (induction n arbitrary: h xs h')
  case (Suc n)
  show ?case
  proof (cases "pop h")
    case (Some p)
    then obtain x g where p: "pop h = Some (x, g)" by (cases p) simp
    obtain ys g' where b: "pop_batch pop n g = (ys, g')" by (cases "pop_batch pop n g")
    from Suc.prems p b have "xs = x # ys" "h' = g'" by simp_all
    with pop_elems [OF p] Suc.IH [OF b] show ?thesis by simp
  qed (use Suc.prems in simp)
qed simp

lemma batch_length: "length (fst (pop_batch pop n h)) = min n (size (elems h))"
proof (induction n arbitrary: h)
  case (Suc n)
  show ?case
  proof (cases "pop h")
    case None
    then have "elems h = {#}" by (simp only: pop_None)
    with None show ?thesis by simp
  next
    case (Some p)
    then obtain x g where p: "pop h = Some (x, g)" by (cases p) simp
    with Suc.IH [of g] pop_elems [OF p] show ?thesis by (cases "pop_batch pop n g") simp
  qed
qed simp

lemma batch_rest_ge:
  "pop_batch pop n h = (xs, h') \<Longrightarrow> x \<in> set xs \<Longrightarrow> y \<in># elems h' \<Longrightarrow> le x y"
proof (induction n arbitrary: h xs h')
  case (Suc n)
  show ?case
  proof (cases "pop h")
    case (Some p)
    then obtain z g where p: "pop h = Some (z, g)" by (cases p) simp
    obtain ys g' where b: "pop_batch pop n g = (ys, g')" by (cases "pop_batch pop n g")
    from Suc.prems p b have xs: "xs = z # ys" "h' = g'" by simp_all
    show ?thesis
    proof (cases "x = z")
      case True
      have "y \<in># elems g" using batch_elems [OF b] Suc.prems(3) xs by simp
      with True pop_min [OF p] show ?thesis by simp
    next
      case False
      with Suc.prems xs Suc.IH [OF b] show ?thesis by simp
    qed
  qed (use Suc.prems in simp)
qed simp

lemma batch_sorted: "pop_batch pop n h = (xs, h') \<Longrightarrow> sorted_wrt le xs"
proof (induction n arbitrary: h xs h')
  case (Suc n)
  show ?case
  proof (cases "pop h")
    case (Some p)
    then obtain z g where p: "pop h = Some (z, g)" by (cases p) simp
    obtain ys g' where b: "pop_batch pop n g = (ys, g')" by (cases "pop_batch pop n g")
    from Suc.prems p b have xs: "xs = z # ys" by simp
    have "\<forall>y \<in> set ys. le z y" using pop_min [OF p] batch_elems [OF b] by simp
    with xs Suc.IH [OF b] show ?thesis by simp
  qed (use Suc.prems in simp)
qed simp

end

fun heap_pop :: "envelope list \<Rightarrow> (envelope \<times> envelope list) option" where
  "heap_pop [] = None"
| "heap_pop (x # xs) =
     (case heap_pop xs of
        None \<Rightarrow> Some (x, [])
      | Some (y, ys) \<Rightarrow> if envelope_le x y then Some (x, xs) else Some (y, x # ys))"

definition heap_push :: "envelope \<Rightarrow> envelope list \<Rightarrow> envelope list" where
  "heap_push x h = h @ [x]"

lemma heap_pop_None [simp]: "heap_pop h = None \<longleftrightarrow> h = []"
  by (cases h) (auto split: option.split)

lemma heap_pop_mset: "heap_pop h = Some (x, h') \<Longrightarrow> mset h = add_mset x (mset h')"
  by (induction h arbitrary: x h') (auto split: option.splits if_splits)

lemma heap_pop_min: "heap_pop h = Some (x, h') \<Longrightarrow> y \<in> set h' \<Longrightarrow> envelope_le x y"
proof (induction h arbitrary: x h' y)
  case (Cons a h)
  show ?case
  proof (cases "heap_pop h")
    case (Some p)
    then obtain z g where z: "heap_pop h = Some (z, g)" by (cases p) simp
    have h: "set h = insert z (set g)"
      using heap_pop_mset [OF z] by (metis set_mset_add_mset_insert set_mset_mset)
    note IH = Cons.IH [OF z]
    show ?thesis
    proof (cases "envelope_le a z")
      case True
      with Cons.prems z have "x = a" "h' = h" by simp_all
      with Cons.prems(2) h have "y = z \<or> y \<in> set g" by simp
      with IH [of y] have "envelope_le z y" by auto
      with \<open>x = a\<close> True show ?thesis using envelope_le_trans by blast
    next
      case False
      with Cons.prems z have "x = z" "h' = a # g" by simp_all
      with Cons.prems(2) IH False envelope_le_total [of a z] show ?thesis by auto
    qed
  qed (use Cons.prems in auto)
qed simp

interpretation event_heap: min_heap envelope_le mset heap_push heap_pop
  by unfold_locales
    (auto simp: heap_push_def heap_pop_mset heap_pop_min intro: envelope_le_trans)

lemma heap_pop_length: "heap_pop h = Some (x, h') \<Longrightarrow> length h = Suc (length h')"
  using heap_pop_mset [of h x h'] by (metis size_add_mset size_mset)

section \<open>Recovery controls\<close>

definition interrupted_control_identity ::
  "agentic_event \<Rightarrow> (string \<times> string \<times> 32 word) option" where
  "interrupted_control_identity e =
     (case e of
        DialogTurnInterrupted s t g _ \<Rightarrow> Some (s, t, g)
      | DialogTurnRecovered s t g \<Rightarrow> Some (s, t, g)
      | _ \<Rightarrow> None)"

definition authoritative_control_supersedes :: "agentic_event \<Rightarrow> agentic_event \<Rightarrow> bool" where
  "authoritative_control_supersedes a p =
     (case a of
        DialogTurnInterrupted s t g _ \<Rightarrow>
          (case interrupted_control_identity p of
             None \<Rightarrow> False
           | Some (ps, pt, pg) \<Rightarrow> ps = s \<and> (pt \<noteq> t \<or> pg \<le> g))
      | _ \<Rightarrow> False)"

definition authoritative_control_is_stale :: "agentic_event \<Rightarrow> agentic_event \<Rightarrow> bool" where
  "authoritative_control_is_stale a p =
     (case interrupted_control_identity a of
        None \<Rightarrow> False
      | Some (s, t, g) \<Rightarrow>
          (case interrupted_control_identity p of
             None \<Rightarrow> False
           | Some (ps, pt, pg) \<Rightarrow> ps = s \<and> pt = t \<and> pg > g))"

definition is_reclaimable_stream_data :: "agentic_event \<Rightarrow> agentic_event \<Rightarrow> bool" where
  "is_reclaimable_stream_data a p =
     (case a of
        DialogTurnInterrupted s t _ _ \<Rightarrow>
          (case p of
             TextChunk ps pt _ _ _ _ \<Rightarrow> ps = s \<and> pt = t
           | ThinkingChunk ps pt _ _ _ _ _ _ \<Rightarrow> ps = s \<and> pt = t
           | _ \<Rightarrow> False)
      | _ \<Rightarrow> False)"

definition is_interrupted :: "agentic_event \<Rightarrow> bool" where
  "is_interrupted e = (case e of DialogTurnInterrupted _ _ _ _ \<Rightarrow> True | _ \<Rightarrow> False)"

section \<open>State\<close>

record event_queue_config =
  max_queue_size :: nat
  batch_size :: nat

definition default_event_queue_config :: event_queue_config where
  "default_event_queue_config = \<lparr>max_queue_size = 10000, batch_size = 10\<rparr>"

record queue_stats =
  pending_events :: nat
  total_enqueued :: nat
  total_processed :: nat

text \<open>
  \<open>eq_acks\<close> are the identifiers whose acknowledgement sender is stored, \<open>eq_acked\<close> those that
  were acknowledged, in order; a sender that is removed without sending fails its waiter.
\<close>

record event_queue =
  eq_queue :: "envelope list"
  eq_notified :: bool
  eq_acks :: "string set"
  eq_acked :: "string list"
  eq_broadcast :: "envelope list"
  eq_channels :: channel_state
  eq_channel_sent :: "(nat \<times> envelope) list"
  eq_config :: event_queue_config
  eq_stats :: queue_stats

datatype event_bus_error = Subscriber string

datatype legacy_queue_policy = BestEffort | RequireImmediateAck | AuthoritativeControl

definition min_event_broadcast_buffer :: nat where
  "min_event_broadcast_buffer = 1024"

definition broadcast_capacity :: "event_queue_config \<Rightarrow> nat" where
  "broadcast_capacity c = max (max_queue_size c) min_event_broadcast_buffer"

definition event_queue_new :: "event_queue_config \<Rightarrow> event_queue" where
  "event_queue_new c =
     \<lparr>eq_queue = [], eq_notified = False, eq_acks = {}, eq_acked = [], eq_broadcast = [],
      eq_channels = channels_init, eq_channel_sent = [], eq_config = c,
      eq_stats = \<lparr>pending_events = 0, total_enqueued = 0, total_processed = 0\<rparr>\<rparr>"

section \<open>Admission\<close>

text \<open>
  The first loop of an authoritative control pops the whole heap and rebuilds it without the
  superseded envelopes.
\<close>

function retain_loop ::
  "(envelope \<Rightarrow> bool) \<Rightarrow> envelope list \<Rightarrow> envelope list \<Rightarrow> string list \<Rightarrow> envelope list \<times> string list" where
  "retain_loop dr h retained removed =
     (case heap_pop h of
        None \<Rightarrow> (retained, removed)
      | Some (x, h') \<Rightarrow>
          if dr x then retain_loop dr h' retained (removed @ [env_id x])
          else retain_loop dr h' (heap_push x retained) removed)"
  by pat_completeness auto

termination retain_loop
  by (relation "measure (\<lambda>(_, h, _, _). length h)") (auto dest: heap_pop_length)

declare retain_loop.simps [simp del]

text \<open>\<open>Iterator::max\<close> returns the last of the greatest elements, \<open>min_by_key\<close> the first of
  the least.\<close>

definition max_envelope :: "envelope list \<Rightarrow> envelope option" where
  "max_envelope es =
     (case es of
        [] \<Rightarrow> None
      | x # xs \<Rightarrow> Some (fold (\<lambda>y acc. if envelope_le acc y then y else acc) xs x))"

definition oldest_envelope :: "envelope list \<Rightarrow> envelope option" where
  "oldest_envelope es =
     (case es of
        [] \<Rightarrow> None
      | x # xs \<Rightarrow>
          Some (fold (\<lambda>y acc. if env_timestamp acc \<le> env_timestamp y then acc else y) xs x))"

definition remove_id :: "string \<Rightarrow> envelope list \<Rightarrow> envelope list" where
  "remove_id i h = filter (\<lambda>e. env_id e \<noteq> i) h"

definition reclaim_stream_data ::
  "nat \<Rightarrow> agentic_event \<Rightarrow> envelope list \<Rightarrow> string list \<Rightarrow> envelope list \<times> string list" where
  "reclaim_stream_data limit a h removed =
     (if length h \<ge> limit
      then (case max_envelope (filter (\<lambda>e. is_reclaimable_stream_data a (env_event e)) h) of
              None \<Rightarrow> (h, removed)
            | Some e \<Rightarrow> (remove_id (env_id e) h, removed @ [env_id e]))
      else (h, removed))"

function evict_controls ::
  "nat \<Rightarrow> nat \<Rightarrow> envelope list \<Rightarrow> string list \<Rightarrow> envelope list \<times> string list" where
  "evict_controls limit pending h removed =
     (if length h \<ge> limit \<and> pending \<ge> max limit 1
      then (case oldest_envelope (filter (\<lambda>e. is_interrupted (env_event e)) h) of
              None \<Rightarrow> (h, removed)
            | Some e \<Rightarrow>
                evict_controls limit (pending - 1) (remove_id (env_id e) h) (removed @ [env_id e]))
      else (h, removed))"
  by pat_completeness auto

termination evict_controls
  by (relation "measure (\<lambda>(_, pending, _, _). pending)") auto

declare evict_controls.simps [simp del]

definition make_room :: "nat \<Rightarrow> agentic_event \<Rightarrow> envelope list \<Rightarrow> envelope list \<times> string list" where
  "make_room limit a h =
     (case retain_loop (\<lambda>p. authoritative_control_supersedes a (env_event p)) h [] [] of
        (h1, r1) \<Rightarrow>
          (case reclaim_stream_data limit a h1 r1 of
             (h2, r2) \<Rightarrow>
               evict_controls limit (length (filter (\<lambda>e. is_interrupted (env_event e)) h2)) h2 r2))"

definition notify_one :: "event_queue \<Rightarrow> event_queue" where
  "notify_one q = q\<lparr>eq_notified := True\<rparr>"

text \<open>
  What \<open>enqueue_internal\<close> does after the queue section: the session's subscribers, all
  subscribers, the statistics, the wake-up.
\<close>

definition send_session :: "envelope \<Rightarrow> event_queue \<Rightarrow> event_queue" where
  "send_session e q =
     (case session_channel (eq_channels q) (event_session_id (env_event e)) of
        None \<Rightarrow> q
      | Some c \<Rightarrow> q\<lparr>eq_channel_sent := eq_channel_sent q @ [(c, e)]\<rparr>)"

definition send_broadcast :: "envelope \<Rightarrow> event_queue \<Rightarrow> event_queue" where
  "send_broadcast e q = q\<lparr>eq_broadcast := eq_broadcast q @ [e]\<rparr>"

definition count_enqueued :: "nat \<Rightarrow> event_queue \<Rightarrow> event_queue" where
  "count_enqueued queue_len q =
     q\<lparr>eq_stats := (eq_stats q)
         \<lparr>total_enqueued := wrap_add_u64 (total_enqueued (eq_stats q)) 1, pending_events := queue_len\<rparr>\<rparr>"

definition publish :: "envelope \<Rightarrow> nat \<Rightarrow> bool \<Rightarrow> event_queue \<Rightarrow> event_queue" where
  "publish e queue_len queued q =
     (let q' = count_enqueued queue_len (send_broadcast e (send_session e q))
      in if queued then notify_one q' else q')"

definition store_envelope :: "envelope \<Rightarrow> legacy_queue_policy \<Rightarrow> event_queue \<Rightarrow> event_queue" where
  "store_envelope e policy q =
     q\<lparr>eq_queue := heap_push e (eq_queue q),
       eq_acks := (if policy = RequireImmediateAck then insert (env_id e) (eq_acks q) else eq_acks q)\<rparr>"

text \<open>
  The section under the queue lock. Its two uses of the acknowledgement lock fall inside it, and the
  identifiers they touch are in the queue or new, those of concurrent acknowledgements already out
  of it, so no order between the two can be observed.
\<close>

datatype section_outcome =
    AlreadyPending string
  | Refused event_bus_error
  | Entered envelope nat bool

definition enqueue_section ::
  "string \<Rightarrow> system_time \<Rightarrow> agentic_event \<Rightarrow> event_priority option \<Rightarrow> legacy_queue_policy \<Rightarrow> event_queue
   \<Rightarrow> section_outcome \<times> event_queue" where
  "enqueue_section eid now ev prio policy q =
     (let p = (case prio of None \<Rightarrow> event_default_priority ev | Some p \<Rightarrow> p);
          e = envelope_new eid now ev p;
          limit = max_queue_size (eq_config q);
          stale = (if policy = AuthoritativeControl
                   then find (\<lambda>x. authoritative_control_is_stale ev (env_event x)) (eq_queue q)
                   else None)
      in case stale of
           Some x \<Rightarrow> (AlreadyPending (env_id x), q)
         | None \<Rightarrow>
             (let q1 = (if policy = AuthoritativeControl
                        then (case make_room limit ev (eq_queue q) of
                                (h, removed) \<Rightarrow>
                                  q\<lparr>eq_queue := h, eq_acks := eq_acks q - set removed\<rparr>)
                        else q)
              in if length (eq_queue q1) \<ge> limit
                 then (case policy of
                         RequireImmediateAck \<Rightarrow> (Refused (Subscriber ''legacy event queue is full''), q1)
                       | AuthoritativeControl \<Rightarrow>
                           (let q2 = store_envelope e policy q1
                            in (Entered e (length (eq_queue q2)) True, q2))
                       | BestEffort \<Rightarrow> (Entered e (length (eq_queue q1)) False, q1))
                 else
                   (let q2 = store_envelope e policy q1
                    in (Entered e (length (eq_queue q2)) True, q2))))"

definition enqueue_internal ::
  "string \<Rightarrow> system_time \<Rightarrow> agentic_event \<Rightarrow> event_priority option \<Rightarrow> legacy_queue_policy \<Rightarrow> event_queue
   \<Rightarrow> (event_bus_error + string \<times> string option) \<times> event_queue" where
  "enqueue_internal eid now ev prio policy q =
     (case enqueue_section eid now ev prio policy q of
        (AlreadyPending i, q') \<Rightarrow> (Inr (i, None), q')
      | (Refused err, q') \<Rightarrow> (Inl err, q')
      | (Entered e queue_len queued, q') \<Rightarrow>
          (Inr (eid, if policy = RequireImmediateAck then Some eid else None),
           publish e queue_len queued q'))"

definition eq_enqueue ::
  "string \<Rightarrow> system_time \<Rightarrow> agentic_event \<Rightarrow> event_priority option \<Rightarrow> event_queue
   \<Rightarrow> (event_bus_error + string) \<times> event_queue" where
  "eq_enqueue eid now ev prio q =
     (case enqueue_internal eid now ev prio BestEffort q of
        (r, q') \<Rightarrow> (map_sum id fst r, q'))"

definition enqueue_with_legacy_dequeue_ack ::
  "string \<Rightarrow> system_time \<Rightarrow> agentic_event \<Rightarrow> event_priority option \<Rightarrow> event_queue
   \<Rightarrow> (event_bus_error + string \<times> string) \<times> event_queue" where
  "enqueue_with_legacy_dequeue_ack eid now ev prio q =
     (case enqueue_internal eid now ev prio RequireImmediateAck q of
        (r, q') \<Rightarrow> (map_sum id (\<lambda>(i, a). (i, the a)) r, q'))"

definition enqueue_with_guaranteed_legacy_storage ::
  "string \<Rightarrow> system_time \<Rightarrow> agentic_event \<Rightarrow> event_priority option \<Rightarrow> event_queue
   \<Rightarrow> (event_bus_error + string) \<times> event_queue" where
  "enqueue_with_guaranteed_legacy_storage eid now ev prio q =
     (case enqueue_internal eid now ev prio AuthoritativeControl q of
        (r, q') \<Rightarrow> (map_sum id fst r, q'))"

section \<open>Delivery\<close>

text \<open>Sending the stored acknowledgements of a batch, in batch order.\<close>

fun acknowledge :: "string list \<Rightarrow> string set \<Rightarrow> string list \<Rightarrow> string set \<times> string list" where
  "acknowledge [] acks acked = (acks, acked)"
| "acknowledge (i # is) acks acked =
     (if i \<in> acks then acknowledge is (acks - {i}) (acked @ [i]) else acknowledge is acks acked)"

definition take_section :: "nat \<Rightarrow> event_queue \<Rightarrow> envelope list \<times> event_queue" where
  "take_section n q =
     (case pop_batch heap_pop (min n (length (eq_queue q))) (eq_queue q) of
        (batch, h) \<Rightarrow> (batch, q\<lparr>eq_queue := h\<rparr>))"

definition acknowledge_batch :: "envelope list \<Rightarrow> event_queue \<Rightarrow> event_queue" where
  "acknowledge_batch batch q =
     (case acknowledge (map env_id batch) (eq_acks q) (eq_acked q) of
        (acks, acked) \<Rightarrow> q\<lparr>eq_acks := acks, eq_acked := acked\<rparr>)"

definition count_processed :: "nat \<Rightarrow> nat \<Rightarrow> event_queue \<Rightarrow> event_queue" where
  "count_processed taken remaining q =
     q\<lparr>eq_stats := (eq_stats q)
         \<lparr>total_processed := wrap_add_u64 (total_processed (eq_stats q)) taken, pending_events := remaining\<rparr>\<rparr>"

definition dequeue_batch :: "nat \<Rightarrow> event_queue \<Rightarrow> envelope list \<times> event_queue" where
  "dequeue_batch n q =
     (case take_section n q of
        (batch, q') \<Rightarrow>
          (batch,
           if batch = [] then q'
           else count_processed (length batch) (length (eq_queue q')) (acknowledge_batch batch q')))"

definition dequeue_configured_batch :: "event_queue \<Rightarrow> envelope list \<times> event_queue" where
  "dequeue_configured_batch q = dequeue_batch (batch_size (eq_config q)) q"

definition clear_section :: "string \<Rightarrow> event_queue \<Rightarrow> string list \<times> event_queue" where
  "clear_section sid q =
     (case retain_loop (\<lambda>e. event_session_id (env_event e) = Some sid) (eq_queue q) [] [] of
        (h, removed) \<Rightarrow> (removed, q\<lparr>eq_queue := h\<rparr>))"

definition drop_acks :: "string list \<Rightarrow> event_queue \<Rightarrow> event_queue" where
  "drop_acks removed q = q\<lparr>eq_acks := eq_acks q - set removed\<rparr>"

definition report_pending :: "nat \<Rightarrow> event_queue \<Rightarrow> event_queue" where
  "report_pending n q = q\<lparr>eq_stats := (eq_stats q)\<lparr>pending_events := n\<rparr>\<rparr>"

definition clear_session :: "string \<Rightarrow> event_queue \<Rightarrow> event_queue" where
  "clear_session sid q =
     (case clear_section sid q of
        (removed, q') \<Rightarrow> report_pending (length (eq_queue q')) (drop_acks removed q'))"

definition eq_len :: "event_queue \<Rightarrow> nat" where
  "eq_len q = length (eq_queue q)"

definition eq_is_empty :: "event_queue \<Rightarrow> bool" where
  "eq_is_empty q = (eq_queue q = [])"

section \<open>What the loops remove\<close>

lemma retain_loop_mset:
  "mset (fst (retain_loop dr h kept removed)) = mset kept + filter_mset (\<lambda>e. \<not> dr e) (mset h)"
  "mset (snd (retain_loop dr h kept removed)) =
     mset removed + image_mset env_id (filter_mset dr (mset h))"
proof (induction dr h kept removed rule: retain_loop.induct)
  case (1 dr h kept removed)
  {
    case 1
    show ?case
    proof (cases "heap_pop h")
      case (Some p)
      then obtain x h' where p: "heap_pop h = Some (x, h')" by (cases p) simp
      with "1.IH"(1) [OF p refl] "1.IH"(3) [OF p refl] heap_pop_mset [OF p]
      show ?thesis by (subst retain_loop.simps) (simp add: heap_push_def)
    qed (subst retain_loop.simps, simp)
  next
    case 2
    show ?case
    proof (cases "heap_pop h")
      case (Some p)
      then obtain x h' where p: "heap_pop h = Some (x, h')" by (cases p) simp
      with "1.IH"(2) [OF p refl] "1.IH"(4) [OF p refl] heap_pop_mset [OF p]
      show ?thesis by (subst retain_loop.simps) simp
    qed (subst retain_loop.simps, simp)
  }
qed

lemma retain_loop_sub: "mset (fst (retain_loop dr h [] [])) \<subseteq># mset h"
  by (simp add: retain_loop_mset)

definition control_count :: "envelope list \<Rightarrow> nat" where
  "control_count h = length (filter (\<lambda>e. is_interrupted (env_event e)) h)"

definition data_count :: "envelope list \<Rightarrow> nat" where
  "data_count h = length (filter (\<lambda>e. \<not> is_interrupted (env_event e)) h)"

lemma control_plus_data: "control_count h + data_count h = length h"
  by (simp add: control_count_def data_count_def sum_length_filter_compl)

lemma size_filter_mono: "mset a \<subseteq># mset b \<Longrightarrow> length (filter P a) \<le> length (filter P b)"
  by (metis mset_filter multiset_filter_mono size_mset size_mset_mono)

lemma counts_mono:
  "mset a \<subseteq># mset b \<Longrightarrow> control_count a \<le> control_count b \<and> data_count a \<le> data_count b \<and>
     length a \<le> length b"
  using size_filter_mono [of a b] size_mset_mono [of "mset a" "mset b"]
  by (simp add: control_count_def data_count_def)

lemma remove_id_sub: "mset (remove_id i h) \<subseteq># mset h"
  by (simp add: remove_id_def)

lemma fold_member: "(\<And>a b. f a b = a \<or> f a b = b) \<Longrightarrow> fold f xs x \<in> insert x (set xs)"
proof (induction xs arbitrary: x)
  case (Cons y ys)
  from Cons.IH [OF Cons.prems, of "f y x"] Cons.prems [of y x] show ?case by auto
qed simp

lemma max_envelope_member: "max_envelope es = Some e \<Longrightarrow> e \<in> set es"
proof (cases es)
  case (Cons x xs)
  have "fold (\<lambda>y acc. if envelope_le acc y then y else acc) xs x \<in> insert x (set xs)"
    by (rule fold_member) auto
  then show "max_envelope es = Some e \<Longrightarrow> ?thesis" by (auto simp: max_envelope_def Cons)
qed (simp add: max_envelope_def)

lemma oldest_envelope_member: "oldest_envelope es = Some e \<Longrightarrow> e \<in> set es"
proof (cases es)
  case (Cons x xs)
  have "fold (\<lambda>y acc. if env_timestamp acc \<le> env_timestamp y then acc else y) xs x \<in> insert x (set xs)"
    by (rule fold_member) auto
  then show "oldest_envelope es = Some e \<Longrightarrow> ?thesis" by (auto simp: oldest_envelope_def Cons)
qed (simp add: oldest_envelope_def)

lemma oldest_envelope_None [simp]: "oldest_envelope es = None \<longleftrightarrow> es = []"
  by (cases es) (simp_all add: oldest_envelope_def)

lemma reclaim_sub: "mset (fst (reclaim_stream_data n a h r)) \<subseteq># mset h"
  by (auto simp: reclaim_stream_data_def remove_id_sub split: option.split)

lemma evict_sub: "mset (fst (evict_controls n p h r)) \<subseteq># mset h"
proof (induction n p h r rule: evict_controls.induct)
  case (1 n p h r)
  then show ?case
    by (subst evict_controls.simps)
      (auto split: option.split intro: subset_mset.order_trans [OF _ remove_id_sub])
qed

lemma control_count_remove_id:
  assumes "e \<in> set h" "is_interrupted (env_event e)"
  shows "control_count (remove_id (env_id e) h) < control_count h"
proof -
  have "filter (\<lambda>x. is_interrupted (env_event x)) (remove_id (env_id e) h) =
      filter (\<lambda>x. env_id x \<noteq> env_id e) (filter (\<lambda>x. is_interrupted (env_event x)) h)"
    by (simp add: remove_id_def conj_commute)
  moreover have "e \<in> set (filter (\<lambda>x. is_interrupted (env_event x)) h)" using assms by simp
  ultimately show ?thesis
    unfolding control_count_def by (metis (mono_tags, lifting) length_filter_less)
qed

lemma evict_controls_reserve:
  "control_count h \<le> p \<Longrightarrow> (h', r') = evict_controls n p h r \<Longrightarrow>
   length h' < n \<or> control_count h' < max n 1"
proof (induction n p h r rule: evict_controls.induct)
  case (1 n p h r)
  show ?case
  proof (cases "n \<le> length h \<and> max n 1 \<le> p")
    case False
    with 1 show ?thesis by (auto simp: evict_controls.simps [of n p h r])
  next
    case go: True
    show ?thesis
    proof (cases "oldest_envelope (filter (\<lambda>e. is_interrupted (env_event e)) h)")
      case None
      then have "control_count h = 0" by (simp add: control_count_def)
      moreover have "evict_controls n p h r = (h, r)"
        using go None by (subst evict_controls.simps) (simp only: if_True option.case simp_thms)
      ultimately show ?thesis using 1(3) by (simp add: less_max_iff_disj)
    next
      case (Some e)
      from oldest_envelope_member [OF Some] have e: "e \<in> set h" "is_interrupted (env_event e)"
        by simp_all
      from control_count_remove_id [OF e] 1(2) have "control_count (remove_id (env_id e) h) \<le> p - 1"
        by simp
      with 1(1) [OF go Some] 1(3) go Some show ?thesis
        by (simp add: evict_controls.simps [of n p h r])
    qed
  qed
qed

lemma make_room_sub: "mset (fst (make_room n a h)) \<subseteq># mset h"
proof -
  let ?h1 = "retain_loop (\<lambda>p. authoritative_control_supersedes a (env_event p)) h [] []"
  let ?h2 = "reclaim_stream_data n a (fst ?h1) (snd ?h1)"
  have "mset (fst (make_room n a h)) \<subseteq># mset (fst ?h2)"
    by (auto simp: make_room_def evict_sub split: prod.split)
  also have "\<dots> \<subseteq># mset (fst ?h1)" by (rule reclaim_sub)
  also have "\<dots> \<subseteq># mset h" by (rule retain_loop_sub)
  finally show ?thesis .
qed

lemma make_room_reserve:
  "length (fst (make_room n a h)) < n \<or> control_count (fst (make_room n a h)) < max n 1"
proof -
  obtain h1 r1 where 1: "retain_loop (\<lambda>p. authoritative_control_supersedes a (env_event p)) h [] [] = (h1, r1)"
    by fastforce
  obtain h2 r2 where 2: "reclaim_stream_data n a h1 r1 = (h2, r2)" by fastforce
  obtain h3 r3 where 3: "evict_controls n (control_count h2) h2 r2 = (h3, r3)" by fastforce
  have "make_room n a h = (h3, r3)"
    unfolding make_room_def 1 prod.case 2 using 3 unfolding control_count_def .
  with evict_controls_reserve [OF order_refl 3 [symmetric]] show ?thesis by simp
qed

section \<open>Queue contents after each operation\<close>

lemma publish_fields [simp]:
  "eq_queue (publish e n b q) = eq_queue q"
  "eq_acks (publish e n b q) = eq_acks q"
  "eq_acked (publish e n b q) = eq_acked q"
  "eq_config (publish e n b q) = eq_config q"
  "eq_broadcast (publish e n b q) = eq_broadcast q @ [e]"
  "pending_events (eq_stats (publish e n b q)) = n"
  by (simp_all add: publish_def send_session_def send_broadcast_def count_enqueued_def notify_one_def
      Let_def split: option.split)

lemma store_envelope_fields [simp]:
  "eq_queue (store_envelope e policy q) = eq_queue q @ [e]"
  "eq_config (store_envelope e policy q) = eq_config q"
  "eq_acked (store_envelope e policy q) = eq_acked q"
  "eq_broadcast (store_envelope e policy q) = eq_broadcast q"
  "eq_acks (store_envelope e policy q) =
     (if policy = RequireImmediateAck then insert (env_id e) (eq_acks q) else eq_acks q)"
  by (simp_all add: store_envelope_def heap_push_def)

definition room_for ::
  "legacy_queue_policy \<Rightarrow> agentic_event \<Rightarrow> event_queue \<Rightarrow> envelope list \<times> string list" where
  "room_for policy ev q =
     (if policy = AuthoritativeControl
      then make_room (max_queue_size (eq_config q)) ev (eq_queue q) else (eq_queue q, []))"

definition stale_control :: "legacy_queue_policy \<Rightarrow> agentic_event \<Rightarrow> event_queue \<Rightarrow> envelope option" where
  "stale_control policy ev q =
     (if policy = AuthoritativeControl
      then find (\<lambda>x. authoritative_control_is_stale ev (env_event x)) (eq_queue q) else None)"

definition new_envelope ::
  "string \<Rightarrow> system_time \<Rightarrow> agentic_event \<Rightarrow> event_priority option \<Rightarrow> envelope" where
  "new_envelope eid now ev prio =
     envelope_new eid now ev (case prio of None \<Rightarrow> event_default_priority ev | Some p \<Rightarrow> p)"

lemma new_envelope_fields [simp]:
  "env_id (new_envelope eid now ev prio) = eid" "env_event (new_envelope eid now ev prio) = ev"
  by (simp_all add: new_envelope_def envelope_new_def)

definition admitted :: "legacy_queue_policy \<Rightarrow> agentic_event \<Rightarrow> event_queue \<Rightarrow> bool" where
  "admitted policy ev q \<longleftrightarrow>
     length (fst (room_for policy ev q)) < max_queue_size (eq_config q) \<or> policy = AuthoritativeControl"

lemma enqueue_internal_result:
  "fst (enqueue_internal eid now ev prio policy q) =
     (case stale_control policy ev q of
        Some x \<Rightarrow> Inr (env_id x, None)
      | None \<Rightarrow>
          if \<not> admitted policy ev q \<and> policy = RequireImmediateAck
          then Inl (Subscriber ''legacy event queue is full'')
          else Inr (eid, if policy = RequireImmediateAck then Some eid else None))"
  by (cases policy; cases "make_room (max_queue_size (eq_config q)) ev (eq_queue q)")
    (auto simp: enqueue_internal_def enqueue_section_def Let_def stale_control_def admitted_def room_for_def
      split: option.split)

lemma enqueue_internal_queue:
  "eq_queue (snd (enqueue_internal eid now ev prio policy q)) =
     (case stale_control policy ev q of
        Some x \<Rightarrow> eq_queue q
      | None \<Rightarrow>
          fst (room_for policy ev q) @
          (if admitted policy ev q then [new_envelope eid now ev prio] else []))"
  by (cases policy; cases "make_room (max_queue_size (eq_config q)) ev (eq_queue q)")
    (auto simp: enqueue_internal_def enqueue_section_def Let_def stale_control_def admitted_def room_for_def
      new_envelope_def split: option.split)

lemma enqueue_internal_broadcast:
  "eq_broadcast (snd (enqueue_internal eid now ev prio policy q)) =
     eq_broadcast q @
     (case fst (enqueue_internal eid now ev prio policy q) of
        Inl _ \<Rightarrow> []
      | Inr _ \<Rightarrow> (if stale_control policy ev q = None then [new_envelope eid now ev prio] else []))"
  by (cases policy; cases "make_room (max_queue_size (eq_config q)) ev (eq_queue q)")
    (auto simp: enqueue_internal_def enqueue_section_def Let_def stale_control_def admitted_def room_for_def
      new_envelope_def split: option.split)

lemma enqueue_internal_acks:
  "eq_acks (snd (enqueue_internal eid now ev prio policy q)) =
     (case stale_control policy ev q of
        Some x \<Rightarrow> eq_acks q
      | None \<Rightarrow>
          eq_acks q - set (snd (room_for policy ev q)) \<union>
          (if admitted policy ev q \<and> policy = RequireImmediateAck then {eid} else {}))"
  "eq_acked (snd (enqueue_internal eid now ev prio policy q)) = eq_acked q"
  "eq_config (snd (enqueue_internal eid now ev prio policy q)) = eq_config q"
  by (cases policy; cases "make_room (max_queue_size (eq_config q)) ev (eq_queue q)";
      auto simp: enqueue_internal_def enqueue_section_def Let_def stale_control_def admitted_def room_for_def
        new_envelope_def envelope_new_def split: option.split)+

abbreviation ids :: "envelope list \<Rightarrow> string set" where
  "ids h \<equiv> env_id ` set h"

lemma ids_remove_id: "ids (remove_id i h) = ids h - {i}"
  by (auto simp: remove_id_def)

lemma retain_loop_ids: "ids h \<subseteq> ids (fst (retain_loop dr h [] [])) \<union> set (snd (retain_loop dr h [] []))"
proof
  fix i assume "i \<in> ids h"
  then obtain e where e: "e \<in> set h" "i = env_id e" by auto
  have "set (fst (retain_loop dr h [] [])) = {e \<in> set h. \<not> dr e}"
    using arg_cong [OF retain_loop_mset(1) [of dr h "[]" "[]"], of set_mset] by simp
  moreover have "set (snd (retain_loop dr h [] [])) = env_id ` {e \<in> set h. dr e}"
    using arg_cong [OF retain_loop_mset(2) [of dr h "[]" "[]"], of set_mset] by simp
  ultimately show "i \<in> ids (fst (retain_loop dr h [] [])) \<union> set (snd (retain_loop dr h [] []))"
    using e by blast
qed

lemma reclaim_ids:
  "reclaim_stream_data n a h r = (h', r') \<Longrightarrow> ids h \<union> set r \<subseteq> ids h' \<union> set r'"
  by (auto simp: reclaim_stream_data_def ids_remove_id split: if_splits option.splits)

lemma evict_ids:
  "evict_controls n p h r = (h', r') \<Longrightarrow> ids h \<union> set r \<subseteq> ids h' \<union> set r'"
proof (induction n p h r rule: evict_controls.induct)
  case (1 n p h r)
  show ?case
  proof (cases "n \<le> length h \<and> max n 1 \<le> p")
    case False
    with 1 show ?thesis by (auto simp: evict_controls.simps [of n p h r])
  next
    case go: True
    show ?thesis
    proof (cases "oldest_envelope (filter (\<lambda>e. is_interrupted (env_event e)) h)")
      case None
      have "evict_controls n p h r = (h, r)"
        using go None by (subst evict_controls.simps) (simp only: if_True option.case simp_thms)
      with 1 show ?thesis by simp
    next
      case (Some e)
      have "evict_controls n p h r = evict_controls n (p - 1) (remove_id (env_id e) h) (r @ [env_id e])"
        using go Some by (subst evict_controls.simps) (simp only: if_True option.case simp_thms)
      with 1(1) [OF go Some] 1(2) show ?thesis by (auto simp: ids_remove_id)
    qed
  qed
qed

lemma make_room_ids: "ids h \<subseteq> ids (fst (make_room n a h)) \<union> set (snd (make_room n a h))"
proof -
  obtain h1 r1 where 1: "retain_loop (\<lambda>p. authoritative_control_supersedes a (env_event p)) h [] [] = (h1, r1)"
    by fastforce
  obtain h2 r2 where 2: "reclaim_stream_data n a h1 r1 = (h2, r2)" by fastforce
  obtain h3 r3 where 3: "evict_controls n (control_count h2) h2 r2 = (h3, r3)" by fastforce
  have "make_room n a h = (h3, r3)"
    unfolding make_room_def 1 prod.case 2 using 3 unfolding control_count_def .
  moreover have "ids h \<subseteq> ids h1 \<union> set r1"
    using retain_loop_ids [of h "\<lambda>p. authoritative_control_supersedes a (env_event p)"] 1 by simp
  ultimately show ?thesis using reclaim_ids [OF 2] evict_ids [OF 3] unfolding fst_conv snd_conv
    by (metis (no_types, lifting) fst_conv snd_conv le_supE subset_trans)
qed

lemma room_for_facts:
  "mset (fst (room_for policy ev q)) \<subseteq># mset (eq_queue q)"
  "ids (eq_queue q) \<subseteq> ids (fst (room_for policy ev q)) \<union> set (snd (room_for policy ev q))"
  using make_room_sub make_room_ids by (auto simp: room_for_def)

lemma acknowledge_eq:
  "distinct is \<Longrightarrow>
   acknowledge is acks acked = (acks - set is, acked @ filter (\<lambda>i. i \<in> acks) is)"
proof (induction "is" arbitrary: acks acked)
  case (Cons i "is")
  then show ?case by (auto intro!: filter_cong)
qed simp

lemma sub_ids: "mset a \<subseteq># mset b \<Longrightarrow> ids a \<subseteq> ids b"
  by (metis image_mono set_mset_mono set_mset_mset)

lemma sub_distinct_ids:
  assumes "mset a \<subseteq># mset b" and "distinct (map env_id b)"
  shows "distinct (map env_id a)"
proof -
  from assms(1) obtain c where "mset b = mset a + c" by (auto simp: mset_subset_eq_exists_conv)
  moreover obtain cs where "c = mset cs" by (metis ex_mset)
  ultimately have "mset (map env_id b) = mset (map env_id (a @ cs))" by simp
  with assms(2) have "distinct (map env_id (a @ cs))" by (metis mset_eq_imp_distinct_iff)
  then show ?thesis by simp
qed

section \<open>Reachable queues\<close>

text \<open>
  The sections of concurrent calls as steps. A call enters with its queue section and leaves what it
  still has to do as a task; any pending task may take the next step. Event identifiers are random
  UUIDs: \<open>er_used\<close> holds those drawn so far, and a new one is fresh. \<open>er_fences\<close> are the
  fences whose caller was given an acknowledgement to wait for, \<open>er_taken\<close> the events handed out in
  batches. Guaranteed storage is used for interruptions, as the coordinator does.
\<close>

datatype event_task =
    SendSession envelope nat bool
  | SendBroadcast envelope nat bool
  | CountEnqueued nat bool
  | Wake
  | Acknowledge "envelope list" nat
  | CountProcessed nat nat
  | DropAcks "string list" nat
  | ReportPending nat

primrec run_task :: "event_task \<Rightarrow> event_queue \<Rightarrow> event_queue \<times> event_task list" where
  "run_task (SendSession e n b) q = (send_session e q, [SendBroadcast e n b])"
| "run_task (SendBroadcast e n b) q = (send_broadcast e q, [CountEnqueued n b])"
| "run_task (CountEnqueued n b) q = (count_enqueued n q, if b then [Wake] else [])"
| "run_task Wake q = (notify_one q, [])"
| "run_task (Acknowledge batch n) q = (acknowledge_batch batch q, [CountProcessed (length batch) n])"
| "run_task (CountProcessed k n) q = (count_processed k n q, [])"
| "run_task (DropAcks removed n) q = (drop_acks removed q, [ReportPending n])"
| "run_task (ReportPending n) q = (report_pending n q, [])"

record event_run =
  er_queue :: event_queue
  er_used :: "string set"
  er_fences :: "string set"
  er_taken :: "string set"
  er_tasks :: "event_task list"

definition event_run_start :: "event_queue_config \<Rightarrow> event_run" where
  "event_run_start c =
     \<lparr>er_queue = event_queue_new c, er_used = {}, er_fences = {}, er_taken = {}, er_tasks = []\<rparr>"

definition enter_run ::
  "string \<Rightarrow> legacy_queue_policy \<Rightarrow> section_outcome \<times> event_queue \<Rightarrow> event_run \<Rightarrow> event_run" where
  "enter_run eid policy res r =
     r\<lparr>er_queue := snd res,
       er_used := insert eid (er_used r),
       er_fences := (case fst res of
                       Entered _ _ _ \<Rightarrow>
                         (if policy = RequireImmediateAck then insert eid (er_fences r) else er_fences r)
                     | _ \<Rightarrow> er_fences r),
       er_tasks := er_tasks r @ (case fst res of Entered e n b \<Rightarrow> [SendSession e n b] | _ \<Rightarrow> [])\<rparr>"

definition take_run :: "envelope list \<times> event_queue \<Rightarrow> event_run \<Rightarrow> event_run" where
  "take_run res r =
     r\<lparr>er_queue := snd res,
       er_taken := er_taken r \<union> ids (fst res),
       er_tasks := er_tasks r @
         (if fst res = [] then [] else [Acknowledge (fst res) (length (eq_queue (snd res)))])\<rparr>"

definition clear_run :: "string list \<times> event_queue \<Rightarrow> event_run \<Rightarrow> event_run" where
  "clear_run res r =
     r\<lparr>er_queue := snd res,
       er_tasks := er_tasks r @ [DropAcks (fst res) (length (eq_queue (snd res)))]\<rparr>"

inductive event_step :: "event_run \<Rightarrow> event_run \<Rightarrow> bool" where
  es_enqueue: "eid \<notin> er_used r \<Longrightarrow> policy = AuthoritativeControl \<longrightarrow> is_interrupted ev \<Longrightarrow>
    event_step r (enter_run eid policy (enqueue_section eid now ev prio policy (er_queue r)) r)"
| es_take: "event_step r (take_run (take_section n (er_queue r)) r)"
| es_clear: "event_step r (clear_run (clear_section sid (er_queue r)) r)"
| es_task: "er_tasks r = us @ t # vs \<Longrightarrow> run_task t (er_queue r) = (q, ts) \<Longrightarrow>
    event_step r (r\<lparr>er_queue := q, er_tasks := us @ ts @ vs\<rparr>)"
| es_wait: "event_step r (r\<lparr>er_queue := (er_queue r)\<lparr>eq_notified := False\<rparr>\<rparr>)"
| es_channels: "channel_step (eq_channels (er_queue r), H) (ch, H') \<Longrightarrow>
    event_step r (r\<lparr>er_queue := (er_queue r)\<lparr>eq_channels := ch\<rparr>\<rparr>)"

text \<open>A call that nothing interrupts is the operation as one function.\<close>

fun finish_tasks :: "nat \<Rightarrow> event_task list \<Rightarrow> event_queue \<Rightarrow> event_queue" where
  "finish_tasks (Suc k) (t # ts) q = (case run_task t q of (q', ts') \<Rightarrow> finish_tasks k (ts' @ ts) q')"
| "finish_tasks _ _ q = q"

lemma uninterrupted_calls:
  "finish_tasks 4 [SendSession e n b] q = publish e n b q"
  "take_section k q = (batch, q') \<Longrightarrow> batch \<noteq> [] \<Longrightarrow>
   finish_tasks 2 [Acknowledge batch (length (eq_queue q'))] q' = snd (dequeue_batch k q)"
  "clear_section sid q = (removed, q') \<Longrightarrow>
   finish_tasks 2 [DropAcks removed (length (eq_queue q'))] q' = clear_session sid q"
  by (simp_all add: publish_def dequeue_batch_def clear_session_def eval_nat_numeral)

definition ack_ids :: "event_task \<Rightarrow> string list" where
  "ack_ids t = (case t of Acknowledge batch _ \<Rightarrow> map env_id batch | _ \<Rightarrow> [])"

definition drop_ids :: "event_task \<Rightarrow> string list" where
  "drop_ids t = (case t of DropAcks removed _ \<Rightarrow> removed | _ \<Rightarrow> [])"

definition awaiting_ack :: "event_run \<Rightarrow> string set" where
  "awaiting_ack r = set (concat (map ack_ids (er_tasks r)))"

definition awaiting_drop :: "event_run \<Rightarrow> string set" where
  "awaiting_drop r = set (concat (map drop_ids (er_tasks r)))"

definition known_ids :: "event_run \<Rightarrow> string multiset" where
  "known_ids r = mset (map env_id (eq_queue (er_queue r))) +
     mset (concat (map (\<lambda>t. ack_ids t @ drop_ids t) (er_tasks r)))"

abbreviation queued_ids :: "event_run \<Rightarrow> string set" where
  "queued_ids r \<equiv> ids (eq_queue (er_queue r))"

definition size_inv :: "event_queue \<Rightarrow> bool" where
  "size_inv q \<longleftrightarrow>
     (let n = max_queue_size (eq_config q); h = eq_queue q
      in data_count h \<le> n \<and> (length h \<le> n \<or> control_count h \<le> max n 1))"

definition fence_inv :: "event_run \<Rightarrow> bool" where
  "fence_inv r \<longleftrightarrow>
     (\<forall>i. count (known_ids r) i \<le> 1) \<and>
     queued_ids r \<union> awaiting_ack r \<union> awaiting_drop r \<union> er_fences r \<union> er_taken r \<subseteq> er_used r \<and>
     awaiting_ack r \<subseteq> er_taken r \<and> er_taken r \<inter> (queued_ids r \<union> awaiting_drop r) = {} \<and>
     eq_acks (er_queue r) = er_fences r \<inter> (queued_ids r \<union> awaiting_ack r \<union> awaiting_drop r) \<and>
     distinct (eq_acked (er_queue r)) \<and>
     set (eq_acked (er_queue r)) = er_fences r \<inter> (er_taken r - awaiting_ack r)"

lemma size_inv_sub:
  assumes "size_inv q" "mset h \<subseteq># mset (eq_queue q)" "eq_queue q' = h" "eq_config q' = eq_config q"
  shows "size_inv q'"
  using assms counts_mono [OF assms(2)] by (auto simp: size_inv_def Let_def)

lemma size_inv_enqueue:
  assumes "size_inv q" and "policy = AuthoritativeControl \<longrightarrow> is_interrupted ev"
  shows "size_inv (snd (enqueue_internal eid now ev prio policy q))"
proof (cases "stale_control policy ev q")
  case (Some x)
  then show ?thesis
    using assms(1) by (simp add: size_inv_def enqueue_internal_queue enqueue_internal_acks)
next
  case None
  let ?h = "fst (room_for policy ev q)" and ?n = "max_queue_size (eq_config q)"
  note mono = counts_mono [OF room_for_facts(1), of policy ev q]
  have d: "data_count (h @ [e]) = data_count h + of_bool (\<not> is_interrupted (env_event e))"
    and c: "control_count (h @ [e]) = control_count h + of_bool (is_interrupted (env_event e))" for h e
    by (simp_all add: data_count_def control_count_def)
  have old: "data_count ?h \<le> ?n" "length ?h \<le> ?n \<or> control_count ?h \<le> max ?n 1"
    using assms(1) mono by (auto simp: size_inv_def Let_def)
  show ?thesis
  proof (cases "length ?h < ?n")
    case True
    then have "data_count ?h < ?n" using control_plus_data [of ?h] by simp
    with None True show ?thesis
      by (auto simp: size_inv_def Let_def enqueue_internal_queue enqueue_internal_acks admitted_def d c)
  next
    case False
    show ?thesis
    proof (cases "policy = AuthoritativeControl")
      case True
      with False make_room_reserve [of ?n ev "eq_queue q"] have "control_count ?h < max ?n 1"
        by (simp add: room_for_def)
      with True None assms(2) old show ?thesis
        by (auto simp: size_inv_def Let_def enqueue_internal_queue enqueue_internal_acks admitted_def d c)
    next
      case pol: False
      with False None old show ?thesis
        by (auto simp: size_inv_def Let_def enqueue_internal_queue enqueue_internal_acks admitted_def)
    qed
  qed
qed

lemma remove_id_absent: "i \<notin> ids h \<Longrightarrow> remove_id i h = h"
  by (auto simp: remove_id_def intro!: filter_True)

lemma remove_id_parts:
  "distinct (map env_id h) \<Longrightarrow> e \<in> set h \<Longrightarrow>
   mset (map env_id h) = add_mset (env_id e) (mset (map env_id (remove_id (env_id e) h)))"
proof (induction h)
  case (Cons x h)
  show ?case
  proof (cases "env_id x = env_id e")
    case True
    then have "remove_id (env_id e) h = h" using Cons.prems by (intro remove_id_absent) simp
    with True show ?thesis by (simp add: remove_id_def)
  next
    case False
    with Cons show ?thesis by (auto simp: remove_id_def)
  qed
qed simp

lemma retain_loop_parts:
  "mset (map env_id h) = mset (map env_id (fst (retain_loop dr h [] []))) + mset (snd (retain_loop dr h [] []))"
  unfolding retain_loop_mset mset_map mset.simps add_0
  by (subst (1) multiset_partition [of "mset h" dr]) (simp only: image_mset_union add.commute)

lemma reclaim_parts:
  assumes "distinct (map env_id h)" and "reclaim_stream_data n a h r = (h', r')"
  shows "mset (map env_id h) + mset r = mset (map env_id h') + mset r'"
proof (cases "max_envelope (filter (\<lambda>e. is_reclaimable_stream_data a (env_event e)) h)")
  case (Some e)
  from max_envelope_member [OF Some] have "e \<in> set h" by simp
  with Some assms show ?thesis
    using remove_id_parts [of h e] by (auto simp: reclaim_stream_data_def split: if_splits)
qed (use assms in \<open>simp add: reclaim_stream_data_def split: if_splits\<close>)

lemma evict_parts:
  "distinct (map env_id h) \<Longrightarrow> evict_controls n p h r = (h', r') \<Longrightarrow>
   mset (map env_id h) + mset r = mset (map env_id h') + mset r'"
proof (induction n p h r rule: evict_controls.induct)
  case (1 n p h r)
  show ?case
  proof (cases "n \<le> length h \<and> max n 1 \<le> p")
    case False
    with 1 show ?thesis by (auto simp: evict_controls.simps [of n p h r])
  next
    case go: True
    show ?thesis
    proof (cases "oldest_envelope (filter (\<lambda>e. is_interrupted (env_event e)) h)")
      case None
      have "evict_controls n p h r = (h, r)"
        using go None by (subst evict_controls.simps) (simp only: if_True option.case simp_thms)
      with 1 show ?thesis by simp
    next
      case (Some e)
      have eq: "evict_controls n p h r = evict_controls n (p - 1) (remove_id (env_id e) h) (r @ [env_id e])"
        using go Some by (subst evict_controls.simps) (simp only: if_True option.case simp_thms)
      from oldest_envelope_member [OF Some] have e: "e \<in> set h" by simp
      have "distinct (map env_id (remove_id (env_id e) h))"
        using 1(2) by (rule sub_distinct_ids [OF remove_id_sub])
      with 1(1) [OF go Some] 1(3) eq remove_id_parts [OF 1(2) e] show ?thesis by simp
    qed
  qed
qed

lemma room_for_parts:
  assumes "distinct (map env_id (eq_queue q))" and "room_for policy ev q = (h, removed)"
  shows "mset (map env_id (eq_queue q)) = mset (map env_id h) + mset removed"
proof (cases "policy = AuthoritativeControl")
  case True
  let ?n = "max_queue_size (eq_config q)"
  obtain h1 r1 where 1: "retain_loop (\<lambda>p. authoritative_control_supersedes ev (env_event p)) (eq_queue q) [] [] = (h1, r1)"
    by fastforce
  obtain h2 r2 where 2: "reclaim_stream_data ?n ev h1 r1 = (h2, r2)" by fastforce
  have 3: "evict_controls ?n (control_count h2) h2 r2 = (h, removed)"
    using assms(2) True unfolding room_for_def make_room_def 1 prod.case 2 control_count_def by simp
  have d1: "distinct (map env_id h1)"
    using sub_distinct_ids [OF retain_loop_sub assms(1), of "\<lambda>p. authoritative_control_supersedes ev (env_event p)"] 1
    by simp
  have d2: "distinct (map env_id h2)"
    using sub_distinct_ids [OF reclaim_sub d1, of ?n ev r1] 2 by simp
  show ?thesis
    using retain_loop_parts [of "eq_queue q" "\<lambda>p. authoritative_control_supersedes ev (env_event p)"] 1
      reclaim_parts [OF d1 2] evict_parts [OF d2 3] by simp
qed (use assms(2) in \<open>simp add: room_for_def\<close>)

lemma enqueue_section_fields:
  "eq_queue (snd (enqueue_section eid now ev prio policy q)) =
     eq_queue (snd (enqueue_internal eid now ev prio policy q))"
  "eq_acks (snd (enqueue_section eid now ev prio policy q)) =
     eq_acks (snd (enqueue_internal eid now ev prio policy q))"
  "eq_acked (snd (enqueue_section eid now ev prio policy q)) = eq_acked q"
  "eq_config (snd (enqueue_section eid now ev prio policy q)) = eq_config q"
  using enqueue_internal_acks(2,3) [of eid now ev prio policy q]
  by (simp_all add: enqueue_internal_def split: prod.splits section_outcome.splits)

lemma enqueue_section_outcome:
  "fst (enqueue_section eid now ev prio policy q) =
     (case stale_control policy ev q of
        Some x \<Rightarrow> AlreadyPending (env_id x)
      | None \<Rightarrow>
          if \<not> admitted policy ev q \<and> policy = RequireImmediateAck
          then Refused (Subscriber ''legacy event queue is full'')
          else Entered (new_envelope eid now ev prio)
            (length (eq_queue (snd (enqueue_section eid now ev prio policy q)))) (admitted policy ev q))"
  by (cases policy; cases "make_room (max_queue_size (eq_config q)) ev (eq_queue q)")
    (auto simp: enqueue_section_def Let_def stale_control_def admitted_def room_for_def
      new_envelope_def split: option.split)

lemma count_at_most_one:
  assumes "\<forall>i. count (A + B) i \<le> 1"
  shows "set_mset A \<inter> set_mset B = {}" and "\<forall>i. count A i \<le> 1" and "\<forall>i. count B i \<le> 1"
proof -
  have le: "count A i + count B i \<le> 1" for i
    using assms by simp
  show "set_mset A \<inter> set_mset B = {}"
  proof (rule ccontr)
    assume "set_mset A \<inter> set_mset B \<noteq> {}"
    then obtain i where "0 < count A i" "0 < count B i" by auto
    with le [of i] show False by simp
  qed
  show "\<forall>i. count A i \<le> 1" "\<forall>i. count B i \<le> 1"
    using le by (meson add_leD1 add_leD2)+
qed

lemma distinct_iff_count: "distinct xs \<longleftrightarrow> (\<forall>i. count (mset xs) i \<le> 1)"
  unfolding distinct_count_atmost_1
  by (metis One_nat_def count_eq_zero_iff le_zero_eq less_one linorder_le_less_linear nle_le
      order_refl set_mset_mset zero_le)

lemma set_known_ids: "set_mset (known_ids r) = queued_ids r \<union> awaiting_ack r \<union> awaiting_drop r"
  by (auto simp: known_ids_def awaiting_ack_def awaiting_drop_def)

lemma fence_invD:
  assumes "fence_inv r"
  shows "distinct (map env_id (eq_queue (er_queue r)))"
    and "queued_ids r \<inter> (awaiting_ack r \<union> awaiting_drop r) = {}"
proof -
  let ?t = "concat (map (\<lambda>t. ack_ids t @ drop_ids t) (er_tasks r))"
  have "\<forall>i. count (mset (map env_id (eq_queue (er_queue r))) + mset ?t) i \<le> 1"
    using assms by (simp add: fence_inv_def known_ids_def)
  note one = count_at_most_one [OF this]
  from one(2) have "distinct (map env_id (eq_queue (er_queue r)))"
    by (rule iffD2 [OF distinct_iff_count])
  moreover from one(1) have "queued_ids r \<inter> set ?t = {}"
    by (simp only: set_mset_mset set_map)
  moreover have "set ?t = awaiting_ack r \<union> awaiting_drop r"
    by (auto simp: awaiting_ack_def awaiting_drop_def)
  ultimately show "distinct (map env_id (eq_queue (er_queue r)))"
    "queued_ids r \<inter> (awaiting_ack r \<union> awaiting_drop r) = {}"
    by simp_all
qed

text \<open>The invariant over named sets, for the proofs about each section.\<close>

lemma fence_invE:
  assumes "fence_inv r"
  obtains Q A D F T U where "queued_ids r = Q" "awaiting_ack r = A" "awaiting_drop r = D"
    "er_fences r = F" "er_taken r = T" "er_used r = U"
    "\<forall>i. count (known_ids r) i \<le> 1" "Q \<union> A \<union> D \<union> F \<union> T \<subseteq> U" "A \<subseteq> T" "T \<inter> (Q \<union> D) = {}"
    "Q \<inter> (A \<union> D) = {}" "eq_acks (er_queue r) = F \<inter> (Q \<union> A \<union> D)" "distinct (eq_acked (er_queue r))"
    "set (eq_acked (er_queue r)) = F \<inter> (T - A)"
  using assms fence_invD(2) [OF assms] by (simp add: fence_inv_def)

lemma fence_invI:
  assumes "queued_ids r = Q" "awaiting_ack r = A" "awaiting_drop r = D"
    "er_fences r = F" "er_taken r = T" "er_used r = U"
    "\<forall>i. count (known_ids r) i \<le> 1" "Q \<union> A \<union> D \<union> F \<union> T \<subseteq> U" "A \<subseteq> T" "T \<inter> (Q \<union> D) = {}"
    "eq_acks (er_queue r) = F \<inter> (Q \<union> A \<union> D)" "distinct (eq_acked (er_queue r))"
    "set (eq_acked (er_queue r)) = F \<inter> (T - A)"
  shows "fence_inv r"
  using assms by (simp add: fence_inv_def)

lemma enter_run_fields [simp]:
  "er_queue (enter_run eid policy res r) = snd res"
  "er_used (enter_run eid policy res r) = insert eid (er_used r)"
  "er_taken (enter_run eid policy res r) = er_taken r"
  by (simp_all add: enter_run_def)

lemma awaiting_enter [simp]:
  "awaiting_ack (enter_run eid policy res r) = awaiting_ack r \<and>
   awaiting_drop (enter_run eid policy res r) = awaiting_drop r"
  by (cases "fst res") (simp_all add: enter_run_def awaiting_ack_def awaiting_drop_def ack_ids_def drop_ids_def)

lemma known_ids_enter:
  "known_ids (enter_run eid policy res r) + mset (map env_id (eq_queue (er_queue r))) =
   known_ids r + mset (map env_id (eq_queue (snd res)))"
  by (cases "fst res") (simp_all add: known_ids_def enter_run_def ack_ids_def drop_ids_def)

lemma fence_inv_enter:
  assumes inv: "fence_inv r" and fresh: "eid \<notin> er_used r"
    and res: "res = enqueue_section eid now ev prio policy (er_queue r)"
  shows "fence_inv (enter_run eid policy res r)"
proof (cases "stale_control policy ev (er_queue r)")
  case (Some x)
  then have "res = (AlreadyPending (env_id x), er_queue r)"
    by (simp add: res enqueue_section_def Let_def stale_control_def)
  moreover from this have "known_ids (enter_run eid policy res r) = known_ids r"
    using known_ids_enter [of eid policy res r] by simp
  ultimately show ?thesis
    using inv by (auto simp: fence_inv_def) (auto simp: enter_run_def)
next
  case None
  let ?q = "er_queue r" and ?r = "enter_run eid policy res r"
  obtain h removed where room: "room_for policy ev ?q = (h, removed)" by fastforce
  note parts = room_for_parts [OF fence_invD(1) [OF inv] room]
  define X where "X = (if admitted policy ev ?q then {eid} else {})"
  define F where "F = (if admitted policy ev ?q \<and> policy = RequireImmediateAck then {eid} else {})"
  have queue: "eq_queue (snd res) = h @ (if admitted policy ev ?q then [new_envelope eid now ev prio] else [])"
    and acks: "eq_acks (snd res) = eq_acks ?q - set removed \<union> F"
    and acked: "eq_acked (snd res) = eq_acked ?q"
    by (simp_all add: res enqueue_section_fields enqueue_internal_queue enqueue_internal_acks None room F_def)
  have fences: "er_fences ?r = er_fences r \<union> F"
    using None by (auto simp: enter_run_def res enqueue_section_outcome F_def)
  have Q: "queued_ids ?r = ids h \<union> X"
    by (simp add: queue X_def)
  have known: "known_ids ?r + mset removed = known_ids r + mset (if admitted policy ev ?q then [eid] else [])"
    using known_ids_enter [of eid policy res r, unfolded parts queue]
    by (cases "admitted policy ev ?q") simp_all
  have unused: "eid \<notin># known_ids r"
    using inv fresh unfolding fence_inv_def set_known_ids by blast
  have one: "\<forall>i. count (known_ids ?r) i \<le> 1"
  proof
    fix i
    have "count (known_ids ?r) i \<le> count (known_ids r) i + (if i = eid then 1 else 0)"
      using arg_cong [OF known, of "\<lambda>M. count M i"] by (auto split: if_splits)
    moreover have "count (known_ids r) i \<le> 1" using inv by (simp add: fence_inv_def)
    moreover have "count (known_ids r) eid = 0" using unused by (simp add: not_in_iff)
    ultimately show "count (known_ids ?r) i \<le> 1" by (auto split: if_splits)
  qed
  have "\<forall>i. count (mset (map env_id h) + mset removed) i \<le> 1"
    using fence_invD(1) [OF inv, unfolded distinct_iff_count parts] .
  from count_at_most_one(1) [OF this] have "ids h \<inter> set removed = {}" by simp
  moreover have "queued_ids r = ids h \<union> set removed"
    using arg_cong [OF parts, of set_mset] by simp
  ultimately have sub: "ids h = queued_ids r - set removed" "set removed \<subseteq> queued_ids r"
    by blast+
  obtain Q A D F0 T U where I: "queued_ids r = Q" "awaiting_ack r = A" "awaiting_drop r = D"
    "er_fences r = F0" "er_taken r = T" "er_used r = U"
    "\<forall>i. count (known_ids r) i \<le> 1" "Q \<union> A \<union> D \<union> F0 \<union> T \<subseteq> U" "A \<subseteq> T" "T \<inter> (Q \<union> D) = {}"
    "Q \<inter> (A \<union> D) = {}" "eq_acks ?q = F0 \<inter> (Q \<union> A \<union> D)" "distinct (eq_acked ?q)"
    "set (eq_acked ?q) = F0 \<inter> (T - A)"
    using inv by (rule fence_invE)
  have fx: "F \<subseteq> X" "X \<subseteq> {eid}" and new: "eid \<notin> U" and kept: "F = X \<or> F = {}"
    using fresh I(6) by (auto simp: F_def X_def)
  obtain R where R: "set removed = R" by blast
  have R_Q: "R \<subseteq> Q" "R \<inter> (A \<union> D) = {}" using sub(2) I(1,11) R by auto
  have X: "X \<inter> F0 = {}" "X \<inter> R = {}" "X \<inter> T = {}" using I(8) R_Q fx new by auto
  show ?thesis
  proof (rule fence_invI [where Q = "Q - set removed \<union> X" and A = A and D = D and F = "F0 \<union> F" and T = T and U = "insert eid U"])
    show "queued_ids ?r = Q - set removed \<union> X" unfolding Q sub(1) I(1) ..
    show "eq_acks (er_queue ?r) = (F0 \<union> F) \<inter> (Q - set removed \<union> X \<union> A \<union> D)"
      unfolding enter_run_fields acks I(12) R using kept
    proof
      assume "F = X"
      then show "F0 \<inter> (Q \<union> A \<union> D) - R \<union> F = (F0 \<union> F) \<inter> (Q - R \<union> X \<union> A \<union> D)"
        using R_Q X by auto
    next
      assume "F = {}"
      then show "F0 \<inter> (Q \<union> A \<union> D) - R \<union> F = (F0 \<union> F) \<inter> (Q - R \<union> X \<union> A \<union> D)"
        using R_Q X by auto
    qed
    show "set (eq_acked (er_queue ?r)) = (F0 \<union> F) \<inter> (T - A)"
      unfolding enter_run_fields acked I(14) using X(3) fx(1) by auto
    show "Q - set removed \<union> X \<union> A \<union> D \<union> (F0 \<union> F) \<union> T \<subseteq> insert eid U" "T \<inter> (Q - set removed \<union> X \<union> D) = {}"
      using I(8,10) fx X(3) by auto
  qed (use one fences acked I in \<open>simp_all\<close>)
qed

lemma eq_enqueue_state [simp]:
  "snd (eq_enqueue eid now ev prio q) = snd (enqueue_internal eid now ev prio BestEffort q)"
  "snd (enqueue_with_legacy_dequeue_ack eid now ev prio q) =
     snd (enqueue_internal eid now ev prio RequireImmediateAck q)"
  "snd (enqueue_with_guaranteed_legacy_storage eid now ev prio q) =
     snd (enqueue_internal eid now ev prio AuthoritativeControl q)"
  by (simp_all add: eq_enqueue_def enqueue_with_legacy_dequeue_ack_def
      enqueue_with_guaranteed_legacy_storage_def split_beta)

lemma dequeue_batch_queue:
  assumes "pop_batch heap_pop (min n (length (eq_queue q))) (eq_queue q) = (batch, h)"
  shows "fst (dequeue_batch n q) = batch" "eq_queue (snd (dequeue_batch n q)) = h"
    "eq_config (snd (dequeue_batch n q)) = eq_config q"
    "eq_acks (snd (dequeue_batch n q)) = fst (acknowledge (map env_id batch) (eq_acks q) (eq_acked q))"
    "eq_acked (snd (dequeue_batch n q)) = snd (acknowledge (map env_id batch) (eq_acks q) (eq_acked q))"
  using assms by (auto simp: dequeue_batch_def take_section_def acknowledge_batch_def count_processed_def split: prod.split)

lemma dequeue_parts:
  "mset (eq_queue q) = mset (fst (dequeue_batch n q)) + mset (eq_queue (snd (dequeue_batch n q)))"
proof -
  obtain b h where b: "pop_batch heap_pop (min n (length (eq_queue q))) (eq_queue q) = (b, h)"
    by fastforce
  show ?thesis using event_heap.batch_elems [OF b] dequeue_batch_queue [OF b] by simp
qed

lemma dequeue_acks:
  assumes "distinct (map env_id (eq_queue q))"
  shows "eq_acks (snd (dequeue_batch n q)) = eq_acks q - ids (fst (dequeue_batch n q))"
    "eq_acked (snd (dequeue_batch n q)) =
       eq_acked q @ filter (\<lambda>i. i \<in> eq_acks q) (map env_id (fst (dequeue_batch n q)))"
proof -
  obtain b h where b: "pop_batch heap_pop (min n (length (eq_queue q))) (eq_queue q) = (b, h)"
    by fastforce
  have "mset b \<subseteq># mset (eq_queue q)" using event_heap.batch_elems [OF b] by simp
  from sub_distinct_ids [OF this assms] have d: "distinct (map env_id b)" .
  show "eq_acks (snd (dequeue_batch n q)) = eq_acks q - ids (fst (dequeue_batch n q))"
    "eq_acked (snd (dequeue_batch n q)) =
       eq_acked q @ filter (\<lambda>i. i \<in> eq_acks q) (map env_id (fst (dequeue_batch n q)))"
    using dequeue_batch_queue [OF b] by (simp_all add: acknowledge_eq [OF d])
qed

lemma dequeue_sub: "mset (eq_queue (snd (dequeue_batch n q))) \<subseteq># mset (eq_queue q)"
  using dequeue_parts [of q n] by simp

lemma dequeue_config [simp]: "eq_config (snd (dequeue_batch n q)) = eq_config q"
  by (auto simp: dequeue_batch_def take_section_def acknowledge_batch_def count_processed_def split: prod.split)

lemma take_section_parts:
  "mset (eq_queue q) = mset (fst (take_section n q)) + mset (eq_queue (snd (take_section n q)))"
  using event_heap.batch_elems [of "min n (length (eq_queue q))" "eq_queue q"]
  by (simp add: take_section_def split: prod.split)

lemma take_section_fields [simp]:
  "eq_acks (snd (take_section n q)) = eq_acks q" "eq_acked (snd (take_section n q)) = eq_acked q"
  "eq_config (snd (take_section n q)) = eq_config q"
  by (simp_all add: take_section_def split: prod.split)

lemma fence_inv_take:
  assumes inv: "fence_inv r" and res: "res = take_section n (er_queue r)"
  shows "fence_inv (take_run res r)"
proof -
  let ?r = "take_run res r"
  have parts: "mset (map env_id (eq_queue (er_queue r))) = mset (map env_id (fst res)) + mset (map env_id (eq_queue (snd res)))"
    using take_section_parts [of "er_queue r" n] by (simp add: res)
  obtain B where B: "ids (fst res) = B" by blast
  have "\<forall>i. count (mset (map env_id (fst res)) + mset (map env_id (eq_queue (snd res)))) i \<le> 1"
    using fence_invD(1) [OF inv, unfolded distinct_iff_count parts] .
  from count_at_most_one(1) [OF this] have "B \<inter> ids (eq_queue (snd res)) = {}" using B by simp
  moreover have "queued_ids r = B \<union> ids (eq_queue (snd res))"
    using arg_cong [OF parts, of set_mset] B by simp
  ultimately have Q: "ids (eq_queue (snd res)) = queued_ids r - B" "B \<subseteq> queued_ids r" by blast+
  have known: "known_ids ?r = known_ids r"
    unfolding known_ids_def parts
    by (cases "fst res = []") (simp_all add: take_run_def ack_ids_def drop_ids_def)
  have waiting: "awaiting_ack ?r = awaiting_ack r \<union> B" "awaiting_drop ?r = awaiting_drop r"
    unfolding B [symmetric]
    by (cases "fst res = []"; auto simp: take_run_def awaiting_ack_def awaiting_drop_def ack_ids_def drop_ids_def)+
  obtain Q A D F T U where I: "queued_ids r = Q" "awaiting_ack r = A" "awaiting_drop r = D"
    "er_fences r = F" "er_taken r = T" "er_used r = U"
    "\<forall>i. count (known_ids r) i \<le> 1" "Q \<union> A \<union> D \<union> F \<union> T \<subseteq> U" "A \<subseteq> T" "T \<inter> (Q \<union> D) = {}"
    "Q \<inter> (A \<union> D) = {}" "eq_acks (er_queue r) = F \<inter> (Q \<union> A \<union> D)" "distinct (eq_acked (er_queue r))"
    "set (eq_acked (er_queue r)) = F \<inter> (T - A)"
    using inv by (rule fence_invE)
  have BQ: "B \<subseteq> Q" "B \<inter> T = {}" "B \<inter> D = {}" using Q(2) I(1,10,11) by auto
  have same: "er_queue ?r = snd res" "er_fences ?r = F" "er_used ?r = U" "er_taken ?r = T \<union> B"
    using I B by (simp_all add: take_run_def)
  show ?thesis
  proof (rule fence_invI [where Q = "Q - B" and A = "A \<union> B" and D = D and F = F and T = "T \<union> B" and U = U])
    show "eq_acks (er_queue ?r) = F \<inter> (Q - B \<union> (A \<union> B) \<union> D)"
      unfolding same using BQ I(12) by (auto simp: res)
    show "set (eq_acked (er_queue ?r)) = F \<inter> (T \<union> B - (A \<union> B))"
      unfolding same using BQ I(14) by (auto simp: res)
    show "(Q - B) \<union> (A \<union> B) \<union> D \<union> F \<union> (T \<union> B) \<subseteq> U" "(T \<union> B) \<inter> (Q - B \<union> D) = {}"
      using BQ I(8,10) by auto
  qed (use same Q I known waiting in \<open>auto simp: res\<close>)
qed

lemma clear_session_facts:
  "mset (eq_queue (clear_session sid q)) \<subseteq># mset (eq_queue q)"
  "eq_config (clear_session sid q) = eq_config q"
  "eq_acked (clear_session sid q) = eq_acked q"
  "eq_acks (clear_session sid q) \<subseteq> eq_acks q"
  "ids (eq_queue q) - ids (eq_queue (clear_session sid q)) \<subseteq> - eq_acks (clear_session sid q)"
  using retain_loop_sub [of "\<lambda>e. event_session_id (env_event e) = Some sid" "eq_queue q"]
    retain_loop_ids [of "eq_queue q" "\<lambda>e. event_session_id (env_event e) = Some sid"]
  by (auto simp: clear_session_def clear_section_def drop_acks_def report_pending_def split: prod.split)

lemma clear_section_parts:
  "mset (map env_id (eq_queue q)) =
   mset (map env_id (eq_queue (snd (clear_section sid q)))) + mset (fst (clear_section sid q))"
  using retain_loop_parts [of "eq_queue q" "\<lambda>e. event_session_id (env_event e) = Some sid"]
  by (simp add: clear_section_def split: prod.split)

lemma clear_section_fields [simp]:
  "eq_acks (snd (clear_section sid q)) = eq_acks q" "eq_acked (snd (clear_section sid q)) = eq_acked q"
  "eq_config (snd (clear_section sid q)) = eq_config q"
  by (simp_all add: clear_section_def split: prod.split)

lemma clear_section_sub: "mset (eq_queue (snd (clear_section sid q))) \<subseteq># mset (eq_queue q)"
  by (simp add: clear_section_def split_beta retain_loop_sub)

lemma fence_inv_clear:
  assumes inv: "fence_inv r" and res: "res = clear_section sid (er_queue r)"
  shows "fence_inv (clear_run res r)"
proof -
  let ?r = "clear_run res r"
  note parts = clear_section_parts [of "er_queue r" sid, folded res]
  obtain R where R: "set (fst res) = R" by blast
  have "\<forall>i. count (mset (map env_id (eq_queue (snd res))) + mset (fst res)) i \<le> 1"
    using fence_invD(1) [OF inv, unfolded distinct_iff_count parts] .
  from count_at_most_one(1) [OF this] have "ids (eq_queue (snd res)) \<inter> R = {}" using R by simp
  moreover have "queued_ids r = ids (eq_queue (snd res)) \<union> R"
    using arg_cong [OF parts, of set_mset] R by simp
  ultimately have Q: "ids (eq_queue (snd res)) = queued_ids r - R" "R \<subseteq> queued_ids r" by blast+
  have known: "known_ids ?r = known_ids r"
    unfolding known_ids_def parts by (simp add: clear_run_def ack_ids_def drop_ids_def)
  have waiting: "awaiting_ack ?r = awaiting_ack r" "awaiting_drop ?r = awaiting_drop r \<union> R"
    unfolding R [symmetric]
    by (auto simp: clear_run_def awaiting_ack_def awaiting_drop_def ack_ids_def drop_ids_def)
  obtain Q A D F T U where I: "queued_ids r = Q" "awaiting_ack r = A" "awaiting_drop r = D"
    "er_fences r = F" "er_taken r = T" "er_used r = U"
    "\<forall>i. count (known_ids r) i \<le> 1" "Q \<union> A \<union> D \<union> F \<union> T \<subseteq> U" "A \<subseteq> T" "T \<inter> (Q \<union> D) = {}"
    "Q \<inter> (A \<union> D) = {}" "eq_acks (er_queue r) = F \<inter> (Q \<union> A \<union> D)" "distinct (eq_acked (er_queue r))"
    "set (eq_acked (er_queue r)) = F \<inter> (T - A)"
    using inv by (rule fence_invE)
  have RQ: "R \<subseteq> Q" "R \<inter> T = {}" using Q(2) I(1,10) by auto
  have same: "er_queue ?r = snd res" "er_fences ?r = F" "er_used ?r = U" "er_taken ?r = T"
    using I by (simp_all add: clear_run_def)
  show ?thesis
  proof (rule fence_invI [where Q = "Q - R" and A = A and D = "D \<union> R" and F = F and T = T and U = U])
    show "eq_acks (er_queue ?r) = F \<inter> (Q - R \<union> A \<union> (D \<union> R))"
      unfolding same using RQ I(12) by (auto simp: res)
    show "(Q - R) \<union> A \<union> (D \<union> R) \<union> F \<union> T \<subseteq> U" "T \<inter> (Q - R \<union> (D \<union> R)) = {}"
      using RQ I(8,10) by auto
  qed (use same Q I known waiting in \<open>auto simp: res\<close>)
qed

lemma run_task_fields:
  assumes "run_task t q = (q', ts)"
  shows "eq_queue q' = eq_queue q" "eq_config q' = eq_config q"
    "concat (map (\<lambda>t. ack_ids t @ drop_ids t) ts) = []"
    "concat (map ack_ids ts) = []" "concat (map drop_ids ts) = []"
  using assms
  by (cases t; auto simp: send_session_def send_broadcast_def count_enqueued_def notify_one_def
      acknowledge_batch_def count_processed_def drop_acks_def report_pending_def ack_ids_def drop_ids_def
      split: option.splits prod.splits)+

lemma run_task_acks:
  assumes "run_task t q = (q', ts)" and "distinct (ack_ids t)"
  shows "eq_acks q' = eq_acks q - set (ack_ids t) - set (drop_ids t)"
    and "eq_acked q' = eq_acked q @ filter (\<lambda>i. i \<in> eq_acks q) (ack_ids t)"
  using assms
  by (cases t; auto simp: send_session_def send_broadcast_def count_enqueued_def notify_one_def
      acknowledge_batch_def acknowledge_eq count_processed_def drop_acks_def report_pending_def
      ack_ids_def drop_ids_def split: option.splits prod.splits)+

lemma Un_middle: "A \<union> (B \<union> C) = A \<union> C \<union> B"
  by blast

lemma fence_inv_task:
  assumes inv: "fence_inv r" and tasks: "er_tasks r = us @ t # vs"
    and run: "run_task t (er_queue r) = (q, ts)"
  shows "fence_inv (r\<lparr>er_queue := q, er_tasks := us @ ts @ vs\<rparr>)"
proof -
  let ?r = "r\<lparr>er_queue := q, er_tasks := us @ ts @ vs\<rparr>"
  note fields = run_task_fields [OF run]
  have known: "known_ids r = known_ids ?r + mset (ack_ids t @ drop_ids t)"
    using fields by (simp add: known_ids_def tasks)
  have new_tasks: "er_tasks ?r = us @ ts @ vs" by simp
  have cut: "concat (map ack_ids (us @ ts @ vs)) = concat (map ack_ids us) @ concat (map ack_ids vs)"
    "concat (map drop_ids (us @ ts @ vs)) = concat (map drop_ids us) @ concat (map drop_ids vs)"
    using fields(4,5) by simp_all
  have wa: "awaiting_ack r = awaiting_ack ?r \<union> set (ack_ids t)"
    unfolding awaiting_ack_def new_tasks cut
    unfolding tasks map_append list.map concat_append concat.simps set_append
    by (rule Un_middle)
  have wd: "awaiting_drop r = awaiting_drop ?r \<union> set (drop_ids t)"
    unfolding awaiting_drop_def new_tasks cut
    unfolding tasks map_append list.map concat_append concat.simps set_append
    by (rule Un_middle)
  have all: "\<forall>i. count (known_ids ?r + mset (ack_ids t @ drop_ids t)) i \<le> 1"
  proof -
    have "\<forall>i. count (known_ids r) i \<le> 1" using inv by (simp add: fence_inv_def)
    then show ?thesis unfolding known .
  qed
  note one = count_at_most_one [OF all]
  have dist: "distinct (ack_ids t @ drop_ids t)"
    using one(3) by (rule iffD2 [OF distinct_iff_count])
  then have d: "distinct (ack_ids t)" "set (ack_ids t) \<inter> set (drop_ids t) = {}" by simp_all
  obtain B where B: "set (ack_ids t) = B" by blast
  obtain R where R: "set (drop_ids t) = R" by blast
  obtain A' where A': "awaiting_ack ?r = A'" by blast
  obtain D' where D': "awaiting_drop ?r = D'" by blast
  obtain Q A D F T U where I: "queued_ids r = Q" "awaiting_ack r = A" "awaiting_drop r = D"
    "er_fences r = F" "er_taken r = T" "er_used r = U"
    "\<forall>i. count (known_ids r) i \<le> 1" "Q \<union> A \<union> D \<union> F \<union> T \<subseteq> U" "A \<subseteq> T" "T \<inter> (Q \<union> D) = {}"
    "Q \<inter> (A \<union> D) = {}" "eq_acks (er_queue r) = F \<inter> (Q \<union> A \<union> D)" "distinct (eq_acked (er_queue r))"
    "set (eq_acked (er_queue r)) = F \<inter> (T - A)"
    using inv by (rule fence_invE)
  have queued: "queued_ids ?r = Q" using fields(1) I(1) by simp
  have "(Q \<union> A' \<union> D') \<inter> (B \<union> R) = {}"
    using one(1) unfolding set_known_ids queued A' D' using B R by simp
  then have S: "Q \<inter> B = {}" "Q \<inter> R = {}" "A' \<inter> B = {}" "A' \<inter> R = {}" "D' \<inter> B = {}" "D' \<inter> R = {}" "B \<inter> R = {}"
    "A = A' \<union> B" "D = D' \<union> R"
    using d(2) B R wa wd I(2,3) A' D' by auto
  have acks: "eq_acks q = F \<inter> (Q \<union> A \<union> D) - B - R"
    and acked: "eq_acked q = eq_acked (er_queue r) @ filter (\<lambda>i. i \<in> eq_acks (er_queue r)) (ack_ids t)"
    using run_task_acks [OF run d(1)] by (simp_all add: I B R)
  have new: "set (filter (\<lambda>i. i \<in> eq_acks (er_queue r)) (ack_ids t)) = F \<inter> B"
    using I(12) B S(8) by auto
  show ?thesis
  proof (rule fence_invI [where Q = Q and A = A' and D = D' and F = F and T = T and U = U])
    show "eq_acks (er_queue ?r) = F \<inter> (Q \<union> A' \<union> D')"
      using acks S by auto
    show "distinct (eq_acked (er_queue ?r))"
      using acked I(13,14) d(1) new S(8) by (auto simp: B)
    show "set (eq_acked (er_queue ?r)) = F \<inter> (T - A')"
      using acked I(14) new S(3,8) I(9) by auto
    show "Q \<union> A' \<union> D' \<union> F \<union> T \<subseteq> U" "A' \<subseteq> T" "T \<inter> (Q \<union> D') = {}"
      using I(8,9,10) S(8,9) by auto
  qed (use queued one(2) A' D' I in simp_all)
qed

lemma fence_inv_batch:
  assumes "fence_inv r" and "er_tasks r = us @ Acknowledge batch n # vs"
  shows "distinct (map env_id batch)" and "ids batch \<subseteq> awaiting_ack r"
proof -
  have "known_ids r = (known_ids (r\<lparr>er_tasks := us @ vs\<rparr>)) + mset (map env_id batch)"
    by (simp add: known_ids_def assms(2) ack_ids_def drop_ids_def)
  then have "\<forall>i. count (known_ids (r\<lparr>er_tasks := us @ vs\<rparr>) + mset (map env_id batch)) i \<le> 1"
    using assms(1) by (simp add: fence_inv_def)
  from count_at_most_one(3) [OF this] show "distinct (map env_id batch)"
    by (rule iffD2 [OF distinct_iff_count])
  show "ids batch \<subseteq> awaiting_ack r"
    by (auto simp: awaiting_ack_def assms(2) ack_ids_def)
qed

lemma fence_inv_cong:
  assumes "fence_inv r" "eq_queue q = eq_queue (er_queue r)" "eq_acks q = eq_acks (er_queue r)"
    "eq_acked q = eq_acked (er_queue r)"
  shows "fence_inv (r\<lparr>er_queue := q\<rparr>)"
  using assms by (simp add: fence_inv_def known_ids_def awaiting_ack_def awaiting_drop_def)

lemma event_step_inv:
  "event_step r r' \<Longrightarrow> size_inv (er_queue r) \<and> fence_inv r \<Longrightarrow> size_inv (er_queue r') \<and> fence_inv r'"
proof (induction rule: event_step.induct)
  case (es_enqueue eid r policy ev now prio)
  then have "size_inv (snd (enqueue_internal eid now ev prio policy (er_queue r)))"
    by (intro size_inv_enqueue) simp_all
  then have "size_inv (snd (enqueue_section eid now ev prio policy (er_queue r)))"
    by (simp add: size_inv_def enqueue_section_fields enqueue_internal_acks)
  with es_enqueue show ?case by (simp add: fence_inv_enter)
next
  case (es_take r n)
  have sub: "mset (eq_queue (snd (take_section n (er_queue r)))) \<subseteq># mset (eq_queue (er_queue r))"
    using take_section_parts [of "er_queue r" n] by simp
  show ?case
    using es_take fence_inv_take [of r] size_inv_sub [OF _ sub refl] by (simp add: take_run_def)
next
  case (es_clear r sid)
  then show ?case
    using fence_inv_clear [of r] size_inv_sub [OF _ clear_section_sub refl] by (simp add: clear_run_def)
next
  case (es_task r us t vs q ts)
  then show ?case
    using fence_inv_task [of r us t vs q ts] run_task_fields(1,2) [of t "er_queue r" q ts]
    by (simp add: size_inv_def)
qed (auto simp: size_inv_def intro: fence_inv_cong)

lemma event_queue_inv_reachable:
  "event_step\<^sup>*\<^sup>* (event_run_start c) r \<Longrightarrow> size_inv (er_queue r) \<and> fence_inv r"
proof (induction rule: rtranclp_induct)
  case base
  show ?case
    by (simp add: size_inv_def fence_inv_def known_ids_def awaiting_ack_def awaiting_drop_def
        event_run_start_def event_queue_new_def data_count_def)
next
  case (step r r')
  then show ?case using event_step_inv by blast
qed

section \<open>What an authoritative control keeps\<close>

lemma remove_id_other:
  "distinct (map env_id h) \<Longrightarrow> e \<in> set h \<Longrightarrow> x \<in> set h \<Longrightarrow> x \<noteq> e \<Longrightarrow> x \<in> set (remove_id (env_id e) h)"
  by (auto simp: remove_id_def distinct_map inj_on_def)

lemma retain_loop_set:
  "set (fst (retain_loop dr h [] [])) = {e \<in> set h. \<not> dr e}"
  using arg_cong [OF retain_loop_mset(1) [of dr h "[]" "[]"], of set_mset] by simp

lemma reclaim_keeps:
  assumes "distinct (map env_id h)" "x \<in> set h" "\<not> is_reclaimable_stream_data a (env_event x)"
  shows "x \<in> set (fst (reclaim_stream_data n a h r))"
proof (cases "max_envelope (filter (\<lambda>e. is_reclaimable_stream_data a (env_event e)) h)")
  case (Some e)
  from max_envelope_member [OF Some] have "e \<in> set h" "x \<noteq> e" using assms(3) by auto
  with Some assms remove_id_other show ?thesis by (simp add: reclaim_stream_data_def)
qed (use assms in \<open>simp add: reclaim_stream_data_def\<close>)

lemma evict_keeps:
  "distinct (map env_id h) \<Longrightarrow> x \<in> set h \<Longrightarrow> \<not> is_interrupted (env_event x) \<Longrightarrow>
   x \<in> set (fst (evict_controls n p h r))"
proof (induction n p h r rule: evict_controls.induct)
  case (1 n p h r)
  show ?case
  proof (cases "n \<le> length h \<and> max n 1 \<le> p")
    case False
    with 1 show ?thesis by (auto simp: evict_controls.simps [of n p h r])
  next
    case go: True
    show ?thesis
    proof (cases "oldest_envelope (filter (\<lambda>e. is_interrupted (env_event e)) h)")
      case None
      have "evict_controls n p h r = (h, r)"
        using go None by (subst evict_controls.simps) (simp only: if_True option.case simp_thms)
      with 1 show ?thesis by simp
    next
      case (Some e)
      have eq: "evict_controls n p h r = evict_controls n (p - 1) (remove_id (env_id e) h) (r @ [env_id e])"
        using go Some by (subst evict_controls.simps) (simp only: if_True option.case simp_thms)
      from oldest_envelope_member [OF Some] 1(4) have "e \<in> set h" "x \<noteq> e" by auto
      with 1 have "x \<in> set (remove_id (env_id e) h)" by (simp add: remove_id_other)
      moreover have "distinct (map env_id (remove_id (env_id e) h))"
        using 1(2) by (rule sub_distinct_ids [OF remove_id_sub])
      ultimately show ?thesis unfolding eq using 1(1) [OF go Some] 1(4) by blast
    qed
  qed
qed

lemma make_room_keeps:
  assumes "distinct (map env_id h)" "x \<in> set h" "\<not> authoritative_control_supersedes a (env_event x)"
    "\<not> is_reclaimable_stream_data a (env_event x)" "\<not> is_interrupted (env_event x)"
  shows "x \<in> set (fst (make_room n a h))"
proof -
  obtain h1 r1 where 1: "retain_loop (\<lambda>p. authoritative_control_supersedes a (env_event p)) h [] [] = (h1, r1)"
    by fastforce
  obtain h2 r2 where 2: "reclaim_stream_data n a h1 r1 = (h2, r2)" by fastforce
  have sub1: "mset h1 \<subseteq># mset h"
    using retain_loop_sub [of "\<lambda>p. authoritative_control_supersedes a (env_event p)" h] 1 by simp
  have sub2: "mset h2 \<subseteq># mset h1" using reclaim_sub [of n a h1 r1] 2 by simp
  have "x \<in> set h1"
    using retain_loop_set [of "\<lambda>p. authoritative_control_supersedes a (env_event p)" h] 1 assms(2,3) by simp
  with reclaim_keeps [OF sub_distinct_ids [OF sub1 assms(1)] _ assms(4), of n r1] 2 have "x \<in> set h2"
    by simp
  with evict_keeps [OF sub_distinct_ids [OF sub2 sub_distinct_ids [OF sub1 assms(1)]] _ assms(5)]
  have "x \<in> set (fst (evict_controls n (control_count h2) h2 r2))" by blast
  then show ?thesis unfolding make_room_def 1 prod.case 2 control_count_def .
qed

lemma make_room_supersedes:
  assumes "x \<in> set (fst (make_room n a h))"
  shows "x \<in> set h \<and> \<not> authoritative_control_supersedes a (env_event x)"
proof -
  obtain h1 r1 where 1: "retain_loop (\<lambda>p. authoritative_control_supersedes a (env_event p)) h [] [] = (h1, r1)"
    by fastforce
  obtain h2 r2 where 2: "reclaim_stream_data n a h1 r1 = (h2, r2)" by fastforce
  have "mset (fst (make_room n a h)) \<subseteq># mset h2"
    unfolding make_room_def 1 prod.case 2 by (rule evict_sub)
  also have "\<dots> \<subseteq># mset h1" using reclaim_sub [of n a h1 r1] 2 by simp
  finally have "set (fst (make_room n a h)) \<subseteq> set h1" by (metis set_mset_mono set_mset_mset)
  moreover have "set h1 = {e \<in> set h. \<not> authoritative_control_supersedes a (env_event e)}"
    using retain_loop_set [of "\<lambda>p. authoritative_control_supersedes a (env_event p)" h] 1 by simp
  ultimately show ?thesis using assms by blast
qed

section \<open>Properties\<close>

text \<open>
  A dequeued batch holds the \<open>min n len\<close> most urgent events in order of priority and age:
  it is sorted, nothing left in the queue precedes anything in it, and no event is lost or
  delivered twice. The statistics report what is left.
\<close>

theorem dequeue_batch_most_urgent:
  "sorted_wrt envelope_le (fst (dequeue_batch n q)) \<and>
   length (fst (dequeue_batch n q)) = min n (eq_len q) \<and>
   mset (eq_queue q) = mset (fst (dequeue_batch n q)) + mset (eq_queue (snd (dequeue_batch n q))) \<and>
   (x \<in> set (fst (dequeue_batch n q)) \<longrightarrow> y \<in> set (eq_queue (snd (dequeue_batch n q))) \<longrightarrow>
      envelope_le x y) \<and>
   (fst (dequeue_batch n q) \<noteq> [] \<longrightarrow>
      pending_events (eq_stats (snd (dequeue_batch n q))) = eq_len (snd (dequeue_batch n q)))"
proof -
  obtain b h where b: "pop_batch heap_pop (min n (length (eq_queue q))) (eq_queue q) = (b, h)"
    by fastforce
  have stats: "b \<noteq> [] \<longrightarrow> pending_events (eq_stats (snd (dequeue_batch n q))) = length h"
    using b by (auto simp: dequeue_batch_def take_section_def acknowledge_batch_def count_processed_def split: prod.split)
  have length_b: "length b = min n (length (eq_queue q))"
    using event_heap.batch_length [of "min n (length (eq_queue q))" "eq_queue q"] b by simp
  show ?thesis
    using event_heap.batch_sorted [OF b] event_heap.batch_elems [OF b] event_heap.batch_rest_ge [OF b, of x y]
      b stats
      length_b
    by (simp add: dequeue_batch_queue [OF b] eq_len_def)
qed

definition example_queue :: event_queue where
  "example_queue =
     snd (eq_enqueue ''b'' 2 (DialogTurnCancelled ''s'' ''t'') None
       (snd (eq_enqueue ''a'' 1 (SessionStateChanged ''s'' ''idle'') None
         (event_queue_new \<lparr>max_queue_size = 2, batch_size = 1\<rparr>))))"

lemma example_queue_fields:
  "eq_queue example_queue =
     [new_envelope ''a'' 1 (SessionStateChanged ''s'' ''idle'') None,
      new_envelope ''b'' 2 (DialogTurnCancelled ''s'' ''t'') None]"
  "max_queue_size (eq_config example_queue) = 2"
  by (simp_all add: example_queue_def enqueue_internal_queue enqueue_internal_acks stale_control_def
      room_for_def admitted_def event_queue_new_def)

lemma dequeue_batch_most_urgent_witness:
  "envelope_le (new_envelope ''b'' 2 (DialogTurnCancelled ''s'' ''t'') None)
     (new_envelope ''a'' 1 (SessionStateChanged ''s'' ''idle'') None)"
proof -
  let ?a = "new_envelope ''a'' 1 (SessionStateChanged ''s'' ''idle'') None"
  let ?b = "new_envelope ''b'' 2 (DialogTurnCancelled ''s'' ''t'') None"
  have "pop_batch heap_pop (Suc 0) [?a, ?b] = ([?b], [?a])"
    by (simp add: envelope_le_def new_envelope_def envelope_new_def event_default_priority_def
        event_priority_order)
  then have "pop_batch heap_pop (min 1 (length (eq_queue example_queue))) (eq_queue example_queue) =
      ([?b], [?a])"
    by (simp add: example_queue_fields)
  note batch = dequeue_batch_queue [OF this]
  show ?thesis
    using dequeue_batch_most_urgent [of 1 example_queue ?b ?a] unfolding batch(1,2) by simp
qed

text \<open>A run with an ordinary event and a fence in the queue.\<close>

definition example_run :: event_run where
  "example_run =
     (let r = enter_run ''a'' BestEffort
                (enqueue_section ''a'' 1 (SessionStateChanged ''s'' ''idle'') None BestEffort
                  (event_queue_new \<lparr>max_queue_size = 2, batch_size = 1\<rparr>))
                (event_run_start \<lparr>max_queue_size = 2, batch_size = 1\<rparr>)
      in enter_run ''f'' RequireImmediateAck
           (enqueue_section ''f'' 2 (DialogTurnRecovered ''s'' ''t'' 5) (Some Critical) RequireImmediateAck (er_queue r)) r)"

lemma example_run_reachable:
  "event_step\<^sup>*\<^sup>* (event_run_start \<lparr>max_queue_size = 2, batch_size = 1\<rparr>) example_run"
proof -
  let ?c = "\<lparr>max_queue_size = 2, batch_size = 1\<rparr>"
  let ?r = "enter_run ''a'' BestEffort (enqueue_section ''a'' 1 (SessionStateChanged ''s'' ''idle'') None
      BestEffort (er_queue (event_run_start ?c))) (event_run_start ?c)"
  have "event_step (event_run_start ?c) ?r"
    by (rule es_enqueue) (simp_all add: event_run_start_def)
  moreover have "event_step ?r (enter_run ''f'' RequireImmediateAck
      (enqueue_section ''f'' 2 (DialogTurnRecovered ''s'' ''t'' 5) (Some Critical) RequireImmediateAck (er_queue ?r)) ?r)"
    by (rule es_enqueue) (simp_all add: event_run_start_def)
  moreover have "er_queue (event_run_start ?c) = event_queue_new ?c"
    by (simp add: event_run_start_def)
  ultimately have "event_step\<^sup>*\<^sup>* (event_run_start ?c) (enter_run ''f'' RequireImmediateAck
      (enqueue_section ''f'' 2 (DialogTurnRecovered ''s'' ''t'' 5) (Some Critical) RequireImmediateAck (er_queue ?r)) ?r)"
    by (meson rtranclp.rtrancl_into_rtrancl rtranclp.rtrancl_refl)
  then show ?thesis
    by (simp add: example_run_def Let_def event_run_start_def)
qed

lemma example_run_fields:
  "eq_queue (er_queue example_run) =
     [new_envelope ''a'' 1 (SessionStateChanged ''s'' ''idle'') None,
      new_envelope ''f'' 2 (DialogTurnRecovered ''s'' ''t'' 5) (Some Critical)]"
  "eq_config (er_queue example_run) = \<lparr>max_queue_size = 2, batch_size = 1\<rparr>"
  "eq_acks (er_queue example_run) = {''f''}" "eq_acked (er_queue example_run) = []"
  "er_used example_run = {''f'', ''a''}"
  by (simp_all add: example_run_def Let_def enqueue_section_fields enqueue_internal_queue enqueue_internal_acks
      stale_control_def room_for_def admitted_def event_queue_new_def event_run_start_def)

text \<open>
  The queue stays bounded whatever is submitted: ordinary events never exceed the configured
  size, and guaranteed interruptions can push the total above it by no more than their own reserve
  of \<open>max size 1\<close>.
\<close>

theorem event_queue_bounded:
  assumes "event_step\<^sup>*\<^sup>* (event_run_start c) r" and "q = er_queue r"
  shows "data_count (eq_queue q) \<le> max_queue_size (eq_config q) \<and>
    eq_len q \<le> max_queue_size (eq_config q) + max (max_queue_size (eq_config q)) 1"
  using event_queue_inv_reachable [OF assms(1)] control_plus_data [of "eq_queue q"] assms(2)
  by (auto simp: size_inv_def Let_def eq_len_def)

lemma event_queue_bounded_witness: "eq_len (er_queue example_run) \<le> 4"
  using event_queue_bounded [OF example_run_reachable refl] by (simp add: example_run_fields)

text \<open>
  C13. Guaranteed storage of an interruption while a newer generation of the same turn is pending
  returns that control's identifier and changes nothing. Otherwise the interruption is stored and
  broadcast, no recovery control it supersedes stays in the queue, and every pending event survives
  that is neither such a control, another interruption, nor a stream chunk of the interrupted turn.
\<close>

theorem authoritative_control_outcome:
  assumes "event_step\<^sup>*\<^sup>* (event_run_start c) r" and "q = er_queue r" and "eid \<notin> er_used r"
    and "ev = DialogTurnInterrupted s t g model"
    and "enqueue_with_guaranteed_legacy_storage eid now ev prio q = (res, q')"
  shows "if \<exists>x \<in> set (eq_queue q). authoritative_control_is_stale ev (env_event x)
    then (\<exists>x \<in> set (eq_queue q). authoritative_control_is_stale ev (env_event x) \<and> res = Inr (env_id x)) \<and>
      q' = q
    else res = Inr eid \<and> new_envelope eid now ev prio \<in> set (eq_queue q') \<and>
      eq_broadcast q' = eq_broadcast q @ [new_envelope eid now ev prio] \<and>
      (\<forall>x. x \<in> set (eq_queue q') \<longrightarrow>
         env_id x = eid \<or> (x \<in> set (eq_queue q) \<and> \<not> authoritative_control_supersedes ev (env_event x))) \<and>
      (\<forall>x. x \<in> set (eq_queue q) \<longrightarrow> \<not> authoritative_control_supersedes ev (env_event x) \<longrightarrow>
         \<not> is_reclaimable_stream_data ev (env_event x) \<longrightarrow> \<not> is_interrupted (env_event x) \<longrightarrow>
         x \<in> set (eq_queue q'))"
proof (cases "stale_control AuthoritativeControl ev q")
  case (Some x)
  then have x: "x \<in> set (eq_queue q)" "authoritative_control_is_stale ev (env_event x)"
    by (auto simp: stale_control_def find_Some_iff in_set_conv_nth)
  have "enqueue_internal eid now ev prio AuthoritativeControl q = (Inr (env_id x, None), q)"
    using Some by (simp add: enqueue_internal_def enqueue_section_def Let_def stale_control_def)
  with assms(5) x show ?thesis by (auto simp: enqueue_with_guaranteed_legacy_storage_def)
next
  case None
  let ?r = "enqueue_internal eid now ev prio AuthoritativeControl q"
  have r: "res = map_sum id fst (fst ?r)" "q' = snd ?r"
    using assms(5) by (auto simp: enqueue_with_guaranteed_legacy_storage_def split: prod.splits)
  have "fst ?r = Inr (eid, None)" using None by (simp add: enqueue_internal_result)
  then have result: "res = Inr eid" using r by simp
  have queue: "eq_queue q' = fst (make_room (max_queue_size (eq_config q)) ev (eq_queue q)) @
      [new_envelope eid now ev prio]"
    using None by (simp add: r enqueue_internal_queue room_for_def admitted_def)
  have dist: "distinct (map env_id (eq_queue q))"
    using event_queue_inv_reachable [OF assms(1)] fence_invD(1) [of r] assms(2) by simp
  have broadcast: "eq_broadcast q' = eq_broadcast q @ [new_envelope eid now ev prio]"
    using None \<open>fst ?r = Inr (eid, None)\<close> by (simp add: r enqueue_internal_broadcast)
  have members: "set (eq_queue q') =
      insert (new_envelope eid now ev prio) (set (fst (make_room (max_queue_size (eq_config q)) ev (eq_queue q))))"
    by (simp add: queue)
  have "env_id x = eid \<or> (x \<in> set (eq_queue q) \<and> \<not> authoritative_control_supersedes ev (env_event x))"
    if "x \<in> set (eq_queue q')" for x
    using that make_room_supersedes [of x "max_queue_size (eq_config q)" ev "eq_queue q"]
    unfolding members by auto
  moreover have "x \<in> set (eq_queue q')"
    if "x \<in> set (eq_queue q)" "\<not> authoritative_control_supersedes ev (env_event x)"
      "\<not> is_reclaimable_stream_data ev (env_event x)" "\<not> is_interrupted (env_event x)" for x
    using make_room_keeps [OF dist that] unfolding members by blast
  moreover have "\<not> (\<exists>x \<in> set (eq_queue q). authoritative_control_is_stale ev (env_event x))"
    using None by (auto simp: stale_control_def find_None_iff)
  ultimately show ?thesis
    using result broadcast members by simp
qed

lemma authoritative_control_outcome_witness:
  "new_envelope ''c'' 3 (DialogTurnInterrupted ''s'' ''t'' 9 None) None
     \<in> set (eq_queue (snd (enqueue_with_guaranteed_legacy_storage ''c'' 3
         (DialogTurnInterrupted ''s'' ''t'' 9 None) None (er_queue example_run)))) \<and>
   snd (enqueue_with_guaranteed_legacy_storage ''c'' 3
     (DialogTurnInterrupted ''s'' ''t'' 1 None) None (er_queue example_run)) = er_queue example_run"
proof -
  let ?ev = "\<lambda>g. DialogTurnInterrupted ''s'' ''t'' g None"
  let ?r = "\<lambda>g. enqueue_with_guaranteed_legacy_storage ''c'' 3 (?ev g) None (er_queue example_run)"
  have stale: "(\<exists>x \<in> set (eq_queue (er_queue example_run)). authoritative_control_is_stale (?ev g) (env_event x))
      \<longleftrightarrow> g < 5" for g
    by (auto simp: example_run_fields authoritative_control_is_stale_def interrupted_control_identity_def)
  have new: "''c'' \<notin> er_used example_run" by (simp add: example_run_fields)
  note outcome = authoritative_control_outcome [OF example_run_reachable refl new refl
      surjective_pairing [of "?r _"], unfolded stale]
  show ?thesis using outcome [of 9] outcome [of 1] by simp
qed

text \<open>
  C15. Acknowledgements of fences are exact, however the sections of concurrent calls interleave. The
  stored acknowledgements are those of the accepted fences that are queued, in a batch still to be
  acknowledged, or removed and still to be dropped; the acknowledged fences are, without repetition,
  those that were handed out in a batch whose acknowledgement has run, and that section sends
  precisely the batch's fences, in batch order. So an acknowledged fence has left the queue, and
  nothing its waiter sends afterwards can overtake it.
\<close>

theorem fences_acknowledged_exactly:
  assumes "event_step\<^sup>*\<^sup>* (event_run_start c) r" and "q = er_queue r"
  shows "eq_acks q = er_fences r \<inter> (ids (eq_queue q) \<union> awaiting_ack r \<union> awaiting_drop r) \<and>
    distinct (eq_acked q) \<and> set (eq_acked q) = er_fences r \<inter> (er_taken r - awaiting_ack r) \<and>
    er_taken r \<inter> ids (eq_queue q) = {} \<and>
    (\<forall>batch n. Acknowledge batch n \<in> set (er_tasks r) \<longrightarrow>
       eq_acked (fst (run_task (Acknowledge batch n) q)) =
         eq_acked q @ filter (\<lambda>i. i \<in> er_fences r) (map env_id batch))"
proof -
  have inv: "fence_inv r" using event_queue_inv_reachable [OF assms(1)] by blast
  have "eq_acked (fst (run_task (Acknowledge batch n) q)) =
      eq_acked q @ filter (\<lambda>i. i \<in> er_fences r) (map env_id batch)"
    if "Acknowledge batch n \<in> set (er_tasks r)" for batch n
  proof -
    from that obtain us vs where tasks: "er_tasks r = us @ Acknowledge batch n # vs"
      by (auto dest: split_list)
    have d: "distinct (map env_id batch)" and sub: "ids batch \<subseteq> awaiting_ack r"
      using fence_inv_batch [OF inv tasks] by simp_all
    have "filter (\<lambda>i. i \<in> eq_acks q) (map env_id batch) = filter (\<lambda>i. i \<in> er_fences r) (map env_id batch)"
      using inv sub assms(2) by (intro filter_cong) (auto simp: fence_inv_def)
    then show ?thesis
      using run_task_acks(2) [of "Acknowledge batch n" q _ _, OF surjective_pairing] d
      by (simp add: ack_ids_def)
  qed
  with inv assms(2) show ?thesis unfolding fence_inv_def by blast
qed

lemma fences_acknowledged_exactly_witness:
  "let r = take_run (take_section 1 (er_queue example_run)) example_run
   in eq_acks (er_queue r) = {''f''} \<and> eq_acked (er_queue r) = [] \<and>
      eq_acked (fst (run_task (hd (tl (tl (er_tasks r)))) (er_queue r))) = [''f'']"
proof -
  let ?r = "take_run (take_section 1 (er_queue example_run)) example_run"
  let ?f = "new_envelope ''f'' 2 (DialogTurnRecovered ''s'' ''t'' 5) (Some Critical)"
  let ?a = "new_envelope ''a'' 1 (SessionStateChanged ''s'' ''idle'') None"
  have "event_step\<^sup>*\<^sup>* (event_run_start \<lparr>max_queue_size = 2, batch_size = 1\<rparr>) ?r"
    using example_run_reachable by (rule rtranclp.rtrancl_into_rtrancl) (rule es_take)
  note exact = fences_acknowledged_exactly [OF this refl]
  have "pop_batch heap_pop (Suc 0) [?a, ?f] = ([?f], [?a])"
    by (simp add: envelope_le_def new_envelope_def envelope_new_def event_default_priority_def
        event_priority_order)
  then have take: "take_section 1 (er_queue example_run) = ([?f], (er_queue example_run)\<lparr>eq_queue := [?a]\<rparr>)"
    by (simp add: take_section_def example_run_fields)
  have tasks: "er_tasks ?r = er_tasks example_run @ [Acknowledge [?f] 1]"
    by (simp add: take [unfolded One_nat_def] take_run_def)
  have "\<exists>x y. er_tasks example_run = [x, y]" and fences: "er_fences example_run = {''f''}"
    by (simp_all add: example_run_def Let_def enter_run_def enqueue_section_outcome stale_control_def admitted_def
        room_for_def event_run_start_def event_queue_new_def enqueue_section_fields enqueue_internal_queue
        enqueue_internal_acks)
  from this(1) have third: "hd (tl (tl (er_tasks ?r))) = Acknowledge [?f] 1"
    unfolding tasks by (elim exE) simp
  have "Acknowledge [?f] 1 \<in> set (er_tasks ?r)" unfolding tasks by simp
  with exact have acked: "eq_acked (fst (run_task (Acknowledge [?f] 1) (er_queue ?r))) =
      eq_acked (er_queue ?r) @ filter (\<lambda>i. i \<in> er_fences ?r) (map env_id [?f])"
    by blast
  have "er_fences ?r = {''f''}" "eq_acked (er_queue ?r) = []" "eq_acks (er_queue ?r) = {''f''}"
    using fences by (simp_all add: take_run_def take [unfolded One_nat_def] example_run_fields)
  then show ?thesis
    unfolding Let_def third acked by simp
qed

text \<open>
  The reserve counts interruptions only. A recovery sent with guaranteed storage, which the
  coordinator does not do, would be stored above any bound.
\<close>

lemma recovery_control_exceeds_reserve:
  assumes "control_count (eq_queue q) = 0"
    and "\<forall>x \<in> set (eq_queue q). \<not> authoritative_control_is_stale ev (env_event x)"
    and "ev = DialogTurnRecovered s t g"
  shows "eq_len (snd (enqueue_with_guaranteed_legacy_storage eid now ev prio q)) = Suc (eq_len q)"
proof -
  let ?n = "max_queue_size (eq_config q)"
  obtain h1 r1 where 1: "retain_loop (\<lambda>p. authoritative_control_supersedes ev (env_event p)) (eq_queue q) [] [] = (h1, r1)"
    by fastforce
  have m: "mset h1 = mset (eq_queue q)"
    using retain_loop_mset(1) [of "\<lambda>p. authoritative_control_supersedes ev (env_event p)" "eq_queue q" "[]" "[]"] 1
    by (simp add: assms(3) authoritative_control_supersedes_def)
  have 2: "reclaim_stream_data ?n ev h1 r1 = (h1, r1)"
    by (simp add: reclaim_stream_data_def assms(3) is_reclaimable_stream_data_def max_envelope_def)
  have "control_count h1 = 0"
    using counts_mono [of h1 "eq_queue q"] m assms(1) by simp
  then have 3: "evict_controls ?n (control_count h1) h1 r1 = (h1, r1)"
    by (subst evict_controls.simps) simp
  have "make_room ?n ev (eq_queue q) = (h1, r1)"
    unfolding make_room_def 1 prod.case 2 using 3 unfolding control_count_def .
  moreover have "stale_control AuthoritativeControl ev q = None"
    using assms(2) by (simp add: stale_control_def find_None_iff)
  moreover have "length h1 = length (eq_queue q)" using m by (metis size_mset)
  ultimately show ?thesis
    by (simp add: eq_len_def enqueue_internal_queue room_for_def admitted_def)
qed

end
