(* ===== verification/Session_Journal.thy ===== *)
theory Session_Journal
  imports Agentic_Events
begin

text \<open>
  The session event journal, \<open>agent-runtime/src/session_event_journal.rs\<close>: one materialized
  projection per session, a bounded replay tail next to it, cursors, catch-up by delta or
  snapshot, and pruning of finished sessions.

  The \<open>HashMap\<close> of sessions is a \<open>kv\<close> list. \<open>record\<close> is \<open>journal_record\<close>: it
  returns the cursor and the store action that the code performs after releasing the lock
  (theory \<open>Projection_Store\<close> performs it), next to the new state. Cursors are \<open>u64\<close> with
  saturation written out.
\<close>

section \<open>State\<close>

definition max_projected_events_per_session :: nat where
  "max_projected_events_per_session = 2048"

definition max_retained_terminal_session_projections :: nat where
  "max_retained_terminal_session_projections = 64"

definition max_replayable_tail_events :: nat where
  "max_replayable_tail_events = 1024"

record session_event_cursor =
  sec_stream_id :: string
  sec_cursor :: nat

record session_event_projection_snapshot =
  snap_session_id :: string
  snap_stream_id :: string
  snap_cursor :: nat
  snap_active_turn_id :: "string option"
  snap_events :: "agentic_event list"

record journaled_event =
  je_cursor :: nat
  je_event :: agentic_event

record session_projection =
  sp_cursor :: nat
  sp_active_turn_id :: "string option"
  sp_events :: "agentic_event list"
  sp_tail :: "journaled_event list"
  sp_terminal :: bool
  sp_last_touched :: nat

definition projection_default :: session_projection where
  "projection_default =
     \<lparr>sp_cursor = 0, sp_active_turn_id = None, sp_events = [], sp_tail = [], sp_terminal = False,
      sp_last_touched = 0\<rparr>"

datatype session_event_backfill =
    Delta string nat "agentic_event list"
  | SnapshotRequired

record journal_state =
  js_stream_id :: string
  js_sequence :: nat
  js_sessions :: "(string, session_projection) kv"

definition with_stream_id :: "string \<Rightarrow> journal_state" where
  "with_stream_id sid = \<lparr>js_stream_id = sid, js_sequence = 0, js_sessions = []\<rparr>"

definition attach_session_event_cursor :: "json \<Rightarrow> session_event_cursor \<Rightarrow> bool \<times> json" where
  "attach_session_event_cursor payload c =
     (case json_as_object payload of
        None \<Rightarrow> (False, payload)
      | Some m \<Rightarrow>
          (True, JObject
             (kv_put ''__openbitfunRuntimeEventCursor'' (JNumber (PosInt (sec_cursor c)))
               (kv_put ''__openbitfunRuntimeStreamId'' (JString (sec_stream_id c)) m))))"

section \<open>The replay tail\<close>

text \<open>The trimming loop pops from the front while the tail is too long.\<close>

fun trim_tail :: "nat \<Rightarrow> journaled_event list \<Rightarrow> journaled_event list" where
  "trim_tail n [] = []"
| "trim_tail n (x # xs) = (if length (x # xs) > n then trim_tail n xs else x # xs)"

definition push_tail :: "nat \<Rightarrow> agentic_event \<Rightarrow> session_projection \<Rightarrow> session_projection" where
  "push_tail c e p =
     p\<lparr>sp_tail := trim_tail max_replayable_tail_events
        (sp_tail p @ [\<lparr>je_cursor = c, je_event = e\<rparr>])\<rparr>"

definition tail_since :: "session_projection \<Rightarrow> nat \<Rightarrow> agentic_event list option" where
  "tail_since p c =
     (if c > sp_cursor p then None
      else if c = sp_cursor p then Some []
      else
        (case sp_tail p of
           [] \<Rightarrow> None
         | oldest # _ \<Rightarrow>
             if je_cursor oldest \<le> sat_add_u64 c 1
             then Some (map je_event (filter (\<lambda>x. je_cursor x > c) (sp_tail p)))
             else None))"

definition clear_replay_content :: "session_projection \<Rightarrow> session_projection" where
  "clear_replay_content p = p\<lparr>sp_events := [], sp_tail := [], sp_active_turn_id := None\<rparr>"

section \<open>Materialization\<close>

definition journal_turn_id :: "agentic_event \<Rightarrow> string option" where
  "journal_turn_id e =
     (case e of
        DialogTurnStarted _ t _ _ _ _ \<Rightarrow> Some t
      | DialogTurnCompleted _ t _ _ _ _ _ _ _ _ \<Rightarrow> Some t
      | DialogTurnCancelled _ t \<Rightarrow> Some t
      | DialogTurnInterrupted _ t _ _ \<Rightarrow> Some t
      | DialogTurnRecovered _ t _ \<Rightarrow> Some t
      | DialogTurnFailed _ t _ _ _ \<Rightarrow> Some t
      | TokenUsageUpdated _ t _ _ _ _ _ _ _ _ _ \<Rightarrow> Some t
      | ContextCompressionStarted _ t _ _ _ _ \<Rightarrow> Some t
      | ContextCompressionCompleted _ t _ _ _ _ _ _ _ _ _ \<Rightarrow> Some t
      | ContextCompressionFailed _ t _ _ \<Rightarrow> Some t
      | ModelRoundStarted _ t _ _ _ _ _ _ \<Rightarrow> Some t
      | ModelRoundAttemptSuperseded _ t _ _ \<Rightarrow> Some t
      | ModelRoundCompleted _ t _ _ _ _ _ _ _ _ _ _ _ _ _ \<Rightarrow> Some t
      | TextChunk _ t _ _ _ _ \<Rightarrow> Some t
      | ThinkingChunk _ t _ _ _ _ _ _ \<Rightarrow> Some t
      | ToolEvent _ t _ _ _ _ \<Rightarrow> Some t
      | DeepReviewQueueStateChanged _ t _ \<Rightarrow> Some t
      | UserSteeringInjected _ t _ _ _ _ \<Rightarrow> Some t
      | SubagentSessionLinked _ t _ _ _ _ _ _ _ \<Rightarrow> Some t
      | _ \<Rightarrow> None)"

definition replace_unique ::
  "agentic_event list \<Rightarrow> agentic_event \<Rightarrow> (agentic_event \<Rightarrow> bool) \<Rightarrow> agentic_event list" where
  "replace_unique es r P =
     (case position P es of Some i \<Rightarrow> es[i := r] | None \<Rightarrow> es @ [r])"

definition compactable_tool_event :: "tool_event_data \<Rightarrow> bool" where
  "compactable_tool_event t =
     (case t of
        EarlyDetected _ \<Rightarrow> True
      | Queued _ _ \<Rightarrow> True
      | Waiting _ _ \<Rightarrow> True
      | Progress _ _ _ \<Rightarrow> True
      | Streaming _ _ \<Rightarrow> True
      | GenUIStream _ _ _ _ _ _ _ _ _ _ _ \<Rightarrow> True
      | _ \<Rightarrow> False)"

text \<open>\<open>std::mem::discriminant\<close>: the constructor of a tool event.\<close>

definition tool_discriminant :: "tool_event_data \<Rightarrow> nat" where
  "tool_discriminant t =
     (case t of
        EarlyDetected _ \<Rightarrow> 0
      | ParamsPartial _ _ \<Rightarrow> 1
      | GenUIStream _ _ _ _ _ _ _ _ _ _ _ \<Rightarrow> 2
      | Queued _ _ \<Rightarrow> 3
      | Waiting _ _ \<Rightarrow> 4
      | Started _ _ _ \<Rightarrow> 5
      | Progress _ _ _ \<Rightarrow> 6
      | Streaming _ _ \<Rightarrow> 7
      | StreamChunk _ _ \<Rightarrow> 8
      | ConfirmationNeeded _ _ _ \<Rightarrow> 9
      | Confirmed _ \<Rightarrow> 10
      | Rejected _ \<Rightarrow> 11
      | Completed _ _ _ _ _ _ _ _ _ \<Rightarrow> 12
      | Failed _ _ _ _ _ _ _ _ \<Rightarrow> 13
      | Cancelled _ _ _ _ _ _ _ \<Rightarrow> 14)"

definition tool_event_of :: "agentic_event \<Rightarrow> tool_event_data option" where
  "tool_event_of e = (case e of ToolEvent _ _ _ _ _ t \<Rightarrow> Some t | _ \<Rightarrow> None)"

definition merge_text :: "agentic_event \<Rightarrow> agentic_event \<Rightarrow> agentic_event option" where
  "merge_text e c =
     (case e of
        TextChunk _ t r a i txt \<Rightarrow>
          (case c of
             TextChunk cs ct cr ca ci ctxt \<Rightarrow>
               if ct = t \<and> cr = r \<and> ca = a \<and> ci = i
               then Some (TextChunk cs ct cr ca ci (ctxt @ txt)) else None
           | _ \<Rightarrow> None)
      | _ \<Rightarrow> None)"

definition merge_thinking :: "agentic_event \<Rightarrow> agentic_event \<Rightarrow> agentic_event option" where
  "merge_thinking e c =
     (case e of
        ThinkingChunk _ t r a i txt k fin \<Rightarrow>
          (case c of
             ThinkingChunk cs ct cr ca ci ctxt ck cfin \<Rightarrow>
               if ct = t \<and> cr = r \<and> ca = a \<and> ci = i \<and> ck = k
               then Some (ThinkingChunk cs ct cr ca ci (ctxt @ txt) ck (cfin \<or> fin)) else None
           | _ \<Rightarrow> None)
      | _ \<Rightarrow> None)"

definition merge_last ::
  "(agentic_event \<Rightarrow> agentic_event option) \<Rightarrow> agentic_event \<Rightarrow> agentic_event list
   \<Rightarrow> agentic_event list" where
  "merge_last f e es =
     (if es = [] then [e]
      else (case f (last es) of Some m \<Rightarrow> butlast es @ [m] | None \<Rightarrow> es @ [e]))"

definition is_params_partial_of :: "string \<Rightarrow> agentic_event \<Rightarrow> bool" where
  "is_params_partial_of tid c =
     (case tool_event_of c of
        Some (ParamsPartial i _) \<Rightarrow> tei_tool_id i = tid
      | _ \<Rightarrow> False)"

definition append_params :: "string \<Rightarrow> agentic_event \<Rightarrow> agentic_event" where
  "append_params ps c =
     (case c of
        ToolEvent s t r a i (ParamsPartial ident acc) \<Rightarrow>
          ToolEvent s t r a i (ParamsPartial ident (acc @ ps))
      | _ \<Rightarrow> c)"

definition merge_params ::
  "agentic_event \<Rightarrow> tool_event_identity \<Rightarrow> string \<Rightarrow> agentic_event list \<Rightarrow> agentic_event list" where
  "merge_params e ident ps es =
     (case position (is_params_partial_of (tei_tool_id ident)) es of
        Some i \<Rightarrow> es[i := append_params ps (es ! i)]
      | None \<Rightarrow> es @ [e])"

definition same_tool_fact :: "bool \<Rightarrow> tool_event_data \<Rightarrow> agentic_event \<Rightarrow> bool" where
  "same_tool_fact need_compactable t c =
     (case tool_event_of c of
        None \<Rightarrow> False
      | Some ct \<Rightarrow>
          (need_compactable \<longrightarrow> compactable_tool_event ct) \<and> tool_id ct = tool_id t \<and>
          tool_discriminant ct = tool_discriminant t)"

text \<open>The match of \<open>apply_event\<close> on an event of the active turn.\<close>

definition project_event :: "agentic_event \<Rightarrow> agentic_event list \<Rightarrow> agentic_event list" where
  "project_event e es =
     (case e of
        TextChunk _ _ _ _ _ _ \<Rightarrow> merge_last (merge_text e) e es
      | ThinkingChunk _ _ _ _ _ _ _ _ \<Rightarrow> merge_last (merge_thinking e) e es
      | ModelRoundStarted _ _ r _ _ _ _ _ \<Rightarrow>
          replace_unique es e
            (\<lambda>c. case c of ModelRoundStarted _ _ cr _ _ _ _ _ \<Rightarrow> cr = r | _ \<Rightarrow> False)
      | ModelRoundCompleted _ _ r _ _ _ _ _ _ _ _ _ _ _ _ \<Rightarrow>
          replace_unique es e
            (\<lambda>c. case c of ModelRoundCompleted _ _ cr _ _ _ _ _ _ _ _ _ _ _ _ \<Rightarrow> cr = r | _ \<Rightarrow> False)
      | TokenUsageUpdated _ _ _ _ _ _ _ _ _ _ _ \<Rightarrow>
          replace_unique es e
            (\<lambda>c. case c of TokenUsageUpdated _ _ _ _ _ _ _ _ _ _ _ \<Rightarrow> True | _ \<Rightarrow> False)
      | ToolEvent _ _ _ _ _ t \<Rightarrow>
          (case t of
             ParamsPartial ident ps \<Rightarrow> merge_params e ident ps es
           | _ \<Rightarrow> replace_unique es e (same_tool_fact (compactable_tool_event t) t))
      | _ \<Rightarrow> es @ [e])"

definition is_noisy :: "agentic_event \<Rightarrow> bool" where
  "is_noisy e =
     (case tool_event_of e of
        Some (Progress _ _ _) \<Rightarrow> True
      | Some (Streaming _ _) \<Rightarrow> True
      | Some (GenUIStream _ _ _ _ _ _ _ _ _ _ _) \<Rightarrow> True
      | Some (StreamChunk _ _) \<Rightarrow> True
      | _ \<Rightarrow> False)"

definition compaction_indices :: "nat \<Rightarrow> agentic_event list \<Rightarrow> nat list" where
  "compaction_indices excess es =
     (let removable = take excess (filter (\<lambda>i. 0 < i \<and> is_noisy (es ! i)) [0..<length es])
      in if length removable < excess
         then removable @
           take (excess - length removable) (filter (\<lambda>i. i \<notin> set removable) [1..<length es])
         else removable)"

definition compact_events :: "agentic_event list \<Rightarrow> agentic_event list" where
  "compact_events es =
     (if length es \<le> max_projected_events_per_session then es
      else fold remove_at
        (rev (sort (compaction_indices (length es - max_projected_events_per_session) es))) es)"

definition compact_projection :: "session_projection \<Rightarrow> session_projection" where
  "compact_projection p = p\<lparr>sp_events := compact_events (sp_events p)\<rparr>"

definition is_terminal_event :: "agentic_event \<Rightarrow> bool" where
  "is_terminal_event e =
     (case e of
        DialogTurnCompleted _ _ _ _ _ _ _ _ _ _ \<Rightarrow> True
      | DialogTurnCancelled _ _ \<Rightarrow> True
      | DialogTurnFailed _ _ _ _ _ \<Rightarrow> True
      | _ \<Rightarrow> False)"

definition started_turn :: "agentic_event \<Rightarrow> string option" where
  "started_turn e = (case e of DialogTurnStarted _ t _ _ _ _ \<Rightarrow> Some t | _ \<Rightarrow> None)"

definition apply_event :: "session_projection \<Rightarrow> agentic_event \<Rightarrow> bool \<times> session_projection" where
  "apply_event p e =
     (case started_turn e of
        Some t \<Rightarrow>
          (let p1 = (if sp_active_turn_id p \<noteq> Some t
                     then p\<lparr>sp_events := [], sp_active_turn_id := Some t\<rparr> else p);
               p2 = p1\<lparr>sp_terminal := False\<rparr>
           in (True,
               p2\<lparr>sp_events := replace_unique (sp_events p2) e (\<lambda>c. started_turn c = Some t)\<rparr>))
      | None \<Rightarrow>
          (case journal_turn_id e of
             None \<Rightarrow> (False, p)
           | Some t \<Rightarrow>
               (let p1 = (if sp_active_turn_id p \<noteq> Some t
                          then p\<lparr>sp_events := [], sp_active_turn_id := Some t, sp_terminal := False\<rparr>
                          else p);
                    p2 = compact_projection (p1\<lparr>sp_events := project_event e (sp_events p1)\<rparr>)
                in (True, if is_terminal_event e then p2\<lparr>sp_terminal := True\<rparr> else p2))))"

section \<open>The journal\<close>

definition update_session ::
  "string \<Rightarrow> (session_projection \<Rightarrow> session_projection) \<Rightarrow> (string, session_projection) kv
   \<Rightarrow> (string, session_projection) kv" where
  "update_session sid f m =
     (case map_of m sid of None \<Rightarrow> m | Some p \<Rightarrow> kv_put sid (f p) m)"

text \<open>
  The order of \<open>sort_unstable_by\<close> on equal keys is unspecified; \<open>last_touched\<close> is the journal
  sequence, which every materialized event increments, so no two sessions share it.
\<close>

definition prune_terminal_projections ::
  "(string, session_projection) kv \<Rightarrow> (string, session_projection) kv" where
  "prune_terminal_projections m =
     (let retained = map (\<lambda>(sid, p). (sid, sp_last_touched p))
            (filter (\<lambda>(sid, p). sp_terminal p \<and> sp_events p \<noteq> []) m)
      in if length retained \<le> max_retained_terminal_session_projections then m
         else fold (\<lambda>(sid, _). update_session sid clear_replay_content)
           (drop max_retained_terminal_session_projections (rev (sort_key snd retained))) m)"

definition is_stream_chunk :: "agentic_event \<Rightarrow> bool" where
  "is_stream_chunk e =
     (case tool_event_of e of Some (StreamChunk _ _) \<Rightarrow> True | _ \<Rightarrow> False)"

definition is_session_deleted :: "agentic_event \<Rightarrow> bool" where
  "is_session_deleted e = (case e of SessionDeleted _ \<Rightarrow> True | _ \<Rightarrow> False)"

datatype store_action =
    NoStoreAction
  | StoreAppend string string nat agentic_event
  | StoreDiscard string

definition touch_projection ::
  "nat \<Rightarrow> agentic_event \<Rightarrow> session_projection \<Rightarrow> bool \<times> session_projection" where
  "touch_projection next_sequence e p =
     (case apply_event p e of
        (False, p1) \<Rightarrow> (False, p1)
      | (True, p1) \<Rightarrow>
          (let c = sat_add_u64 (sp_cursor p1) 1
           in (True, push_tail c e (p1\<lparr>sp_cursor := c, sp_last_touched := next_sequence\<rparr>))))"

definition journal_record ::
  "agentic_event \<Rightarrow> journal_state \<Rightarrow> session_event_cursor option \<times> store_action \<times> journal_state" where
  "journal_record e j =
     (case event_session_id e of
        None \<Rightarrow> (None, NoStoreAction, j)
      | Some sid \<Rightarrow>
          if is_session_deleted e
          then (None, NoStoreAction,
            j\<lparr>js_sessions :=
               update_session sid (\<lambda>p. (clear_replay_content p)\<lparr>sp_terminal := True\<rparr>) (js_sessions j)\<rparr>)
          else if journal_turn_id e = None \<or> is_stream_chunk e then (None, NoStoreAction, j)
          else
            (let next_sequence = sat_add_u64 (js_sequence j) 1;
                 p0 = (case map_of (js_sessions j) sid of None \<Rightarrow> projection_default | Some p \<Rightarrow> p)
             in case touch_projection next_sequence e p0 of
                  (False, p) \<Rightarrow>
                    (None, NoStoreAction, j\<lparr>js_sessions := kv_put sid p (js_sessions j)\<rparr>)
                | (True, p) \<Rightarrow>
                    (let m = prune_terminal_projections (kv_put sid p (js_sessions j));
                         terminal = (case map_of m sid of None \<Rightarrow> False | Some p' \<Rightarrow> sp_terminal p')
                     in (Some \<lparr>sec_stream_id = js_stream_id j, sec_cursor = sp_cursor p\<rparr>,
                         (if terminal then StoreDiscard sid
                          else StoreAppend sid (js_stream_id j) (sp_cursor p) e),
                         j\<lparr>js_sequence := next_sequence, js_sessions := m\<rparr>))))"

definition events_since :: "journal_state \<Rightarrow> string \<Rightarrow> string \<Rightarrow> nat \<Rightarrow> session_event_backfill" where
  "events_since j sid stream c =
     (if js_stream_id j \<noteq> stream then SnapshotRequired
      else
        (case map_of (js_sessions j) sid of
           None \<Rightarrow> SnapshotRequired
         | Some p \<Rightarrow>
             (case tail_since p c of
                Some es \<Rightarrow> Delta (js_stream_id j) (sp_cursor p) es
              | None \<Rightarrow> SnapshotRequired)))"

definition projection_snapshot :: "journal_state \<Rightarrow> string \<Rightarrow> session_event_projection_snapshot" where
  "projection_snapshot j sid =
     (let p = map_of (js_sessions j) sid
      in \<lparr>snap_session_id = sid,
          snap_stream_id = js_stream_id j,
          snap_cursor = (case p of None \<Rightarrow> 0 | Some p \<Rightarrow> sp_cursor p),
          snap_active_turn_id = (case p of None \<Rightarrow> None | Some p \<Rightarrow> sp_active_turn_id p),
          snap_events = (case p of None \<Rightarrow> [] | Some p \<Rightarrow> sp_events p)\<rparr>)"

fun replay_events :: "session_projection \<Rightarrow> agentic_event list \<Rightarrow> session_projection" where
  "replay_events p [] = p"
| "replay_events p (e # es) =
     (case apply_event p e of
        (True, p') \<Rightarrow> replay_events (p'\<lparr>sp_cursor := sat_add_u64 (sp_cursor p') 1\<rparr>) es
      | (False, p') \<Rightarrow> replay_events p' es)"

text \<open>\<open>snapshot\<close>, with what the store loads for the session (\<open>None\<close> without a store).\<close>

definition journal_snapshot ::
  "(string \<times> agentic_event list) option \<Rightarrow> journal_state \<Rightarrow> string
   \<Rightarrow> session_event_projection_snapshot" where
  "journal_snapshot stored j sid =
     (if map_of (js_sessions j) sid \<noteq> None then projection_snapshot j sid
      else
        (case stored of
           None \<Rightarrow>
             \<lparr>snap_session_id = sid, snap_stream_id = js_stream_id j, snap_cursor = 0,
              snap_active_turn_id = None, snap_events = []\<rparr>
         | Some (stream, events) \<Rightarrow>
             (let p = replay_events projection_default events
              in \<lparr>snap_session_id = sid, snap_stream_id = stream, snap_cursor = sp_cursor p,
                  snap_active_turn_id = sp_active_turn_id p, snap_events = sp_events p\<rparr>)))"

section \<open>Applying events\<close>

definition projection_view :: "session_projection \<Rightarrow> agentic_event list \<times> string option" where
  "projection_view p = (sp_events p, sp_active_turn_id p)"

lemma started_turn_journal: "started_turn e = Some t \<Longrightarrow> journal_turn_id e = Some t"
  by (cases e) (simp_all add: started_turn_def journal_turn_id_def)

lemma apply_event_result: "fst (apply_event p e) \<longleftrightarrow> journal_turn_id e \<noteq> None"
  using started_turn_journal [of e]
  by (auto simp: apply_event_def Let_def split: option.split)

lemma apply_event_keeps [simp]:
  "sp_cursor (snd (apply_event p e)) = sp_cursor p"
  "sp_tail (snd (apply_event p e)) = sp_tail p"
  "sp_last_touched (snd (apply_event p e)) = sp_last_touched p"
  by (auto simp: apply_event_def Let_def compact_projection_def split: option.split)

lemma apply_event_view:
  "projection_view p = projection_view q \<Longrightarrow>
   projection_view (snd (apply_event p e)) = projection_view (snd (apply_event q e))"
  by (auto simp: projection_view_def apply_event_def Let_def compact_projection_def split: option.split)

text \<open>An event of another turn, or the start of one, forgets the previous turn.\<close>

lemma apply_event_fresh_turn:
  "journal_turn_id e = Some t \<Longrightarrow> sp_active_turn_id p \<noteq> Some t \<Longrightarrow>
   projection_view (snd (apply_event p e)) = projection_view (snd (apply_event projection_default e))"
  by (cases "started_turn e")
    (auto simp: projection_view_def apply_event_def Let_def compact_projection_def projection_default_def
      dest: started_turn_journal)

lemma apply_event_active:
  "journal_turn_id e = Some t \<Longrightarrow> sp_active_turn_id (snd (apply_event p e)) = Some t"
  by (cases "started_turn e")
    (auto simp: apply_event_def Let_def compact_projection_def dest: started_turn_journal)

lemma apply_event_terminal:
  assumes "journal_turn_id e = Some t"
  shows "sp_terminal (snd (apply_event p e)) \<longleftrightarrow>
    is_terminal_event e \<or> (started_turn e = None \<and> sp_active_turn_id p = Some t \<and> sp_terminal p)"
proof (cases "started_turn e")
  case (Some t')
  then have "\<not> is_terminal_event e"
    by (cases e) (simp_all add: started_turn_def is_terminal_event_def)
  with Some show ?thesis by (simp add: apply_event_def Let_def)
qed (use assms in \<open>auto simp: apply_event_def Let_def compact_projection_def\<close>)

section \<open>Compaction\<close>

lemma length_fold_remove_at:
  "sorted_wrt (>) is \<Longrightarrow> \<forall>i \<in> set is. i < length es \<Longrightarrow>
   length (fold remove_at is es) = length es - length is"
proof (induction "is" arbitrary: es)
  case (Cons i "is")
  from Cons.prems have i: "i < length es" by simp
  have "\<forall>j \<in> set is. j < length (remove_at i es)"
    using Cons.prems i by (auto simp: length_remove_at)
  with Cons i show ?case by (simp add: length_remove_at)
qed simp

lemma hd_fold_remove_at:
  "\<forall>i \<in> set is. 0 < i \<Longrightarrow> es \<noteq> [] \<Longrightarrow> fold remove_at is es \<noteq> [] \<and> hd (fold remove_at is es) = hd es"
proof (induction "is" arbitrary: es)
  case (Cons i "is")
  then have "remove_at i es \<noteq> []" "hd (remove_at i es) = hd es"
    by (cases es; cases i; simp add: remove_at_def)+
  with Cons show ?case by simp
qed simp

lemma compaction_indices_props:
  "distinct (compaction_indices n es) \<and> (\<forall>i \<in> set (compaction_indices n es). 0 < i \<and> i < length es)"
  by (auto simp: compaction_indices_def Let_def dest!: in_set_takeD)

lemma length_compaction_indices:
  assumes "n < length es"
  shows "length (compaction_indices n es) = n"
proof -
  let ?r = "take n (filter (\<lambda>i. 0 < i \<and> is_noisy (es ! i)) [0..<length es])"
  have "length (filter (\<lambda>i. i \<notin> set ?r) [1..<length es]) = card ({1..<length es} - set ?r)"
    by (subst distinct_card [symmetric]) (auto intro!: arg_cong [where f = card])
  also have "\<dots> \<ge> card {1..<length es} - card (set ?r)" 
    by (rule diff_card_le_card_Diff) simp
  also have "card (set ?r) = length ?r" by (rule distinct_card) simp
  finally have "length es - 1 - length ?r \<le> length (filter (\<lambda>i. i \<notin> set ?r) [1..<length es])" by simp
  moreover have "length ?r \<le> n" by simp
  ultimately show ?thesis
    using assms unfolding compaction_indices_def Let_def by (auto simp only: length_append length_take split: if_split)
qed

lemma compact_events_props:
  assumes "es \<noteq> []"
  shows "length (compact_events es) = min (length es) max_projected_events_per_session \<and>
    compact_events es \<noteq> [] \<and> hd (compact_events es) = hd es"
proof (cases "length es \<le> max_projected_events_per_session")
  case False
  let ?n = "length es - max_projected_events_per_session"
  let ?is = "rev (sort (compaction_indices ?n es))"
  note props = compaction_indices_props [of ?n es]
  have "sorted_wrt (<) (sort (compaction_indices ?n es))"
    using props by (simp add: strict_sorted_iff)
  then have "sorted_wrt (>) ?is" by (simp add: sorted_wrt_rev)
  moreover have "\<forall>i \<in> set ?is. i < length es" "\<forall>i \<in> set ?is. 0 < i" using props by simp_all
  moreover have "length ?is = ?n"
    using False by (simp add: length_compaction_indices max_projected_events_per_session_def)
  ultimately show ?thesis
    using False assms length_fold_remove_at [of ?is es] hd_fold_remove_at [of ?is es]
    by (simp add: compact_events_def)
qed (use assms in \<open>simp add: compact_events_def\<close>)

lemma length_compact_events: "length (compact_events es) \<le> max_projected_events_per_session"
  using compact_events_props [of es] by (cases "es = []") (simp_all add: compact_events_def)

lemma length_replace_unique: "length (replace_unique es e P) \<le> Suc (length es)"
  by (simp add: replace_unique_def split: option.split)

section \<open>The tail is the recent history\<close>

fun journaled :: "nat \<Rightarrow> agentic_event list \<Rightarrow> journaled_event list" where
  "journaled c [] = []"
| "journaled c (e # es) = \<lparr>je_cursor = Suc c, je_event = e\<rparr> # journaled (Suc c) es"

lemma journaled_append: "journaled c (xs @ ys) = journaled c xs @ journaled (c + length xs) ys"
  by (induction xs arbitrary: c) simp_all

lemma length_journaled [simp]: "length (journaled c es) = length es"
  by (induction es arbitrary: c) simp_all

lemma map_je_event_journaled [simp]: "map je_event (journaled c es) = es"
  by (induction es arbitrary: c) simp_all

lemma drop_journaled: "drop k (journaled c es) = journaled (c + k) (drop k es)"
  by (induction es arbitrary: c k) (auto simp: drop_Cons' split: nat.split)

lemma journaled_cursor_bounds: "x \<in> set (journaled c es) \<Longrightarrow> c < je_cursor x"
  by (induction es arbitrary: c) fastforce+

lemma filter_journaled: "filter (\<lambda>x. c + k < je_cursor x) (journaled c es) = drop k (journaled c es)"
proof (induction es arbitrary: c k)
  case (Cons e es)
  show ?case
  proof (cases k)
    case 0
    have "filter (\<lambda>x. c < je_cursor x) (journaled (Suc c) es) = journaled (Suc c) es"
      by (rule filter_True) (use journaled_cursor_bounds [of _ "Suc c" es] in fastforce)
    with 0 show ?thesis by simp
  next
    case (Suc n)
    with Cons.IH [of "Suc c" n] show ?thesis by simp
  qed
qed simp

lemma trim_tail_eq: "trim_tail n xs = drop (length xs - n) xs"
proof (induction n xs rule: trim_tail.induct)
  case (2 n x xs)
  show ?case
  proof (cases "length (x # xs) > n")
    case True
    then have "length (x # xs) - n = Suc (length xs - n)" by simp
    with 2 True show ?thesis by simp
  qed simp
qed simp

definition tail_ok :: "agentic_event list \<Rightarrow> session_projection \<Rightarrow> bool" where
  "tail_ok hist p \<longleftrightarrow>
     sp_cursor p = length hist \<and> (\<exists>k. sp_tail p = drop k (journaled 0 hist)) \<and>
     length (sp_tail p) \<le> max_replayable_tail_events"

lemma tail_ok_default: "tail_ok [] projection_default"
  by (simp add: tail_ok_def projection_default_def)

lemma tail_ok_clear: "tail_ok hist p \<Longrightarrow> tail_ok hist (clear_replay_content p)"
  unfolding tail_ok_def clear_replay_content_def
  by (auto intro: exI [of _ "length hist"])

lemma touch_projection_eq:
  assumes "journal_turn_id e \<noteq> None"
  shows "touch_projection n e p =
    (True, push_tail (sat_add_u64 (sp_cursor p) 1) e
      ((snd (apply_event p e))\<lparr>sp_cursor := sat_add_u64 (sp_cursor p) 1, sp_last_touched := n\<rparr>))"
  using apply_event_result [of p e] apply_event_keeps(1) [of p e] assms
  by (cases "apply_event p e") (auto simp: touch_projection_def Let_def)

lemma touch_projection_fields:
  assumes "journal_turn_id e \<noteq> None"
  shows "sp_cursor (snd (touch_projection n e p)) = sat_add_u64 (sp_cursor p) 1"
    "sp_last_touched (snd (touch_projection n e p)) = n"
    "projection_view (snd (touch_projection n e p)) = projection_view (snd (apply_event p e))"
    "sp_terminal (snd (touch_projection n e p)) = sp_terminal (snd (apply_event p e))"
    "sp_tail (snd (touch_projection n e p)) =
      trim_tail max_replayable_tail_events
        (sp_tail p @ [\<lparr>je_cursor = sat_add_u64 (sp_cursor p) 1, je_event = e\<rparr>])"
  by (simp_all add: touch_projection_eq [OF assms] push_tail_def projection_view_def)

lemma tail_ok_touch:
  assumes "tail_ok hist p" "length hist < u64_max" "journal_turn_id e \<noteq> None"
  shows "tail_ok (hist @ [e]) (snd (touch_projection n e p))"
proof -
  from assms(1) obtain k where k: "sp_tail p = drop k (journaled 0 hist)" and c: "sp_cursor p = length hist"
    by (auto simp: tail_ok_def)
  let ?k = "min k (length hist)"
  have "sat_add_u64 (sp_cursor p) 1 = Suc (length hist)"
    using assms(2) c by (simp add: sat_add_u64_def)
  moreover have "sp_tail p @ [\<lparr>je_cursor = Suc (length hist), je_event = e\<rparr>] = drop ?k (journaled 0 (hist @ [e]))"
    using k by (cases "k \<le> length hist") (simp_all add: journaled_append)
  ultimately show ?thesis
    by (auto simp: tail_ok_def touch_projection_fields [OF assms(3)] trim_tail_eq
        max_replayable_tail_events_def)
qed

lemma tail_since_exact:
  assumes "tail_ok hist p" and "length hist \<le> u64_max" and "tail_since p c = Some es"
  shows "c \<le> length hist \<and> es = drop c hist"
proof -
  from assms(1) obtain k where k: "sp_tail p = drop k (journaled 0 hist)" and cur: "sp_cursor p = length hist"
    by (auto simp: tail_ok_def)
  show ?thesis
  proof (cases "c < length hist")
    case False
    with assms(3) cur show ?thesis by (auto simp: tail_since_def split: if_splits)
  next
    case True
    with assms(3) cur obtain oldest rest where tl: "sp_tail p = oldest # rest"
      and le: "je_cursor oldest \<le> sat_add_u64 c 1"
      and es: "es = map je_event (filter (\<lambda>x. c < je_cursor x) (sp_tail p))"
      by (auto simp: tail_since_def split: list.splits if_splits)
    from k tl have "k < length hist" by (metis drop_all length_journaled linorder_not_less list.distinct(1))
    then have "je_cursor oldest = Suc k"
      using k tl by (cases "drop k hist") (simp_all add: drop_journaled)
    with le True assms(2) have "k \<le> c" by (simp add: sat_add_u64_def)
    then have "filter (\<lambda>x. c < je_cursor x) (sp_tail p) = drop (c - k) (journaled k (drop k hist))"
      using filter_journaled [of k "c - k" "drop k hist"] by (simp add: k drop_journaled)
    then have "es = drop (c - k) (drop k hist)" by (simp add: es drop_map [symmetric])
    with \<open>k \<le> c\<close> True show ?thesis by simp
  qed
qed

section \<open>Catching up\<close>

definition materializes :: "agentic_event \<Rightarrow> bool" where
  "materializes e \<longleftrightarrow> journal_turn_id e \<noteq> None \<and> \<not> is_stream_chunk e"

fun apply_all :: "session_projection \<Rightarrow> agentic_event list \<Rightarrow> session_projection" where
  "apply_all p [] = p"
| "apply_all p (e # es) = apply_all (snd (apply_event p e)) es"

lemma apply_all_view:
  "projection_view p = projection_view q \<Longrightarrow> projection_view (apply_all p es) = projection_view (apply_all q es)"
proof (induction es arbitrary: p q)
  case (Cons e es)
  from Cons.IH [OF apply_event_view [OF Cons.prems]] show ?case by simp
qed simp

lemma replay_events_view: "projection_view (replay_events p es) = projection_view (apply_all p es)"
proof (induction es arbitrary: p)
  case (Cons e es)
  obtain b q where q: "apply_event p e = (b, q)" by fastforce
  have "projection_view (apply_all (q\<lparr>sp_cursor := c\<rparr>) es) = projection_view (apply_all q es)" for c
    by (rule apply_all_view) (simp add: projection_view_def)
  with Cons q show ?case by (cases b) simp_all
qed simp

text \<open>Recording a session's events one after another, as the journal does while it is not cleared.\<close>

fun touch_all :: "session_projection \<Rightarrow> (nat \<times> agentic_event) list \<Rightarrow> session_projection" where
  "touch_all p [] = p"
| "touch_all p ((n, e) # es) = touch_all (snd (touch_projection n e p)) es"

lemma touch_all_view:
  "\<forall>e \<in> set es. journal_turn_id (snd e) \<noteq> None \<Longrightarrow>
   projection_view (touch_all p es) = projection_view (apply_all p (map snd es))"
proof (induction p es rule: touch_all.induct)
  case (2 p n e es)
  then have "projection_view (touch_all p ((n, e) # es)) =
      projection_view (apply_all (snd (touch_projection n e p)) (map snd es))"
    by simp
  also have "\<dots> = projection_view (apply_all (snd (apply_event p e)) (map snd es))"
    by (rule apply_all_view) (rule touch_projection_fields(3), use 2 in simp)
  finally show ?case by simp
qed simp

lemma tail_ok_touch_all:
  "tail_ok hist p \<Longrightarrow> length hist + length es \<le> u64_max \<Longrightarrow> \<forall>e \<in> set es. journal_turn_id (snd e) \<noteq> None \<Longrightarrow>
   tail_ok (hist @ map snd es) (touch_all p es)"
proof (induction p es arbitrary: hist rule: touch_all.induct)
  case (2 p n e es)
  have "tail_ok (hist @ [e]) (snd (touch_projection n e p))"
    using 2 by (intro tail_ok_touch) simp_all
  from 2(1) [OF this] 2(3,4) show ?case by simp
qed simp

section \<open>Sessions of the journal\<close>

definition history :: "string \<Rightarrow> agentic_event list \<Rightarrow> agentic_event list" where
  "history sid es = filter (\<lambda>e. event_session_id e = Some sid \<and> materializes e) es"

lemma history_snoc:
  "history sid (es @ [e]) =
     history sid es @ (if event_session_id e = Some sid \<and> materializes e then [e] else [])"
  by (simp add: history_def)

lemma length_history: "length (history sid es) \<le> length es"
  by (simp add: history_def)

definition journal_run :: "agentic_event list \<Rightarrow> journal_state \<Rightarrow> journal_state" where
  "journal_run es j = fold (\<lambda>e j. snd (snd (journal_record e j))) es j"

lemma journal_run_snoc: "journal_run (es @ [e]) j = snd (snd (journal_record e (journal_run es j)))"
  by (simp add: journal_run_def)

lemma update_session_get:
  "map_of (update_session sid f m) sid' = (if sid' = sid then map_option f (map_of m sid) else map_of m sid')"
  by (simp add: update_session_def split: option.split)

lemma update_session_ok: "kv_ok m \<Longrightarrow> kv_ok (update_session sid f m)"
  by (simp add: update_session_def split: option.split)

definition has_terminal_content :: "session_projection \<Rightarrow> bool" where
  "has_terminal_content p \<longleftrightarrow> sp_terminal p \<and> sp_events p \<noteq> []"

definition pruned_sessions :: "(string, session_projection) kv \<Rightarrow> string list" where
  "pruned_sessions m =
     map fst (drop max_retained_terminal_session_projections
       (rev (sort_key snd (map (\<lambda>(sid, p). (sid, sp_last_touched p))
         (filter (\<lambda>(sid, p). sp_terminal p \<and> sp_events p \<noteq> []) m)))))"

lemma prune_eq:
  "prune_terminal_projections m = fold (\<lambda>sid. update_session sid clear_replay_content) (pruned_sessions m) m"
proof -
  have "fold (\<lambda>(sid, _). f sid) ks m = fold f (map fst ks) m" for f and ks :: "(string \<times> nat) list"
    and m :: "(string, session_projection) kv"
    by (induction ks arbitrary: m) auto
  then show ?thesis
    by (simp add: prune_terminal_projections_def pruned_sessions_def Let_def)
qed

lemma fold_clear_get:
  "map_of (fold (\<lambda>sid. update_session sid clear_replay_content) ks m) sid =
     map_option (\<lambda>p. if sid \<in> set ks then clear_replay_content p else p) (map_of m sid)"
proof (induction ks arbitrary: m)
  case Nil
  show ?case by (cases "map_of m sid") simp_all
next
  case (Cons k ks)
  have "clear_replay_content (clear_replay_content p) = clear_replay_content p" for p
    by (simp add: clear_replay_content_def)
  then show ?case
    by (cases "map_of m sid") (auto simp: Cons update_session_get)
qed

lemma prune_get:
  "map_of (prune_terminal_projections m) sid =
     map_option (\<lambda>p. if sid \<in> set (pruned_sessions m) then clear_replay_content p else p) (map_of m sid)"
  by (simp only: prune_eq fold_clear_get)

lemma prune_ok: "kv_ok m \<Longrightarrow> kv_ok (prune_terminal_projections m)"
proof -
  have "kv_ok (fold (\<lambda>sid. update_session sid clear_replay_content) ks m)" if "kv_ok m" for ks m
    using that by (induction ks arbitrary: m) (auto simp: update_session_ok)
  then show "kv_ok m \<Longrightarrow> ?thesis" by (simp only: prune_eq)
qed

lemma pruned_sessions_terminal:
  "kv_ok m \<Longrightarrow> sid \<in> set (pruned_sessions m) \<Longrightarrow> map_of m sid = Some p \<Longrightarrow> has_terminal_content p"
  by (auto simp: pruned_sessions_def has_terminal_content_def kv_in_set_iff dest!: in_set_dropD)

definition terminal_sessions :: "(string, session_projection) kv \<Rightarrow> string set" where
  "terminal_sessions m = {sid. \<exists>p. map_of m sid = Some p \<and> has_terminal_content p}"

lemma terminal_sessions_pruned:
  assumes "kv_ok m"
  shows "card (terminal_sessions (prune_terminal_projections m)) \<le> max_retained_terminal_session_projections"
proof -
  let ?R = "rev (sort_key snd (map (\<lambda>(sid, p). (sid, sp_last_touched p))
         (filter (\<lambda>(sid, p). sp_terminal p \<and> sp_events p \<noteq> []) m)))"
  let ?keep = "map fst (take max_retained_terminal_session_projections ?R)"
  have "terminal_sessions m = fst ` set ?R"
    using assms by (force simp: terminal_sessions_def has_terminal_content_def kv_in_set_iff image_iff)
  then have all: "terminal_sessions m \<subseteq> set ?keep \<union> set (pruned_sessions m)"
    by (simp add: pruned_sessions_def flip: set_append map_append image_Un)
  have cleared: "sp_events (clear_replay_content p) = []" for p
    by (simp add: clear_replay_content_def)
  have "terminal_sessions (prune_terminal_projections m) \<subseteq> terminal_sessions m - set (pruned_sessions m)"
    by (auto simp: terminal_sessions_def prune_get has_terminal_content_def split: if_splits)
      (metis cleared)+
  with all have "terminal_sessions (prune_terminal_projections m) \<subseteq> set ?keep" by blast
  then have "card (terminal_sessions (prune_terminal_projections m)) \<le> card (set ?keep)"
    by (simp add: card_mono)
  also have "\<dots> \<le> length ?keep" by (rule card_length)
  finally show ?thesis by simp
qed

section \<open>The journal invariant\<close>

text \<open>
  A late \<open>DialogTurnStarted\<close> is inserted without compaction, so a full projection can hold
  one event more than its bound until the next event compacts it.
\<close>

definition size_ok :: "session_projection \<Rightarrow> bool" where
  "size_ok p \<longleftrightarrow>
     length (sp_events p) \<le> max_projected_events_per_session \<or>
     (length (sp_events p) = Suc max_projected_events_per_session \<and>
      (\<exists>c \<in> set (sp_events p). started_turn c \<noteq> None \<and> started_turn c = sp_active_turn_id p))"

lemma size_ok_apply_event:
  assumes "size_ok p" and "journal_turn_id e = Some t"
  shows "size_ok (snd (apply_event p e))"
proof (cases "started_turn e")
  case None
  then have "\<exists>es. sp_events (snd (apply_event p e)) = compact_events es"
    using assms(2) by (auto simp: apply_event_def Let_def compact_projection_def)
  then show ?thesis using length_compact_events by (metis size_ok_def)
next
  case (Some t')
  let ?es = "if sp_active_turn_id p \<noteq> Some t' then [] else sp_events p"
  have res: "sp_events (snd (apply_event p e)) = replace_unique ?es e (\<lambda>c. started_turn c = Some t')"
    "sp_active_turn_id (snd (apply_event p e)) = Some t'"
    using Some by (auto simp: apply_event_def Let_def)
  show ?thesis
  proof (cases "position (\<lambda>c. started_turn c = Some t') ?es")
    case None
    then have "\<forall>c \<in> set ?es. started_turn c \<noteq> Some t'" by (simp only: position_None_iff)
    then have "length ?es \<le> max_projected_events_per_session"
      using assms(1) by (auto simp: size_ok_def)
    then show ?thesis
      using Some None by (auto simp: size_ok_def res replace_unique_def)
  next
    case (Some i)
    from position_SomeD [OF Some] have "i < length ?es" by blast
    moreover have "length ?es \<le> Suc max_projected_events_per_session"
      using assms(1) by (auto simp: size_ok_def)
    ultimately show ?thesis
      using Some \<open>started_turn e = Some t'\<close> set_update_memI [of i ?es e]
      by (auto simp: size_ok_def res replace_unique_def le_Suc_eq)
  qed
qed

lemma size_ok_clear: "size_ok (clear_replay_content p)"
  by (simp add: size_ok_def clear_replay_content_def)

lemma size_ok_view:
  "projection_view p = projection_view q \<Longrightarrow> size_ok p \<longleftrightarrow> size_ok q"
  by (simp add: size_ok_def projection_view_def)

definition journal_inv :: "string \<Rightarrow> agentic_event list \<Rightarrow> journal_state \<Rightarrow> bool" where
  "journal_inv stream es j \<longleftrightarrow>
     js_stream_id j = stream \<and> kv_ok (js_sessions j) \<and>
     (\<forall>sid p. map_of (js_sessions j) sid = Some p \<longrightarrow> tail_ok (history sid es) p \<and> size_ok p) \<and>
     (\<forall>sid. map_of (js_sessions j) sid = None \<longrightarrow> history sid es = []) \<and>
     card (terminal_sessions (js_sessions j)) \<le> max_retained_terminal_session_projections"

lemma session_deleted_turn: "is_session_deleted e \<Longrightarrow> journal_turn_id e = None"
  by (cases e) (simp_all add: is_session_deleted_def journal_turn_id_def)

lemma journal_record_skip:
  assumes "event_session_id e = None \<or> \<not> materializes e"
  shows "journal_record e j =
    (None, NoStoreAction,
      (if is_session_deleted e
       then j\<lparr>js_sessions := update_session (the (event_session_id e))
         (\<lambda>p. (clear_replay_content p)\<lparr>sp_terminal := True\<rparr>) (js_sessions j)\<rparr>
       else j))"
proof (cases "event_session_id e")
  case None
  then have "\<not> is_session_deleted e"
    by (cases e) (simp_all add: is_session_deleted_def event_session_id_def)
  with None show ?thesis by (simp add: journal_record_def)
qed (use assms in \<open>auto simp: journal_record_def materializes_def\<close>)

definition session_projection_of :: "journal_state \<Rightarrow> string \<Rightarrow> session_projection" where
  "session_projection_of j sid =
     (case map_of (js_sessions j) sid of None \<Rightarrow> projection_default | Some p \<Rightarrow> p)"

definition touched :: "agentic_event \<Rightarrow> string \<Rightarrow> journal_state \<Rightarrow> session_projection" where
  "touched e sid j = snd (touch_projection (sat_add_u64 (js_sequence j) 1) e (session_projection_of j sid))"

lemma journal_record_materializes:
  fixes j :: journal_state
  assumes "event_session_id e = Some sid" "materializes e"
  defines "p \<equiv> touched e sid j"
  shows "journal_record e j =
    (Some \<lparr>sec_stream_id = js_stream_id j, sec_cursor = sp_cursor p\<rparr>,
     (if sp_terminal p then StoreDiscard sid else StoreAppend sid (js_stream_id j) (sp_cursor p) e),
     j\<lparr>js_sequence := sat_add_u64 (js_sequence j) 1,
       js_sessions := prune_terminal_projections (kv_put sid p (js_sessions j))\<rparr>)"
proof -
  have e: "journal_turn_id e \<noteq> None" "\<not> is_stream_chunk e" "\<not> is_session_deleted e"
    using assms(2) session_deleted_turn [of e] by (auto simp: materializes_def)
  have "touch_projection (sat_add_u64 (js_sequence j) 1) e (session_projection_of j sid) = (True, p)"
    using touch_projection_eq [OF e(1)] by (simp add: p_def touched_def)
  moreover have "sp_terminal (if b then clear_replay_content p else p) = sp_terminal p" for b
    by (simp add: clear_replay_content_def)
  ultimately show ?thesis
    using assms(1) e by (simp add: journal_record_def session_projection_of_def prune_get Let_def)
qed

lemma journal_inv_init: "journal_inv stream [] (with_stream_id stream)"
  by (simp add: journal_inv_def with_stream_id_def history_def terminal_sessions_def)

lemma journal_inv_projection:
  assumes "journal_inv stream es j"
  shows "tail_ok (history sid es) (session_projection_of j sid) \<and> size_ok (session_projection_of j sid)"
proof (cases "map_of (js_sessions j) sid")
  case None
  with assms show ?thesis
    by (auto simp: journal_inv_def session_projection_of_def tail_ok_default)
      (simp add: size_ok_def projection_default_def)
qed (use assms in \<open>auto simp: journal_inv_def session_projection_of_def\<close>)

lemma journal_inv_touched:
  assumes "journal_inv stream es j" "length es < u64_max" "materializes e"
  shows "tail_ok (history sid es @ [e]) (touched e sid j) \<and> size_ok (touched e sid j)"
proof -
  have e: "journal_turn_id e \<noteq> None" using assms(3) by (simp add: materializes_def)
  have "length (history sid es) < u64_max" using length_history [of sid es] assms(2) by simp
  then have "tail_ok (history sid es @ [e]) (touched e sid j)"
    unfolding touched_def using journal_inv_projection [OF assms(1)] e by (intro tail_ok_touch) auto
  moreover have "size_ok (touched e sid j)"
    unfolding touched_def size_ok_view [OF touch_projection_fields(3) [OF e]]
    using journal_inv_projection [OF assms(1)] e by (auto intro: size_ok_apply_event)
  ultimately show ?thesis by simp
qed

lemma journal_inv_record:
  assumes inv: "journal_inv stream es j" and len: "length es < u64_max"
  shows "journal_inv stream (es @ [e]) (snd (snd (journal_record e j)))"
proof (cases "event_session_id e = None \<or> \<not> materializes e")
  case True
  then have hist: "history sid (es @ [e]) = history sid es" for sid
    by (auto simp: history_snoc)
  show ?thesis
  proof (cases "is_session_deleted e")
    case False
    with inv True show ?thesis by (simp add: journal_record_skip journal_inv_def hist)
  next
    case del: True
    let ?f = "\<lambda>p. (clear_replay_content p)\<lparr>sp_terminal := True\<rparr>"
    let ?m = "update_session (the (event_session_id e)) ?f (js_sessions j)"
    have f: "tail_ok h p \<Longrightarrow> tail_ok h (?f p)" "size_ok (?f p)" for h p
      using tail_ok_clear [of h p] size_ok_clear [of p]
      by (simp_all add: tail_ok_def size_ok_def clear_replay_content_def)
    have "terminal_sessions ?m \<subseteq> terminal_sessions (js_sessions j)"
      by (auto simp: terminal_sessions_def update_session_get has_terminal_content_def
          clear_replay_content_def split: if_splits)
    moreover have "finite (terminal_sessions (js_sessions j))"
      by (rule finite_subset [of _ "dom (map_of (js_sessions j))"])
        (auto simp: terminal_sessions_def finite_dom_map_of)
    ultimately have "card (terminal_sessions ?m) \<le> card (terminal_sessions (js_sessions j))"
      by (rule card_mono [rotated])
    with inv True del f show ?thesis
      by (auto simp: journal_record_skip journal_inv_def hist update_session_get update_session_ok
          split: if_splits)
  qed
next
  case False
  then obtain sid where sid: "event_session_id e = Some sid" and mat: "materializes e" by auto
  let ?p = "touched e sid j"
  let ?m = "kv_put sid ?p (js_sessions j)"
  have ok: "kv_ok ?m" using inv by (simp add: journal_inv_def)
  have hist: "history s (es @ [e]) = history s es @ (if s = sid then [e] else [])" for s
    using sid mat by (auto simp: history_snoc)
  have m: "tail_ok (history s (es @ [e])) q \<and> size_ok q" if "map_of ?m s = Some q" for s q
    using that inv journal_inv_touched [OF inv len mat, of sid]
    by (auto simp: hist journal_inv_def split: if_splits)
  have "tail_ok (history s (es @ [e])) q \<and> size_ok q"
    if "map_of (prune_terminal_projections ?m) s = Some q" for s q
    using that m [of s] by (auto simp: prune_get tail_ok_clear size_ok_clear split: if_splits)
  moreover have "history s (es @ [e]) = []" if "map_of (prune_terminal_projections ?m) s = None" for s
    using that inv by (auto simp: prune_get hist journal_inv_def split: if_splits)
  ultimately show ?thesis
    using inv ok terminal_sessions_pruned [OF ok]
    by (simp add: journal_record_materializes [OF sid mat] journal_inv_def prune_ok)
qed

lemma journal_inv_run:
  "length es \<le> u64_max \<Longrightarrow> journal_inv stream es (journal_run es (with_stream_id stream))"
proof (induction es rule: rev_induct)
  case (snoc e es)
  then show ?case by (simp add: journal_run_snoc journal_inv_record)
qed (simp add: journal_run_def journal_inv_init)

lemma length_tail_touch_all:
  "\<forall>e \<in> set es. journal_turn_id (snd e) \<noteq> None \<Longrightarrow> length (sp_tail p) \<le> max_replayable_tail_events \<Longrightarrow>
   length (sp_tail (touch_all p es)) = min max_replayable_tail_events (length (sp_tail p) + length es)"
proof (induction p es rule: touch_all.induct)
  case (2 p n e es)
  have "length (sp_tail (snd (touch_projection n e p))) = min max_replayable_tail_events (Suc (length (sp_tail p)))"
    using 2(2,3) by (simp add: touch_projection_fields trim_tail_eq)
  with 2 show ?case by simp
qed simp

lemma tail_since_available:
  assumes "tail_ok hist p" "c \<le> length hist" "length hist \<le> c + length (sp_tail p)"
    "length hist \<le> u64_max"
  shows "\<exists>ds. tail_since p c = Some ds"
proof -
  from assms(1) obtain k where k: "sp_tail p = drop k (journaled 0 hist)" and cur: "sp_cursor p = length hist"
    by (auto simp: tail_ok_def)
  show ?thesis
  proof (cases "c = length hist")
    case False
    with assms(2,3) k have lt: "k < length hist" "k \<le> c" "c < length hist" by auto
    then obtain e rest where "drop k hist = e # rest" by (metis Cons_nth_drop_Suc)
    with k have "sp_tail p = \<lparr>je_cursor = Suc k, je_event = e\<rparr> # journaled (Suc k) rest"
      by (simp add: drop_journaled)
    moreover have "Suc k \<le> sat_add_u64 c 1"
      using lt assms(4) by (simp add: sat_add_u64_def)
    ultimately show ?thesis
      using lt cur assms(2) by (simp add: tail_since_def)
  qed (use cur in \<open>simp add: tail_since_def\<close>)
qed

section \<open>Properties\<close>

text \<open>
  C16. A delta is never a guess: whatever was recorded, for whichever sessions, a client that asks
  for what follows cursor \<open>c\<close> on the current stream either receives exactly the session's
  recorded events after its first \<open>c\<close>, with the cursor of the last one, or is told to take a
  snapshot. A cursor of another stream always needs a snapshot.
\<close>

theorem delta_is_exact:
  assumes "length es \<le> u64_max"
    and "events_since (journal_run es (with_stream_id stream)) sid s c = Delta s' cur ds"
  shows "s = stream \<and> s' = stream \<and> cur = length (history sid es) \<and> c \<le> cur \<and>
    ds = drop c (history sid es)"
proof -
  let ?j = "journal_run es (with_stream_id stream)"
  from journal_inv_run [OF assms(1)] have inv: "journal_inv stream es ?j" .
  from assms(2) obtain p where p: "map_of (js_sessions ?j) sid = Some p"
    "tail_since p c = Some ds" "js_stream_id ?j = s" "s' = s" "cur = sp_cursor p"
    by (auto simp: events_since_def split: if_splits option.splits)
  from inv p have ok: "tail_ok (history sid es) p" and "stream = s" by (auto simp: journal_inv_def)
  have "length (history sid es) \<le> u64_max" using length_history [of sid es] assms(1) by simp
  from tail_since_exact [OF ok this p(2)] ok p \<open>stream = s\<close> show ?thesis
    by (simp add: tail_ok_def)
qed

definition example_events :: "agentic_event list" where
  "example_events = [DialogTurnStarted ''s'' ''t'' 0 ''hi'' None None]"

lemma example_event:
  "event_session_id (DialogTurnStarted s t n u v w) = Some s"
  "journal_turn_id (DialogTurnStarted s t n u v w) = Some t"
  "started_turn (DialogTurnStarted s t n u v w) = Some t"
  "is_session_deleted (DialogTurnStarted s t n u v w) = False"
  "tool_event_of (DialogTurnStarted s t n u v w) = None"
  by (simp_all add: event_session_id_def journal_turn_id_def started_turn_def is_session_deleted_def
      tool_event_of_def)

lemma example_touch:
  "touch_projection 1 (DialogTurnStarted s t n u v w) projection_default =
     (True,
      \<lparr>sp_cursor = 1, sp_active_turn_id = Some t, sp_events = [DialogTurnStarted s t n u v w],
       sp_tail = [\<lparr>je_cursor = 1, je_event = DialogTurnStarted s t n u v w\<rparr>],
       sp_terminal = False, sp_last_touched = 1\<rparr>)"
  by (simp add: touch_projection_def apply_event_def example_event projection_default_def push_tail_def
      replace_unique_def max_replayable_tail_events_def sat_add_u64_def u64_max_def)

lemma example_journal:
  "journal_run example_events (with_stream_id ''x'') =
     \<lparr>js_stream_id = ''x'', js_sequence = 1,
      js_sessions = [(''s'',
        \<lparr>sp_cursor = 1, sp_active_turn_id = Some ''t'', sp_events = example_events,
         sp_tail = journaled 0 example_events, sp_terminal = False, sp_last_touched = 1\<rparr>)]\<rparr>"
proof -
  have "sat_add_u64 0 1 = 1" by (simp add: sat_add_u64_def u64_max_def)
  then show ?thesis
    using example_touch [of "''s''" "''t''" 0 "''hi''" None None]
    by (simp add: example_events_def journal_run_def with_stream_id_def journal_record_def example_event
        is_stream_chunk_def prune_terminal_projections_def max_retained_terminal_session_projections_def)
qed

lemma history_example: "history ''s'' example_events = example_events"
  by (simp add: history_def example_events_def materializes_def is_stream_chunk_def example_event)

lemma delta_is_exact_witness: "drop 0 (history ''s'' example_events) = example_events"
proof -
  have "events_since (journal_run example_events (with_stream_id ''x'')) ''s'' ''x'' 0 =
      Delta ''x'' 1 example_events"
    unfolding events_since_def example_journal
    by (simp add: tail_since_def example_events_def sat_add_u64_def u64_max_def)
  from delta_is_exact [OF _ this] show ?thesis by (simp add: example_events_def u64_max_def)
qed

text \<open>
  Cursors are consecutive per session: an event that the projection represents is delivered with
  the journal's stream identifier and the next cursor of its session, counting from 1; every other
  event is delivered without a cursor.
\<close>

theorem cursors_are_consecutive:
  assumes "length es < u64_max"
  shows "fst (journal_record e (journal_run es (with_stream_id stream))) =
    (case event_session_id e of
       None \<Rightarrow> None
     | Some sid \<Rightarrow>
         if materializes e
         then Some \<lparr>sec_stream_id = stream, sec_cursor = length (history sid es) + 1\<rparr> else None)"
proof (cases "event_session_id e = None \<or> \<not> materializes e")
  case True
  then show ?thesis by (auto simp: journal_record_skip split: option.split)
next
  case False
  then obtain sid where sid: "event_session_id e = Some sid" and mat: "materializes e" by auto
  from assms have inv: "journal_inv stream es (journal_run es (with_stream_id stream))"
    by (intro journal_inv_run) simp
  from journal_inv_touched [OF inv assms mat, of sid] inv show ?thesis
    by (simp add: journal_record_materializes [OF sid mat] sid mat tail_ok_def journal_inv_def)
qed

lemma cursors_are_consecutive_witness:
  "fst (journal_record (DialogTurnCancelled ''s'' ''t'') (journal_run example_events (with_stream_id ''x''))) =
   Some \<lparr>sec_stream_id = ''x'', sec_cursor = 2\<rparr>"
proof -
  have "length example_events < u64_max" "length example_events = 1"
    by (simp_all add: example_events_def u64_max_def)
  moreover have "event_session_id (DialogTurnCancelled ''s'' ''t'') = Some ''s''"
    "materializes (DialogTurnCancelled ''s'' ''t'')"
    by (simp_all add: event_session_id_def materializes_def journal_turn_id_def is_stream_chunk_def
        tool_event_of_def)
  ultimately show ?thesis
    using cursors_are_consecutive [of example_events "DialogTurnCancelled ''s'' ''t''" "''x''"]
    by (simp only: history_example option.case if_True) simp
qed



text \<open>
  The journal's memory is bounded by semantic state, not by how long a turn streams: every
  session keeps at most \<open>max_replayable_tail_events\<close> replayable events and one more than
  \<open>max_projected_events_per_session\<close> projected events, at most
  \<open>max_retained_terminal_session_projections\<close> finished sessions keep content, and recording an
  event never clears a session that is still running.
\<close>

theorem journal_is_bounded:
  assumes "length es \<le> u64_max"
    and "j = journal_run es (with_stream_id stream)"
    and "map_of (js_sessions j) sid = Some p"
  shows "length (sp_tail p) \<le> max_replayable_tail_events \<and>
    length (sp_events p) \<le> max_projected_events_per_session + 1 \<and>
    card (terminal_sessions (js_sessions j)) \<le> max_retained_terminal_session_projections \<and>
    (\<not> sp_terminal p \<longrightarrow> event_session_id e \<noteq> Some sid \<longrightarrow>
       map_of (js_sessions (snd (snd (journal_record e j)))) sid = Some p)"
proof -
  from journal_inv_run [OF assms(1)] have inv: "journal_inv stream es j" by (simp add: assms(2))
  have "map_of (js_sessions (snd (snd (journal_record e j)))) sid = Some p"
    if run: "\<not> sp_terminal p" and other: "event_session_id e \<noteq> Some sid"
  proof (cases "event_session_id e = None \<or> \<not> materializes e")
    case True
    have "event_session_id e \<noteq> None" if "is_session_deleted e"
      using that by (cases e) (simp_all add: is_session_deleted_def event_session_id_def)
    with True other assms(3) show ?thesis by (auto simp: journal_record_skip update_session_get)
  next
    case False
    then obtain s where s: "event_session_id e = Some s" and mat: "materializes e" by auto
    let ?m = "kv_put s (touched e s j) (js_sessions j)"
    have "kv_ok ?m" using inv by (simp add: journal_inv_def)
    moreover have "map_of ?m sid = Some p" using other s assms(3) by simp
    ultimately have "sid \<notin> set (pruned_sessions ?m)"
      using pruned_sessions_terminal [of ?m sid p] run by (auto simp: has_terminal_content_def)
    with \<open>map_of ?m sid = Some p\<close> show ?thesis
      by (simp add: journal_record_materializes [OF s mat] prune_get)
  qed
  moreover from inv assms(3) have "tail_ok (history sid es) p" "size_ok p"
    "card (terminal_sessions (js_sessions j)) \<le> max_retained_terminal_session_projections"
    by (auto simp: journal_inv_def)
  ultimately show ?thesis by (auto simp: tail_ok_def size_ok_def)
qed

lemma journal_is_bounded_witness:
  "map_of (js_sessions (snd (snd (journal_record (DialogTurnCancelled ''u'' ''t'')
     (journal_run example_events (with_stream_id ''x'')))))) ''s'' =
   map_of (js_sessions (journal_run example_events (with_stream_id ''x''))) ''s''"
proof -
  have len: "length example_events \<le> u64_max" by (simp add: example_events_def u64_max_def)
  obtain p where p: "map_of (js_sessions (journal_run example_events (with_stream_id ''x''))) ''s'' = Some p"
    and run: "\<not> sp_terminal p"
    by (simp add: example_journal)
  have "event_session_id (DialogTurnCancelled ''u'' ''t'') \<noteq> Some ''s''" by (simp add: event_session_id_def)
  with journal_is_bounded [OF len refl p] run p show ?thesis by metis
qed

end
