(* ===== verification/Projection_Store.thy ===== *)
theory Projection_Store
  imports Session_Journal
begin

text \<open>
  The durable log behind the session event journal: the trait \<open>SessionEventProjectionStore\<close> as an
  interface, its one-file-per-session implementation
  \<open>assembly/core/src/service/session_projection_store.rs\<close> on an inode-level file system, and the
  import check \<open>validate_runtime_event_log\<close> of
  \<open>services-core/src/session_projection_format.rs\<close>.

  The log directory is \<open>root\<close>; a path is a file name in it. A handle names an inode, so that an
  append through a handle of a removed file is not visible under the path any more. What the
  operating system does (an open that fails, a write cut short) is an argument of the operation.
  \<open>serde_json\<close> is the pair of parameters \<open>ser\<close> (\<open>to_vec\<close>) and \<open>de\<close> (\<open>from_str\<close>).
\<close>

section \<open>The log format\<close>

record logged_event =
  le_stream_id :: string
  le_cursor :: nat
  le_event :: agentic_event

text \<open>\<open>BufRead::lines\<close>: a terminated line loses its line feed and one carriage return.\<close>

fun strip_cr_rev :: "string \<Rightarrow> string" where
  "strip_cr_rev [] = []"
| "strip_cr_rev (c # cs) = (if c = CHR 0x0D then cs else c # cs)"

fun read_lines :: "string \<Rightarrow> string \<Rightarrow> string list" where
  "read_lines acc [] = (if acc = [] then [] else [rev acc])"
| "read_lines acc (c # cs) =
     (if c = CHR 0x0A then rev (strip_cr_rev acc) # read_lines [] cs else read_lines (c # acc) cs)"

text \<open>A line whose bytes are not UTF-8 is an error of the line iterator.\<close>

definition byte_in :: "nat \<Rightarrow> nat \<Rightarrow> char \<Rightarrow> bool" where
  "byte_in lo hi c \<longleftrightarrow> lo \<le> of_char c \<and> of_char c \<le> hi"

definition utf8_code_point :: "string \<Rightarrow> bool" where
  "utf8_code_point s =
     (case s of
        [a] \<Rightarrow> byte_in 0x00 0x7F a
      | [a, b] \<Rightarrow> byte_in 0xC2 0xDF a \<and> byte_in 0x80 0xBF b
      | [a, b, c] \<Rightarrow>
          byte_in 0x80 0xBF c \<and>
          (byte_in 0xE0 0xE0 a \<and> byte_in 0xA0 0xBF b \<or>
           (byte_in 0xE1 0xEC a \<or> byte_in 0xEE 0xEF a) \<and> byte_in 0x80 0xBF b \<or>
           byte_in 0xED 0xED a \<and> byte_in 0x80 0x9F b)
      | [a, b, c, d] \<Rightarrow>
          byte_in 0x80 0xBF c \<and> byte_in 0x80 0xBF d \<and>
          (byte_in 0xF0 0xF0 a \<and> byte_in 0x90 0xBF b \<or>
           byte_in 0xF1 0xF3 a \<and> byte_in 0x80 0xBF b \<or>
           byte_in 0xF4 0xF4 a \<and> byte_in 0x80 0x8F b)
      | _ \<Rightarrow> False)"

definition valid_utf8 :: "string \<Rightarrow> bool" where
  "valid_utf8 s \<longleftrightarrow> (\<forall>c \<in> set (utf8_chars s). utf8_code_point c)"

section \<open>The file store\<close>

record file_system =
  fs_dir :: "string \<Rightarrow> nat option"
  fs_data :: "nat \<Rightarrow> string"
  fs_next :: nat

record file_store =
  store_logs :: "string \<Rightarrow> nat option"
  store_fs :: file_system

datatype io_outcome = IoOk | OpenFails | PartialWrite nat

definition open_append :: "string \<Rightarrow> file_system \<Rightarrow> nat \<times> file_system" where
  "open_append path fs =
     (case fs_dir fs path of
        Some i \<Rightarrow> (i, fs)
      | None \<Rightarrow>
          (let i = fs_next fs
           in (i, fs\<lparr>fs_dir := (fs_dir fs)(path \<mapsto> i), fs_data := (fs_data fs)(i := []),
                     fs_next := Suc i\<rparr>)))"

definition is_log_char :: "char \<Rightarrow> bool" where
  "is_log_char c \<longleftrightarrow>
     byte_in 0x30 0x39 c \<or> byte_in 0x41 0x5A c \<or> byte_in 0x61 0x7A c \<or> c = CHR ''-'' \<or> c = CHR ''_''"

definition log_path :: "string \<Rightarrow> string" where
  "log_path sid =
     map (\<lambda>c. case c of [b] \<Rightarrow> if is_log_char b then b else CHR ''_'' | _ \<Rightarrow> CHR ''_'') (utf8_chars sid)
     @ ''.jsonl''"

definition file_store_new :: "file_system \<Rightarrow> file_store" where
  "file_store_new fs = \<lparr>store_logs = (\<lambda>_. None), store_fs = fs\<rparr>"

definition log_handle :: "io_outcome \<Rightarrow> string \<Rightarrow> file_store \<Rightarrow> nat option \<times> file_store" where
  "log_handle io sid st =
     (case store_logs st sid of
        Some i \<Rightarrow> (Some i, st)
      | None \<Rightarrow>
          if io = OpenFails then (None, st)
          else
            (case open_append (log_path sid) (store_fs st) of
               (i, fs) \<Rightarrow>
                 (Some i, st\<lparr>store_logs := (store_logs st)(sid \<mapsto> i), store_fs := fs\<rparr>)))"

definition write_all :: "io_outcome \<Rightarrow> nat \<Rightarrow> string \<Rightarrow> file_system \<Rightarrow> file_system" where
  "write_all io i bytes fs =
     fs\<lparr>fs_data := (fs_data fs)
        (i := fs_data fs i @ (case io of PartialWrite n \<Rightarrow> take n bytes | _ \<Rightarrow> bytes))\<rparr>"

definition store_append ::
  "(logged_event \<Rightarrow> string option) \<Rightarrow> io_outcome \<Rightarrow> string \<Rightarrow> string \<Rightarrow> nat \<Rightarrow> agentic_event
   \<Rightarrow> file_store \<Rightarrow> file_store" where
  "store_append ser io sid stream cursor e st =
     (case ser \<lparr>le_stream_id = stream, le_cursor = cursor, le_event = e\<rparr> of
        None \<Rightarrow> st
      | Some line \<Rightarrow>
          (case log_handle io sid st of
             (None, st') \<Rightarrow> st'
           | (Some i, st') \<Rightarrow>
               st'\<lparr>store_fs := write_all io i (line @ [CHR 0x0A]) (store_fs st')\<rparr>))"

definition accept_record ::
  "logged_event \<Rightarrow> string option \<times> agentic_event list \<Rightarrow> string option \<times> agentic_event list" where
  "accept_record r acc =
     (case acc of
        (Some current, events) \<Rightarrow>
          if current \<noteq> le_stream_id r then (Some (le_stream_id r), [le_event r])
          else (Some current, events @ [le_event r])
      | (None, events) \<Rightarrow> (Some (le_stream_id r), events @ [le_event r]))"

fun load_loop ::
  "(string \<Rightarrow> logged_event option) \<Rightarrow> string option \<times> agentic_event list \<Rightarrow> string list
   \<Rightarrow> string option \<times> agentic_event list" where
  "load_loop de acc [] = acc"
| "load_loop de acc (l # ls) =
     (if \<not> valid_utf8 l then acc
      else if trim l = [] then load_loop de acc ls
      else (case de l of None \<Rightarrow> acc | Some r \<Rightarrow> load_loop de (accept_record r acc) ls))"

definition loaded :: "string option \<times> agentic_event list \<Rightarrow> (string \<times> agentic_event list) option" where
  "loaded acc =
     (if snd acc = [] then None else map_option (\<lambda>stream. (stream, snd acc)) (fst acc))"

definition store_load ::
  "(string \<Rightarrow> logged_event option) \<Rightarrow> string \<Rightarrow> file_store \<Rightarrow> (string \<times> agentic_event list) option" where
  "store_load de sid st =
     (case fs_dir (store_fs st) (log_path sid) of
        None \<Rightarrow> None
      | Some i \<Rightarrow> loaded (load_loop de (None, []) (read_lines [] (fs_data (store_fs st) i))))"

definition store_discard :: "string \<Rightarrow> file_store \<Rightarrow> file_store" where
  "store_discard sid st =
     st\<lparr>store_logs := (store_logs st)(sid := None),
        store_fs := (store_fs st)\<lparr>fs_dir := (fs_dir (store_fs st))(log_path sid := None)\<rparr>\<rparr>"

text \<open>Another process on the same directory: its handles are its own.\<close>

definition reopen :: "file_store \<Rightarrow> file_store" where
  "reopen st = file_store_new (store_fs st)"

section \<open>The import check\<close>

datatype log_error = OpenLogFailed | ReadFailed nat | ForeignSession | NoEvents

record runtime_event_log_summary =
  ls_stream_id :: string
  ls_event_count :: nat
  ls_turn_ids :: "string set"

fun validate_loop ::
  "(string \<Rightarrow> logged_event option) \<Rightarrow> string \<Rightarrow> nat \<Rightarrow> string option \<times> nat \<times> string set \<Rightarrow> string list
   \<Rightarrow> log_error + string option \<times> nat \<times> string set" where
  "validate_loop de expected idx acc [] = Inr acc"
| "validate_loop de expected idx (stream, n, turns) (l # ls) =
     (if \<not> valid_utf8 l then Inl (ReadFailed (idx + 1))
      else if trim l = [] then validate_loop de expected (idx + 1) (stream, n, turns) ls
      else
        (case de l of
           None \<Rightarrow> Inr (stream, n, turns)
         | Some r \<Rightarrow>
             if event_session_id (le_event r) \<noteq> None \<and> event_session_id (le_event r) \<noteq> Some expected
             then Inl ForeignSession
             else
               (let turns1 = (case event_turn_id (le_event r) of None \<Rightarrow> turns | Some t \<Rightarrow> insert t turns);
                    (stream2, n2, turns2) =
                      (case stream of
                         Some current \<Rightarrow>
                           if current \<noteq> le_stream_id r then (Some (le_stream_id r), 0, {})
                           else (Some current, n, turns1)
                       | None \<Rightarrow> (Some (le_stream_id r), n, turns1))
                in validate_loop de expected (idx + 1) (stream2, sat_add_u64 n2 1, turns2) ls)))"

definition validate_runtime_event_log ::
  "(string \<Rightarrow> logged_event option) \<Rightarrow> string option \<Rightarrow> string
   \<Rightarrow> log_error + runtime_event_log_summary" where
  "validate_runtime_event_log de content expected =
     (case content of
        None \<Rightarrow> Inl OpenLogFailed
      | Some bytes \<Rightarrow>
          (case validate_loop de expected 0 (None, 0, {}) (read_lines [] bytes) of
             Inl err \<Rightarrow> Inl err
           | Inr (None, _, _) \<Rightarrow> Inl NoEvents
           | Inr (Some stream, n, turns) \<Rightarrow>
               Inr \<lparr>ls_stream_id = stream, ls_event_count = n, ls_turn_ids = turns\<rparr>))"


section \<open>Lines\<close>

definition json_line :: "string \<Rightarrow> bool" where
  "json_line l \<longleftrightarrow>
     valid_utf8 l \<and> CHR 0x0A \<notin> set l \<and> (\<exists>m. l = CHR ''{'' # m) \<and> last l \<noteq> CHR 0x0D"

definition line_of :: "string \<Rightarrow> string" where
  "line_of l = l @ [CHR 0x0A]"

lemma strip_cr_rev_id: "hd s \<noteq> CHR 0x0D \<Longrightarrow> strip_cr_rev s = s"
  by (cases s) simp_all

lemma read_lines_skip:
  "CHR 0x0A \<notin> set l \<Longrightarrow> read_lines acc (l @ rest) = read_lines (rev l @ acc) rest"
  by (induction l arbitrary: acc) auto

lemma read_lines_line:
  assumes "json_line l"
  shows "read_lines [] (line_of l @ rest) = l # read_lines [] rest"
proof -
  have "hd (rev l) \<noteq> CHR 0x0D" using assms by (auto simp: json_line_def hd_rev)
  with assms show ?thesis by (simp add: line_of_def json_line_def read_lines_skip strip_cr_rev_id)
qed

lemma read_lines_lines:
  "\<forall>l \<in> set ls. json_line l \<Longrightarrow>
   read_lines [] (concat (map line_of ls) @ rest) = ls @ read_lines [] rest"
  by (induction ls) (simp_all add: read_lines_line)

lemma read_lines_tail: "CHR 0x0A \<notin> set l \<Longrightarrow> read_lines [] l = (if l = [] then [] else [l])"
  using read_lines_skip [of l "[]" "[]"] by simp

lemma utf8_chars_hd: "\<exists>m ds. utf8_chars (c # s) = (c # m) # ds"
  by (auto split: list.split)

lemma json_line_not_blank:
  assumes "json_line l"
  shows "trim l \<noteq> []"
proof -
  obtain m ds where m: "utf8_chars l = (CHR ''{'' # m) # ds"
    using assms utf8_chars_hd unfolding json_line_def by metis
  let ?w = "\<lambda>c. c \<in> set utf8_whitespace"
  have nw: "\<not> ?w (CHR ''{'' # m)" by (simp add: utf8_whitespace_def)
  then have "CHR ''{'' # m \<in> set (dropWhile ?w (rev (dropWhile ?w (utf8_chars l))))"
    unfolding m by (simp add: dropWhile_append)
  then show ?thesis by (auto simp: trim_def concat_eq_Nil_conv)
qed

section \<open>Loading a log of complete lines\<close>

definition record_ok :: "(logged_event \<Rightarrow> string option) \<Rightarrow> (string \<Rightarrow> logged_event option) \<Rightarrow> logged_event \<Rightarrow> bool"
  where "record_ok ser de r \<longleftrightarrow> (\<exists>l. ser r = Some l \<and> json_line l \<and> de l = Some r)"

definition log_bytes :: "(logged_event \<Rightarrow> string option) \<Rightarrow> logged_event list \<Rightarrow> string" where
  "log_bytes ser rs = concat (map (\<lambda>r. line_of (the (ser r))) rs)"

lemma log_bytes_append: "log_bytes ser (rs @ rs') = log_bytes ser rs @ log_bytes ser rs'"
  by (simp add: log_bytes_def)

lemma read_log_bytes:
  assumes "\<forall>r \<in> set rs. record_ok ser de r"
  shows "read_lines [] (log_bytes ser rs @ rest) = map (\<lambda>r. the (ser r)) rs @ read_lines [] rest"
proof -
  have "\<forall>l \<in> set (map (\<lambda>r. the (ser r)) rs). json_line l"
    using assms by (auto simp: record_ok_def)
  from read_lines_lines [OF this, of rest] show ?thesis by (simp add: log_bytes_def comp_def)
qed

lemma load_loop_lines:
  "\<forall>r \<in> set rs. record_ok ser de r \<Longrightarrow>
   load_loop de acc (map (\<lambda>r. the (ser r)) rs @ ls) = load_loop de (fold accept_record rs acc) ls"
proof (induction rs arbitrary: acc)
  case (Cons r rs)
  then obtain l where "ser r = Some l" "json_line l" "de l = Some r" by (auto simp: record_ok_def)
  moreover from this have "valid_utf8 l" by (simp add: json_line_def)
  ultimately show ?case using Cons json_line_not_blank [of l] by simp
qed simp

lemma load_log_bytes:
  assumes "\<forall>r \<in> set rs. record_ok ser de r"
  shows "load_loop de (None, []) (read_lines [] (log_bytes ser rs @ rest)) =
    load_loop de (fold accept_record rs (None, [])) (read_lines [] rest)"
  by (simp add: read_log_bytes [OF assms] load_loop_lines [OF assms])

definition same_stream :: "string \<Rightarrow> (string \<times> agentic_event list) option \<Rightarrow> agentic_event list" where
  "same_stream stream x =
     (case x of Some (current, es) \<Rightarrow> if current = stream then es else [] | None \<Rightarrow> [])"

lemma loaded_accept:
  assumes "fst acc = None \<longrightarrow> snd acc = []"
  shows "loaded (accept_record r acc) =
    Some (le_stream_id r, same_stream (le_stream_id r) (loaded acc) @ [le_event r])"
proof (cases acc)
  case (Pair s es)
  with assms show ?thesis
    by (cases s) (simp_all add: accept_record_def loaded_def same_stream_def)
qed

lemma accepted_without_stream:
  "fst (fold accept_record rs (None, [])) = None \<longrightarrow> snd (fold accept_record rs (None, [])) = []"
proof (cases rs rule: rev_cases)
  case (snoc xs x)
  have "fst (accept_record x acc) \<noteq> None" for acc
    by (auto simp: accept_record_def split: prod.splits option.splits)
  then show ?thesis by (simp only: snoc fold_append fold_simps comp_apply) blast
qed simp

lemmas loaded_snoc = loaded_accept [OF accepted_without_stream]

section \<open>The store as an interface\<close>

text \<open>
  What the journal relies on: an append adds the event to what a load returns, restarting the list
  when the stream changes; a discard forgets the session; neither touches another session, and
  another process loads the same.
\<close>

locale projection_store =
  fixes put_event :: "string \<Rightarrow> string \<Rightarrow> nat \<Rightarrow> agentic_event \<Rightarrow> 's \<Rightarrow> 's"
    and load :: "string \<Rightarrow> 's \<Rightarrow> (string \<times> agentic_event list) option"
    and drop_log :: "string \<Rightarrow> 's \<Rightarrow> 's"
    and known :: "string \<Rightarrow> bool"
    and good :: "string \<Rightarrow> nat \<Rightarrow> agentic_event \<Rightarrow> bool"
    and ok :: "'s \<Rightarrow> bool"
  assumes ok_append: "ok st \<Longrightarrow> known sid \<Longrightarrow> good s c e \<Longrightarrow> ok (put_event sid s c e st)"
    and ok_discard: "ok st \<Longrightarrow> known sid \<Longrightarrow> ok (drop_log sid st)"
    and load_append: "ok st \<Longrightarrow> known sid \<Longrightarrow> good s c e \<Longrightarrow>
      load sid (put_event sid s c e st) = Some (s, same_stream s (load sid st) @ [e])"
    and load_append_other: "ok st \<Longrightarrow> known sid \<Longrightarrow> good s c e \<Longrightarrow> known sid' \<Longrightarrow> sid' \<noteq> sid \<Longrightarrow>
      load sid' (put_event sid s c e st) = load sid' st"
    and load_discard: "ok st \<Longrightarrow> known sid \<Longrightarrow> load sid (drop_log sid st) = None"
    and load_discard_other: "ok st \<Longrightarrow> known sid \<Longrightarrow> known sid' \<Longrightarrow> sid' \<noteq> sid \<Longrightarrow>
      load sid' (drop_log sid st) = load sid' st"

definition store_ok ::
  "(logged_event \<Rightarrow> string option) \<Rightarrow> (string \<Rightarrow> logged_event option) \<Rightarrow> string set \<Rightarrow> file_store \<Rightarrow> bool"
  where
  "store_ok ser de S st \<longleftrightarrow>
     inj_on log_path S \<and>
     (\<forall>sid i. sid \<in> S \<longrightarrow> store_logs st sid = Some i \<longrightarrow> fs_dir (store_fs st) (log_path sid) = Some i) \<and>
     (\<forall>p q i. fs_dir (store_fs st) p = Some i \<longrightarrow> fs_dir (store_fs st) q = Some i \<longrightarrow> p = q) \<and>
     (\<forall>p i. fs_dir (store_fs st) p = Some i \<longrightarrow>
        i < fs_next (store_fs st) \<and>
        (\<exists>rs. fs_data (store_fs st) i = log_bytes ser rs \<and> (\<forall>r \<in> set rs. record_ok ser de r)))"


lemma store_okI:
  assumes "inj_on log_path S"
    and "\<And>sid i. sid \<in> S \<Longrightarrow> store_logs st sid = Some i \<Longrightarrow> fs_dir (store_fs st) (log_path sid) = Some i"
    and "\<And>p q i. fs_dir (store_fs st) p = Some i \<Longrightarrow> fs_dir (store_fs st) q = Some i \<Longrightarrow> p = q"
    and "\<And>p i. fs_dir (store_fs st) p = Some i \<Longrightarrow> i < fs_next (store_fs st) \<and>
      (\<exists>rs. fs_data (store_fs st) i = log_bytes ser rs \<and> (\<forall>r \<in> set rs. record_ok ser de r))"
  shows "store_ok ser de S st"
  using assms unfolding store_ok_def by blast

lemma store_okD:
  assumes "store_ok ser de S st"
  shows "inj_on log_path S"
    and "sid \<in> S \<Longrightarrow> store_logs st sid = Some i \<Longrightarrow> fs_dir (store_fs st) (log_path sid) = Some i"
    and "fs_dir (store_fs st) p = Some i \<Longrightarrow> fs_dir (store_fs st) q = Some i \<Longrightarrow> p = q"
    and "fs_dir (store_fs st) p = Some i \<Longrightarrow> i < fs_next (store_fs st)"
    and "fs_dir (store_fs st) p = Some i \<Longrightarrow>
      \<exists>rs. fs_data (store_fs st) i = log_bytes ser rs \<and> (\<forall>r \<in> set rs. record_ok ser de r)"
  using assms unfolding store_ok_def by blast+

lemma store_ok_new: "inj_on log_path S \<Longrightarrow>
  store_ok ser de S (file_store_new \<lparr>fs_dir = (\<lambda>_. None), fs_data = (\<lambda>_. []), fs_next = 0\<rparr>)"
  by (rule store_okI) (simp_all add: file_store_new_def)

lemma store_ok_reopen: "store_ok ser de S st \<Longrightarrow> store_ok ser de S (reopen st)"
  unfolding store_ok_def by (simp add: reopen_def file_store_new_def)

text \<open>The file that an append writes to, and what it holds before.\<close>

definition log_inode :: "string \<Rightarrow> file_store \<Rightarrow> nat" where
  "log_inode sid st =
     (case fs_dir (store_fs st) (log_path sid) of Some i \<Rightarrow> i | None \<Rightarrow> fs_next (store_fs st))"

definition log_content :: "string \<Rightarrow> file_store \<Rightarrow> string" where
  "log_content sid st =
     (case fs_dir (store_fs st) (log_path sid) of Some i \<Rightarrow> fs_data (store_fs st) i | None \<Rightarrow> [])"

lemma fun_upd_triv': "f x = y \<Longrightarrow> f(x := y) = f"
  by auto

lemma append_effect:
  assumes ok: "store_ok ser de S st" and sid: "sid \<in> S" and io: "io \<noteq> OpenFails"
    and ser: "ser \<lparr>le_stream_id = s, le_cursor = c, le_event = e\<rparr> = Some l"
  defines "st' \<equiv> store_append ser io sid s c e st"
  shows "fs_dir (store_fs st') = (fs_dir (store_fs st))(log_path sid \<mapsto> log_inode sid st)"
    and "store_logs st' = (store_logs st)(sid \<mapsto> log_inode sid st)"
    and "fs_data (store_fs st') = (fs_data (store_fs st))(log_inode sid st :=
      log_content sid st @ (case io of PartialWrite n \<Rightarrow> take n (line_of l) | _ \<Rightarrow> line_of l))"
    and "fs_next (store_fs st') = max (fs_next (store_fs st)) (Suc (log_inode sid st))"
proof -
  let ?d = "fs_dir (store_fs st) (log_path sid)"
  consider (absent) "?d = None" "store_logs st sid = None"
    | (closed) i where "?d = Some i" "store_logs st sid = None"
    | (open_handle) i where "?d = Some i" "store_logs st sid = Some i"
    using store_okD(2) [OF ok sid] by (cases ?d; cases "store_logs st sid") auto
  then have "fs_dir (store_fs st') = (fs_dir (store_fs st))(log_path sid \<mapsto> log_inode sid st) \<and>
    store_logs st' = (store_logs st)(sid \<mapsto> log_inode sid st) \<and>
    fs_data (store_fs st') = (fs_data (store_fs st))(log_inode sid st :=
      log_content sid st @ (case io of PartialWrite n \<Rightarrow> take n (line_of l) | _ \<Rightarrow> line_of l)) \<and>
    fs_next (store_fs st') = max (fs_next (store_fs st)) (Suc (log_inode sid st))"
  proof cases
    case absent
    with io show ?thesis unfolding line_of_def
      by (simp add: st'_def store_append_def ser log_handle_def open_append_def write_all_def
          log_inode_def log_content_def line_of_def Let_def)
  next
    case closed
    then have "i < fs_next (store_fs st)" using store_okD(4) [OF ok] by blast
    with closed io show ?thesis unfolding line_of_def
      by (simp add: st'_def store_append_def ser log_handle_def open_append_def write_all_def
          log_inode_def log_content_def line_of_def Let_def fun_upd_triv' max_def)
  next
    case open_handle
    then have "i < fs_next (store_fs st)" using store_okD(4) [OF ok] by blast
    with open_handle io show ?thesis unfolding line_of_def
      by (simp add: st'_def store_append_def ser log_handle_def write_all_def
          log_inode_def log_content_def line_of_def Let_def fun_upd_triv' max_def)
  qed
  then show "fs_dir (store_fs st') = (fs_dir (store_fs st))(log_path sid \<mapsto> log_inode sid st)"
    "store_logs st' = (store_logs st)(sid \<mapsto> log_inode sid st)"
    "fs_data (store_fs st') = (fs_data (store_fs st))(log_inode sid st :=
      log_content sid st @ (case io of PartialWrite n \<Rightarrow> take n (line_of l) | _ \<Rightarrow> line_of l))"
    "fs_next (store_fs st') = max (fs_next (store_fs st)) (Suc (log_inode sid st))"
    by blast+
qed

lemma store_ok_content:
  assumes "store_ok ser de S st"
  shows "\<exists>rs. log_content sid st = log_bytes ser rs \<and> (\<forall>r \<in> set rs. record_ok ser de r)"
proof (cases "fs_dir (store_fs st) (log_path sid)")
  case None
  then show ?thesis by (intro exI [of _ "[]"]) (simp add: log_content_def log_bytes_def)
qed (use store_okD(5) [OF assms] in \<open>simp add: log_content_def\<close>)

lemma load_content:
  "store_load de sid st = loaded (load_loop de (None, []) (read_lines [] (log_content sid st)))"
  by (simp add: store_load_def log_content_def loaded_def split: option.split)

lemma log_inode_other:
  assumes "store_ok ser de S st" "fs_dir (store_fs st) q = Some i" "q \<noteq> log_path sid"
  shows "i \<noteq> log_inode sid st"
proof (cases "fs_dir (store_fs st) (log_path sid)")
  case None
  with store_okD(4) [OF assms(1,2)] show ?thesis by (simp add: log_inode_def)
next
  case (Some j)
  with store_okD(3) [OF assms(1,2), of "log_path sid"] assms(3) show ?thesis
    by (auto simp: log_inode_def)
qed

lemma append_content:
  assumes "store_ok ser de S st" "sid \<in> S" "io \<noteq> OpenFails"
    and "ser \<lparr>le_stream_id = s, le_cursor = c, le_event = e\<rparr> = Some l"
  shows "log_content sid (store_append ser io sid s c e st) =
    log_content sid st @ (case io of PartialWrite n \<Rightarrow> take n (line_of l) | _ \<Rightarrow> line_of l)"
  by (simp add: log_content_def [of sid "store_append ser io sid s c e st"] append_effect [OF assms])


lemma inj_log_path_neq: "store_ok ser de S st \<Longrightarrow> a \<in> S \<Longrightarrow> b \<in> S \<Longrightarrow> a \<noteq> b \<Longrightarrow> log_path a \<noteq> log_path b"
  by (metis inj_onD store_okD(1))

lemma store_ok_append:
  assumes ok: "store_ok ser de S st" and sid: "sid \<in> S"
    and good: "record_ok ser de \<lparr>le_stream_id = s, le_cursor = c, le_event = e\<rparr>"
  shows "store_ok ser de S (store_append ser IoOk sid s c e st)"
proof -
  let ?r = "\<lparr>le_stream_id = s, le_cursor = c, le_event = e\<rparr>"
  let ?st = "store_append ser IoOk sid s c e st"
  from good obtain l where l: "ser ?r = Some l" by (auto simp: record_ok_def)
  have io: "IoOk \<noteq> OpenFails" by simp
  note eff = append_effect [where ser = ser, OF ok sid io l]
  from store_ok_content [OF ok, of sid] obtain rs where rs: "log_content sid st = log_bytes ser rs"
    "\<forall>r \<in> set rs. record_ok ser de r" by blast
  then have new: "log_content sid st @ line_of l = log_bytes ser (rs @ [?r])"
    "\<forall>r \<in> set (rs @ [?r]). record_ok ser de r"
    using l good by (simp_all add: log_bytes_append) (simp add: log_bytes_def)
  show ?thesis
  proof (rule store_okI)
    fix s' i assume "s' \<in> S" "store_logs ?st s' = Some i"
    then show "fs_dir (store_fs ?st) (log_path s') = Some i"
      using store_okD(2) [OF ok, of s' i] inj_log_path_neq [OF ok, of s' sid] sid
      by (cases "s' = sid") (simp_all add: eff)
  next
    fix p q i assume "fs_dir (store_fs ?st) p = Some i" "fs_dir (store_fs ?st) q = Some i"
    then show "p = q"
      using store_okD(3) [OF ok, of p i q] log_inode_other [OF ok, of p i sid] log_inode_other [OF ok, of q i sid]
      by (auto simp: eff split: if_splits)
  next
    fix p i assume p: "fs_dir (store_fs ?st) p = Some i"
    have old: "i < fs_next (store_fs st) \<and>
        (\<exists>rs. fs_data (store_fs st) i = log_bytes ser rs \<and> (\<forall>r \<in> set rs. record_ok ser de r))"
      "i \<noteq> log_inode sid st" if "p \<noteq> log_path sid"
      using store_okD(4,5) [OF ok, of p i] log_inode_other [OF ok, of p i sid] p that by (simp_all add: eff)
    show "i < fs_next (store_fs ?st) \<and>
        (\<exists>rs. fs_data (store_fs ?st) i = log_bytes ser rs \<and> (\<forall>r \<in> set rs. record_ok ser de r))"
    proof (cases "p = log_path sid")
      case True
      with p new show ?thesis by (intro conjI exI [of _ "rs @ [?r]"]) (simp_all add: eff)
    next
      case False
      from old [OF this] show ?thesis by (simp add: eff less_max_iff_disj)
    qed
  qed (rule store_okD(1) [OF ok])
qed

lemma store_ok_discard:
  assumes ok: "store_ok ser de S st" and sid: "sid \<in> S"
  shows "store_ok ser de S (store_discard sid st)"
proof (rule store_okI)
  fix s' i assume s': "s' \<in> S" and "store_logs (store_discard sid st) s' = Some i"
  then have "s' \<noteq> sid" "store_logs st s' = Some i" by (auto simp: store_discard_def split: if_splits)
  then show "fs_dir (store_fs (store_discard sid st)) (log_path s') = Some i"
    using store_okD(2) [OF ok s', of i] inj_log_path_neq [OF ok s' sid] by (simp add: store_discard_def)
next
  fix p q i assume "fs_dir (store_fs (store_discard sid st)) p = Some i"
    "fs_dir (store_fs (store_discard sid st)) q = Some i"
  then show "p = q" using store_okD(3) [OF ok, of p i q] by (auto simp: store_discard_def split: if_splits)
next
  fix p i assume "fs_dir (store_fs (store_discard sid st)) p = Some i"
  then have "fs_dir (store_fs st) p = Some i" by (auto simp: store_discard_def split: if_splits)
  from store_okD(4,5) [OF ok this]
  show "i < fs_next (store_fs (store_discard sid st)) \<and>
      (\<exists>rs. fs_data (store_fs (store_discard sid st)) i = log_bytes ser rs \<and> (\<forall>r \<in> set rs. record_ok ser de r))"
    by (simp add: store_discard_def)
qed (rule store_okD(1) [OF ok])

lemma store_load_append:
  assumes ok: "store_ok ser de S st" and sid: "sid \<in> S"
    and good: "record_ok ser de \<lparr>le_stream_id = s, le_cursor = c, le_event = e\<rparr>"
  shows "store_load de sid (store_append ser IoOk sid s c e st) =
    Some (s, same_stream s (store_load de sid st) @ [e])"
proof -
  let ?r = "\<lparr>le_stream_id = s, le_cursor = c, le_event = e\<rparr>"
  from good obtain l where l: "ser ?r = Some l" by (auto simp: record_ok_def)
  from store_ok_content [OF ok, of sid] obtain rs where rs: "log_content sid st = log_bytes ser rs"
    "\<forall>r \<in> set rs. record_ok ser de r" by blast
  have "log_content sid (store_append ser IoOk sid s c e st) = log_content sid st @ line_of l"
    using append_content [where ser = ser and io = IoOk, OF ok sid _ l] by simp
  also have "\<dots> = log_bytes ser (rs @ [?r])"
    using rs l by (simp add: log_bytes_append) (simp add: log_bytes_def)
  finally have new: "log_content sid (store_append ser IoOk sid s c e st) = log_bytes ser (rs @ [?r])" .
  have "\<forall>r \<in> set (rs @ [?r]). record_ok ser de r" using rs(2) good by simp
  from load_log_bytes [OF this, of "[]"] load_log_bytes [OF rs(2), of "[]"]
  show ?thesis by (simp add: load_content new rs(1) loaded_snoc)
qed

lemma store_load_append_other:
  assumes ok: "store_ok ser de S st" and S: "sid \<in> S" "sid' \<in> S" "sid' \<noteq> sid"
  shows "store_load de sid' (store_append ser IoOk sid s c e st) = store_load de sid' st"
proof (cases "ser \<lparr>le_stream_id = s, le_cursor = c, le_event = e\<rparr>")
  case None
  then show ?thesis by (simp add: store_append_def)
next
  case (Some l)
  have io: "IoOk \<noteq> OpenFails" by simp
  have path: "log_path sid' \<noteq> log_path sid" using inj_log_path_neq [OF ok S(2,1,3)] .
  show ?thesis
    using log_inode_other [OF ok _ path] path
    by (simp add: store_load_def append_effect [where ser = ser, OF ok S(1) io Some] split: option.split)
qed

interpretation file_store: projection_store
  "store_append ser IoOk" "store_load de" store_discard "\<lambda>sid. sid \<in> S"
  "\<lambda>s c e. record_ok ser de \<lparr>le_stream_id = s, le_cursor = c, le_event = e\<rparr>" "store_ok ser de S"
  for ser de S
proof (unfold_locales, goal_cases)
  case 1
  then show ?case by (intro store_ok_append)
next
  case 2
  then show ?case by (intro store_ok_discard)
next
  case 3
  then show ?case by (intro store_load_append)
next
  case 4
  then show ?case by (intro store_load_append_other)
next
  case 5
  then show ?case by (simp add: store_load_def store_discard_def)
next
  case (6 st sid sid')
  then show ?case
    using inj_log_path_neq [of ser de S st sid' sid] by (simp add: store_load_def store_discard_def split: option.split)
qed


section \<open>The journal with its store\<close>

text \<open>
  \<open>record\<close> performs its store action after the lock is released. \<open>'s\<close> is the state of the store.
\<close>

definition perform_store_action ::
  "(string \<Rightarrow> string \<Rightarrow> nat \<Rightarrow> agentic_event \<Rightarrow> 's \<Rightarrow> 's) \<Rightarrow> (string \<Rightarrow> 's \<Rightarrow> 's) \<Rightarrow> store_action \<Rightarrow> 's \<Rightarrow> 's"
  where
  "perform_store_action put_event drop_log a st =
     (case a of
        NoStoreAction \<Rightarrow> st
      | StoreAppend sid stream cursor e \<Rightarrow> put_event sid stream cursor e st
      | StoreDiscard sid \<Rightarrow> drop_log sid st)"

definition record_with_store ::
  "(string \<Rightarrow> string \<Rightarrow> nat \<Rightarrow> agentic_event \<Rightarrow> 's \<Rightarrow> 's) \<Rightarrow> (string \<Rightarrow> 's \<Rightarrow> 's) \<Rightarrow> agentic_event
   \<Rightarrow> journal_state \<times> 's \<Rightarrow> journal_state \<times> 's" where
  "record_with_store put_event drop_log e x =
     (case journal_record e (fst x) of
        (_, a, j) \<Rightarrow> (j, perform_store_action put_event drop_log a (snd x)))"

definition run_with_store ::
  "(string \<Rightarrow> string \<Rightarrow> nat \<Rightarrow> agentic_event \<Rightarrow> 's \<Rightarrow> 's) \<Rightarrow> (string \<Rightarrow> 's \<Rightarrow> 's) \<Rightarrow> agentic_event list
   \<Rightarrow> journal_state \<times> 's \<Rightarrow> journal_state \<times> 's" where
  "run_with_store put_event drop_log es x = fold (record_with_store put_event drop_log) es x"

text \<open>A turn is not started again once it has ended, and the session is not deleted.\<close>

definition turns_end_once :: "agentic_event list \<Rightarrow> bool" where
  "turns_end_once h \<longleftrightarrow>
     (\<forall>i < length h. \<forall>k < i. \<forall>t. started_turn (h ! i) = Some t \<longrightarrow> is_terminal_event (h ! k) \<longrightarrow>
        journal_turn_id (h ! k) \<noteq> Some t)"

lemma turns_end_once_snoc:
  "turns_end_once (h @ [e]) \<Longrightarrow>
   turns_end_once h \<and>
   (\<forall>t. started_turn e = Some t \<longrightarrow> (\<forall>x \<in> set h. is_terminal_event x \<longrightarrow> journal_turn_id x \<noteq> Some t))"
proof (intro conjI)
  assume a: "turns_end_once (h @ [e])"
  show "turns_end_once h"
    unfolding turns_end_once_def
  proof (intro allI impI)
    fix i k t assume "i < length h" "k < i" "started_turn (h ! i) = Some t" "is_terminal_event (h ! k)"
    with a [unfolded turns_end_once_def, rule_format, of i k t] show "journal_turn_id (h ! k) \<noteq> Some t"
      by (simp add: nth_append)
  qed
  show "\<forall>t. started_turn e = Some t \<longrightarrow> (\<forall>x \<in> set h. is_terminal_event x \<longrightarrow> journal_turn_id x \<noteq> Some t)"
  proof (intro allI impI ballI)
    fix t x assume t: "started_turn e = Some t" and "x \<in> set h" and x: "is_terminal_event x"
    then obtain k where "k < length h" "h ! k = x" by (auto simp: in_set_conv_nth)
    with a [unfolded turns_end_once_def, rule_format, of "length h" k t] t x
    show "journal_turn_id x \<noteq> Some t" by (simp add: nth_append)
  qed
qed

lemma fst_record_with_store: "fst (record_with_store put_event drop_log e x) = snd (snd (journal_record e (fst x)))"
  by (simp add: record_with_store_def split: prod.split)

lemma snd_record_with_store:
  "snd (record_with_store put_event drop_log e x) =
     perform_store_action put_event drop_log (fst (snd (journal_record e (fst x)))) (snd x)"
  by (simp add: record_with_store_def split: prod.split)

lemma fst_run_with_store: "fst (run_with_store put_event drop_log es x) = journal_run es (fst x)"
  unfolding run_with_store_def journal_run_def
  by (induction es arbitrary: x) (simp_all add: fst_record_with_store)

lemma run_with_store_snoc:
  "run_with_store put_event drop_log (es @ [e]) x =
     record_with_store put_event drop_log e (run_with_store put_event drop_log es x)"
  by (simp add: run_with_store_def)

lemma apply_all_append: "apply_all p (es @ es') = apply_all (apply_all p es) es'"
  by (induction es arbitrary: p) simp_all

lemma is_session_deleted_skip: "is_session_deleted e \<Longrightarrow> \<not> materializes e"
  by (cases e) (simp_all add: is_session_deleted_def materializes_def journal_turn_id_def)

context projection_store
begin

definition stored_view :: "string \<Rightarrow> string \<Rightarrow> 's \<Rightarrow> agentic_event list \<times> string option" where
  "stored_view stream sid st = projection_view (apply_all projection_default (same_stream stream (load sid st)))"

text \<open>
  The log of a session in flight replays to its projection; a finished session has none; a terminal
  projection still names a turn only if that turn ended.
\<close>

definition log_agrees :: "string \<Rightarrow> string \<Rightarrow> agentic_event list \<Rightarrow> session_projection option \<Rightarrow> 's \<Rightarrow> bool" where
  "log_agrees stream sid h x st \<longleftrightarrow>
     (case x of
        None \<Rightarrow> same_stream stream (load sid st) = []
      | Some p \<Rightarrow>
          if sp_terminal p
          then load sid st = None \<and>
            (\<forall>t. sp_active_turn_id p = Some t \<longrightarrow> (\<exists>y \<in> set h. is_terminal_event y \<and> journal_turn_id y = Some t))
          else stored_view stream sid st = projection_view p \<and>
            (\<exists>es. load sid st = Some (stream, es)))"

lemma log_agrees_step:
  assumes agrees: "log_agrees stream sid h x st" and "ok st" "known sid" "good stream c e"
    and e: "journal_turn_id e \<noteq> None"
    and restart: "\<forall>t. started_turn e = Some t \<longrightarrow> (\<forall>y \<in> set h. is_terminal_event y \<longrightarrow> journal_turn_id y \<noteq> Some t)"
    and p: "p = snd (touch_projection n e (case x of None \<Rightarrow> projection_default | Some p \<Rightarrow> p))"
  shows "log_agrees stream sid (h @ [e]) (Some p)
    (if sp_terminal p then drop_log sid st else put_event sid stream c e st)"
proof -
  let ?p0 = "case x of None \<Rightarrow> projection_default | Some p \<Rightarrow> p"
  from e obtain t where t: "journal_turn_id e = Some t" by auto
  note fields = touch_projection_fields [OF e, of n ?p0, folded p]
  have terminal: "sp_terminal p \<longleftrightarrow>
      is_terminal_event e \<or> (started_turn e = None \<and> sp_active_turn_id ?p0 = Some t \<and> sp_terminal ?p0)"
    using fields(4) apply_event_terminal [OF t] by simp
  have active: "sp_active_turn_id p = Some t"
    using fields(3) apply_event_active [OF t] by (simp add: projection_view_def)
  show ?thesis
  proof (cases "sp_terminal p")
    case True
    have "\<exists>y \<in> set (h @ [e]). is_terminal_event y \<and> journal_turn_id y = Some t"
    proof (cases "is_terminal_event e")
      case False
      with True terminal have q: "sp_terminal ?p0" "sp_active_turn_id ?p0 = Some t" by blast+
      then obtain q where "x = Some q" by (cases x) (simp_all add: projection_default_def)
      with q agrees have "\<exists>y \<in> set h. is_terminal_event y \<and> journal_turn_id y = Some t"
        by (simp add: log_agrees_def)
      then show ?thesis by auto
    qed (use t in simp)
    with True active show ?thesis
      using load_discard [OF assms(2,3)] by (auto simp: log_agrees_def)
  next
    case False
    have start: "started_turn e = Some t' \<Longrightarrow> t' = t" for t'
      using started_turn_journal [of e t'] t by simp
    have stored: "same_stream stream (load sid (put_event sid stream c e st)) = same_stream stream (load sid st) @ [e]"
      using load_append [OF assms(2-4)] by (simp add: same_stream_def)
    have "projection_view (snd (apply_event (apply_all projection_default (same_stream stream (load sid st))) e)) =
      projection_view (snd (apply_event ?p0 e))"
    proof (cases x)
      case None
      with agrees show ?thesis by (simp add: log_agrees_def)
    next
      case (Some q)
      show ?thesis
      proof (cases "sp_terminal q")
        case True
        with agrees Some have none: "load sid st = None"
          and ended: "\<forall>t. sp_active_turn_id q = Some t \<longrightarrow> (\<exists>y \<in> set h. is_terminal_event y \<and> journal_turn_id y = Some t)"
          by (auto simp: log_agrees_def)
        have "sp_active_turn_id q \<noteq> Some t"
        proof
          assume q: "sp_active_turn_id q = Some t"
          have "\<not> (started_turn e = None)" using False terminal True Some q by simp
          then have "started_turn e = Some t" using start by auto
          with restart ended q show False by blast
        qed
        from apply_event_fresh_turn [OF t this] none Some show ?thesis by (simp add: same_stream_def)
      next
        case False
        with agrees Some have "stored_view stream sid st = projection_view q" by (simp add: log_agrees_def)
        from apply_event_view [OF this [unfolded stored_view_def]] show ?thesis by (simp add: Some)
      qed
    qed
    then have "stored_view stream sid (put_event sid stream c e st) = projection_view p"
      using fields(3) by (simp add: stored_view_def stored apply_all_append)
    with False load_append [OF assms(2-4)] show ?thesis by (simp add: log_agrees_def)
  qed
qed

lemma log_agrees_mono:
  "log_agrees stream sid h x st \<Longrightarrow> set h \<subseteq> set h' \<Longrightarrow> load sid st' = load sid st \<Longrightarrow>
   log_agrees stream sid h' x st'"
  by (auto simp: log_agrees_def stored_view_def subset_iff split: option.splits if_splits) blast

lemma log_agrees_cleared:
  "log_agrees stream sid h (Some p) st \<Longrightarrow> sp_terminal p \<Longrightarrow>
   log_agrees stream sid h (Some (clear_replay_content p)) st"
  by (simp add: log_agrees_def clear_replay_content_def)

lemma perform_other:
  assumes "ok st" "known sid" "known sid'" "sid \<noteq> sid'" "good s c e"
  shows "load sid (if b then drop_log sid' st else put_event sid' s c e st) = load sid st"
  using load_discard_other [OF assms(1,3,2,4)] load_append_other [OF assms(1,3,5,2,4)] by simp

text \<open>The invariant of a journal that runs with this store.\<close>

definition stored_inv ::
  "string \<Rightarrow> string \<Rightarrow> agentic_event list \<Rightarrow> journal_state \<times> 's \<Rightarrow> bool" where
  "stored_inv stream sid es x \<longleftrightarrow>
     journal_inv stream es (fst x) \<and> ok (snd x) \<and>
     log_agrees stream sid (history sid es) (map_of (js_sessions (fst x)) sid) (snd x)"

lemma stored_inv_step:
  assumes inv: "stored_inv stream sid es x" and len: "length es < u64_max"
    and known: "known sid" "\<forall>s. event_session_id e = Some s \<longrightarrow> known s"
    and good: "\<forall>c. good stream c e"
    and once: "turns_end_once (history sid (es @ [e]))"
    and kept: "is_session_deleted e \<longrightarrow> event_session_id e \<noteq> Some sid"
  shows "stored_inv stream sid (es @ [e]) (record_with_store put_event drop_log e x)"
proof -
  obtain j st where x: "x = (j, st)" by fastforce
  from inv x have j: "journal_inv stream es j" and st: "ok st"
    and agrees: "log_agrees stream sid (history sid es) (map_of (js_sessions j) sid) st"
    by (simp_all add: stored_inv_def)
  have j': "journal_inv stream (es @ [e]) (snd (snd (journal_record e j)))"
    using j len by (rule journal_inv_record)
  show ?thesis
  proof (cases "event_session_id e = None \<or> \<not> materializes e")
    case True
    have hist: "history sid (es @ [e]) = history sid es" using True by (auto simp: history_snoc)
    have "event_session_id e \<noteq> None" if "is_session_deleted e"
      using that by (cases e) (simp_all add: is_session_deleted_def event_session_id_def)
    then have "map_of (js_sessions (snd (snd (journal_record e j)))) sid = map_of (js_sessions j) sid"
      using True kept by (auto simp: journal_record_skip update_session_get)
    moreover have "fst (snd (journal_record e j)) = NoStoreAction"
      using True by (simp add: journal_record_skip)
    ultimately show ?thesis
      using j' st agrees
      by (simp add: stored_inv_def x fst_record_with_store snd_record_with_store perform_store_action_def hist)
  next
    case False
    then obtain s where s: "event_session_id e = Some s" and mat: "materializes e" by auto
    let ?p = "touched e s j"
    let ?m = "kv_put s ?p (js_sessions j)"
    let ?st = "if sp_terminal ?p then drop_log s st else put_event s stream (sp_cursor ?p) e st"
    have stream: "js_stream_id j = stream" using j by (simp add: journal_inv_def)
    have st': "snd (record_with_store put_event drop_log e x) = ?st"
      by (simp add: x snd_record_with_store journal_record_materializes [OF s mat] perform_store_action_def stream)
    have sessions: "js_sessions (fst (record_with_store put_event drop_log e x)) = prune_terminal_projections ?m"
      by (simp add: x fst_record_with_store journal_record_materializes [OF s mat])
    have kv: "kv_ok ?m" using j by (simp add: journal_inv_def)
    have "ok ?st" using st known(2) s good by (simp add: ok_append ok_discard)
    moreover have "log_agrees stream sid (history sid (es @ [e])) (map_of ?m sid) ?st"
    proof (cases "s = sid")
      case True
      have "started_turn e = Some t \<longrightarrow> (\<forall>y \<in> set (history sid es). is_terminal_event y \<longrightarrow> journal_turn_id y \<noteq> Some t)" for t
        using turns_end_once_snoc [of "history sid es" e] once s mat True by (simp add: history_snoc)
      moreover have "?p = snd (touch_projection (sat_add_u64 (js_sequence j) 1) e
          (case map_of (js_sessions j) sid of None \<Rightarrow> projection_default | Some p \<Rightarrow> p))"
        by (simp only: touched_def session_projection_of_def True)
      ultimately have "log_agrees stream sid (history sid es @ [e]) (Some ?p)
          (if sp_terminal ?p then drop_log sid st else put_event sid stream (sp_cursor ?p) e st)"
        using good mat by (intro log_agrees_step [OF agrees st known(1)]) (simp_all add: materializes_def)
      with True s mat show ?thesis by (simp only: alist.get_put_same) (simp add: history_snoc)
    next
      case False
      with log_agrees_mono [OF agrees _ perform_other [OF st known(1) _ _ good [rule_format]], of "history sid (es @ [e])" s]
        known(2) s
      show ?thesis by (simp add: history_snoc)
    qed
    then have "log_agrees stream sid (history sid (es @ [e])) (map_of (prune_terminal_projections ?m) sid) ?st"
      using pruned_sessions_terminal [OF kv, of sid]
      by (cases "map_of ?m sid") (auto simp: prune_get has_terminal_content_def intro: log_agrees_cleared)
    ultimately show ?thesis
      using j' by (simp add: stored_inv_def st' sessions) (simp add: x fst_record_with_store)
  qed
qed

lemma stored_inv_run:
  assumes "ok st" "same_stream stream (load sid st) = []" "known sid"
  shows "length es \<le> u64_max \<Longrightarrow>
    \<forall>e \<in> set es. \<forall>s. event_session_id e = Some s \<longrightarrow> known s \<Longrightarrow>
    \<forall>e \<in> set es. \<forall>c. good stream c e \<Longrightarrow>
    turns_end_once (history sid es) \<Longrightarrow>
    \<forall>e \<in> set es. is_session_deleted e \<longrightarrow> event_session_id e \<noteq> Some sid \<Longrightarrow>
    stored_inv stream sid es (run_with_store put_event drop_log es (with_stream_id stream, st))"
proof (induction es rule: rev_induct)
  case Nil
  then show ?case
    using assms by (simp add: stored_inv_def run_with_store_def journal_inv_init log_agrees_def)
      (simp add: with_stream_id_def)
next
  case (snoc e es)
  have "turns_end_once (history sid es)"
    using snoc.prems(4) turns_end_once_snoc [of "history sid es" e] by (simp add: history_snoc split: if_splits)
  with snoc have "stored_inv stream sid es (run_with_store put_event drop_log es (with_stream_id stream, st))"
    by simp
  from stored_inv_step [OF this, of e] snoc.prems assms(3) show ?case
    by (simp add: run_with_store_snoc)
qed

text \<open>After a restart the snapshot comes from the log.\<close>

lemma restart_restores:
  fixes fresh :: string
  assumes "stored_inv stream sid es x" "map_of (js_sessions (fst x)) sid = Some p"
  defines "s \<equiv> journal_snapshot (load sid (snd x)) (with_stream_id fresh) sid"
  shows "if sp_terminal p then snap_events s = [] \<and> snap_active_turn_id s = None \<and> snap_stream_id s = fresh
    else snap_events s = sp_events p \<and> snap_active_turn_id s = sp_active_turn_id p \<and> snap_stream_id s = stream"
proof (cases "sp_terminal p")
  case True
  with assms(1,2) have "load sid (snd x) = None" by (simp add: stored_inv_def log_agrees_def)
  with True show ?thesis by (simp add: s_def journal_snapshot_def with_stream_id_def)
next
  case False
  with assms(1,2) obtain es' where l: "load sid (snd x) = Some (stream, es')"
    and v: "stored_view stream sid (snd x) = projection_view p"
    by (auto simp: stored_inv_def log_agrees_def)
  from v have "projection_view (replay_events projection_default es') = projection_view p"
    by (simp add: stored_view_def l same_stream_def replay_events_view)
  with False l show ?thesis
    by (simp add: s_def journal_snapshot_def with_stream_id_def projection_view_def Let_def)
qed

end


section \<open>Torn writes\<close>

lemma load_loop_unreadable:
  "\<not> valid_utf8 l \<or> (trim l \<noteq> [] \<and> de l = None) \<Longrightarrow> load_loop de acc (l # ls) = acc"
  by auto

definition unreadable :: "(string \<Rightarrow> logged_event option) \<Rightarrow> string \<Rightarrow> bool" where
  "unreadable de l \<longleftrightarrow> \<not> valid_utf8 l \<or> (trim l \<noteq> [] \<and> de l = None)"

lemma load_after_torn:
  assumes ok: "store_ok ser de S st" and sid: "sid \<in> S"
    and ser: "ser \<lparr>le_stream_id = s, le_cursor = c, le_event = e\<rparr> = Some l"
  shows "\<exists>rs. log_content sid (store_append ser (PartialWrite n) sid s c e st) =
      log_bytes ser rs @ take n (line_of l) \<and> (\<forall>r \<in> set rs. record_ok ser de r) \<and>
      store_load de sid st = loaded (fold accept_record rs (None, []))"
proof -
  from store_ok_content [OF ok, of sid] obtain rs where rs: "log_content sid st = log_bytes ser rs"
    "\<forall>r \<in> set rs. record_ok ser de r" by blast
  moreover have "store_load de sid st = loaded (fold accept_record rs (None, []))"
    using load_log_bytes [OF rs(2), of "[]"] by (simp add: load_content rs(1))
  ultimately show ?thesis
    using append_content [where ser = ser and io = "PartialWrite n", OF ok sid _ ser] by auto
qed

lemma append_keeps_prefix:
  fixes e :: agentic_event
  assumes i: "fs_dir (store_fs st) (log_path sid) = Some i" and h: "store_logs st sid = Some i"
    and st': "st' = store_append ser io sid s c e st"
  shows "fs_dir (store_fs st') (log_path sid) = Some i" "store_logs st' sid = Some i"
    "\<exists>b. fs_data (store_fs st') i = fs_data (store_fs st) i @ b"
  using i h by (auto simp: st' store_append_def log_handle_def write_all_def split: option.split)

text \<open>
  A write that is cut short, by a crash or a full disk, costs only the event being written: the
  log still loads everything that was complete, and the event itself exactly if all its bytes but
  the line feed arrived.
\<close>

theorem torn_write_keeps_durable_prefix:
  assumes "store_ok ser de S st" and "sid \<in> S"
    and "ser \<lparr>le_stream_id = s, le_cursor = c, le_event = e\<rparr> = Some l"
    and "json_line l" and "de l = Some \<lparr>le_stream_id = s, le_cursor = c, le_event = e\<rparr>"
    and "\<And>k. 0 < k \<Longrightarrow> k < length l \<Longrightarrow> unreadable de (take k l)"
  shows "store_load de sid (store_append ser (PartialWrite n) sid s c e st) =
    (if n < length l then store_load de sid st
     else Some (s, same_stream s (store_load de sid st) @ [e]))"
proof -
  let ?r = "\<lparr>le_stream_id = s, le_cursor = c, le_event = e\<rparr>"
  obtain rs where rs: "log_content sid (store_append ser (PartialWrite n) sid s c e st) =
      log_bytes ser rs @ take n (line_of l)" "\<forall>r \<in> set rs. record_ok ser de r"
    "store_load de sid st = loaded (fold accept_record rs (None, []))"
    using load_after_torn [OF assms(1-3), of n] by blast
  let ?acc = "fold accept_record rs (None, [])"
  have load: "store_load de sid (store_append ser (PartialWrite n) sid s c e st) =
      loaded (load_loop de ?acc (read_lines [] (take n (line_of l))))"
    by (simp add: load_content rs(1) load_log_bytes [OF rs(2)])
  have nl: "CHR 0x0A \<notin> set (take k l)" for k
    using assms(4) by (auto simp: json_line_def dest: in_set_takeD)
  have whole: "load_loop de ?acc [l] = accept_record ?r ?acc"
    using assms(4,5) json_line_not_blank [of l] by (simp add: json_line_def)
  consider "n = 0" | "0 < n" "n < length l" | "n = length l" | "length l < n" by linarith
  then show ?thesis
  proof cases
    case 1
    moreover have "l \<noteq> []" using assms(4) by (auto simp: json_line_def)
    ultimately show ?thesis using load rs(3) by simp
  next
    case 2
    then have "take n (line_of l) = take n l" "take n l \<noteq> []" by (auto simp: line_of_def)
    moreover have "load_loop de ?acc [take n l] = ?acc"
      using assms(6) [OF 2] by (intro load_loop_unreadable) (simp add: unreadable_def)
    ultimately show ?thesis using load 2 rs(3) nl [of n] by (simp add: read_lines_tail)
  next
    case 3
    then have "take n (line_of l) = l" "l \<noteq> []" using assms(4) by (auto simp: line_of_def json_line_def)
    then have "read_lines [] (take n (line_of l)) = [l]" using nl [of "length l"] by (simp add: read_lines_tail)
    then show ?thesis using load 3 whole loaded_snoc [of ?r rs] rs(3) by (simp only:) simp
  next
    case 4
    then have "read_lines [] (take n (line_of l)) = [l]"
      using read_lines_line [OF assms(4), of "[]"] by (simp add: line_of_def)
    then show ?thesis using load 4 whole loaded_snoc [of ?r rs] rs(3) by (simp only:) simp
  qed
qed

text \<open>
  C19. What a torn write costs afterwards: the next append continues the torn line, so when that
  joined line is not a record, this event and every later one of the session is written to the file
  but never loaded again, until the log is discarded. The session's turn in flight is then restored
  as it was before the torn write.
\<close>

theorem torn_line_hides_later_events:
  assumes "store_ok ser de S st" and "sid \<in> S"
    and "ser \<lparr>le_stream_id = s, le_cursor = c, le_event = e\<rparr> = Some l"
    and "n < length l" and "CHR 0x0A \<notin> set l"
    and "ser \<lparr>le_stream_id = s', le_cursor = c', le_event = e'\<rparr> = Some l'"
    and "json_line l'" and "unreadable de (take n l @ l')"
  shows "store_load de sid
     (fold (\<lambda>(s, c, e). store_append ser IoOk sid s c e) later
       (store_append ser IoOk sid s' c' e'
         (store_append ser (PartialWrite n) sid s c e st))) = store_load de sid st"
proof -
  let ?t = "store_append ser (PartialWrite n) sid s c e st"
  let ?u = "store_append ser IoOk sid s' c' e' ?t"
  let ?i = "log_inode sid st"
  have io: "PartialWrite n \<noteq> OpenFails" by simp
  note eff = append_effect [where ser = ser and io = "PartialWrite n", OF assms(1,2) io assms(3)]
  obtain rs where rs: "log_content sid ?t = log_bytes ser rs @ take n (line_of l)"
    "\<forall>r \<in> set rs. record_ok ser de r" "store_load de sid st = loaded (fold accept_record rs (None, []))"
    using load_after_torn [OF assms(1-3), of n] by blast
  have t: "fs_dir (store_fs ?t) (log_path sid) = Some ?i" "store_logs ?t sid = Some ?i"
    by (simp_all add: eff)
  have joined: "fs_data (store_fs ?t) ?i = log_bytes ser rs @ take n l"
    using rs(1) t assms(4) by (simp add: log_content_def line_of_def)
  have u: "fs_dir (store_fs ?u) (log_path sid) = Some ?i" "store_logs ?u sid = Some ?i"
    "fs_data (store_fs ?u) ?i = log_bytes ser rs @ take n l @ line_of l'"
    using t joined assms(6)
    by (simp_all add: store_append_def [of ser IoOk] log_handle_def write_all_def line_of_def)
  let ?P = "\<lambda>st. fs_dir (store_fs st) (log_path sid) = Some ?i \<and> store_logs st sid = Some ?i \<and>
    (\<exists>b. fs_data (store_fs st) ?i = log_bytes ser rs @ take n l @ line_of l' @ b)"
  have step: "?P st \<Longrightarrow> ?P (store_append ser IoOk sid s c e st)" for s c e st
    using append_keeps_prefix [OF _ _ refl, of st sid ?i ser IoOk s c e] by auto
  have "?P st \<Longrightarrow> ?P (fold (\<lambda>(s, c, e). store_append ser IoOk sid s c e) later st)" for st
  proof (induction later arbitrary: st)
    case (Cons x xs)
    obtain s c e where "x = (s, c, e)" by (cases x)
    with Cons.IH [OF step [OF Cons.prems]] show ?case by simp
  qed simp
  from this [of ?u] u obtain b where
    b: "log_content sid (fold (\<lambda>(s, c, e). store_append ser IoOk sid s c e) later ?u) =
      log_bytes ser rs @ take n l @ line_of l' @ b"
    by (auto simp: log_content_def)
  have "CHR 0x0A \<notin> set (take n l @ l')" and "l' \<noteq> []"
    using assms(5,7) by (auto simp: json_line_def dest: in_set_takeD)
  moreover from this(2) have "hd (rev (take n l @ l')) \<noteq> CHR 0x0D"
    using assms(7) by (simp add: hd_rev json_line_def del: rev_append)
  ultimately have "read_lines [] (take n l @ line_of l' @ b) = (take n l @ l') # read_lines [] b"
    using read_lines_skip [of "take n l @ l'" "[]" "CHR 0x0A # b"]
    by (simp add: line_of_def strip_cr_rev_id)
  then show ?thesis
    using rs(3) assms(8)
    by (simp only: load_content b load_log_bytes [OF rs(2)])
      (simp add: load_loop_unreadable unreadable_def del: load_loop.simps(2))
qed


section \<open>Two processes on one directory\<close>

text \<open>
  A turn that was interrupted leaves its log and the handle open. When another process then ends
  the session's turn, it removes the file; the first process still holds the handle, and what it
  records for the session from then on goes to the removed file and is never loaded.
\<close>

lemma stale_handle_hides_log:
  assumes "store_logs a sid = Some i"
  defines "b \<equiv> store_discard sid (reopen a)"
  shows "store_load de sid (store_append ser io sid s c e (a\<lparr>store_fs := store_fs b\<rparr>)) = None"
  using assms
  by (simp add: store_load_def store_append_def log_handle_def write_all_def store_discard_def
      reopen_def file_store_new_def split: option.split)

section \<open>A restart\<close>

text \<open>
  C18. A restart restores the turn in flight. Whatever was recorded for whichever sessions, with every
  event appended when it happened, a new process on the same log directory answers a snapshot of a
  session whose turn was still running with the events and the active turn of the projection that
  died, under the old stream identifier; a session whose turn had ended restores nothing. It is
  assumed that writes succeed, that a turn is not started again after it ended, that the session was
  not deleted, and that its file holds nothing of the current stream before.
\<close>

theorem restart_restores_turn_in_flight:
  assumes "store_ok ser de S st" and "sid \<in> S" and "same_stream stream (store_load de sid st) = []"
    and "length es \<le> u64_max"
    and "\<forall>e \<in> set es. \<forall>s. event_session_id e = Some s \<longrightarrow> s \<in> S"
    and "\<forall>e \<in> set es. \<forall>c. record_ok ser de \<lparr>le_stream_id = stream, le_cursor = c, le_event = e\<rparr>"
    and "turns_end_once (history sid es)"
    and "\<forall>e \<in> set es. is_session_deleted e \<longrightarrow> event_session_id e \<noteq> Some sid"
    and "x = run_with_store (store_append ser IoOk) store_discard es (with_stream_id stream, st)"
    and "map_of (js_sessions (fst x)) sid = Some p"
    and "s = journal_snapshot (store_load de sid (reopen (snd x))) (with_stream_id fresh) sid"
  shows "if sp_terminal p
    then snap_events s = [] \<and> snap_active_turn_id s = None \<and> snap_stream_id s = fresh
    else snap_events s = sp_events p \<and> snap_active_turn_id s = sp_active_turn_id p \<and>
      snap_stream_id s = stream"
proof -
  have "store_load de sid (reopen (snd x)) = store_load de sid (snd x)"
    by (simp add: store_load_def reopen_def file_store_new_def split: option.split)
  moreover have "file_store.stored_inv de ser S stream sid es x"
    unfolding assms(9) using assms(1-8) by (intro file_store.stored_inv_run)
  ultimately show ?thesis
    using file_store.restart_restores [OF _ assms(10), of de ser S stream es fresh] assms(11) by simp
qed

definition example_json :: "logged_event \<Rightarrow> string option" where
  "example_json r = Some (CHR ''{'' # replicate (le_cursor r) CHR ''1'')"

definition example_parse :: "string \<Rightarrow> logged_event option" where
  "example_parse l =
     Some \<lparr>le_stream_id = ''x'', le_cursor = length l - 1, le_event = hd example_events\<rparr>"

definition empty_files :: file_system where
  "empty_files = \<lparr>fs_dir = (\<lambda>_. None), fs_data = (\<lambda>_. []), fs_next = 0\<rparr>"

lemma utf8_chars_ascii: "\<forall>c \<in> set s. byte_in 0 127 c \<Longrightarrow> utf8_chars s = map (\<lambda>c. [c]) s"
proof (induction s)
  case (Cons c s)
  then show ?case by (cases s) (auto simp: is_utf8_cont_def byte_in_def)
qed simp

lemma json_line_example: "json_line (CHR ''{'' # replicate n CHR ''1'')"
proof -
  have "\<forall>c \<in> set (CHR ''{'' # replicate n CHR ''1''). byte_in 0 127 c" by (auto simp: byte_in_def)
  then have "valid_utf8 (CHR ''{'' # replicate n CHR ''1'')"
    unfolding valid_utf8_def utf8_chars_ascii [OF \<open>\<forall>c \<in> _. _\<close>] by (auto simp: utf8_code_point_def)
  then show ?thesis by (auto simp: json_line_def)
qed

lemma record_ok_example:
  "record_ok example_json example_parse \<lparr>le_stream_id = ''x'', le_cursor = c, le_event = hd example_events\<rparr>"
  using json_line_example [of c] by (simp add: record_ok_def example_json_def example_parse_def)

lemma store_ok_example: "store_ok ser de {sid} (file_store_new empty_files)"
  by (simp add: store_ok_new empty_files_def)

lemma restart_restores_turn_in_flight_witness:
  "snap_events (journal_snapshot (store_load example_parse ''s'' (reopen (snd
     (run_with_store (store_append example_json IoOk) store_discard example_events
       (with_stream_id ''x'', file_store_new empty_files))))) (with_stream_id ''y'') ''s'') = example_events"
proof -
  let ?x = "run_with_store (store_append example_json IoOk) store_discard example_events
       (with_stream_id ''x'', file_store_new empty_files)"
  have only: "e = hd example_events" if "e \<in> set example_events" for e
    using that by (simp add: example_events_def)
  have j: "fst ?x = journal_run example_events (with_stream_id ''x'')" by (simp add: fst_run_with_store)
  obtain p where p: "map_of (js_sessions (fst ?x)) ''s'' = Some p" and run: "\<not> sp_terminal p"
    and es: "sp_events p = example_events"
    unfolding j by (simp add: example_journal)
  have a: "same_stream ''x'' (store_load example_parse ''s'' (file_store_new empty_files)) = []"
    by (simp add: same_stream_def store_load_def file_store_new_def empty_files_def)
  have b: "length example_events \<le> u64_max" by (simp add: example_events_def u64_max_def)
  have c: "\<forall>e \<in> set example_events. \<forall>s. event_session_id e = Some s \<longrightarrow> s \<in> {''s''}"
    by (simp add: example_events_def example_event)
  have d: "\<forall>e \<in> set example_events. \<forall>c. record_ok example_json example_parse
      \<lparr>le_stream_id = ''x'', le_cursor = c, le_event = e\<rparr>"
    using only record_ok_example by blast
  have e: "turns_end_once (history ''s'' example_events)"
    by (simp add: turns_end_once_def history_example) (simp add: example_events_def)
  have f: "\<forall>e \<in> set example_events. is_session_deleted e \<longrightarrow> event_session_id e \<noteq> Some ''s''"
    by (simp add: example_events_def example_event)
  show ?thesis
    using restart_restores_turn_in_flight [OF store_ok_example _ a b c d e f refl p refl] run es by simp
qed

text \<open>A parser that accepts the one-byte record of cursor 0 only.\<close>

definition example_parse_one :: "string \<Rightarrow> logged_event option" where
  "example_parse_one l =
     (if l = ''{1'' then Some \<lparr>le_stream_id = ''x'', le_cursor = 1, le_event = hd example_events\<rparr> else None)"

lemma example_prefix: "0 < k \<Longrightarrow> k < length ''{1'' \<Longrightarrow> unreadable example_parse_one (take k ''{1'')"
  using json_line_not_blank [OF json_line_example [of 0]]
  by (cases k) (auto simp: unreadable_def example_parse_one_def less_Suc_eq)

lemma torn_write_keeps_durable_prefix_witness:
  "store_load example_parse_one ''s''
     (store_append example_json (PartialWrite 1) ''s'' ''x'' 1 (hd example_events) (file_store_new empty_files)) =
   None"
proof -
  have "example_json \<lparr>le_stream_id = ''x'', le_cursor = 1, le_event = hd example_events\<rparr> = Some ''{1''"
    by (simp add: example_json_def)
  from torn_write_keeps_durable_prefix
    [where ser = example_json and de = example_parse_one, OF store_ok_example _ this _ _ example_prefix]
  show ?thesis
    using json_line_example [of 1]
    by (simp add: example_parse_one_def store_load_def file_store_new_def empty_files_def)
qed

lemma torn_line_hides_later_events_witness:
  "store_load example_parse_one ''s''
     (store_append example_json IoOk ''s'' ''x'' 1 (hd example_events)
       (store_append example_json (PartialWrite 1) ''s'' ''x'' 1 (hd example_events) (file_store_new empty_files))) =
   None"
proof -
  have l: "example_json \<lparr>le_stream_id = ''x'', le_cursor = 1, le_event = hd example_events\<rparr> = Some ''{1''"
    by (simp add: example_json_def)
  have "valid_utf8 ''{{1''"
  proof -
    have "\<forall>c \<in> set ''{{1''. byte_in 0 127 c" by (simp add: byte_in_def)
    from utf8_chars_ascii [OF this] show ?thesis
      by (simp add: valid_utf8_def utf8_code_point_def byte_in_def)
  qed
  then have "json_line ''{{1''" by (simp add: json_line_def)
  then have "unreadable example_parse_one (take 1 ''{1'' @ ''{1'')"
    using json_line_not_blank [of "''{{1''"] by (simp add: unreadable_def example_parse_one_def)
  from torn_line_hides_later_events
    [where ser = example_json and de = example_parse_one and later = "[]",
      OF store_ok_example _ l _ _ l _ this]
  show ?thesis
    using json_line_example [of 1] by (simp add: store_load_def file_store_new_def empty_files_def)
qed


section \<open>The import check agrees with the replay\<close>

definition turn_ids :: "agentic_event list \<Rightarrow> string set" where
  "turn_ids es = {t. \<exists>e \<in> set es. event_turn_id e = Some t}"

lemma turn_ids_simps [simp]:
  "turn_ids [] = {}"
  "turn_ids (es @ es') = turn_ids es \<union> turn_ids es'"
  "turn_ids [e] = (case event_turn_id e of None \<Rightarrow> {} | Some t \<Rightarrow> {t})"
  by (auto simp: turn_ids_def split: option.split)

text \<open>Both loops after the same lines: summary against events.\<close>

definition checks :: "string \<Rightarrow> string option \<times> nat \<times> string set \<Rightarrow> string option \<times> agentic_event list \<Rightarrow> bool" where
  "checks expected v l \<longleftrightarrow>
     fst v = fst l \<and> (fst l = None \<longleftrightarrow> snd l = []) \<and>
     fst (snd v) = min (length (snd l)) u64_max \<and>
     snd (snd v) \<subseteq> turn_ids (snd l) \<and> turn_ids (tl (snd l)) \<subseteq> snd (snd v) \<and>
     (\<forall>e \<in> set (snd l). event_session_id e \<in> {None, Some expected})"

lemma checks_step:
  assumes c: "checks expected (stream, n, turns) acc"
    and s: "event_session_id (le_event r) \<in> {None, Some expected}"
  defines "turns1 \<equiv> (case event_turn_id (le_event r) of None \<Rightarrow> turns | Some t \<Rightarrow> insert t turns)"
  defines "v \<equiv> (case stream of
      Some current \<Rightarrow>
        if current \<noteq> le_stream_id r then (Some (le_stream_id r), 0, {}) else (Some current, n, turns1)
    | None \<Rightarrow> (Some (le_stream_id r), n, turns1))"
  shows "checks expected (fst v, sat_add_u64 (fst (snd v)) 1, snd (snd v)) (accept_record r acc)"
proof -
  obtain current es where acc: "acc = (current, es)" by (cases acc)
  with c have cur: "current = stream" and es: "stream = None \<longleftrightarrow> es = []"
    and n: "n = min (length es) u64_max" and t: "turns \<subseteq> turn_ids es" "turn_ids (tl es) \<subseteq> turns"
    and ok: "\<forall>e \<in> set es. event_session_id e \<in> {None, Some expected}"
    by (simp_all add: checks_def)
  have n1: "sat_add_u64 n 1 = min (Suc (length es)) u64_max" "sat_add_u64 0 1 = min (Suc 0) u64_max"
    using n by (auto simp: sat_add_u64_def)
  have sub: "turns1 \<subseteq> turn_ids es \<union> turn_ids [le_event r]"
    "es \<noteq> [] \<longrightarrow> turn_ids (tl (es @ [le_event r])) \<subseteq> turns1"
    using t by (auto simp: turns1_def split: option.splits)
  show ?thesis
  proof (cases stream)
    case None
    with es sub n1 s n show ?thesis
      by (simp add: checks_def accept_record_def acc cur v_def)
  next
    case (Some a)
    show ?thesis
    proof (cases "a = le_stream_id r")
      case True
      with Some es sub n1 s ok show ?thesis
        by (simp add: checks_def accept_record_def acc cur v_def)
    next
      case False
      with Some n1 s show ?thesis by (simp add: checks_def accept_record_def acc cur v_def)
    qed
  qed
qed

lemma validate_loop_checks:
  "checks expected v acc \<Longrightarrow> validate_loop de expected idx v ls = Inr w \<Longrightarrow>
   checks expected w (load_loop de acc ls)"
proof (induction ls arbitrary: v acc idx)
  case (Cons l ls)
  obtain stream n turns where v: "v = (stream, n, turns)" by (cases v) auto
  note c = Cons.prems(1) [unfolded v] and run = Cons.prems(2) [unfolded v]
  show ?case
  proof (cases "valid_utf8 l \<and> trim l \<noteq> []")
    case False
    with run Cons.IH [OF c] show ?thesis by (auto split: if_splits)
  next
    case readable: True
    show ?thesis
    proof (cases "de l")
      case None
      with readable run c show ?thesis by simp
    next
      case (Some r)
      then have s: "event_session_id (le_event r) \<in> {None, Some expected}"
        using readable run by (auto split: if_splits)
      from Cons.IH [OF checks_step [OF c this]] show ?thesis
        using readable run Some s
        by (auto simp: Let_def split: prod.splits if_splits)
    qed
  qed
qed simp

text \<open>
  The import check and the replay read a log alike. When \<open>validate_runtime_event_log\<close> accepts a
  file, the store loads from it events of the summary's stream, as many as it counts, all of the
  expected session or of none; the summary names only turns of these events and misses at most the
  turn of the first.
\<close>

theorem validated_log_loads:
  assumes "fs_dir (store_fs st) (log_path sid) = Some i"
    and "validate_runtime_event_log de (Some (fs_data (store_fs st) i)) sid = Inr summary"
  shows "\<exists>es. store_load de sid st = Some (ls_stream_id summary, es) \<and>
    ls_event_count summary = min (length es) u64_max \<and>
    (\<forall>e \<in> set es. event_session_id e = None \<or> event_session_id e = Some sid) \<and>
    ls_turn_ids summary \<subseteq> turn_ids es \<and> turn_ids (tl es) \<subseteq> ls_turn_ids summary"
proof -
  let ?ls = "read_lines [] (fs_data (store_fs st) i)"
  from assms(2) obtain stream n turns where
    w: "validate_loop de sid 0 (None, 0, {}) ?ls = Inr (Some stream, n, turns)"
    and summary: "summary = \<lparr>ls_stream_id = stream, ls_event_count = n, ls_turn_ids = turns\<rparr>"
    by (auto simp: validate_runtime_event_log_def split: sum.splits option.splits)
  have "checks sid (None, 0, {}) (None, [])" by (simp add: checks_def)
  from validate_loop_checks [OF this w]
  obtain es where "load_loop de (None, []) ?ls = (Some stream, es)"
    "checks sid (Some stream, n, turns) (Some stream, es)"
    by (cases "load_loop de (None, []) ?ls") (simp add: checks_def)
  with assms(1) show ?thesis
    by (intro exI [of _ es]) (auto simp: store_load_def loaded_def summary checks_def)
qed

text \<open>
  The missing turn: a record that changes the stream adds its turn before the turns collected so
  far are cleared.
\<close>

lemma stream_change_loses_turn:
  assumes "valid_utf8 l" "trim l \<noteq> []" "de l = Some r" "le_stream_id r \<noteq> old"
    and "event_session_id (le_event r) = Some expected"
  shows "validate_loop de expected idx (Some old, n, turns) [l] = Inr (Some (le_stream_id r), 1, {})"
  using assms by (simp add: Let_def sat_add_u64_def u64_max_def)

lemma validated_log_loads_witness:
  "\<exists>es. store_load example_parse_one ''s''
     (store_append example_json IoOk ''s'' ''x'' 1 (hd example_events) (file_store_new empty_files)) =
     Some (''x'', es) \<and> length es = 1"
proof -
  let ?st = "store_append example_json IoOk ''s'' ''x'' 1 (hd example_events) (file_store_new empty_files)"
  have d: "fs_dir (store_fs ?st) (log_path ''s'') = Some 0" "fs_data (store_fs ?st) 0 = line_of ''{1''"
    by (simp_all add: store_append_def example_json_def log_handle_def open_append_def write_all_def
        file_store_new_def empty_files_def line_of_def)
  have json: "json_line ''{1''" using json_line_example [of 1] by simp
  then have lines: "read_lines [] (line_of ''{1'') = [''{1'']"
    using read_lines_line [of "''{1''" "[]"] by simp
  have w: "validate_loop example_parse_one ''s'' 0 (None, 0, {}) [''{1''] =
      Inr (Some ''x'', 1, {''t''})"
    using json json_line_not_blank [OF json]
    by (simp add: json_line_def example_parse_one_def example_events_def example_event sat_add_u64_def
        u64_max_def event_turn_id_def)
  have "validate_runtime_event_log example_parse_one (Some (fs_data (store_fs ?st) 0)) ''s'' =
      Inr \<lparr>ls_stream_id = ''x'', ls_event_count = 1, ls_turn_ids = {''t''}\<rparr>"
    by (simp only: validate_runtime_event_log_def d lines w option.case sum.case prod.case)
  from validated_log_loads [OF d(1) this] obtain es where
    "store_load example_parse_one ''s'' ?st = Some (''x'', es)" "1 = min (length es) u64_max"
    by auto
  then show ?thesis by (auto simp: u64_max_def min_def split: if_splits)
qed

end
