(* ===== verification/Router_Summary_Queue.thy ===== *)
theory Router_Summary_Queue
  imports Prelude
begin

text \<open>
  The admission queue of background Router summaries,
  \<open>agent-runtime/src/router_summary_queue.rs\<close>: one pending snapshot per leaf session, round
  robin between root tasks, first in first out inside a root, one running item per leaf.

  \<open>QueueState\<close> with the limits of the queue is \<open>summary_queue\<close>. Every lock section is one
  function on it. \<open>active\<close> is a \<open>kv\<close> list because the code takes its length; the other maps are
  only looked up. The \<open>Notify\<close> of a ticket is the membership of its identifier in
  \<open>sq_notified\<close>, the stored permit of \<open>notify_one\<close>.

  \<open>entries[id]\<close> panics on a missing identifier; here such an identifier matches nothing, and the
  invariant shows that it does not occur. Tickets and permits are the values their holders drop.
\<close>

section \<open>State\<close>

record 'w summary_entry =
  se_root_session_id :: string
  se_session_id :: string
  se_work :: 'w
  se_reserved :: bool

record 'w summary_queue =
  sq_concurrency :: nat
  sq_max_pending_sessions :: nat
  sq_max_pending_per_root :: nat
  sq_next_id :: nat
  sq_entries :: "nat \<Rightarrow> 'w summary_entry option"
  sq_waiting :: "nat list"
  sq_waiting_roots :: "string list"
  sq_last_dispatched_root :: "string option"
  sq_pending_by_session :: "string \<Rightarrow> nat option"
  sq_active :: "(string, nat \<times> string) kv"
  sq_notified :: "nat set"

definition summary_queue_new :: "nat \<Rightarrow> nat \<Rightarrow> 'w summary_queue option" where
  "summary_queue_new concurrency max_pending =
     (if concurrency > 0
      then Some
        \<lparr>sq_concurrency = concurrency, sq_max_pending_sessions = max_pending,
         sq_max_pending_per_root = min 8 (max 1 (div_ceil max_pending 4)),
         sq_next_id = 0, sq_entries = (\<lambda>_. None), sq_waiting = [], sq_waiting_roots = [],
         sq_last_dispatched_root = None, sq_pending_by_session = (\<lambda>_. None), sq_active = [],
         sq_notified = {}\<rparr>
      else None)"

definition summary_active :: "'w summary_queue \<Rightarrow> string \<Rightarrow> bool" where
  "summary_active q sid \<longleftrightarrow> map_of (sq_active q) sid \<noteq> None"

definition summary_notify :: "nat \<Rightarrow> 'w summary_queue \<Rightarrow> 'w summary_queue" where
  "summary_notify i q = q\<lparr>sq_notified := insert i (sq_notified q)\<rparr>"

definition has_root :: "'w summary_queue \<Rightarrow> string \<Rightarrow> nat \<Rightarrow> bool" where
  "has_root q root i = (case sq_entries q i of None \<Rightarrow> False | Some e \<Rightarrow> se_root_session_id e = root)"

section \<open>Dispatch\<close>

definition summary_runnable :: "'w summary_queue \<Rightarrow> string \<Rightarrow> nat \<Rightarrow> bool" where
  "summary_runnable q root i =
     (case sq_entries q i of
        None \<Rightarrow> False
      | Some e \<Rightarrow> se_root_session_id e = root \<and> \<not> summary_active q (se_session_id e))"

definition runnable_position :: "'w summary_queue \<Rightarrow> string \<Rightarrow> nat option" where
  "runnable_position q root = position (summary_runnable q root) (sq_waiting q)"

definition dispatch_candidates :: "'w summary_queue \<Rightarrow> (nat \<times> nat \<times> bool) list" where
  "dispatch_candidates q =
     List.map_filter
       (\<lambda>(root_index, root).
          map_option (\<lambda>i. (root_index, i, Some root = sq_last_dispatched_root q)) (runnable_position q root))
       (enumerate 0 (sq_waiting_roots q))"

definition dispatch_choice :: "'w summary_queue \<Rightarrow> (nat \<times> nat \<times> bool) option" where
  "dispatch_choice q =
     (case dispatch_candidates q of
        [] \<Rightarrow> None
      | first # rest \<Rightarrow>
          if snd (snd first)
          then (case find (\<lambda>c. \<not> snd (snd c)) rest of Some c \<Rightarrow> Some c | None \<Rightarrow> Some first)
          else Some first)"

definition dispatch_one :: "nat \<Rightarrow> nat \<Rightarrow> 'w summary_queue \<Rightarrow> 'w summary_queue" where
  "dispatch_one root_index index q =
     (let root = sq_waiting_roots q ! root_index;
          roots = remove_at root_index (sq_waiting_roots q);
          i = sq_waiting q ! index;
          waiting = remove_at index (sq_waiting q);
          roots1 = (if \<exists>j \<in> set waiting. has_root q root j then roots @ [root] else roots);
          q1 = q\<lparr>sq_waiting := waiting, sq_waiting_roots := roots1, sq_last_dispatched_root := Some root\<rparr>
      in case sq_entries q i of
           None \<Rightarrow> q1
         | Some e \<Rightarrow>
             summary_notify i
               (q1\<lparr>sq_entries := (sq_entries q)(i \<mapsto> e\<lparr>se_reserved := True\<rparr>),
                   sq_active := kv_put (se_session_id e) (i, root) (sq_active q)\<rparr>))"

lemma dispatch_choice_member:
  assumes "dispatch_choice q = Some c"
  shows "c \<in> set (dispatch_candidates q)"
proof (cases "dispatch_candidates q")
  case (Cons first rest)
  have "c = first \<or> find (\<lambda>c. \<not> snd (snd c)) rest = Some c"
    using assms Cons unfolding dispatch_choice_def
    by (cases "find (\<lambda>c. \<not> snd (snd c)) rest") (simp_all split: if_splits)
  then show ?thesis
  proof
    assume "find (\<lambda>c. \<not> snd (snd c)) rest = Some c"
    then have "c \<in> set rest" unfolding find_Some_iff by auto
    with Cons show ?thesis by simp
  qed (simp add: Cons)
qed (use assms in \<open>simp add: dispatch_choice_def\<close>)

lemma set_map_filter: "y \<in> set (List.map_filter f xs) \<longleftrightarrow> (\<exists>x \<in> set xs. f x = Some y)"
proof
  assume "y \<in> set (List.map_filter f xs)"
  then obtain x where "x \<in> set xs" "f x \<noteq> None" "y = the (f x)" by (auto simp: List.map_filter_def)
  then show "\<exists>x \<in> set xs. f x = Some y" by (intro bexI [of _ x]) auto
next
  assume "\<exists>x \<in> set xs. f x = Some y"
  then obtain x where "x \<in> set xs" "f x = Some y" by blast
  then show "y \<in> set (List.map_filter f xs)"
    by (simp add: List.map_filter_def image_iff) (metis option.sel option.distinct(1))
qed

lemma in_enumerate: "x \<in> set (enumerate 0 xs) \<longleftrightarrow> fst x < length xs \<and> snd x = xs ! fst x"
  by (cases x) (auto simp: in_set_enumerate_eq)

lemma dispatch_candidates_member:
  "(ri, i, l) \<in> set (dispatch_candidates q) \<longleftrightarrow>
     ri < length (sq_waiting_roots q) \<and> runnable_position q (sq_waiting_roots q ! ri) = Some i \<and>
     l = (Some (sq_waiting_roots q ! ri) = sq_last_dispatched_root q)"
  unfolding dispatch_candidates_def set_map_filter Bex_def in_enumerate by auto

lemma dispatch_choice_sound:
  assumes "dispatch_choice q = Some (ri, i, l)"
  shows "ri < length (sq_waiting_roots q)" "runnable_position q (sq_waiting_roots q ! ri) = Some i"
    "i < length (sq_waiting q)"
proof -
  from dispatch_choice_member [OF assms]
  show "ri < length (sq_waiting_roots q)"
    and p: "runnable_position q (sq_waiting_roots q ! ri) = Some i"
    by (simp_all add: dispatch_candidates_member)
  from position_SomeD [OF p [unfolded runnable_position_def]] show "i < length (sq_waiting q)" by simp
qed

lemma dispatch_one_waiting: "sq_waiting (dispatch_one ri i q) = remove_at i (sq_waiting q)"
  by (simp add: dispatch_one_def Let_def summary_notify_def split: option.split)

function (sequential) summary_dispatch :: "'w summary_queue \<Rightarrow> 'w summary_queue" where
  "summary_dispatch q =
     (if length (sq_active q) < sq_concurrency q
      then (case dispatch_choice q of
              None \<Rightarrow> q
            | Some (ri, i, _) \<Rightarrow> summary_dispatch (dispatch_one ri i q))
      else q)"
  by pat_completeness auto

termination summary_dispatch
  by (relation "measure (\<lambda>q. length (sq_waiting q))")
    (auto dest!: dispatch_choice_sound(3) simp: dispatch_one_waiting length_remove_at)

declare summary_dispatch.simps [simp del]

section \<open>Operations\<close>

datatype summary_submission = SummaryQueueFull | TicketOverflow | Submitted nat

definition submit_root :: "'w summary_queue \<Rightarrow> string \<Rightarrow> string \<Rightarrow> string" where
  "submit_root q root sid =
     (case Option.bind (sq_pending_by_session q sid)
             (\<lambda>i. map_option se_root_session_id (sq_entries q i)) of
        Some r \<Rightarrow> r
      | None \<Rightarrow> (case map_of (sq_active q) sid of Some (_, r) \<Rightarrow> r | None \<Rightarrow> root))"

definition replace_waiting :: "nat \<Rightarrow> nat \<Rightarrow> nat list \<Rightarrow> nat list" where
  "replace_waiting old i xs = (case position (\<lambda>j. j = old) xs of Some k \<Rightarrow> xs[k := i] | None \<Rightarrow> xs)"

definition submit_for ::
  "string \<Rightarrow> string \<Rightarrow> 'w \<Rightarrow> 'w summary_queue \<Rightarrow> summary_submission \<times> 'w summary_queue" where
  "submit_for root0 sid work q =
     (let previous_id = sq_pending_by_session q sid;
          root = submit_root q root0 sid;
          can_start = (length (sq_active q) < sq_concurrency q \<and> \<not> summary_active q sid);
          root_waiting = length (filter (has_root q root) (sq_waiting q))
      in if previous_id = None \<and> \<not> can_start \<and>
            (length (sq_waiting q) \<ge> sq_max_pending_sessions q \<or>
             root_waiting \<ge> sq_max_pending_per_root q)
         then (SummaryQueueFull, q)
         else
           (let i = sq_next_id q
            in if i \<ge> u64_max then (TicketOverflow, q)
               else
                 (let previous = Option.bind previous_id (sq_entries q);
                      reserved = (case previous of None \<Rightarrow> False | Some e \<Rightarrow> se_reserved e);
                      entries = (case previous_id of None \<Rightarrow> sq_entries q | Some p \<Rightarrow> (sq_entries q)(p := None));
                      q1 = q\<lparr>sq_next_id := i + 1,
                             sq_entries := entries
                               (i \<mapsto> \<lparr>se_root_session_id = root, se_session_id = sid, se_work = work,
                                      se_reserved = reserved\<rparr>),
                             sq_pending_by_session := (sq_pending_by_session q)(sid \<mapsto> i)\<rparr>;
                      q2 = (if reserved
                            then summary_notify i (q1\<lparr>sq_active := kv_put sid (i, root) (sq_active q)\<rparr>)
                            else
                              (case previous_id of
                                 Some p \<Rightarrow> q1\<lparr>sq_waiting := replace_waiting p i (sq_waiting q)\<rparr>
                               | None \<Rightarrow>
                                   q1\<lparr>sq_waiting := sq_waiting q @ [i],
                                      sq_waiting_roots :=
                                        (if root \<in> set (sq_waiting_roots q) then sq_waiting_roots q
                                         else sq_waiting_roots q @ [root])\<rparr>));
                      q3 = summary_dispatch q2
                  in (Submitted i,
                      (case previous_id of
                         Some p \<Rightarrow> if previous = None then q3 else summary_notify p q3
                       | None \<Rightarrow> q3)))))"

definition submit :: "string \<Rightarrow> 'w \<Rightarrow> 'w summary_queue \<Rightarrow> summary_submission \<times> 'w summary_queue" where
  "submit sid work q = submit_for sid sid work q"

definition available_permits :: "'w summary_queue \<Rightarrow> nat" where
  "available_permits q = sq_concurrency q - length (sq_active q)"

definition summary_cancel :: "nat \<Rightarrow> 'w summary_queue \<Rightarrow> 'w summary_queue" where
  "summary_cancel i q =
     (case sq_entries q i of
        None \<Rightarrow> q
      | Some e \<Rightarrow>
          (let q1 = q\<lparr>sq_entries := (sq_entries q)(i := None),
                     sq_pending_by_session := (sq_pending_by_session q)(se_session_id e := None)\<rparr>
           in summary_dispatch
                (if se_reserved e
                 then q1\<lparr>sq_active := kv_del (se_session_id e) (sq_active q)\<rparr>
                 else
                   (let waiting = filter (\<lambda>j. j \<noteq> i) (sq_waiting q)
                    in q1\<lparr>sq_waiting := waiting,
                          sq_waiting_roots :=
                            (if \<exists>j \<in> set waiting. has_root q1 (se_root_session_id e) j
                             then sq_waiting_roots q
                             else filter (\<lambda>r. r \<noteq> se_root_session_id e) (sq_waiting_roots q))\<rparr>))))"

definition summary_update :: "nat \<Rightarrow> 'w \<Rightarrow> 'w summary_queue \<Rightarrow> bool \<times> 'w summary_queue" where
  "summary_update i work q =
     (case sq_entries q i of
        None \<Rightarrow> (False, q)
      | Some e \<Rightarrow> (True, q\<lparr>sq_entries := (sq_entries q)(i \<mapsto> e\<lparr>se_work := work\<rparr>)\<rparr>))"

definition summary_is_queued :: "nat \<Rightarrow> 'w summary_queue \<Rightarrow> bool" where
  "summary_is_queued i q \<longleftrightarrow> sq_entries q i \<noteq> None"

text \<open>One turn of the loop of \<open>start\<close>; \<open>StillWaiting\<close> goes on to await the notification.\<close>

datatype 'w summary_start = Superseded | StillWaiting | Admitted 'w string

definition start_poll :: "nat \<Rightarrow> 'w summary_queue \<Rightarrow> 'w summary_start \<times> 'w summary_queue" where
  "start_poll i q =
     (case sq_entries q i of
        None \<Rightarrow> (Superseded, q)
      | Some e \<Rightarrow>
          if se_reserved e
          then (Admitted (se_work e) (se_session_id e),
                q\<lparr>sq_entries := (sq_entries q)(i := None),
                  sq_pending_by_session := (sq_pending_by_session q)(se_session_id e := None)\<rparr>)
          else (StillWaiting, q))"

definition permit_drop :: "string \<Rightarrow> nat \<Rightarrow> 'w summary_queue \<Rightarrow> 'w summary_queue" where
  "permit_drop sid i q =
     (case map_of (sq_active q) sid of
        None \<Rightarrow> q
      | Some (j, _) \<Rightarrow> if j = i then summary_dispatch (q\<lparr>sq_active := kv_del sid (sq_active q)\<rparr>) else q)"


section \<open>Invariant\<close>

definition sq_inv :: "'w summary_queue \<Rightarrow> bool" where
  "sq_inv q \<longleftrightarrow>
     kv_ok (sq_active q) \<and> length (sq_active q) \<le> sq_concurrency q \<and>
     distinct (sq_waiting q) \<and> distinct (sq_waiting_roots q) \<and>
     (\<forall>i. i \<in> set (sq_waiting q) \<longleftrightarrow> (\<exists>e. sq_entries q i = Some e \<and> \<not> se_reserved e)) \<and>
     (\<forall>r. r \<in> set (sq_waiting_roots q) \<longleftrightarrow> (\<exists>i \<in> set (sq_waiting q). has_root q r i)) \<and>
     (\<forall>s i. sq_pending_by_session q s = Some i \<longleftrightarrow> (\<exists>e. sq_entries q i = Some e \<and> se_session_id e = s)) \<and>
     (\<forall>i e. sq_entries q i = Some e \<longrightarrow> se_reserved e \<longrightarrow>
        map_of (sq_active q) (se_session_id e) = Some (i, se_root_session_id e)) \<and>
     (\<forall>i e. sq_entries q i = Some e \<longrightarrow> i < sq_next_id q) \<and>
     (\<forall>s i r. map_of (sq_active q) s = Some (i, r) \<longrightarrow> i < sq_next_id q)"

lemma sq_invI:
  assumes "kv_ok (sq_active q)" "length (sq_active q) \<le> sq_concurrency q"
    "distinct (sq_waiting q)" "distinct (sq_waiting_roots q)"
    "\<And>i. i \<in> set (sq_waiting q) \<longleftrightarrow> (\<exists>e. sq_entries q i = Some e \<and> \<not> se_reserved e)"
    "\<And>r. r \<in> set (sq_waiting_roots q) \<longleftrightarrow> (\<exists>i \<in> set (sq_waiting q). has_root q r i)"
    "\<And>s i. sq_pending_by_session q s = Some i \<longleftrightarrow> (\<exists>e. sq_entries q i = Some e \<and> se_session_id e = s)"
    "\<And>i e. sq_entries q i = Some e \<Longrightarrow> se_reserved e \<Longrightarrow>
      map_of (sq_active q) (se_session_id e) = Some (i, se_root_session_id e)"
    "\<And>i e. sq_entries q i = Some e \<Longrightarrow> i < sq_next_id q"
    "\<And>s i r. map_of (sq_active q) s = Some (i, r) \<Longrightarrow> i < sq_next_id q"
  shows "sq_inv q"
  using assms unfolding sq_inv_def by auto

lemma sq_invD:
  assumes "sq_inv q"
  shows "kv_ok (sq_active q)" "length (sq_active q) \<le> sq_concurrency q"
    "distinct (sq_waiting q)" "distinct (sq_waiting_roots q)"
    "i \<in> set (sq_waiting q) \<longleftrightarrow> (\<exists>e. sq_entries q i = Some e \<and> \<not> se_reserved e)"
    "r \<in> set (sq_waiting_roots q) \<longleftrightarrow> (\<exists>i \<in> set (sq_waiting q). has_root q r i)"
    "sq_pending_by_session q s = Some i \<longleftrightarrow> (\<exists>e. sq_entries q i = Some e \<and> se_session_id e = s)"
    "sq_entries q i = Some e \<Longrightarrow> se_reserved e \<Longrightarrow>
      map_of (sq_active q) (se_session_id e) = Some (i, se_root_session_id e)"
    "sq_entries q i = Some e \<Longrightarrow> i < sq_next_id q"
    "map_of (sq_active q) s = Some (i, r) \<Longrightarrow> i < sq_next_id q"
  using assms unfolding sq_inv_def by blast+

lemma sq_inv_one_entry:
  assumes "sq_inv q" "sq_entries q i = Some e" "sq_entries q j = Some f" "se_session_id e = se_session_id f"
  shows "i = j"
  using assms(2-4) sq_invD(7) [OF assms(1), of "se_session_id f" i]
    sq_invD(7) [OF assms(1), of "se_session_id f" j] by auto

text \<open>A free slot is never left idle while some waiting work could take it.\<close>

definition work_conserving :: "'w summary_queue \<Rightarrow> bool" where
  "work_conserving q \<longleftrightarrow>
     (length (sq_active q) < sq_concurrency q \<longrightarrow>
        (\<forall>i \<in> set (sq_waiting q). \<forall>e. sq_entries q i = Some e \<longrightarrow> summary_active q (se_session_id e)))"

lemma remove_at_split:
  "k < length xs \<Longrightarrow> \<exists>as bs. xs = as @ xs ! k # bs \<and> remove_at k xs = as @ bs \<and> length as = k"
  unfolding remove_at_def by (metis id_take_nth_drop length_take min.absorb4)

lemma set_remove_at:
  assumes "distinct xs" "k < length xs"
  shows "set (remove_at k xs) = set xs - {xs ! k}" "distinct (remove_at k xs)"
proof -
  from remove_at_split [OF assms(2)] obtain as bs where x: "xs = as @ xs ! k # bs"
    and r: "remove_at k xs = as @ bs" by blast
  from assms(1) have "distinct (as @ xs ! k # bs)" by (subst (asm) x)
  then have "set (as @ bs) = set (as @ xs ! k # bs) - {xs ! k}" "distinct (as @ bs)" by auto
  with x r show "set (remove_at k xs) = set xs - {xs ! k}" "distinct (remove_at k xs)"
    by metis+
qed

lemma dispatch_choice_None:
  assumes "sq_inv q" "dispatch_choice q = None"
  shows "\<forall>i \<in> set (sq_waiting q). \<forall>e. sq_entries q i = Some e \<longrightarrow> summary_active q (se_session_id e)"
proof (intro ballI allI impI, rule ccontr)
  fix i e assume i: "i \<in> set (sq_waiting q)" and e: "sq_entries q i = Some e"
    and free: "\<not> summary_active q (se_session_id e)"
  let ?r = "se_root_session_id e"
  have "summary_runnable q ?r i" using e free by (simp add: summary_runnable_def)
  then obtain k where k: "runnable_position q ?r = Some k"
    unfolding runnable_position_def using position_SomeI [OF i] by blast
  have "?r \<in> set (sq_waiting_roots q)"
    unfolding sq_invD(6) [OF assms(1)] by (rule bexI [OF _ i]) (simp add: has_root_def e)
  then obtain ri where "ri < length (sq_waiting_roots q)" "sq_waiting_roots q ! ri = ?r"
    by (auto simp: in_set_conv_nth)
  with k have "(ri, k, Some ?r = sq_last_dispatched_root q) \<in> set (dispatch_candidates q)"
    by (simp add: dispatch_candidates_member)
  then show False
    using assms(2) by (auto simp: dispatch_choice_def split: list.splits if_splits option.splits)
qed


lemma dispatch_one_entry:
  assumes "sq_inv q" "dispatch_choice q = Some (ri, i, l)"
  obtains e where "sq_entries q (sq_waiting q ! i) = Some e" "\<not> se_reserved e"
    "se_root_session_id e = sq_waiting_roots q ! ri" "\<not> summary_active q (se_session_id e)"
proof -
  note sound = dispatch_choice_sound [OF assms(2)]
  from position_SomeD [OF sound(2) [unfolded runnable_position_def]] obtain e where
    "sq_entries q (sq_waiting q ! i) = Some e" "se_root_session_id e = sq_waiting_roots q ! ri"
    "\<not> summary_active q (se_session_id e)"
    by (auto simp: summary_runnable_def split: option.splits)
  moreover have "\<not> se_reserved e"
    using sq_invD(5) [OF assms(1), of "sq_waiting q ! i"] sound(3) calculation(1) by auto
  ultimately show thesis using that by blast
qed

lemma dispatch_one_fields:
  assumes "sq_inv q" "dispatch_choice q = Some (ri, i, l)" and e: "sq_entries q (sq_waiting q ! i) = Some e"
  defines "q' \<equiv> dispatch_one ri i q"
  shows "sq_waiting q' = remove_at i (sq_waiting q)"
    and "sq_entries q' = (sq_entries q)(sq_waiting q ! i \<mapsto> e\<lparr>se_reserved := True\<rparr>)"
    and "sq_active q' = kv_put (se_session_id e) (sq_waiting q ! i, sq_waiting_roots q ! ri) (sq_active q)"
    and "sq_notified q' = insert (sq_waiting q ! i) (sq_notified q)"
    and "sq_last_dispatched_root q' = Some (sq_waiting_roots q ! ri)"
    and "sq_pending_by_session q' = sq_pending_by_session q"
    and "sq_next_id q' = sq_next_id q" "sq_concurrency q' = sq_concurrency q"
    and "sq_max_pending_sessions q' = sq_max_pending_sessions q"
    and "sq_max_pending_per_root q' = sq_max_pending_per_root q"
    and "sq_waiting_roots q' =
      (if \<exists>j \<in> set (remove_at i (sq_waiting q)). has_root q (sq_waiting_roots q ! ri) j
       then remove_at ri (sq_waiting_roots q) @ [sq_waiting_roots q ! ri]
       else remove_at ri (sq_waiting_roots q))"
  using e by (simp_all add: q'_def dispatch_one_def Let_def summary_notify_def)

lemma has_root_reserve: "sq_entries q i = Some e \<Longrightarrow>
  has_root (q'\<lparr>sq_entries := (sq_entries q)(i \<mapsto> e\<lparr>se_reserved := True\<rparr>)\<rparr>) r j = has_root q r j"
  by (simp add: has_root_def)

lemma dispatch_one_inv:
  assumes inv: "sq_inv q" and choice: "dispatch_choice q = Some (ri, i, l)"
    and free: "length (sq_active q) < sq_concurrency q"
  shows "sq_inv (dispatch_one ri i q)"
proof -
  obtain e where e: "sq_entries q (sq_waiting q ! i) = Some e" "\<not> se_reserved e"
    and root: "se_root_session_id e = sq_waiting_roots q ! ri" and idle: "\<not> summary_active q (se_session_id e)"
    by (rule dispatch_one_entry [OF inv choice])
  note sound = dispatch_choice_sound [OF choice]
  note fields = dispatch_one_fields [OF inv choice e(1)]
  note d = sq_invD [OF inv]
  let ?q = "dispatch_one ri i q" and ?i = "sq_waiting q ! i" and ?r = "sq_waiting_roots q ! ri"
  have w: "set (sq_waiting ?q) = set (sq_waiting q) - {?i}" "distinct (sq_waiting ?q)"
    using set_remove_at [OF d(3) sound(3)] by (simp_all add: fields)
  have roots: "set (remove_at ri (sq_waiting_roots q)) = set (sq_waiting_roots q) - {?r}"
    "distinct (remove_at ri (sq_waiting_roots q))"
    using set_remove_at [OF d(4) sound(1)] by simp_all
  have hr: "has_root ?q r j = has_root q r j" for r j
    using e(1) by (simp add: has_root_def fields)
  have ir: "has_root q r ?i \<longleftrightarrow> r = ?r" for r using e(1) root by (auto simp: has_root_def)
  show ?thesis
  proof (rule sq_invI)
    show "kv_ok (sq_active ?q)" using d(1) by (simp add: fields)
    show "length (sq_active ?q) \<le> sq_concurrency ?q" using free by (simp add: fields kv_length_put)
    show "distinct (sq_waiting ?q)" by (rule w)
    show "distinct (sq_waiting_roots ?q)" using roots by (simp add: fields)
    fix j show "j \<in> set (sq_waiting ?q) \<longleftrightarrow> (\<exists>e. sq_entries ?q j = Some e \<and> \<not> se_reserved e)"
      using d(5) [of j] by (simp only: w) (auto simp: fields(2))
  next
    fix r
    have "r \<in> set (sq_waiting_roots ?q) \<longleftrightarrow>
        (if r = ?r then \<exists>j \<in> set (sq_waiting ?q). has_root q r j else r \<in> set (sq_waiting_roots q))"
      using roots by (auto simp: fields(1,11))
    also have "\<dots> \<longleftrightarrow> (\<exists>j \<in> set (sq_waiting ?q). has_root q r j)"
      using d(6) [of r] ir [of r] by (simp only: w) auto
    finally show "r \<in> set (sq_waiting_roots ?q) \<longleftrightarrow> (\<exists>j \<in> set (sq_waiting ?q). has_root ?q r j)"
      by (simp add: hr)
  next
    fix s j show "sq_pending_by_session ?q s = Some j \<longleftrightarrow> (\<exists>e. sq_entries ?q j = Some e \<and> se_session_id e = s)"
      using d(7) [of s j] e(1) by (auto simp: fields)
  next
    fix j f assume f: "sq_entries ?q j = Some f" "se_reserved f"
    show "map_of (sq_active ?q) (se_session_id f) = Some (j, se_root_session_id f)"
    proof (cases "j = ?i")
      case True
      with f show ?thesis by (auto simp: fields root)
    next
      case False
      with f have old: "sq_entries q j = Some f" by (simp add: fields)
      from d(8) [OF old f(2)] have "se_session_id f \<noteq> se_session_id e"
        using idle by (auto simp: summary_active_def)
      with d(8) [OF old f(2)] show ?thesis by (simp add: fields)
    qed
  next
    fix j f assume "sq_entries ?q j = Some f"
    then show "j < sq_next_id ?q" using d(9) [of j f] d(9) [OF e(1)] by (auto simp: fields split: if_splits)
  next
    fix s j r assume "map_of (sq_active ?q) s = Some (j, r)"
    then show "j < sq_next_id ?q" using d(10) [of s j r] d(9) [OF e(1)] by (auto simp: fields split: if_splits)
  qed
qed

lemma dispatch_inv: "sq_inv q \<Longrightarrow> sq_inv (summary_dispatch q) \<and> work_conserving (summary_dispatch q)"
proof (induction q rule: summary_dispatch.induct)
  case (1 q)
  show ?case
  proof (cases "length (sq_active q) < sq_concurrency q")
    case free: True
    show ?thesis
    proof (cases "dispatch_choice q")
      case None
      from dispatch_choice_None [OF 1(2) this] have "work_conserving q" by (simp add: work_conserving_def)
      with None 1(2) free show ?thesis by (simp add: summary_dispatch.simps [of q])
    next
      case (Some c)
      then obtain ri i l where c: "dispatch_choice q = Some (ri, i, l)" by (cases c) auto
      from 1(1) [OF free c _ _] dispatch_one_inv [OF 1(2) c free] c free
      show ?thesis by (simp add: summary_dispatch.simps [of q])
    qed
  next
    case False
    then have "work_conserving q" by (simp add: work_conserving_def)
    with False 1(2) show ?thesis by (simp add: summary_dispatch.simps [of q])
  qed
qed


lemma dispatch_stop: "\<not> (length (sq_active q) < sq_concurrency q \<and> dispatch_choice q \<noteq> None) \<Longrightarrow> summary_dispatch q = q"
  by (cases "dispatch_choice q") (auto simp: summary_dispatch.simps [of q])

lemma dispatch_go: "length (sq_active q) < sq_concurrency q \<Longrightarrow> dispatch_choice q = Some (ri, i, l) \<Longrightarrow>
  summary_dispatch q = summary_dispatch (dispatch_one ri i q)"
  by (simp add: summary_dispatch.simps [of q])

text \<open>What a dispatch leaves alone.\<close>

lemma dispatch_one_frame:
  "sq_pending_by_session (dispatch_one ri i q) = sq_pending_by_session q"
  "sq_next_id (dispatch_one ri i q) = sq_next_id q"
  "sq_concurrency (dispatch_one ri i q) = sq_concurrency q"
  "sq_max_pending_sessions (dispatch_one ri i q) = sq_max_pending_sessions q"
  "sq_max_pending_per_root (dispatch_one ri i q) = sq_max_pending_per_root q"
  "has_root (dispatch_one ri i q) = has_root q"
  "sq_notified q \<subseteq> sq_notified (dispatch_one ri i q)"
  "map_option (\<lambda>e. (se_root_session_id e, se_session_id e, se_work e)) (sq_entries (dispatch_one ri i q) j) =
   map_option (\<lambda>e. (se_root_session_id e, se_session_id e, se_work e)) (sq_entries q j)"
  by (auto simp: dispatch_one_def Let_def summary_notify_def has_root_def fun_eq_iff split: option.split)

lemma dispatch_frame:
  "sq_pending_by_session (summary_dispatch q) = sq_pending_by_session q \<and>
   sq_next_id (summary_dispatch q) = sq_next_id q \<and>
   sq_concurrency (summary_dispatch q) = sq_concurrency q \<and>
   sq_max_pending_sessions (summary_dispatch q) = sq_max_pending_sessions q \<and>
   sq_max_pending_per_root (summary_dispatch q) = sq_max_pending_per_root q \<and>
   has_root (summary_dispatch q) = has_root q \<and>
   sq_notified q \<subseteq> sq_notified (summary_dispatch q) \<and>
   (\<forall>j. map_option (\<lambda>e. (se_root_session_id e, se_session_id e, se_work e)) (sq_entries (summary_dispatch q) j) =
        map_option (\<lambda>e. (se_root_session_id e, se_session_id e, se_work e)) (sq_entries q j))"
proof (induction q rule: summary_dispatch.induct)
  case (1 q)
  show ?case
  proof (cases "length (sq_active q) < sq_concurrency q \<and> dispatch_choice q \<noteq> None")
    case True
    then obtain ri i l where c: "dispatch_choice q = Some (ri, i, l)" by (cases "dispatch_choice q") auto
    with True have eq: "summary_dispatch q = summary_dispatch (dispatch_one ri i q)" by (simp add: dispatch_go)
    note IH = 1 [OF conjunct1 [OF True] c refl refl]
    have "sq_notified q \<subseteq> sq_notified (summary_dispatch (dispatch_one ri i q))"
      using IH dispatch_one_frame(7) by (blast intro: subset_trans)
    then show ?thesis
      unfolding eq using IH by (simp add: dispatch_one_frame)
  next
    case False
    from dispatch_stop [OF this] show ?thesis by simp
  qed
qed

lemma dispatch_waiting_subseq: "subseq (sq_waiting (summary_dispatch q)) (sq_waiting q)"
proof (induction q rule: summary_dispatch.induct)
  case (1 q)
  have remove: "subseq (remove_at k xs) xs" for k and xs :: "nat list"
  proof (cases "k < length xs")
    case True
    then obtain as bs where "xs = as @ xs ! k # bs" and r: "remove_at k xs = as @ bs"
      using remove_at_split by blast
    moreover have "subseq (as @ bs) (as @ xs ! k # bs)"
      by (intro list_emb_append_mono list_emb_Cons) simp_all
    ultimately show ?thesis by metis
  qed (simp add: remove_at_def)
  show ?case
  proof (cases "length (sq_active q) < sq_concurrency q \<and> dispatch_choice q \<noteq> None")
    case True
    then obtain ri i l where c: "dispatch_choice q = Some (ri, i, l)" by (cases "dispatch_choice q") auto
    with True have eq: "summary_dispatch q = summary_dispatch (dispatch_one ri i q)" by (simp add: dispatch_go)
    from 1 [OF conjunct1 [OF True] c refl refl] remove [of i "sq_waiting q"] show ?thesis
      unfolding eq dispatch_one_waiting by (rule subseq_order.order_trans)
  next
    case False
    from dispatch_stop [OF this] show ?thesis by simp
  qed
qed

section \<open>Limits\<close>

definition sq_limits :: "'w summary_queue \<Rightarrow> bool" where
  "sq_limits q \<longleftrightarrow>
     length (sq_waiting q) \<le> sq_max_pending_sessions q \<and>
     (\<forall>r. length (filter (has_root q r) (sq_waiting q)) \<le> sq_max_pending_per_root q)"

lemma sq_limits_subseq:
  assumes "sq_limits q" "subseq (sq_waiting q') (sq_waiting q)"
    "\<And>r i. i \<in> set (sq_waiting q') \<Longrightarrow> has_root q' r i = has_root q r i"
    "sq_max_pending_sessions q' = sq_max_pending_sessions q"
    "sq_max_pending_per_root q' = sq_max_pending_per_root q"
  shows "sq_limits q'"
proof -
  have "length (sq_waiting q') \<le> length (sq_waiting q)" using assms(2) by (rule list_emb_length)
  moreover have "length (filter (has_root q' r) (sq_waiting q')) \<le> length (filter (has_root q r) (sq_waiting q))" for r
  proof -
    have "filter (has_root q' r) (sq_waiting q') = filter (has_root q r) (sq_waiting q')"
      using assms(3) by (auto intro: filter_cong)
    then show ?thesis using list_emb_length [OF subseq_filter [OF assms(2)], of "has_root q r"] by simp
  qed
  ultimately show ?thesis
    using assms(1,4,5) unfolding sq_limits_def by (metis order_trans)
qed

lemma sq_limits_dispatch: "sq_limits q \<Longrightarrow> sq_limits (summary_dispatch q)"
  by (rule sq_limits_subseq [OF _ dispatch_waiting_subseq]) (simp_all add: dispatch_frame)


section \<open>Operations keep the invariant\<close>

definition sq_ok :: "'w summary_queue \<Rightarrow> bool" where
  "sq_ok q \<longleftrightarrow> sq_inv q \<and> sq_limits q \<and> work_conserving q"

lemma sq_ok_dispatch: "sq_inv q \<Longrightarrow> sq_limits q \<Longrightarrow> sq_ok (summary_dispatch q)"
  using dispatch_inv sq_limits_dispatch by (auto simp: sq_ok_def)

lemma has_root_notified [simp]: "has_root (q\<lparr>sq_notified := N\<rparr>) = has_root q"
  by (simp add: has_root_def fun_eq_iff)

lemma summary_active_notified [simp]: "summary_active (q\<lparr>sq_notified := N\<rparr>) = summary_active q"
  by (simp add: summary_active_def fun_eq_iff)

lemma summary_runnable_notified [simp]: "summary_runnable (q\<lparr>sq_notified := N\<rparr>) = summary_runnable q"
  by (simp add: summary_runnable_def fun_eq_iff split: option.split)

lemma sq_inv_notify [simp]: "sq_inv (summary_notify i q) = sq_inv q" "sq_limits (summary_notify i q) = sq_limits q"
  "work_conserving (summary_notify i q) = work_conserving q"
  by (simp_all add: sq_inv_def sq_limits_def work_conserving_def summary_notify_def summary_active_def)

lemma sq_ok_notify [simp]: "sq_ok (summary_notify i q) = sq_ok q"
  by (simp add: sq_ok_def)

lemma sq_ok_new: "summary_queue_new c m = Some q \<Longrightarrow> sq_ok q"
  by (auto simp: summary_queue_new_def sq_ok_def sq_inv_def sq_limits_def work_conserving_def has_root_def
      split: if_splits)

lemma sq_forget_pending:
  assumes inv: "sq_inv q" and e: "sq_entries q i = Some e"
  shows "((sq_pending_by_session q)(se_session_id e := None)) s = Some j \<longleftrightarrow>
    (\<exists>f. ((sq_entries q)(i := None)) j = Some f \<and> se_session_id f = s)"
proof (cases "j = i")
  case True
  have "sq_pending_by_session q s \<noteq> Some i" if "s \<noteq> se_session_id e"
    using sq_invD(7) [OF inv, of s i] e that by simp
  with True show ?thesis by simp
next
  case False
  show ?thesis
  proof (cases "s = se_session_id e")
    case True
    have "se_session_id f \<noteq> s" if "sq_entries q j = Some f" for f
      using sq_inv_one_entry [OF inv that e] False True by blast
    with True False show ?thesis by auto
  next
    case neq: False
    with False sq_invD(7) [OF inv, of s j] show ?thesis by simp
  qed
qed

lemma sq_cancel_waiting:
  assumes inv: "sq_inv q" and e: "sq_entries q i = Some e" "\<not> se_reserved e"
  defines "q1 \<equiv> q\<lparr>sq_entries := (sq_entries q)(i := None),
     sq_pending_by_session := (sq_pending_by_session q)(se_session_id e := None)\<rparr>"
  defines "w \<equiv> filter (\<lambda>j. j \<noteq> i) (sq_waiting q)"
  shows "sq_inv (q1\<lparr>sq_waiting := w,
     sq_waiting_roots := (if \<exists>j \<in> set w. has_root q1 (se_root_session_id e) j then sq_waiting_roots q
       else filter (\<lambda>r. r \<noteq> se_root_session_id e) (sq_waiting_roots q))\<rparr>)"
    (is "sq_inv ?q")
proof -
  note d = sq_invD [OF inv]
  have w: "set w = set (sq_waiting q) - {i}" "distinct w" using d(3) by (auto simp: w_def)
  have hr: "has_root q1 r j = has_root q r j" "has_root ?q r j = has_root q r j" if "j \<noteq> i" for r j
    using that by (simp_all add: has_root_def q1_def)
  have ir: "has_root q r i \<longleftrightarrow> r = se_root_session_id e" for r using e by (auto simp: has_root_def)
  show ?thesis
  proof (rule sq_invI)
    show "distinct (sq_waiting ?q)" using w by simp
    show "distinct (sq_waiting_roots ?q)" using d(4) by simp
    fix j show "j \<in> set (sq_waiting ?q) \<longleftrightarrow> (\<exists>e. sq_entries ?q j = Some e \<and> \<not> se_reserved e)"
      using d(5) [of j] by (auto simp: w q1_def)
  next
    fix r
    have "(\<exists>j \<in> set w. has_root q1 s j) \<longleftrightarrow> (\<exists>j \<in> set w. has_root q s j)" for s
      using hr(1) by (auto simp: w)
    then have "r \<in> set (sq_waiting_roots ?q) \<longleftrightarrow> (\<exists>j \<in> set w. has_root q r j)"
      using d(6) [of r] ir [of r] by (auto simp: w)
    also have "\<dots> \<longleftrightarrow> (\<exists>j \<in> set w. has_root ?q r j)" using hr(2) by (auto simp: w)
    finally show "r \<in> set (sq_waiting_roots ?q) \<longleftrightarrow> (\<exists>j \<in> set (sq_waiting ?q). has_root ?q r j)" by simp
  next
    fix s j show "sq_pending_by_session ?q s = Some j \<longleftrightarrow> (\<exists>e. sq_entries ?q j = Some e \<and> se_session_id e = s)"
      using sq_forget_pending [OF inv e(1), of s j] by (simp add: q1_def)
  next
    fix j f assume "sq_entries ?q j = Some f" "se_reserved f"
    then show "map_of (sq_active ?q) (se_session_id f) = Some (j, se_root_session_id f)"
      using d(8) [of j f] by (simp add: q1_def split: if_splits)
  next
    fix j f assume "sq_entries ?q j = Some f"
    then show "j < sq_next_id ?q" using d(9) [of j f] by (simp add: q1_def split: if_splits)
  qed (use d in \<open>simp_all add: q1_def\<close>)
qed

lemma sq_forget_reserved:
  assumes inv: "sq_inv q" and e: "sq_entries q i = Some e" "se_reserved e"
  defines "q1 \<equiv> q\<lparr>sq_entries := (sq_entries q)(i := None),
     sq_pending_by_session := (sq_pending_by_session q)(se_session_id e := None)\<rparr>"
  shows "sq_inv q1" "sq_inv (q1\<lparr>sq_active := kv_del (se_session_id e) (sq_active q)\<rparr>)"
proof -
  note d = sq_invD [OF inv]
  have i: "i \<notin> set (sq_waiting q)" using d(5) [of i] e by auto
  have hr: "has_root q1 r j = has_root q r j" if "j \<in> set (sq_waiting q)" for r j
    using that i by (auto simp: has_root_def q1_def)
  have one: "sq_entries q j = Some f \<Longrightarrow> se_session_id f = se_session_id e \<Longrightarrow> j = i" for j f
    using sq_inv_one_entry [OF inv _ e(1)] by blast
  show q1: "sq_inv q1"
  proof (rule sq_invI)
    fix j show "j \<in> set (sq_waiting q1) \<longleftrightarrow> (\<exists>e. sq_entries q1 j = Some e \<and> \<not> se_reserved e)"
      using d(5) [of j] i by (auto simp: q1_def)
  next
    fix r show "r \<in> set (sq_waiting_roots q1) \<longleftrightarrow> (\<exists>j \<in> set (sq_waiting q1). has_root q1 r j)"
      using d(6) [of r] hr by (simp add: q1_def)
  next
    fix s j show "sq_pending_by_session q1 s = Some j \<longleftrightarrow> (\<exists>e. sq_entries q1 j = Some e \<and> se_session_id e = s)"
      using sq_forget_pending [OF inv e(1), of s j] by (simp add: q1_def)
  next
    fix j f assume "sq_entries q1 j = Some f" "se_reserved f"
    then show "map_of (sq_active q1) (se_session_id f) = Some (j, se_root_session_id f)"
      using d(8) [of j f] by (simp add: q1_def split: if_splits)
  next
    fix j f assume "sq_entries q1 j = Some f"
    then show "j < sq_next_id q1" using d(9) [of j f] by (simp add: q1_def split: if_splits)
  qed (use d in \<open>simp_all add: q1_def\<close>)
  note d1 = sq_invD [OF q1]
  let ?q = "q1\<lparr>sq_active := kv_del (se_session_id e) (sq_active q)\<rparr>"
  have len: "length (kv_del (se_session_id e) (sq_active q)) \<le> length (sq_active q)"
    using d(1) by (simp add: kv_length_del)
  show "sq_inv ?q"
  proof (rule sq_invI)
    show "length (sq_active ?q) \<le> sq_concurrency ?q" using len d(2) by (simp add: q1_def)
    fix j f assume f: "sq_entries ?q j = Some f" "se_reserved f"
    then have "se_session_id f \<noteq> se_session_id e" using one [of j f] by (auto simp: q1_def split: if_splits)
    with f d1(8) [of j f] show "map_of (sq_active ?q) (se_session_id f) = Some (j, se_root_session_id f)"
      by (simp add: q1_def)
  next
    fix s j r assume "map_of (sq_active ?q) s = Some (j, r)"
    then show "j < sq_next_id ?q" using d(10) [of s j r] by (simp add: q1_def split: if_splits)
  qed (use d1 d(1) in \<open>simp_all add: has_root_def\<close>)
qed

lemma sq_limits_shrink:
  assumes "sq_limits q" "sq_entries q i \<noteq> None"
    "sq_entries q' = (sq_entries q)(i := None)" "subseq (sq_waiting q') (sq_waiting q)"
    "i \<notin> set (sq_waiting q')"
    "sq_max_pending_sessions q' = sq_max_pending_sessions q"
    "sq_max_pending_per_root q' = sq_max_pending_per_root q"
  shows "sq_limits q'"
  using assms(1) by (rule sq_limits_subseq) (use assms in \<open>auto simp: has_root_def\<close>)

lemma sq_ok_cancel:
  assumes ok: "sq_ok q"
  shows "sq_ok (summary_cancel i q)"
proof (cases "sq_entries q i")
  case None
  with ok show ?thesis by (simp add: summary_cancel_def)
next
  case (Some e)
  from ok have inv: "sq_inv q" and lim: "sq_limits q" by (auto simp: sq_ok_def)
  show ?thesis
  proof (cases "se_reserved e")
    case True
    let ?q = "q\<lparr>sq_entries := (sq_entries q)(i := None),
      sq_pending_by_session := (sq_pending_by_session q)(se_session_id e := None),
      sq_active := kv_del (se_session_id e) (sq_active q)\<rparr>"
    have "i \<notin> set (sq_waiting q)" using sq_invD(5) [OF inv, of i] Some True by auto
    then have "sq_limits ?q" by (intro sq_limits_shrink [OF lim, of i]) (simp_all add: Some)
    moreover have "sq_inv ?q" using sq_forget_reserved(2) [OF inv Some True] by simp
    moreover have "summary_cancel i q = summary_dispatch ?q" using Some True by (simp add: summary_cancel_def Let_def)
    ultimately show ?thesis by (simp add: sq_ok_dispatch)
  next
    case False
    define q1 where "q1 = q\<lparr>sq_entries := (sq_entries q)(i := None),
      sq_pending_by_session := (sq_pending_by_session q)(se_session_id e := None)\<rparr>"
    define w where "w = filter (\<lambda>j. j \<noteq> i) (sq_waiting q)"
    define roots where "roots = (if \<exists>j \<in> set w. has_root q1 (se_root_session_id e) j then sq_waiting_roots q
       else filter (\<lambda>r. r \<noteq> se_root_session_id e) (sq_waiting_roots q))"
    let ?q = "q1\<lparr>sq_waiting := w, sq_waiting_roots := roots\<rparr>"
    have "sq_inv ?q"
      using sq_cancel_waiting [OF inv Some False] unfolding roots_def w_def q1_def .
    moreover have "sq_limits ?q"
      by (intro sq_limits_shrink [OF lim, of i]) (simp_all add: Some q1_def w_def)
    moreover have "summary_cancel i q = summary_dispatch ?q"
      using Some False unfolding summary_cancel_def Let_def roots_def w_def q1_def by (simp only: option.case if_False)
    ultimately show ?thesis by (simp add: sq_ok_dispatch)
  qed
qed


lemma replace_waiting_split:
  assumes "distinct w" "p \<in> set w"
  obtains as bs where "w = as @ p # bs" "replace_waiting p i w = as @ i # bs"
proof -
  from position_SomeI [where P = "\<lambda>j. j = p", OF assms(2) refl]
  obtain k where k: "position (\<lambda>j. j = p) w = Some k" by blast
  then have "w ! k = p" "k < length w" using position_SomeD by fastforce+
  then have w: "w = take k w @ p # drop (Suc k) w" by (metis id_take_nth_drop)
  moreover have "replace_waiting p i w = take k w @ i # drop (Suc k) w"
    using position_SomeD [OF k] by (simp add: replace_waiting_def k upd_conv_take_nth_drop)
  ultimately show thesis by (rule that)
qed

text \<open>The three branches of a submission before its dispatch.\<close>

lemma submit_replaces_reserved:
  assumes inv: "sq_inv q" and e: "sq_entries q p = Some e" "se_reserved e"
  defines "i \<equiv> sq_next_id q"
  shows "sq_inv (q\<lparr>sq_next_id := i + 1,
     sq_entries := (sq_entries q)(p := None,
       i \<mapsto> \<lparr>se_root_session_id = se_root_session_id e, se_session_id = se_session_id e, se_work = work, se_reserved = True\<rparr>),
     sq_pending_by_session := (sq_pending_by_session q)(se_session_id e \<mapsto> i),
     sq_active := kv_put (se_session_id e) (i, se_root_session_id e) (sq_active q)\<rparr>)"
    (is "sq_inv ?q")
proof -
  note d = sq_invD [OF inv]
  have fresh: "sq_entries q i = None" using d(9) [of i] by (cases "sq_entries q i") (auto simp: i_def)
  have p: "p \<notin> set (sq_waiting q)" "i \<notin> set (sq_waiting q)" "p < i"
    using d(5) [of p] d(5) [of i] d(9) [OF e(1)] e fresh by (auto simp: i_def)
  have hr: "has_root ?q r j = has_root q r j" if "j \<in> set (sq_waiting q)" for r j
    using that p by (auto simp: has_root_def)
  have one: "j = p" if "sq_entries q j = Some f" "se_session_id f = se_session_id e" for j f
    using sq_inv_one_entry [OF inv that(1) e(1) that(2)] .
  have act: "map_of (sq_active q) (se_session_id e) \<noteq> None" using d(8) [OF e] by simp
  show ?thesis
  proof (rule sq_invI)
    show "length (sq_active ?q) \<le> sq_concurrency ?q"
      using d(2) act by (simp add: kv_length_put map_of_eq_None_iff)
    fix j show "j \<in> set (sq_waiting ?q) \<longleftrightarrow> (\<exists>e. sq_entries ?q j = Some e \<and> \<not> se_reserved e)"
      using d(5) [of j] p by auto
  next
    fix r show "r \<in> set (sq_waiting_roots ?q) \<longleftrightarrow> (\<exists>j \<in> set (sq_waiting ?q). has_root ?q r j)"
      using d(6) [of r] hr by simp
  next
    fix s j
    show "sq_pending_by_session ?q s = Some j \<longleftrightarrow> (\<exists>e. sq_entries ?q j = Some e \<and> se_session_id e = s)"
    proof (cases "j = i")
      case True
      have "sq_pending_by_session q s \<noteq> Some i" using d(7) [of s i] fresh by simp
      with True show ?thesis by auto
    next
      case False
      with sq_forget_pending [OF inv e(1), of s j] show ?thesis by (cases "s = se_session_id e") auto
    qed
  next
    fix j f assume "sq_entries ?q j = Some f" "se_reserved f"
    then show "map_of (sq_active ?q) (se_session_id f) = Some (j, se_root_session_id f)"
      using d(8) [of j f] one [of j f] by (auto split: if_splits)
  next
    fix j f assume "sq_entries ?q j = Some f"
    then show "j < sq_next_id ?q" using d(9) [of j f] by (auto simp: i_def split: if_splits)
  next
    fix s j r assume "map_of (sq_active ?q) s = Some (j, r)"
    then show "j < sq_next_id ?q" using d(10) [of s j r] by (auto simp: i_def split: if_splits)
  qed (use d in simp_all)
qed

lemma submit_replaces_waiting:
  fixes q :: "'w summary_queue" and work :: 'w
  assumes inv: "sq_inv q" and e: "sq_entries q p = Some e" "\<not> se_reserved e"
  defines "i \<equiv> sq_next_id q"
  defines "q2 \<equiv> q\<lparr>sq_next_id := i + 1,
     sq_entries := (sq_entries q)(p := None,
       i \<mapsto> \<lparr>se_root_session_id = se_root_session_id e, se_session_id = se_session_id e, se_work = work, se_reserved = False\<rparr>),
     sq_pending_by_session := (sq_pending_by_session q)(se_session_id e \<mapsto> i),
     sq_waiting := replace_waiting p i (sq_waiting q)\<rparr>"
  shows "sq_inv q2" and "sq_limits q \<Longrightarrow> sq_limits q2"
proof -
  note d = sq_invD [OF inv]
  have fresh: "sq_entries q i = None" using d(9) [of i] by (cases "sq_entries q i") (auto simp: i_def)
  have "p \<in> set (sq_waiting q)" using d(5) [of p] e by auto
  from replace_waiting_split [OF d(3) this] obtain as bs where
    old: "sq_waiting q = as @ p # bs" and new: "replace_waiting p i (sq_waiting q) = as @ i # bs" by blast
  have i: "i \<notin> set (sq_waiting q)" using d(5) [of i] fresh by auto
  have pi: "p < i" using d(9) [OF e(1)] by (simp add: i_def)
  have dist: "distinct (as @ p # bs)" using d(3) by (simp add: old)
  have hr: "has_root q2 r j = has_root q r j" if "j \<in> set as \<union> set bs" for r j
    using that dist i pi by (auto simp: has_root_def q2_def old)
  have w2: "sq_waiting q2 = as @ i # bs" by (simp add: q2_def new)
  have ends: "has_root q2 r i \<longleftrightarrow> r = se_root_session_id e" "has_root q r p \<longleftrightarrow> r = se_root_session_id e" for r
    using e by (auto simp: has_root_def q2_def)
  show "sq_inv q2"
  proof (rule sq_invI)
    show "distinct (sq_waiting q2)" using dist i by (simp add: w2 old)
    fix j
    have "j \<in> set (sq_waiting q2) \<longleftrightarrow> j = i \<or> (j \<noteq> p \<and> j \<in> set (sq_waiting q))"
      using dist by (auto simp: w2 old)
    then show "j \<in> set (sq_waiting q2) \<longleftrightarrow> (\<exists>e. sq_entries q2 j = Some e \<and> \<not> se_reserved e)"
      using d(5) [of j] i by (auto simp: q2_def)
  next
    fix r
    have "(\<exists>j \<in> set (as @ i # bs). has_root q2 r j) \<longleftrightarrow> (\<exists>j \<in> set (as @ p # bs). has_root q r j)"
      using hr ends by auto
    then show "r \<in> set (sq_waiting_roots q2) \<longleftrightarrow> (\<exists>j \<in> set (sq_waiting q2). has_root q2 r j)"
      using d(6) [of r] by (simp only: old w2) (simp add: q2_def)
  next
    fix s j
    show "sq_pending_by_session q2 s = Some j \<longleftrightarrow> (\<exists>e. sq_entries q2 j = Some e \<and> se_session_id e = s)"
    proof (cases "j = i")
      case True
      have "sq_pending_by_session q s \<noteq> Some i" using d(7) [of s i] fresh by simp
      with True show ?thesis by (auto simp: q2_def)
    next
      case False
      with sq_forget_pending [OF inv e(1), of s j] show ?thesis
        by (cases "s = se_session_id e") (auto simp: q2_def)
    qed
  next
    fix j f assume "sq_entries q2 j = Some f" "se_reserved f"
    then show "map_of (sq_active q2) (se_session_id f) = Some (j, se_root_session_id f)"
      using d(8) [of j f] by (auto simp: q2_def split: if_splits)
  next
    fix j f assume "sq_entries q2 j = Some f"
    then show "j < sq_next_id q2" using d(9) [of j f] by (auto simp: q2_def i_def split: if_splits)
  next
    fix s j r assume "map_of (sq_active q2) s = Some (j, r)"
    then show "j < sq_next_id q2" using d(10) [of s j r] by (auto simp: q2_def i_def)
  qed (use d in \<open>simp_all add: q2_def\<close>)
  show "sq_limits q2" if lim: "sq_limits q"
  proof -
    have "filter (has_root q2 r) as = filter (has_root q r) as" "filter (has_root q2 r) bs = filter (has_root q r) bs" for r
      using hr by (auto intro!: filter_cong)
    then have "length (filter (has_root q2 r) (sq_waiting q2)) = length (filter (has_root q r) (sq_waiting q))"
      "length (sq_waiting q2) = length (sq_waiting q)" for r
      using ends [of r] by (simp_all add: w2 old)
    with lim show ?thesis unfolding sq_limits_def by (simp add: q2_def)
  qed
qed


lemma submit_appends:
  fixes q :: "'w summary_queue" and work :: 'w and root :: string
  assumes inv: "sq_inv q" and new: "sq_pending_by_session q sid = None"
  defines "i \<equiv> sq_next_id q"
  defines "q2 \<equiv> q\<lparr>sq_next_id := i + 1,
     sq_entries := (sq_entries q)
       (i \<mapsto> \<lparr>se_root_session_id = root, se_session_id = sid, se_work = work, se_reserved = False\<rparr>),
     sq_pending_by_session := (sq_pending_by_session q)(sid \<mapsto> i),
     sq_waiting := sq_waiting q @ [i],
     sq_waiting_roots := (if root \<in> set (sq_waiting_roots q) then sq_waiting_roots q
       else sq_waiting_roots q @ [root])\<rparr>"
  shows "sq_inv q2"
proof -
  note d = sq_invD [OF inv]
  have fresh: "sq_entries q i = None" using d(9) [of i] by (cases "sq_entries q i") (auto simp: i_def)
  have i: "i \<notin> set (sq_waiting q)" using d(5) [of i] fresh by auto
  have hr: "has_root q2 r j = has_root q r j" if "j \<in> set (sq_waiting q)" for r j
    using that i by (auto simp: has_root_def q2_def)
  have hi: "has_root q2 r i \<longleftrightarrow> r = root" for r by (auto simp: has_root_def q2_def)
  show ?thesis
  proof (rule sq_invI)
    show "distinct (sq_waiting q2)" using d(3) i by (simp add: q2_def)
    show "distinct (sq_waiting_roots q2)" using d(4) by (simp add: q2_def)
    fix j show "j \<in> set (sq_waiting q2) \<longleftrightarrow> (\<exists>e. sq_entries q2 j = Some e \<and> \<not> se_reserved e)"
      using d(5) [of j] i by (auto simp: q2_def)
  next
    fix r
    have "(\<exists>j \<in> set (sq_waiting q2). has_root q2 r j) \<longleftrightarrow> (\<exists>j \<in> set (sq_waiting q). has_root q r j) \<or> r = root"
      using hr hi by (auto simp: q2_def)
    then show "r \<in> set (sq_waiting_roots q2) \<longleftrightarrow> (\<exists>j \<in> set (sq_waiting q2). has_root q2 r j)"
      using d(6) [of r] by (auto simp: q2_def)
  next
    fix s j
    have "se_session_id f \<noteq> sid" if "sq_entries q j = Some f" for f
      using d(7) [of sid j] that new by auto
    moreover have "sq_pending_by_session q s \<noteq> Some i" using d(7) [of s i] fresh by simp
    ultimately show "sq_pending_by_session q2 s = Some j \<longleftrightarrow> (\<exists>e. sq_entries q2 j = Some e \<and> se_session_id e = s)"
      using d(7) [of s j] by (auto simp: q2_def)
  next
    fix j f assume "sq_entries q2 j = Some f" "se_reserved f"
    then show "map_of (sq_active q2) (se_session_id f) = Some (j, se_root_session_id f)"
      using d(8) [of j f] by (auto simp: q2_def split: if_splits)
  next
    fix j f assume "sq_entries q2 j = Some f"
    then show "j < sq_next_id q2" using d(9) [of j f] by (auto simp: q2_def i_def split: if_splits)
  next
    fix s j r assume "map_of (sq_active q2) s = Some (j, r)"
    then show "j < sq_next_id q2" using d(10) [of s j r] by (auto simp: q2_def i_def)
  qed (use d in \<open>simp_all add: q2_def\<close>)
qed

text \<open>
  A submission that finds a free slot for its session is reserved at once: everything that waited
  before is blocked by its own running leaf, so the new entry is the only runnable one.
\<close>

lemma submit_reserved_at_once:
  assumes inv: "sq_inv q" and w: "sq_waiting q = old @ [i]"
    and e: "sq_entries q i = Some e" "\<not> summary_active q (se_session_id e)"
    and blocked: "\<forall>j \<in> set old. \<forall>f. sq_entries q j = Some f \<longrightarrow> summary_active q (se_session_id f)"
    and free: "length (sq_active q) < sq_concurrency q"
  shows "sq_waiting (summary_dispatch q) = old"
proof -
  have run: "summary_runnable q r j \<longleftrightarrow> False" if "j \<in> set old" for r j
    using blocked that by (auto simp: summary_runnable_def split: option.split)
  have "dispatch_choice q \<noteq> None"
  proof
    assume "dispatch_choice q = None"
    from dispatch_choice_None [OF inv this] e w show False by auto
  qed
  then obtain ri k l where c: "dispatch_choice q = Some (ri, k, l)" by (cases "dispatch_choice q") auto
  note sound = dispatch_choice_sound [OF c]
  have "\<not> k < length old"
    using position_SomeD [OF sound(2) [unfolded runnable_position_def]] run [of "old ! k"]
    by (auto simp: w nth_append)
  with sound(3) have k: "k = length old" by (simp add: w)
  let ?q = "dispatch_one ri k q"
  have ki: "sq_waiting q ! k = i" by (simp add: w k)
  have inv': "sq_inv ?q" using inv c free by (rule dispatch_one_inv)
  note fields = dispatch_one_fields [OF inv c, unfolded ki, OF e(1)]
  have w': "sq_waiting ?q = old" using fields(1) by (simp add: w k remove_at_def)
  have "dispatch_choice ?q = None"
  proof (rule ccontr)
    assume "dispatch_choice ?q \<noteq> None"
    then obtain rj m l' where c': "dispatch_choice ?q = Some (rj, m, l')"
      by (cases "dispatch_choice ?q") auto
    obtain f where f: "sq_entries ?q (sq_waiting ?q ! m) = Some f" "\<not> summary_active ?q (se_session_id f)"
      by (rule dispatch_one_entry [OF inv' c'])
    have m: "old ! m \<in> set old" using dispatch_choice_sound(3) [OF c'] by (simp add: w')
    moreover have "old ! m \<noteq> i" using m sq_invD(3) [OF inv] by (auto simp: w)
    ultimately have "summary_active q (se_session_id f)" using f(1) blocked by (simp add: w' fields(2))
    with f(2) show False by (auto simp: summary_active_def fields(3) split: if_splits)
  qed
  then have "summary_dispatch ?q = ?q" by (intro dispatch_stop) simp
  with w' show ?thesis using dispatch_go [OF free c] by simp
qed


text \<open>The state a submission dispatches from, and what it answers.\<close>

definition submit_prepared :: "string \<Rightarrow> string \<Rightarrow> 'w \<Rightarrow> 'w summary_queue \<Rightarrow> 'w summary_queue" where
  "submit_prepared root sid work q =
     (let i = sq_next_id q
      in case Option.bind (sq_pending_by_session q sid) (sq_entries q) of
           Some e \<Rightarrow>
             (let p = the (sq_pending_by_session q sid);
                  q1 = q\<lparr>sq_next_id := i + 1,
                         sq_entries := (sq_entries q)(p := None,
                           i \<mapsto> \<lparr>se_root_session_id = root, se_session_id = sid, se_work = work,
                                 se_reserved = se_reserved e\<rparr>),
                         sq_pending_by_session := (sq_pending_by_session q)(sid \<mapsto> i)\<rparr>
              in if se_reserved e then q1\<lparr>sq_active := kv_put sid (i, root) (sq_active q)\<rparr>
                 else q1\<lparr>sq_waiting := replace_waiting p i (sq_waiting q)\<rparr>)
         | None \<Rightarrow>
             q\<lparr>sq_next_id := i + 1,
               sq_entries := (sq_entries q)
                 (i \<mapsto> \<lparr>se_root_session_id = root, se_session_id = sid, se_work = work, se_reserved = False\<rparr>),
               sq_pending_by_session := (sq_pending_by_session q)(sid \<mapsto> i),
               sq_waiting := sq_waiting q @ [i],
               sq_waiting_roots := (if root \<in> set (sq_waiting_roots q) then sq_waiting_roots q
                 else sq_waiting_roots q @ [root])\<rparr>)"

definition submit_refused :: "string \<Rightarrow> string \<Rightarrow> 'w summary_queue \<Rightarrow> bool" where
  "submit_refused root sid q \<longleftrightarrow>
     sq_pending_by_session q sid = None \<and>
     \<not> (length (sq_active q) < sq_concurrency q \<and> \<not> summary_active q sid) \<and>
     (length (sq_waiting q) \<ge> sq_max_pending_sessions q \<or>
      length (filter (has_root q root) (sq_waiting q)) \<ge> sq_max_pending_per_root q)"

lemma sq_pending_entry:
  assumes "sq_inv q" "sq_pending_by_session q sid = Some p"
  obtains e where "sq_entries q p = Some e" "se_session_id e = sid"
  using sq_invD(7) [OF assms(1), of sid p] assms(2) by auto

lemma submit_for_eq:
  fixes root0 sid :: string
  assumes inv: "sq_inv q"
  defines "root \<equiv> submit_root q root0 sid"
  shows "submit_for root0 sid work q =
    (if submit_refused root sid q then (SummaryQueueFull, q)
     else if sq_next_id q \<ge> u64_max then (TicketOverflow, q)
     else
       (let q2 = submit_prepared root sid work q;
            reserved = (case Option.bind (sq_pending_by_session q sid) (sq_entries q) of
              None \<Rightarrow> False | Some e \<Rightarrow> se_reserved e);
            q3 = summary_dispatch (if reserved then summary_notify (sq_next_id q) q2 else q2)
        in (Submitted (sq_next_id q),
            (case sq_pending_by_session q sid of None \<Rightarrow> q3 | Some p \<Rightarrow> summary_notify p q3))))"
proof (cases "sq_pending_by_session q sid")
  case None
  then show ?thesis
    by (simp add: submit_for_def submit_refused_def submit_prepared_def root_def Let_def cong: if_cong)
next
  case (Some p)
  then obtain e where "sq_entries q p = Some e" by (rule sq_pending_entry [OF inv])
  with Some show ?thesis
    by (simp add: submit_for_def submit_refused_def submit_prepared_def root_def Let_def cong: if_cong)
qed

lemma submit_root_pending:
  "sq_inv q \<Longrightarrow> sq_pending_by_session q sid = Some p \<Longrightarrow> sq_entries q p = Some e \<Longrightarrow>
   submit_root q root0 sid = se_root_session_id e"
  by (simp add: submit_root_def)

lemma submit_prepared_inv:
  fixes q :: "'w summary_queue" and work :: 'w
  assumes inv: "sq_inv q"
  shows "sq_inv (submit_prepared (submit_root q root0 sid) sid work q)"
proof (cases "sq_pending_by_session q sid")
  case None
  with submit_appends [OF inv None] show ?thesis by (simp add: submit_prepared_def Let_def)
next
  case (Some p)
  then obtain e where e: "sq_entries q p = Some e" "se_session_id e = sid" by (rule sq_pending_entry [OF inv])
  note root = submit_root_pending [OF inv Some e(1)]
  show ?thesis
  proof (cases "se_reserved e")
    case True
    with submit_replaces_reserved [OF inv e(1), of work] e Some show ?thesis
      unfolding root by (simp add: submit_prepared_def Let_def)
  next
    case False
    with submit_replaces_waiting(1) [OF inv e(1), of work] e Some show ?thesis
      unfolding root by (simp add: submit_prepared_def Let_def)
  qed
qed

lemma submit_prepared_frame:
  "sq_max_pending_sessions (submit_prepared root sid work q) = sq_max_pending_sessions q"
  "sq_max_pending_per_root (submit_prepared root sid work q) = sq_max_pending_per_root q"
  "sq_concurrency (submit_prepared root sid work q) = sq_concurrency q"
  "sq_next_id (submit_prepared root sid work q) = Suc (sq_next_id q)"
  "sq_notified (submit_prepared root sid work q) = sq_notified q"
  by (simp_all add: submit_prepared_def Let_def split: option.split)

lemma submit_prepared_limits:
  fixes q :: "'w summary_queue" and work :: 'w
  assumes ok: "sq_ok q" and admitted: "\<not> submit_refused root sid q"
    and root: "root = submit_root q root0 sid"
  defines "q2 \<equiv> submit_prepared root sid work q"
  shows "sq_limits (summary_dispatch q2)"
proof -
  from ok have inv: "sq_inv q" and lim: "sq_limits q" and wc: "work_conserving q" by (auto simp: sq_ok_def)
  show ?thesis
  proof (cases "sq_pending_by_session q sid")
    case (Some p)
    then obtain e where e: "sq_entries q p = Some e" "se_session_id e = sid" by (rule sq_pending_entry [OF inv])
    note r = submit_root_pending [OF inv Some e(1), of root0, folded root]
    show ?thesis
    proof (cases "se_reserved e")
      case True
      have "p \<notin> set (sq_waiting q)" "sq_next_id q \<notin> set (sq_waiting q)"
        using sq_invD(5) [OF inv, of p] sq_invD(5) [OF inv, of "sq_next_id q"] sq_invD(9) [OF inv, of "sq_next_id q"]
          e True by auto
      then have "sq_limits q2"
        by (intro sq_limits_subseq [OF lim])
          (auto simp: q2_def submit_prepared_def Let_def Some e True has_root_def)
      then show ?thesis by (rule sq_limits_dispatch)
    next
      case False
      with submit_replaces_waiting(2) [OF inv e(1) _ lim, of work] have "sq_limits q2"
        by (simp add: q2_def submit_prepared_def Let_def Some e r)
      then show ?thesis by (rule sq_limits_dispatch)
    qed
  next
    case None
    let ?i = "sq_next_id q"
    have fresh: "sq_entries q ?i = None" using sq_invD(9) [OF inv, of ?i] by (cases "sq_entries q ?i") auto
    have i: "?i \<notin> set (sq_waiting q)" using sq_invD(5) [OF inv, of ?i] fresh by auto
    have w: "sq_waiting q2 = sq_waiting q @ [?i]" by (simp add: q2_def submit_prepared_def Let_def None)
    have entries: "sq_entries q2 = (sq_entries q)(?i \<mapsto> \<lparr>se_root_session_id = root, se_session_id = sid,
        se_work = work, se_reserved = False\<rparr>)"
      by (simp add: q2_def submit_prepared_def Let_def None)
    have active: "sq_active q2 = sq_active q" by (simp add: q2_def submit_prepared_def Let_def None)
    have inv2: "sq_inv q2" unfolding q2_def root using inv by (rule submit_prepared_inv)
    have hr: "has_root q2 r j = has_root q r j" if "j \<in> set (sq_waiting q)" for r j
      using that i by (auto simp: has_root_def entries)
    have hi: "has_root q2 r ?i \<longleftrightarrow> r = root" for r by (auto simp: has_root_def entries)
    have frame: "sq_max_pending_sessions q2 = sq_max_pending_sessions q"
      "sq_max_pending_per_root q2 = sq_max_pending_per_root q" "sq_concurrency q2 = sq_concurrency q"
      by (simp_all add: q2_def submit_prepared_frame)
    show ?thesis
    proof (cases "length (sq_active q) < sq_concurrency q \<and> \<not> summary_active q sid")
      case True
      have "sq_waiting (summary_dispatch q2) = sq_waiting q"
      proof (rule submit_reserved_at_once [OF inv2 w, of "\<lparr>se_root_session_id = root, se_session_id = sid,
          se_work = work, se_reserved = False\<rparr>"])
        show "\<forall>j \<in> set (sq_waiting q). \<forall>f. sq_entries q2 j = Some f \<longrightarrow> summary_active q2 (se_session_id f)"
          using wc True i by (auto simp: work_conserving_def summary_active_def entries active split: if_splits)
      qed (use True in \<open>simp_all add: entries active summary_active_def frame\<close>)
      then show ?thesis
        by (intro sq_limits_subseq [OF lim]) (simp_all add: dispatch_frame frame hr)
    next
      case False
      with admitted None have room: "length (sq_waiting q) < sq_max_pending_sessions q"
        "length (filter (has_root q root) (sq_waiting q)) < sq_max_pending_per_root q"
        by (auto simp: submit_refused_def)
      have "filter (has_root q2 r) (sq_waiting q) = filter (has_root q r) (sq_waiting q)" for r
        using hr by (auto intro: filter_cong)
      then have "length (filter (has_root q2 r) (sq_waiting q2)) =
          length (filter (has_root q r) (sq_waiting q)) + (if r = root then 1 else 0)" for r
        using hi [of r] by (simp add: w)
      moreover have "length (filter (has_root q r) (sq_waiting q)) \<le> sq_max_pending_per_root q" for r
        using lim by (simp add: sq_limits_def)
      ultimately have "sq_limits q2" using room by (simp add: sq_limits_def w frame)
      then show ?thesis by (rule sq_limits_dispatch)
    qed
  qed
qed

lemma dispatch_notify: "summary_dispatch (summary_notify i q) = summary_notify i (summary_dispatch q)"
proof (induction q rule: summary_dispatch.induct)
  case (1 q)
  have same: "sq_active (summary_notify i q) = sq_active q" "sq_concurrency (summary_notify i q) = sq_concurrency q"
    "dispatch_choice (summary_notify i q) = dispatch_choice q"
    by (simp_all add: summary_notify_def dispatch_choice_def dispatch_candidates_def runnable_position_def)
  have one: "dispatch_one ri k (summary_notify i q) = summary_notify i (dispatch_one ri k q)" for ri k
    by (simp add: dispatch_one_def Let_def summary_notify_def insert_commute split: option.split)
  show ?case
  proof (cases "length (sq_active q) < sq_concurrency q \<and> dispatch_choice q \<noteq> None")
    case True
    then obtain ri k l where c: "dispatch_choice q = Some (ri, k, l)" by (cases "dispatch_choice q") auto
    with True 1 [OF conjunct1 [OF True] c refl refl] one show ?thesis
      by (simp add: dispatch_go [of "summary_notify i q"] dispatch_go [of q] same)
  next
    case False
    from dispatch_stop [OF this] dispatch_stop [of "summary_notify i q"] False same show ?thesis by simp
  qed
qed

lemma sq_ok_submit:
  assumes ok: "sq_ok q" and run: "submit_for root0 sid work q = (r, q')"
  shows "sq_ok q'"
proof -
  from ok have inv: "sq_inv q" by (simp add: sq_ok_def)
  let ?root = "submit_root q root0 sid"
  show ?thesis
  proof (cases "submit_refused ?root sid q \<or> sq_next_id q \<ge> u64_max")
    case True
    with run ok show ?thesis by (auto simp: submit_for_eq [OF inv] split: if_splits)
  next
    case False
    let ?q2 = "submit_prepared ?root sid work q"
    have "sq_ok (summary_dispatch ?q2)"
      unfolding sq_ok_def using dispatch_inv [OF submit_prepared_inv [OF inv]] False
      by (intro conjI submit_prepared_limits [OF ok _ refl]) auto
    then show ?thesis
      using run False
      by (auto simp: submit_for_eq [OF inv] Let_def dispatch_notify split: option.splits if_splits)
  qed
qed


lemma sq_ok_start_poll:
  assumes ok: "sq_ok q" and run: "start_poll i q = (r, q')"
  shows "sq_ok q'"
proof (cases "\<exists>e. sq_entries q i = Some e \<and> se_reserved e")
  case True
  then obtain e where e: "sq_entries q i = Some e" "se_reserved e" by blast
  from ok have inv: "sq_inv q" and lim: "sq_limits q" and wc: "work_conserving q" by (auto simp: sq_ok_def)
  let ?q = "q\<lparr>sq_entries := (sq_entries q)(i := None),
     sq_pending_by_session := (sq_pending_by_session q)(se_session_id e := None)\<rparr>"
  have "i \<notin> set (sq_waiting q)" using sq_invD(5) [OF inv, of i] e by auto
  then have "sq_limits ?q" by (intro sq_limits_shrink [OF lim, of i]) (simp_all add: e)
  moreover have "work_conserving ?q" using wc by (auto simp: work_conserving_def summary_active_def split: if_splits)
  moreover have "q' = ?q" using run e by (simp add: start_poll_def)
  ultimately show ?thesis using sq_forget_reserved(1) [OF inv e] by (simp add: sq_ok_def)
next
  case False
  with run have "q' = q" by (auto simp: start_poll_def split: option.splits if_splits)
  with ok show ?thesis by simp
qed

lemma sq_ok_update: "sq_ok q \<Longrightarrow> sq_ok (snd (summary_update i work q))"
proof (cases "sq_entries q i")
  case (Some e)
  assume ok: "sq_ok q"
  let ?q = "q\<lparr>sq_entries := (sq_entries q)(i \<mapsto> e\<lparr>se_work := work\<rparr>)\<rparr>"
  from ok have inv: "sq_inv q" and lim: "sq_limits q" and wc: "work_conserving q" by (auto simp: sq_ok_def)
  note d = sq_invD [OF inv]
  have hr: "has_root ?q = has_root q" using Some by (simp add: fun_eq_iff has_root_def)
  have "sq_inv ?q"
  proof (rule sq_invI)
    fix j show "j \<in> set (sq_waiting ?q) \<longleftrightarrow> (\<exists>e. sq_entries ?q j = Some e \<and> \<not> se_reserved e)"
      using d(5) [of j] Some by auto
  next
    fix s j show "sq_pending_by_session ?q s = Some j \<longleftrightarrow> (\<exists>e. sq_entries ?q j = Some e \<and> se_session_id e = s)"
      using d(7) [of s j] Some by auto
  next
    fix j f assume "sq_entries ?q j = Some f" "se_reserved f"
    then show "map_of (sq_active ?q) (se_session_id f) = Some (j, se_root_session_id f)"
      using d(8) [of j] Some by (auto split: if_splits)
  next
    fix j f assume "sq_entries ?q j = Some f"
    then show "j < sq_next_id ?q" using d(9) [of j] Some by (auto split: if_splits)
  qed (use d(1-4,6,10) hr in simp_all)
  moreover have "sq_limits ?q" using lim by (simp add: sq_limits_def hr)
  moreover have "work_conserving ?q"
    using wc Some by (auto simp: work_conserving_def summary_active_def split: if_splits)
  ultimately show ?thesis using Some by (simp add: summary_update_def sq_ok_def)
qed (simp add: summary_update_def)

lemma sq_ok_permit_drop:
  assumes ok: "sq_ok q" and held: "sq_entries q i = None"
  shows "sq_ok (permit_drop sid i q)"
proof (cases "\<exists>r. map_of (sq_active q) sid = Some (i, r)")
  case True
  then obtain r where r: "map_of (sq_active q) sid = Some (i, r)" by blast
  from ok have inv: "sq_inv q" and lim: "sq_limits q" by (auto simp: sq_ok_def)
  note d = sq_invD [OF inv]
  let ?q = "q\<lparr>sq_active := kv_del sid (sq_active q)\<rparr>"
  have hr: "has_root ?q = has_root q" by (simp add: fun_eq_iff has_root_def)
  have "length (kv_del sid (sq_active q)) \<le> length (sq_active q)" using d(1) by (simp add: kv_length_del)
  then have "sq_inv ?q"
  proof (intro sq_invI)
    fix j f assume f: "sq_entries ?q j = Some f" "se_reserved f"
    then have "se_session_id f \<noteq> sid" using d(8) [of j f] r held by auto
    with f d(8) [of j f] show "map_of (sq_active ?q) (se_session_id f) = Some (j, se_root_session_id f)" by simp
  next
    fix s j r assume "map_of (sq_active ?q) s = Some (j, r)"
    then show "j < sq_next_id ?q" using d(10) [of s j r] by (simp split: if_splits)
  qed (use d(1-7,9) hr in simp_all)
  moreover have "sq_limits ?q" using lim by (simp add: sq_limits_def hr)
  ultimately show ?thesis using r by (simp add: permit_drop_def sq_ok_dispatch)
next
  case False
  then have "permit_drop sid i q = q" by (auto simp: permit_drop_def split: option.split)
  with ok show ?thesis by simp
qed

section \<open>Tickets and permits\<close>

text \<open>
  The queue among its users: \<open>rt_tickets\<close> are the tickets that still own their place, \<open>rt_parked\<close>
  those that wait for their notification, \<open>rt_permits\<close> the requests that run. A parked ticket is
  polled again only when its stored notification is consumed.
\<close>

record 'w summary_runtime =
  rt_queue :: "'w summary_queue"
  rt_tickets :: "nat set"
  rt_parked :: "nat set"
  rt_permits :: "(string \<times> nat) set"

inductive summary_step :: "'w summary_runtime \<Rightarrow> 'w summary_runtime \<Rightarrow> bool" where
  step_submit: "submit_for root sid work (rt_queue s) = (Submitted i, q) \<Longrightarrow>
    summary_step s (s\<lparr>rt_queue := q, rt_tickets := insert i (rt_tickets s)\<rparr>)"
| step_refused: "submit_for root sid work (rt_queue s) = (SummaryQueueFull, q) \<Longrightarrow> summary_step s (s\<lparr>rt_queue := q\<rparr>)"
| step_update: "summary_step s (s\<lparr>rt_queue := snd (summary_update i work (rt_queue s))\<rparr>)"
| step_drop_ticket: "i \<in> rt_tickets s \<Longrightarrow>
    summary_step s (s\<lparr>rt_queue := summary_cancel i (rt_queue s), rt_tickets := rt_tickets s - {i},
      rt_parked := rt_parked s - {i}\<rparr>)"
| step_superseded: "i \<in> rt_tickets s \<Longrightarrow> i \<in> rt_parked s \<longrightarrow> i \<in> sq_notified (rt_queue s) \<Longrightarrow>
    start_poll i (rt_queue s) = (Superseded, q) \<Longrightarrow>
    summary_step s (s\<lparr>rt_queue := q, rt_tickets := rt_tickets s - {i}, rt_parked := rt_parked s - {i}\<rparr>)"
| step_admitted: "i \<in> rt_tickets s \<Longrightarrow> i \<in> rt_parked s \<longrightarrow> i \<in> sq_notified (rt_queue s) \<Longrightarrow>
    start_poll i (rt_queue s) = (Admitted work sid, q) \<Longrightarrow>
    summary_step s (s\<lparr>rt_queue := q, rt_tickets := rt_tickets s - {i}, rt_parked := rt_parked s - {i},
      rt_permits := insert (sid, i) (rt_permits s)\<rparr>)"
| step_waits: "i \<in> rt_tickets s \<Longrightarrow> i \<in> rt_parked s \<longrightarrow> i \<in> sq_notified (rt_queue s) \<Longrightarrow>
    start_poll i (rt_queue s) = (StillWaiting, q) \<Longrightarrow>
    summary_step s (s\<lparr>rt_queue :=
        (if i \<in> rt_parked s then q\<lparr>sq_notified := sq_notified q - {i}\<rparr> else q),
      rt_parked := insert i (rt_parked s)\<rparr>)"
| step_release: "(sid, i) \<in> rt_permits s \<Longrightarrow>
    summary_step s (s\<lparr>rt_queue := permit_drop sid i (rt_queue s), rt_permits := rt_permits s - {(sid, i)}\<rparr>)"

definition summary_init :: "nat \<Rightarrow> nat \<Rightarrow> 'w summary_runtime option" where
  "summary_init c m =
     map_option (\<lambda>q. \<lparr>rt_queue = q, rt_tickets = {}, rt_parked = {}, rt_permits = {}\<rparr>) (summary_queue_new c m)"

definition runtime_core ::
  "'w summary_queue \<Rightarrow> nat set \<Rightarrow> nat set \<Rightarrow> (string \<times> nat) set \<Rightarrow> bool" where
  "runtime_core q T K P \<longleftrightarrow>
     (\<forall>i. sq_entries q i \<noteq> None \<longrightarrow> i \<in> T) \<and>
     (\<forall>i \<in> T. i < sq_next_id q) \<and>
     (\<forall>sid i. (sid, i) \<in> P \<longrightarrow>
        i \<notin> T \<and> i < sq_next_id q \<and> (\<exists>r. map_of (sq_active q) sid = Some (i, r))) \<and>
     (\<forall>sid i r. map_of (sq_active q) sid = Some (i, r) \<longrightarrow>
        (\<exists>e. sq_entries q i = Some e \<and> se_reserved e \<and> se_session_id e = sid) \<or> (sid, i) \<in> P) \<and>
     K \<subseteq> T \<and>
     (\<forall>i \<in> K. i \<notin> set (sq_waiting q) \<longrightarrow> i \<in> sq_notified q)"

lemma runtime_coreI:
  assumes "\<And>i e. sq_entries q i = Some e \<Longrightarrow> i \<in> T"
    "\<And>i. i \<in> T \<Longrightarrow> i < sq_next_id q"
    "\<And>sid i. (sid, i) \<in> P \<Longrightarrow> i \<notin> T \<and> i < sq_next_id q \<and> (\<exists>r. map_of (sq_active q) sid = Some (i, r))"
    "\<And>sid i r. map_of (sq_active q) sid = Some (i, r) \<Longrightarrow> (sid, i) \<notin> P \<Longrightarrow>
      \<exists>e. sq_entries q i = Some e \<and> se_reserved e \<and> se_session_id e = sid"
    "K \<subseteq> T" "\<And>i. i \<in> K \<Longrightarrow> i \<notin> set (sq_waiting q) \<Longrightarrow> i \<in> sq_notified q"
  shows "runtime_core q T K P"
  using assms unfolding runtime_core_def by blast

lemma runtime_coreD:
  assumes "runtime_core q T K P"
  shows "sq_entries q i = Some e \<Longrightarrow> i \<in> T"
    "i \<in> T \<Longrightarrow> i < sq_next_id q"
    "(sid, i) \<in> P \<Longrightarrow> i \<notin> T \<and> i < sq_next_id q \<and> (\<exists>r. map_of (sq_active q) sid = Some (i, r))"
    "map_of (sq_active q) sid = Some (i, r) \<Longrightarrow> (sid, i) \<notin> P \<Longrightarrow>
      \<exists>e. sq_entries q i = Some e \<and> se_reserved e \<and> se_session_id e = sid"
    "K \<subseteq> T" "i \<in> K \<Longrightarrow> i \<notin> set (sq_waiting q) \<Longrightarrow> i \<in> sq_notified q"
  using assms unfolding runtime_core_def by blast+

definition runtime_inv :: "'w summary_runtime \<Rightarrow> bool" where
  "runtime_inv s \<longleftrightarrow>
     sq_ok (rt_queue s) \<and> runtime_core (rt_queue s) (rt_tickets s) (rt_parked s) (rt_permits s)"

text \<open>What each operation does to identifiers, active slots and notifications.\<close>

lemma dispatch_active:
  assumes "sq_inv q" "map_of (sq_active (summary_dispatch q)) sid = Some (i, r)"
  shows "map_of (sq_active q) sid = Some (i, r) \<or>
    (\<exists>e. sq_entries (summary_dispatch q) i = Some e \<and> se_reserved e \<and> se_session_id e = sid)"
  using assms
proof (induction q rule: summary_dispatch.induct)
  case (1 q)
  show ?case
  proof (cases "length (sq_active q) < sq_concurrency q \<and> dispatch_choice q \<noteq> None")
    case True
    then obtain ri k l where c: "dispatch_choice q = Some (ri, k, l)" by (cases "dispatch_choice q") auto
    from True have free: "length (sq_active q) < sq_concurrency q" by simp
    let ?q = "dispatch_one ri k q" and ?i = "sq_waiting q ! k"
    have eq: "summary_dispatch q = summary_dispatch ?q" using dispatch_go [OF free c] .
    have inv: "sq_inv ?q" using 1(2) c free by (rule dispatch_one_inv)
    from 1(1) [OF free c refl refl inv] 1(3) eq
    consider (old) "map_of (sq_active ?q) sid = Some (i, r)"
      | (new) "\<exists>e. sq_entries (summary_dispatch q) i = Some e \<and> se_reserved e \<and> se_session_id e = sid"
      by auto
    then show ?thesis
    proof cases
      case old
      obtain e where e: "sq_entries q ?i = Some e" by (rule dispatch_one_entry [OF 1(2) c])
      note fields = dispatch_one_fields [OF 1(2) c e]
      show ?thesis
      proof (cases "sid = se_session_id e")
        case True
        with old have i: "i = ?i" by (simp add: fields)
        from dispatch_inv [OF inv] have dinv: "sq_inv (summary_dispatch q)" by (simp add: eq)
        have "map_option (\<lambda>e. (se_root_session_id e, se_session_id e, se_work e)) (sq_entries (summary_dispatch q) i) =
            map_option (\<lambda>e. (se_root_session_id e, se_session_id e, se_work e)) (sq_entries q i)"
          using dispatch_frame [of q] by blast
        then obtain f where f: "sq_entries (summary_dispatch q) i = Some f" "se_session_id f = sid"
          using e True i by auto
        have "i \<notin> set (sq_waiting ?q)"
          using set_remove_at(1) [OF sq_invD(3) [OF 1(2)] dispatch_choice_sound(3) [OF c]]
          by (simp add: fields i)
        then have "i \<notin> set (sq_waiting (summary_dispatch q))"
          unfolding eq using list_emb_set [OF dispatch_waiting_subseq [of ?q]] by blast
        with sq_invD(5) [OF dinv, of i] f show ?thesis by auto
      next
        case False
        with old show ?thesis by (simp add: fields)
      qed
    qed simp
  next
    case False
    from dispatch_stop [OF this] 1(3) show ?thesis by simp
  qed
qed

lemma dispatch_keeps_active:
  "sq_inv q \<Longrightarrow> map_of (sq_active q) sid = Some x \<Longrightarrow> map_of (sq_active (summary_dispatch q)) sid = Some x"
proof (induction q rule: summary_dispatch.induct)
  case (1 q)
  show ?case
  proof (cases "length (sq_active q) < sq_concurrency q \<and> dispatch_choice q \<noteq> None")
    case True
    then obtain ri k l where c: "dispatch_choice q = Some (ri, k, l)" by (cases "dispatch_choice q") auto
    from True have free: "length (sq_active q) < sq_concurrency q" by simp
    obtain e where e: "sq_entries q (sq_waiting q ! k) = Some e" "\<not> summary_active q (se_session_id e)"
      by (rule dispatch_one_entry [OF 1(2) c])
    have "sid \<noteq> se_session_id e"
    proof
      assume "sid = se_session_id e"
      with e(2) 1(3) show False by (cases x) (simp add: summary_active_def)
    qed
    then have "map_of (sq_active (dispatch_one ri k q)) sid = Some x"
      using 1(3) by (simp add: dispatch_one_fields [OF 1(2) c e(1)])
    with 1(1) [OF free c refl refl dispatch_one_inv [OF 1(2) c free]] show ?thesis
      by (simp add: dispatch_go [OF free c])
  next
    case False
    from dispatch_stop [OF this] 1(3) show ?thesis by simp
  qed
qed

lemma dispatch_notifies:
  "sq_inv q \<Longrightarrow> i \<in> set (sq_waiting q) \<Longrightarrow> i \<notin> set (sq_waiting (summary_dispatch q)) \<Longrightarrow> i \<in> sq_notified (summary_dispatch q)"
proof (induction q rule: summary_dispatch.induct)
  case (1 q)
  show ?case
  proof (cases "length (sq_active q) < sq_concurrency q \<and> dispatch_choice q \<noteq> None")
    case True
    then obtain ri k l where c: "dispatch_choice q = Some (ri, k, l)" by (cases "dispatch_choice q") auto
    from True have free: "length (sq_active q) < sq_concurrency q" by simp
    let ?q = "dispatch_one ri k q"
    obtain e where e: "sq_entries q (sq_waiting q ! k) = Some e" by (rule dispatch_one_entry [OF 1(2) c])
    note fields = dispatch_one_fields [OF 1(2) c e]
    have eq: "summary_dispatch q = summary_dispatch ?q" using dispatch_go [OF free c] .
    show ?thesis
    proof (cases "i = sq_waiting q ! k")
      case True
      then have "i \<in> sq_notified ?q" by (simp add: fields)
      then show ?thesis using dispatch_frame [of ?q] unfolding eq by blast
    next
      case False
      then have "i \<in> set (sq_waiting ?q)"
        using 1(3) set_remove_at(1) [OF sq_invD(3) [OF 1(2)] dispatch_choice_sound(3) [OF c]]
        by (simp add: fields)
      with 1(1) [OF free c refl refl dispatch_one_inv [OF 1(2) c free]] 1(4) show ?thesis
        unfolding eq by simp
    qed
  next
    case False
    from dispatch_stop [OF this] 1(3,4) show ?thesis by simp
  qed
qed

lemma dispatch_entries_dom: "sq_entries (summary_dispatch q) i = None \<longleftrightarrow> sq_entries q i = None"
proof -
  have "map_option (\<lambda>e. (se_root_session_id e, se_session_id e, se_work e)) (sq_entries (summary_dispatch q) i) =
      map_option (\<lambda>e. (se_root_session_id e, se_session_id e, se_work e)) (sq_entries q i)"
    using dispatch_frame [of q] by blast
  then show ?thesis by (cases "sq_entries q i"; cases "sq_entries (summary_dispatch q) i") auto
qed

text \<open>A reservation is kept by the invariant, so a dispatch cannot undo it.\<close>

lemma dispatch_keeps_reserved:
  assumes "sq_inv q" "sq_entries q i = Some e" "se_reserved e"
  shows "\<exists>f. sq_entries (summary_dispatch q) i = Some f \<and> se_reserved f \<and> se_session_id f = se_session_id e"
proof -
  have "map_option (\<lambda>e. (se_root_session_id e, se_session_id e, se_work e)) (sq_entries (summary_dispatch q) i) =
      map_option (\<lambda>e. (se_root_session_id e, se_session_id e, se_work e)) (sq_entries q i)"
    using dispatch_frame [of q] by blast
  then obtain f where f: "sq_entries (summary_dispatch q) i = Some f" "se_session_id f = se_session_id e"
    using assms(2) by auto
  have "i \<notin> set (sq_waiting q)" using sq_invD(5) [OF assms(1), of i] assms(2,3) by auto
  then have "i \<notin> set (sq_waiting (summary_dispatch q))"
    using list_emb_set [OF dispatch_waiting_subseq [of q]] by blast
  then have "se_reserved f"
    using sq_invD(5) [OF conjunct1 [OF dispatch_inv [OF assms(1)]], of i] f by auto
  with f show ?thesis by blast
qed


lemma runtime_core_dispatch:
  assumes inv: "sq_inv q" and core: "runtime_core q T K P"
  shows "runtime_core (summary_dispatch q) T K P"
proof (rule runtime_coreI)
  note c = runtime_coreD [OF core]
  note frame = dispatch_frame [of q]
  fix i
  show "i \<in> T" if "sq_entries (summary_dispatch q) i = Some e" for e
    using that dispatch_entries_dom [of q i] c(1) by (cases "sq_entries q i") auto
  show "i < sq_next_id (summary_dispatch q)" if "i \<in> T" using c(2) [OF that] frame by simp
  show "i \<notin> T \<and> i < sq_next_id (summary_dispatch q) \<and> (\<exists>r. map_of (sq_active (summary_dispatch q)) sid = Some (i, r))"
    if "(sid, i) \<in> P" for sid
    using c(3) [OF that] dispatch_keeps_active [OF inv] frame by fastforce
  show "\<exists>e. sq_entries (summary_dispatch q) i = Some e \<and> se_reserved e \<and> se_session_id e = sid"
    if a: "map_of (sq_active (summary_dispatch q)) sid = Some (i, r)" "(sid, i) \<notin> P" for sid r
  proof (cases "map_of (sq_active q) sid = Some (i, r)")
    case True
    from c(4) [OF this a(2)] dispatch_keeps_reserved [OF inv] show ?thesis by metis
  next
    case False
    with dispatch_active [OF inv a(1)] show ?thesis by blast
  qed
  show "K \<subseteq> T" by (rule c(5))
  show "i \<in> sq_notified (summary_dispatch q)" if "i \<in> K" "i \<notin> set (sq_waiting (summary_dispatch q))"
    using that c(6) [of i] dispatch_notifies [OF inv, of i] frame by blast
qed

lemma submit_result:
  assumes inv: "sq_inv q" and run: "submit_for root0 sid work q = (Submitted i, q')"
  shows "i = sq_next_id q \<and>
    (\<exists>N. q' = summary_dispatch ((submit_prepared (submit_root q root0 sid) sid work q)\<lparr>sq_notified := N\<rparr>) \<and>
      sq_notified q \<subseteq> N \<and> (\<forall>p. sq_pending_by_session q sid = Some p \<longrightarrow> p \<in> N))"
proof -
  let ?q2 = "submit_prepared (submit_root q root0 sid) sid work q"
  have n: "summary_notify k x = x\<lparr>sq_notified := insert k (sq_notified x)\<rparr>" for k and x :: "'a summary_queue"
    by (simp add: summary_notify_def)
  have admitted: "\<not> submit_refused (submit_root q root0 sid) sid q" "\<not> u64_max \<le> sq_next_id q"
    using run by (auto simp: submit_for_eq [OF inv] split: if_splits)
  show ?thesis
  proof (cases "sq_pending_by_session q sid")
    case None
    have same: "sq_notified x = N \<Longrightarrow> x\<lparr>sq_notified := N\<rparr> = x" for N and x :: "'a summary_queue" by auto
    from None run admitted have "i = sq_next_id q" "q' = summary_dispatch ?q2"
      by (simp_all add: submit_for_eq [OF inv])
    with None same [OF submit_prepared_frame(5)] show ?thesis
      by (intro conjI exI [of _ "sq_notified q"]) simp_all
  next
    case (Some p)
    then obtain e where e: "sq_entries q p = Some e" by (rule sq_pending_entry [OF inv])
    have "\<exists>N. q' = summary_dispatch (?q2\<lparr>sq_notified := N\<rparr>) \<and> insert p (sq_notified q) \<subseteq> N"
    proof (cases "se_reserved e")
      case True
      with run admitted Some e
      have "q' = summary_dispatch (summary_notify p (summary_notify (sq_next_id q) ?q2))"
        by (auto simp: submit_for_eq [OF inv] Let_def dispatch_notify)
      then show ?thesis by (auto simp: n submit_prepared_frame intro!: exI)
    next
      case False
      with run admitted Some e have "q' = summary_dispatch (summary_notify p ?q2)"
        by (auto simp: submit_for_eq [OF inv] Let_def dispatch_notify)
      then show ?thesis by (auto simp: n submit_prepared_frame intro!: exI)
    qed
    moreover have "i = sq_next_id q" using run admitted by (simp add: submit_for_eq [OF inv] Let_def)
    ultimately show ?thesis using Some by auto
  qed
qed

lemma runtime_core_submit:
  assumes ok: "sq_ok q" and core: "runtime_core q T K P"
    and run: "submit_for root0 sid work q = (Submitted i, q')"
  shows "runtime_core q' (insert i T) K P"
proof -
  from ok have inv: "sq_inv q" by (simp add: sq_ok_def)
  note d = sq_invD [OF inv] and c = runtime_coreD [OF core]
  define root where "root = submit_root q root0 sid"
  define q2 where "q2 = submit_prepared root sid work q"
  from submit_result [OF inv run] obtain N where i: "i = sq_next_id q"
    and q': "q' = summary_dispatch (q2\<lparr>sq_notified := N\<rparr>)" and N: "sq_notified q \<subseteq> N"
    "\<forall>p. sq_pending_by_session q sid = Some p \<longrightarrow> p \<in> N"
    by (auto simp: q2_def root_def)
  have "sq_inv q2" unfolding q2_def root_def using inv by (rule submit_prepared_inv)
  then have inv2: "sq_inv (q2\<lparr>sq_notified := N\<rparr>)" by (simp add: sq_inv_def)
  have next2: "sq_next_id q2 = Suc i" by (simp add: q2_def submit_prepared_frame i)
  have fresh: "sq_entries q i = None" using d(9) [of i] by (cases "sq_entries q i") (auto simp: i)
  have entries2: "sq_entries q2 j = (if j = i then sq_entries q2 i else
      if sq_pending_by_session q sid = Some j then None else sq_entries q j)" for j
  proof (cases "sq_pending_by_session q sid")
    case None
    then show ?thesis by (simp add: q2_def submit_prepared_def Let_def i)
  next
    case (Some p)
    then obtain e where "sq_entries q p = Some e" by (rule sq_pending_entry [OF inv])
    with Some show ?thesis by (auto simp: q2_def submit_prepared_def Let_def i)
  qed
  have sel: "sq_entries (q2\<lparr>sq_notified := N\<rparr>) = sq_entries q2" "sq_next_id (q2\<lparr>sq_notified := N\<rparr>) = sq_next_id q2"
    "sq_active (q2\<lparr>sq_notified := N\<rparr>) = sq_active q2" "sq_waiting (q2\<lparr>sq_notified := N\<rparr>) = sq_waiting q2"
    "sq_notified (q2\<lparr>sq_notified := N\<rparr>) = N"
    by simp_all
  show ?thesis
    unfolding q'
  proof (rule runtime_core_dispatch [OF inv2], rule runtime_coreI, unfold sel)
    fix j
    show "j \<in> insert i T" if "sq_entries q2 j = Some e" for e
      using that entries2 [of j] c(1) [of j] by (auto split: if_splits)
    show "j < sq_next_id q2" if "j \<in> insert i T" using that c(2) [of j] by (auto simp: next2 i)
    show "j \<notin> insert i T \<and> j < sq_next_id q2 \<and> (\<exists>r. map_of (sq_active q2) s = Some (j, r))"
      if p: "(s, j) \<in> P" for s
    proof -
      from c(3) [OF p] obtain r where r: "j \<notin> T" "j < i" "map_of (sq_active q) s = Some (j, r)" by (auto simp: i)
      have "map_of (sq_active q2) s = Some (j, r)"
      proof (cases "Option.bind (sq_pending_by_session q sid) (sq_entries q)")
        case None
        with r show ?thesis by (simp add: q2_def submit_prepared_def Let_def)
      next
        case (Some e)
        then obtain p where p: "sq_pending_by_session q sid = Some p" "sq_entries q p = Some e"
          by (cases "sq_pending_by_session q sid") auto
        then have s': "se_session_id e = sid" using d(7) [of sid p] by auto
        show ?thesis
        proof (cases "se_reserved e")
          case True
          from d(8) [OF p(2) True] s' have "map_of (sq_active q) sid = Some (p, se_root_session_id e)" by simp
          then have "s \<noteq> sid" using r c(1) [OF p(2)] by auto
          with r p True show ?thesis by (simp add: q2_def submit_prepared_def Let_def)
        next
          case False
          with r p show ?thesis by (simp add: q2_def submit_prepared_def Let_def)
        qed
      qed
      with r show ?thesis by (auto simp: next2)
    qed
    show "\<exists>e. sq_entries q2 j = Some e \<and> se_reserved e \<and> se_session_id e = s"
      if a: "map_of (sq_active q2) s = Some (j, r)" "(s, j) \<notin> P" for s r
    proof (cases "sq_pending_by_session q sid")
      case None
      then have "map_of (sq_active q) s = Some (j, r)" using a by (simp add: q2_def submit_prepared_def Let_def)
      from c(4) [OF this a(2)] fresh None show ?thesis
        using entries2 [of j] by (cases "j = i") auto
    next
      case (Some p)
      then obtain e where e: "sq_entries q p = Some e" "se_session_id e = sid" by (rule sq_pending_entry [OF inv])
      show ?thesis
      proof (cases "se_reserved e \<and> s = sid")
        case True
        with a e Some show ?thesis by (auto simp: q2_def submit_prepared_def Let_def i)
      next
        case False
        have "map_of (sq_active q) s = Some (j, r)"
          using a False Some e by (auto simp: q2_def submit_prepared_def Let_def split: if_splits)
        from c(4) [OF this a(2)] obtain f where f: "sq_entries q j = Some f" "se_reserved f" "se_session_id f = s"
          by blast
        with e False have "j \<noteq> p" by auto
        with f fresh Some show ?thesis using entries2 [of j] by (cases "j = i") auto
      qed
    qed
    show "K \<subseteq> insert i T" using c(5) by blast
    show "j \<in> N" if k: "j \<in> K" "j \<notin> set (sq_waiting q2)"
    proof (cases "sq_pending_by_session q sid = Some j")
      case False
      have "j \<notin> set (sq_waiting q)"
      proof
        assume w: "j \<in> set (sq_waiting q)"
        then obtain f where f: "sq_entries q j = Some f" "\<not> se_reserved f" using d(5) [of j] by auto
        with fresh False have "sq_entries q2 j = Some f" using entries2 [of j] by (cases "j = i") auto
        with f k(2) sq_invD(5) [OF \<open>sq_inv q2\<close>, of j] show False by auto
      qed
      with c(6) [OF k(1)] N(1) show ?thesis by blast
    qed (use N(2) in blast)
  qed
qed


lemma runtime_core_cancel:
  assumes ok: "sq_ok q" and core: "runtime_core q T K P" and i: "i \<in> T"
  shows "runtime_core (summary_cancel i q) (T - {i}) (K - {i}) P"
proof (cases "sq_entries q i")
  case None
  then have "summary_cancel i q = q" by (simp add: summary_cancel_def)
  moreover have "runtime_core q (T - {i}) (K - {i}) P"
  proof (rule runtime_coreI)
    note c = runtime_coreD [OF core]
    fix j
    show "j \<in> T - {i}" if "sq_entries q j = Some e" for e
      using that c(1) [OF that] None by (cases "j = i") simp_all
    show "j < sq_next_id q" if "j \<in> T - {i}" using c(2) that by blast
    show "j \<notin> T - {i} \<and> j < sq_next_id q \<and> (\<exists>r. map_of (sq_active q) s = Some (j, r))" if "(s, j) \<in> P" for s
      using c(3) [OF that] by blast
    show "\<exists>e. sq_entries q j = Some e \<and> se_reserved e \<and> se_session_id e = s"
      if "map_of (sq_active q) s = Some (j, r)" "(s, j) \<notin> P" for s r
      using c(4) [OF that] .
    show "K - {i} \<subseteq> T - {i}" using c(5) by blast
    show "j \<in> sq_notified q" if "j \<in> K - {i}" "j \<notin> set (sq_waiting q)" using c(6) [of j] that by blast
  qed
  ultimately show ?thesis by simp
next
  case (Some e)
  from ok have inv: "sq_inv q" by (simp add: sq_ok_def)
  note d = sq_invD [OF inv] and c = runtime_coreD [OF core]
  have one: "j = i" if "sq_entries q j = Some f" "se_session_id f = se_session_id e" for j f
    using sq_inv_one_entry [OF inv that(1) Some that(2)] .
  let ?en = "(sq_entries q)(i := None)" and ?pe = "(sq_pending_by_session q)(se_session_id e := None)"
  have base: "runtime_core q' (T - {i}) (K - {i}) P"
    if "sq_entries q' = ?en" "sq_next_id q' = sq_next_id q" "sq_notified q' = sq_notified q"
      "set (sq_waiting q') = set (sq_waiting q) - {i}"
      "sq_active q' = (if se_reserved e then kv_del (se_session_id e) (sq_active q) else sq_active q)" for q'
  proof (rule runtime_coreI)
    fix j
    show "j \<in> T - {i}" if "sq_entries q' j = Some f" for f
      using that c(1) [of j f] \<open>sq_entries q' = ?en\<close> by (auto split: if_splits)
    show "j < sq_next_id q'" if "j \<in> T - {i}" using that c(2) [of j] \<open>sq_next_id q' = _\<close> by simp
    show "j \<notin> T - {i} \<and> j < sq_next_id q' \<and> (\<exists>r. map_of (sq_active q') s = Some (j, r))" if p: "(s, j) \<in> P" for s
    proof -
      from c(3) [OF p] obtain r where r: "j \<notin> T" "j < sq_next_id q" "map_of (sq_active q) s = Some (j, r)" by auto
      have "s \<noteq> se_session_id e" if "se_reserved e" using d(8) [OF Some that] r i by auto
      then have "map_of (sq_active q') s = Some (j, r)"
        using r \<open>sq_active q' = _\<close> by (cases "se_reserved e") simp_all
      with r \<open>sq_next_id q' = _\<close> show ?thesis by simp
    qed
    show "\<exists>f. sq_entries q' j = Some f \<and> se_reserved f \<and> se_session_id f = s"
      if a: "map_of (sq_active q') s = Some (j, r)" "(s, j) \<notin> P" for s r
    proof -
      have act: "map_of (sq_active q) s = Some (j, r)" "se_reserved e \<Longrightarrow> s \<noteq> se_session_id e"
        using a(1) \<open>sq_active q' = _\<close> by (auto split: if_splits)
      from c(4) [OF act(1) a(2)] obtain f where f: "sq_entries q j = Some f" "se_reserved f" "se_session_id f = s"
        by blast
      have "j \<noteq> i" using f act(2) Some by auto
      with f \<open>sq_entries q' = ?en\<close> show ?thesis by simp
    qed
    show "K - {i} \<subseteq> T - {i}" using c(5) by blast
    show "j \<in> sq_notified q'" if "j \<in> K - {i}" "j \<notin> set (sq_waiting q')"
      using that c(6) [of j] \<open>set (sq_waiting q') = _\<close> \<open>sq_notified q' = _\<close> by simp
  qed
  show ?thesis
  proof (cases "se_reserved e")
    case True
    let ?q = "q\<lparr>sq_entries := ?en, sq_pending_by_session := ?pe,
      sq_active := kv_del (se_session_id e) (sq_active q)\<rparr>"
    have "i \<notin> set (sq_waiting q)" using d(5) [of i] Some True by auto
    then have "runtime_core ?q (T - {i}) (K - {i}) P" by (intro base) (simp_all add: True)
    moreover have "sq_inv ?q" using sq_forget_reserved(2) [OF inv Some True] by simp
    moreover have "summary_cancel i q = summary_dispatch ?q" using Some True by (simp add: summary_cancel_def Let_def)
    ultimately show ?thesis by (simp add: runtime_core_dispatch)
  next
    case False
    define q1 where "q1 = q\<lparr>sq_entries := ?en, sq_pending_by_session := ?pe\<rparr>"
    define w where "w = filter (\<lambda>j. j \<noteq> i) (sq_waiting q)"
    define roots where "roots = (if \<exists>j \<in> set w. has_root q1 (se_root_session_id e) j then sq_waiting_roots q
       else filter (\<lambda>r. r \<noteq> se_root_session_id e) (sq_waiting_roots q))"
    let ?q = "q1\<lparr>sq_waiting := w, sq_waiting_roots := roots\<rparr>"
    have "runtime_core ?q (T - {i}) (K - {i}) P" by (intro base) (auto simp: False q1_def w_def)
    moreover have "sq_inv ?q"
      using sq_cancel_waiting [OF inv Some False] unfolding roots_def w_def q1_def .
    moreover have "summary_cancel i q = summary_dispatch ?q"
      using Some False unfolding summary_cancel_def Let_def roots_def w_def q1_def by (simp only: option.case if_False)
    ultimately show ?thesis by (simp add: runtime_core_dispatch)
  qed
qed

lemma runtime_core_admit:
  assumes ok: "sq_ok q" and core: "runtime_core q T K P" and i: "i \<in> T"
    and run: "start_poll i q = (Admitted work sid, q')"
  shows "runtime_core q' (T - {i}) (K - {i}) (insert (sid, i) P)"
proof -
  from run obtain e where e: "sq_entries q i = Some e" "se_reserved e" "se_session_id e = sid"
    and q': "q' = q\<lparr>sq_entries := (sq_entries q)(i := None),
      sq_pending_by_session := (sq_pending_by_session q)(sid := None)\<rparr>"
    by (auto simp: start_poll_def split: option.splits if_splits)
  from ok have inv: "sq_inv q" by (simp add: sq_ok_def)
  note d = sq_invD [OF inv] and c = runtime_coreD [OF core]
  show ?thesis
  proof (rule runtime_coreI)
    fix j
    show "j \<in> T - {i}" if "sq_entries q' j = Some f" for f
      using that c(1) [of j f] by (auto simp: q' split: if_splits)
    show "j < sq_next_id q'" if "j \<in> T - {i}" using that c(2) [of j] by (simp add: q')
    show "j \<notin> T - {i} \<and> j < sq_next_id q' \<and> (\<exists>r. map_of (sq_active q') s = Some (j, r))"
      if p: "(s, j) \<in> insert (sid, i) P" for s
    proof (cases "(s, j) = (sid, i)")
      case True
      with d(8) [OF e(1,2)] c(2) [OF i] e(3) show ?thesis by (simp add: q')
    next
      case False
      with p have "(s, j) \<in> P" by auto
      from c(3) [OF this] show ?thesis by (auto simp: q')
    qed
    show "\<exists>f. sq_entries q' j = Some f \<and> se_reserved f \<and> se_session_id f = s"
      if a: "map_of (sq_active q') s = Some (j, r)" "(s, j) \<notin> insert (sid, i) P" for s r
    proof -
      have "map_of (sq_active q) s = Some (j, r)" "(s, j) \<notin> P" using a by (auto simp: q')
      from c(4) [OF this] obtain f where f: "sq_entries q j = Some f" "se_reserved f" "se_session_id f = s" by blast
      then have "j \<noteq> i" using a(2) e by auto
      with f show ?thesis by (simp add: q')
    qed
    show "K - {i} \<subseteq> T - {i}" using c(5) by blast
    show "j \<in> sq_notified q'" if "j \<in> K - {i}" "j \<notin> set (sq_waiting q')"
      using that c(6) [of j] by (simp add: q')
  qed
qed

lemma runtime_core_release:
  assumes ok: "sq_ok q" and core: "runtime_core q T K P" and p: "(sid, i) \<in> P"
  shows "runtime_core (permit_drop sid i q) T K (P - {(sid, i)})"
proof -
  from ok have inv: "sq_inv q" by (simp add: sq_ok_def)
  note d = sq_invD [OF inv] and c = runtime_coreD [OF core]
  from c(3) [OF p] obtain r where r: "i \<notin> T" "map_of (sq_active q) sid = Some (i, r)" by blast
  then have none: "sq_entries q i = None" using c(1) [of i] by (cases "sq_entries q i") auto
  let ?q = "q\<lparr>sq_active := kv_del sid (sq_active q)\<rparr>"
  have "sq_inv ?q"
  proof (rule sq_invI)
    show "length (sq_active ?q) \<le> sq_concurrency ?q"
      using d(1,2) by (auto simp: kv_length_del)
    fix j f assume f: "sq_entries ?q j = Some f" "se_reserved f"
    then have "se_session_id f \<noteq> sid" using d(8) [of j f] r none by auto
    with f d(8) [of j f] show "map_of (sq_active ?q) (se_session_id f) = Some (j, se_root_session_id f)" by simp
  next
    fix s j r assume "map_of (sq_active ?q) s = Some (j, r)"
    then show "j < sq_next_id ?q" using d(10) [of s j r] by (simp split: if_splits)
  next
    fix r show "r \<in> set (sq_waiting_roots ?q) \<longleftrightarrow> (\<exists>j \<in> set (sq_waiting ?q). has_root ?q r j)"
      using d(6) [of r] by (simp add: has_root_def)
  qed (use d in simp_all)
  moreover have "runtime_core ?q T K (P - {(sid, i)})"
  proof (rule runtime_coreI)
    fix j
    show "j \<notin> T \<and> j < sq_next_id ?q \<and> (\<exists>r. map_of (sq_active ?q) s = Some (j, r))"
      if "(s, j) \<in> P - {(sid, i)}" for s
      using that c(3) [of s j] r by auto
    show "\<exists>f. sq_entries ?q j = Some f \<and> se_reserved f \<and> se_session_id f = s"
      if "map_of (sq_active ?q) s = Some (j, x)" "(s, j) \<notin> P - {(sid, i)}" for s x
      using that c(4) [of s j x] by (auto split: if_splits)
  qed (use c in auto)
  moreover have "permit_drop sid i q = summary_dispatch ?q" using r by (simp add: permit_drop_def)
  ultimately show ?thesis by (simp add: runtime_core_dispatch)
qed


lemma runtime_inv_init: "summary_init c m = Some s \<Longrightarrow> runtime_inv s"
  by (auto simp: summary_init_def runtime_inv_def runtime_core_def sq_ok_new)
    (auto simp: summary_queue_new_def split: if_splits)

lemma submit_refusal: "sq_inv q \<Longrightarrow> submit_for root sid work q = (SummaryQueueFull, q') \<Longrightarrow> q' = q"
  by (auto simp: submit_for_eq Let_def split: if_splits)

lemma runtime_inv_step:
  assumes "summary_step s s'" "runtime_inv s"
  shows "runtime_inv s'"
  using assms
proof (induction rule: summary_step.induct)
  case (step_submit root sid work s i q)
  then show ?case
    using sq_ok_submit [OF _ step_submit(1)] runtime_core_submit [OF _ _ step_submit(1)]
    by (simp add: runtime_inv_def)
next
  case (step_refused root sid work s q)
  from step_refused(2) have ok: "sq_ok (rt_queue s)" by (simp add: runtime_inv_def)
  then have "q = rt_queue s" using submit_refusal [OF _ step_refused(1)] by (simp add: sq_ok_def)
  with step_refused(2) show ?case by (simp add: runtime_inv_def)
next
  case (step_update s i work)
  then have ok: "sq_ok (rt_queue s)" and core: "runtime_core (rt_queue s) (rt_tickets s) (rt_parked s) (rt_permits s)"
    by (simp_all add: runtime_inv_def)
  have "runtime_core (snd (summary_update i work (rt_queue s))) (rt_tickets s) (rt_parked s) (rt_permits s)"
  proof (cases "sq_entries (rt_queue s) i")
    case None
    with core show ?thesis by (simp add: summary_update_def)
  next
    case (Some e)
    note c = runtime_coreD [OF core]
    show ?thesis
    proof (rule runtime_coreI)
      fix j
      show "j \<in> rt_tickets s" if "sq_entries (snd (summary_update i work (rt_queue s))) j = Some f" for f
        using that c(1) [of j] Some by (auto simp: summary_update_def split: if_splits)
      show "\<exists>f. sq_entries (snd (summary_update i work (rt_queue s))) j = Some f \<and> se_reserved f \<and> se_session_id f = sid"
        if a: "map_of (sq_active (snd (summary_update i work (rt_queue s)))) sid = Some (j, r)"
          "(sid, j) \<notin> rt_permits s" for sid r
        using c(4) [OF _ a(2), of r] a(1) Some by (auto simp: summary_update_def)
    qed (use c(2,3,5,6) Some in \<open>simp_all add: summary_update_def\<close>)
  qed
  with sq_ok_update [OF ok] show ?case by (simp add: runtime_inv_def)
next
  case (step_drop_ticket i s)
  then show ?case by (simp add: runtime_inv_def sq_ok_cancel runtime_core_cancel)
next
  case (step_superseded i s q)
  then have q: "q = rt_queue s" and none: "sq_entries (rt_queue s) i = None"
    by (auto simp: start_poll_def split: option.splits if_splits)
  then have "summary_cancel i (rt_queue s) = rt_queue s" by (simp add: summary_cancel_def)
  with step_superseded q runtime_core_cancel [of "rt_queue s" _ _ _ i] show ?case
    by (auto simp: runtime_inv_def)
next
  case (step_admitted i s work sid q)
  then show ?case
    using sq_ok_start_poll [OF _ step_admitted(3)] runtime_core_admit [OF _ _ step_admitted(1,3)]
    by (simp add: runtime_inv_def)
next
  case (step_waits i s q)
  then have q: "q = rt_queue s" and "\<exists>e. sq_entries (rt_queue s) i = Some e \<and> \<not> se_reserved e"
    by (auto simp: start_poll_def split: option.splits if_splits)
  moreover from step_waits have ok: "sq_ok (rt_queue s)"
    and core: "runtime_core (rt_queue s) (rt_tickets s) (rt_parked s) (rt_permits s)"
    by (simp_all add: runtime_inv_def)
  ultimately have w: "i \<in> set (sq_waiting (rt_queue s))"
    using sq_invD(5) [of "rt_queue s" i] by (simp add: sq_ok_def)
  let ?q = "if i \<in> rt_parked s then q\<lparr>sq_notified := sq_notified q - {i}\<rparr> else q"
  note c = runtime_coreD [OF core]
  have sel: "sq_entries ?q = sq_entries (rt_queue s)" "sq_next_id ?q = sq_next_id (rt_queue s)"
    "sq_active ?q = sq_active (rt_queue s)" "sq_waiting ?q = sq_waiting (rt_queue s)"
    "sq_notified (rt_queue s) - {i} \<subseteq> sq_notified ?q"
    by (auto simp: q)
  have "runtime_core ?q (rt_tickets s) (insert i (rt_parked s)) (rt_permits s)"
  proof (rule runtime_coreI, unfold sel)
    fix j
    show "insert i (rt_parked s) \<subseteq> rt_tickets s" using c(5) step_waits(1) by simp
    show "j \<in> sq_notified ?q" if "j \<in> insert i (rt_parked s)" "j \<notin> set (sq_waiting (rt_queue s))"
      using that w c(6) [of j] q by (cases "j = i") auto
  qed (use c(1-4) in blast)+
  moreover have "sq_ok ?q" using ok by (simp add: q sq_ok_def sq_inv_def sq_limits_def work_conserving_def)
  ultimately show ?case by (simp add: runtime_inv_def)
next
  case (step_release sid i s)
  then have ok: "sq_ok (rt_queue s)" and core: "runtime_core (rt_queue s) (rt_tickets s) (rt_parked s) (rt_permits s)"
    by (simp_all add: runtime_inv_def)
  have "sq_entries (rt_queue s) i = None"
    using runtime_coreD(1,3) [OF core] step_release(1) by (cases "sq_entries (rt_queue s) i") blast+
  with ok core step_release(1) show ?case by (simp add: runtime_inv_def sq_ok_permit_drop runtime_core_release)
qed

lemma runtime_inv_reachable:
  assumes "summary_init c m = Some s0" "summary_step\<^sup>*\<^sup>* s0 s"
  shows "runtime_inv s"
  using assms(2) by (induction rule: rtranclp_induct)
    (auto intro: runtime_inv_init [OF assms(1)] runtime_inv_step)


section \<open>Fairness\<close>

text \<open>
  How many dispatches can pass over a root: its distance from the head of the rotation, and one
  more if it was served last.
\<close>

definition root_rank :: "'w summary_queue \<Rightarrow> string \<Rightarrow> nat" where
  "root_rank q r =
     (case position (\<lambda>x. x = r) (sq_waiting_roots q) of
        None \<Rightarrow> 0
      | Some k \<Rightarrow> k + (if sq_last_dispatched_root q = Some r then 1 else 0))"

lemma position_eq_nth: "distinct xs \<Longrightarrow> k < length xs \<Longrightarrow> position (\<lambda>x. x = xs ! k) xs = Some k"
proof -
  assume d: "distinct xs" and k: "k < length xs"
  from position_SomeI [where P = "\<lambda>x. x = xs ! k", OF nth_mem [OF k] refl]
  obtain m where m: "position (\<lambda>x. x = xs ! k) xs = Some m" by blast
  from position_SomeD [OF m] have "m < length xs" "xs ! m = xs ! k" by simp_all
  with d k have "m = k" using nth_eq_iff_index_eq by blast
  with m show ?thesis by simp
qed

lemma dispatch_candidates_sorted: "sorted_wrt (<) (map fst (dispatch_candidates q))"
proof -
  have gen: "sorted_wrt (<) (map fst (List.map_filter f (enumerate n xs)))"
    if "\<And>x y. f x = Some y \<Longrightarrow> fst y = fst x" for f :: "nat \<times> string \<Rightarrow> (nat \<times> nat \<times> bool) option" and n xs
  proof (induction xs arbitrary: n)
    case (Cons x xs)
    note key = that
    have "n < fst y" if y: "y \<in> set (List.map_filter f (enumerate (Suc n) xs))" for y
    proof -
      from y obtain z where z: "z \<in> set (enumerate (Suc n) xs)" "f z = Some y" unfolding set_map_filter by blast
      have "n < fst z" using in_set_enumerate_eq [of z "Suc n" xs] z(1) by simp
      with key [OF z(2)] show ?thesis by simp
    qed
    with Cons.IH [of "Suc n"] key show ?case
      by (cases "f (n, x)") (auto simp: List.map_filter_simps)
  qed (simp add: List.map_filter_simps)
  show ?thesis unfolding dispatch_candidates_def by (rule gen) auto
qed

text \<open>What the choice is: a root other than the last one comes first if it can run at all.\<close>

lemma dispatch_choice_rotates:
  assumes c: "dispatch_choice q = Some (ri, i, l)"
    and rj: "rj < length (sq_waiting_roots q)" "runnable_position q (sq_waiting_roots q ! rj) \<noteq> None"
    and other: "sq_last_dispatched_root q \<noteq> Some (sq_waiting_roots q ! rj)"
  shows "ri \<le> rj \<and> sq_last_dispatched_root q \<noteq> Some (sq_waiting_roots q ! ri)"
proof -
  from rj(2) obtain k where k: "runnable_position q (sq_waiting_roots q ! rj) = Some k" by blast
  with rj(1) other have mem: "(rj, k, False) \<in> set (dispatch_candidates q)"
    by (auto simp: dispatch_candidates_member)
  then obtain first rest where cs: "dispatch_candidates q = first # rest"
    by (cases "dispatch_candidates q") auto
  have sorted: "sorted_wrt (<) (map fst (first # rest))" using dispatch_candidates_sorted [of q] by (simp add: cs)
  have chosen: "(ri, i, l) \<in> set (dispatch_candidates q)" by (rule dispatch_choice_member [OF c])
  then have l: "l \<longleftrightarrow> Some (sq_waiting_roots q ! ri) = sq_last_dispatched_root q"
    by (simp add: dispatch_candidates_member)
  show ?thesis
  proof (cases "snd (snd first)")
    case False
    with c cs have "first = (ri, i, l)" by (simp add: dispatch_choice_def)
    moreover have "fst first \<le> rj" using mem sorted cs by (cases "first = (rj, k, False)") (auto simp: less_imp_le)
    ultimately show ?thesis using False l by auto
  next
    case True
    with mem cs have rest: "(rj, k, False) \<in> set rest" by auto
    then have "find (\<lambda>c. \<not> snd (snd c)) rest \<noteq> None" by (auto simp: find_None_iff)
    with c cs True have f: "find (\<lambda>c. \<not> snd (snd c)) rest = Some (ri, i, l)"
      by (auto simp: dispatch_choice_def split: option.splits)
    then obtain m where m: "m < length rest" "rest ! m = (ri, i, l)" "\<not> l" "\<forall>n < m. snd (snd (rest ! n))"
      unfolding find_Some_iff by (metis snd_conv)
    from rest obtain n where n: "n < length rest" "rest ! n = (rj, k, False)" by (auto simp: in_set_conv_nth)
    then have "m \<le> n" using m(4) by (metis not_le_imp_less snd_conv)
    have "sorted_wrt (<) (map fst rest)" using sorted by simp
    then have "fst (rest ! m) \<le> fst (rest ! n)"
      using sorted_wrt_nth_less [of "(<)" "map fst rest" m n] \<open>m \<le> n\<close> n(1) by (cases "m = n") (simp_all add: less_imp_le)
    with m n l show ?thesis by auto
  qed
qed

lemma root_rank_dispatch_one:
  assumes inv: "sq_inv q" and c: "dispatch_choice q = Some (ri, i, l)"
    and r: "runnable_position q r \<noteq> None" and other: "sq_waiting_roots q ! ri \<noteq> r"
  shows "root_rank (dispatch_one ri i q) r < root_rank q r"
proof -
  obtain e where e: "sq_entries q (sq_waiting q ! i) = Some e" by (rule dispatch_one_entry [OF inv c])
  note fields = dispatch_one_fields [OF inv c e]
  note d = sq_invD [OF inv]
  from r obtain k where k: "k \<in> set (sq_waiting q)" "summary_runnable q r k"
    unfolding runnable_position_def position_None_iff by blast
  then have "r \<in> set (sq_waiting_roots q)"
    using d(6) [of r] by (auto simp: has_root_def summary_runnable_def split: option.splits)
  then obtain rj where rj: "rj < length (sq_waiting_roots q)" "sq_waiting_roots q ! rj = r"
    by (auto simp: in_set_conv_nth)
  have pos: "position (\<lambda>x. x = r) (sq_waiting_roots q) = Some rj"
    using position_eq_nth [OF d(4) rj(1)] rj(2) by simp
  have ri: "ri < length (sq_waiting_roots q)" "ri \<noteq> rj" using dispatch_choice_sound(1) [OF c] other rj by auto
  let ?rest = "remove_at ri (sq_waiting_roots q)"
  have nth: "?rest ! (if ri < rj then rj - 1 else rj) = r" "(if ri < rj then rj - 1 else rj) < length ?rest"
    using rj ri by (auto simp: remove_at_def nth_append min_def)
  have prefix: "position (\<lambda>x. x = r) (xs @ ys) = position (\<lambda>x. x = r) xs"
    if "position (\<lambda>x. x = r) xs \<noteq> None" for xs ys
    using that by (induction xs) auto
  have "position (\<lambda>x. x = r) ?rest = Some (if ri < rj then rj - 1 else rj)"
    using position_eq_nth [OF set_remove_at(2) [OF d(4) ri(1)] nth(2)] nth(1) by simp
  then have new: "position (\<lambda>x. x = r) (sq_waiting_roots (dispatch_one ri i q)) = Some (if ri < rj then rj - 1 else rj)"
    using prefix [of ?rest] by (simp add: fields)
  have last: "sq_last_dispatched_root (dispatch_one ri i q) \<noteq> Some r" using other by (simp add: fields)
  show ?thesis
  proof (cases "sq_last_dispatched_root q = Some r")
    case True
    with new last pos show ?thesis by (auto simp: root_rank_def)
  next
    case False
    then have "ri \<le> rj" using dispatch_choice_rotates [OF c rj(1)] r rj(2) by auto
    with new last pos False ri(2) show ?thesis by (auto simp: root_rank_def)
  qed
qed


lemma root_rank_bound: "root_rank q r \<le> length (sq_waiting_roots q)"
proof (cases "position (\<lambda>x. x = r) (sq_waiting_roots q)")
  case (Some k)
  then have "k < length (sq_waiting_roots q)" using position_SomeD by fastforce
  with Some show ?thesis by (simp add: root_rank_def)
qed (simp add: root_rank_def)

lemma idle_dispatch: "work_conserving q \<Longrightarrow> sq_inv q \<Longrightarrow> summary_dispatch q = q"
proof (rule dispatch_stop, rule notI)
  assume wc: "work_conserving q" and inv: "sq_inv q"
    and a: "length (sq_active q) < sq_concurrency q \<and> dispatch_choice q \<noteq> None"
  then obtain ri i l where c: "dispatch_choice q = Some (ri, i, l)" by (cases "dispatch_choice q") auto
  obtain e where "sq_entries q (sq_waiting q ! i) = Some e" "\<not> summary_active q (se_session_id e)"
    by (rule dispatch_one_entry [OF inv c])
  moreover have "sq_waiting q ! i \<in> set (sq_waiting q)" using dispatch_choice_sound(3) [OF c] by simp
  ultimately show False using wc a by (auto simp: work_conserving_def)
qed

section \<open>Properties\<close>

text \<open>
  The queue keeps its limits in every execution: no more requests run than the concurrency, at
  most one per leaf session, no more sessions wait than allowed, and no root holds more waiting work
  than its share. The subtraction of \<open>available_permits\<close> does not underflow.
\<close>

theorem summary_queue_limits:
  assumes "summary_init c m = Some s0" and "summary_step\<^sup>*\<^sup>* s0 s" and "q = rt_queue s"
  shows "card (rt_permits s) + available_permits q \<le> sq_concurrency q \<and>
    length (sq_active q) \<le> sq_concurrency q \<and>
    ((sid, i) \<in> rt_permits s \<longrightarrow> (sid, j) \<in> rt_permits s \<longrightarrow> i = j) \<and>
    length (sq_waiting q) \<le> sq_max_pending_sessions q \<and>
    length (filter (has_root q root) (sq_waiting q)) \<le> sq_max_pending_per_root q"
proof -
  from runtime_inv_reachable [OF assms(1,2)]
  have ok: "sq_ok q" and core: "runtime_core q (rt_tickets s) (rt_parked s) (rt_permits s)"
    by (simp_all add: runtime_inv_def assms(3))
  then have inv: "sq_inv q" and lim: "sq_limits q" by (simp_all add: sq_ok_def)
  have one: "i = j" if "(sid, i) \<in> rt_permits s" "(sid, j) \<in> rt_permits s" for sid i j
    using runtime_coreD(3) [OF core that(1)] runtime_coreD(3) [OF core that(2)] by auto
  have "inj_on fst (rt_permits s)" by (rule inj_onI) (use one in \<open>auto simp: prod_eq_iff\<close>)
  moreover have "fst ` rt_permits s \<subseteq> fst ` set (sq_active q)"
  proof
    fix x assume "x \<in> fst ` rt_permits s"
    then obtain i where "(x, i) \<in> rt_permits s" by auto
    from runtime_coreD(3) [OF core this] have "map_of (sq_active q) x \<noteq> None" by auto
    then show "x \<in> fst ` set (sq_active q)" by (simp add: map_of_eq_None_iff)
  qed
  ultimately have "card (rt_permits s) \<le> card (fst ` set (sq_active q))"
    by (metis List.finite_set card_image card_mono finite_imageI)
  also have "\<dots> \<le> length (sq_active q)" by (metis card_image_le card_length List.finite_set order_trans)
  finally show ?thesis
    using sq_invD(2) [OF inv] lim one by (simp add: available_permits_def sq_limits_def)
qed

text \<open>
  C20. No wake-up and no slot is lost. In every execution, a ticket that waits for its notification
  although its work was admitted or superseded has the notification stored; a free slot leaves no
  runnable work behind; every taken slot belongs to a live ticket's reservation or to a running
  request, whose release returns it; and every queued entry belongs to a live ticket.
\<close>

theorem no_wakeup_or_slot_lost:
  assumes "summary_init c m = Some s0" and "summary_step\<^sup>*\<^sup>* s0 s" and "q = rt_queue s"
  shows "(\<forall>i \<in> rt_parked s. fst (start_poll i q) \<noteq> StillWaiting \<longrightarrow> i \<in> sq_notified q) \<and>
    (length (sq_active q) < sq_concurrency q \<longrightarrow>
      (\<forall>i \<in> set (sq_waiting q). \<forall>e. sq_entries q i = Some e \<longrightarrow> summary_active q (se_session_id e))) \<and>
    (\<forall>sid i r. map_of (sq_active q) sid = Some (i, r) \<longrightarrow>
      (i \<in> rt_tickets s \<and> (\<exists>work. fst (start_poll i q) = Admitted work sid)) \<or> (sid, i) \<in> rt_permits s) \<and>
    (\<forall>i. summary_is_queued i q \<longrightarrow> i \<in> rt_tickets s)"
proof -
  from runtime_inv_reachable [OF assms(1,2)]
  have ok: "sq_ok q" and core: "runtime_core q (rt_tickets s) (rt_parked s) (rt_permits s)"
    by (simp_all add: runtime_inv_def assms(3))
  then have inv: "sq_inv q" and wc: "work_conserving q" by (simp_all add: sq_ok_def)
  note c = runtime_coreD [OF core]
  have "i \<in> sq_notified q" if i: "i \<in> rt_parked s" "fst (start_poll i q) \<noteq> StillWaiting" for i
  proof -
    have "i \<notin> set (sq_waiting q)"
      using i(2) sq_invD(5) [OF inv, of i] by (auto simp: start_poll_def)
    with c(6) [OF i(1)] show ?thesis by blast
  qed
  moreover have "(i \<in> rt_tickets s \<and> (\<exists>work. fst (start_poll i q) = Admitted work sid)) \<or> (sid, i) \<in> rt_permits s"
    if a: "map_of (sq_active q) sid = Some (i, r)" for sid i r
  proof (cases "(sid, i) \<in> rt_permits s")
    case False
    from c(4) [OF a False] obtain e where e: "sq_entries q i = Some e" "se_reserved e" "se_session_id e = sid" by blast
    with c(1) [OF e(1)] show ?thesis by (simp add: start_poll_def)
  qed simp
  moreover have "i \<in> rt_tickets s" if "summary_is_queued i q" for i
    using that c(1) by (auto simp: summary_is_queued_def)
  ultimately show ?thesis using wc unfolding work_conserving_def by blast
qed

text \<open>
  Roots take turns. A dispatch serves the oldest runnable work of its root, and it serves a root
  again only when no other root can run. A root that can run and is passed over moves strictly
  closer to the head of the rotation, so at most as many dispatches as there are waiting roots pass
  over it.
\<close>

theorem roots_take_turns:
  assumes "sq_inv q" and "dispatch_choice q = Some (ri, i, l)" and "runnable_position q r \<noteq> None"
    and "served = sq_waiting_roots q ! ri" and "r \<noteq> served"
  shows "summary_runnable q served (sq_waiting q ! i) \<and>
    (\<forall>k < i. \<not> summary_runnable q served (sq_waiting q ! k)) \<and>
    sq_last_dispatched_root (dispatch_one ri i q) = Some served \<and>
    (sq_last_dispatched_root q = Some served \<longrightarrow> sq_last_dispatched_root q = Some r) \<and>
    root_rank (dispatch_one ri i q) r < root_rank q r \<and>
    root_rank q r \<le> length (sq_waiting_roots q)"
proof -
  note inv = assms(1) and c = assms(2)
  note p = position_SomeD [OF dispatch_choice_sound(2) [OF c, unfolded runnable_position_def]]
  obtain e where e: "sq_entries q (sq_waiting q ! i) = Some e" by (rule dispatch_one_entry [OF inv c])
  have "sq_last_dispatched_root q = Some r" if last: "sq_last_dispatched_root q = Some served"
  proof -
    from assms(3) obtain k where k: "k \<in> set (sq_waiting q)" "summary_runnable q r k"
      unfolding runnable_position_def position_None_iff by blast
    then have "r \<in> set (sq_waiting_roots q)"
      using sq_invD(6) [OF inv, of r] by (auto simp: has_root_def summary_runnable_def split: option.splits)
    then obtain rj where rj: "rj < length (sq_waiting_roots q)" "sq_waiting_roots q ! rj = r"
      by (auto simp: in_set_conv_nth)
    with dispatch_choice_rotates [OF c rj(1)] assms(3-5) last show ?thesis by auto
  qed
  moreover have "root_rank (dispatch_one ri i q) r < root_rank q r"
    using root_rank_dispatch_one [OF inv c assms(3)] assms(4,5) by simp
  ultimately show ?thesis
    using p root_rank_bound [of q r] dispatch_one_fields(5) [OF inv c e] assms(4) by simp
qed

text \<open>
  A new snapshot of a session replaces the one that waits, in its place. The submission is never
  refused; the new entry keeps the admitted root whatever root the caller names, the reservation and
  the position in the queue; the old ticket is gone and notified; nothing else moves.
\<close>

theorem submission_coalesces:
  assumes "summary_init c m = Some s0" and "summary_step\<^sup>*\<^sup>* s0 s" and "q = rt_queue s"
    and "sq_pending_by_session q sid = Some p" and "sq_entries q p = Some e"
    and "sq_next_id q < u64_max" and "submit_for root sid work q = (r, q')" and "i = sq_next_id q"
  shows "r = Submitted i \<and>
    sq_entries q' i = Some (e\<lparr>se_work := work\<rparr>) \<and> sq_entries q' p = None \<and> p \<in> sq_notified q' \<and>
    sq_pending_by_session q' sid = Some i \<and>
    sq_waiting q' = map (\<lambda>j. if j = p then i else j) (sq_waiting q) \<and>
    sq_waiting_roots q' = sq_waiting_roots q \<and>
    sq_active q' = (if se_reserved e then kv_put sid (i, se_root_session_id e) (sq_active q) else sq_active q)"
proof -
  have ok: "sq_ok q" using runtime_inv_reachable [OF assms(1,2)] by (simp add: runtime_inv_def assms(3))
  then have inv: "sq_inv q" and wc: "work_conserving q" by (simp_all add: sq_ok_def)
  note d = sq_invD [OF inv]
  have e: "se_session_id e = sid" using d(7) [of sid p] assms(4,5) by auto
  note root = submit_root_pending [OF inv assms(4,5), of root]
  have "r = Submitted i"
    using assms(4,6,7,8) by (auto simp: submit_for_eq [OF inv] submit_refused_def Let_def)
  from submit_result [OF inv assms(7) [unfolded this]] obtain N where
    q': "q' = summary_dispatch ((submit_prepared (submit_root q root sid) sid work q)\<lparr>sq_notified := N\<rparr>)" and N: "p \<in> N"
    using assms(4) by auto
  let ?q2 = "submit_prepared (se_root_session_id e) sid work q"
  have pi: "p < i" using d(9) [OF assms(5)] assms(8) by simp
  have fresh: "i \<notin> set (sq_waiting q)"
    using d(5) [of i] d(9) [of i] assms(8) by auto
  have waiting: "sq_waiting ?q2 = map (\<lambda>j. if j = p then i else j) (sq_waiting q)"
  proof (cases "se_reserved e")
    case True
    then have "p \<notin> set (sq_waiting q)" using d(5) [of p] assms(5) by auto
    then have "map (\<lambda>j. if j = p then i else j) (sq_waiting q) = sq_waiting q" by (intro map_idI) auto
    with True assms(4,5) show ?thesis by (simp add: submit_prepared_def Let_def)
  next
    case False
    then have "p \<in> set (sq_waiting q)" using d(5) [of p] assms(5) by auto
    from replace_waiting_split [OF d(3) this, of i] obtain as bs where
      w: "sq_waiting q = as @ p # bs" "replace_waiting p i (sq_waiting q) = as @ i # bs" by blast
    have "p \<notin> set as" "p \<notin> set bs" using d(3) by (auto simp: w(1))
    then have "map (\<lambda>j. if j = p then i else j) as = as" "map (\<lambda>j. if j = p then i else j) bs = bs"
      by (auto intro!: map_idI)
    with False assms(4,5,8) w show ?thesis by (simp add: submit_prepared_def Let_def)
  qed
  have act: "sq_active ?q2 = (if se_reserved e then kv_put sid (i, se_root_session_id e) (sq_active q) else sq_active q)"
    using assms(4,5,8) by (simp add: submit_prepared_def Let_def)
  have entries: "sq_entries ?q2 = (sq_entries q)(p := None, i \<mapsto> e\<lparr>se_work := work\<rparr>)"
    using assms(4,5,8) e by (cases e) (auto simp: submit_prepared_def Let_def)
  have frame: "sq_concurrency ?q2 = sq_concurrency q" "sq_waiting_roots ?q2 = sq_waiting_roots q"
    "sq_pending_by_session ?q2 = (sq_pending_by_session q)(sid \<mapsto> i)"
    using assms(4,5,8) by (simp_all add: submit_prepared_def Let_def)
  have len: "length (sq_active ?q2) = length (sq_active q)"
    and dom: "map_of (sq_active ?q2) x = None \<longleftrightarrow> map_of (sq_active q) x = None" for x
    using d(8) [OF assms(5)] e by (auto simp: act kv_length_put map_of_eq_None_iff [symmetric])
  have "work_conserving ?q2"
    using wc assms(5) fresh pi by (auto simp: work_conserving_def summary_active_def len dom entries waiting frame)
  then have "work_conserving (?q2\<lparr>sq_notified := N\<rparr>)" by (simp add: work_conserving_def)
  moreover have "sq_inv (?q2\<lparr>sq_notified := N\<rparr>)"
    using submit_prepared_inv [OF inv, of root sid work] unfolding root by (simp add: sq_inv_def)
  ultimately have "q' = ?q2\<lparr>sq_notified := N\<rparr>" using q' idle_dispatch unfolding root by metis
  with \<open>r = Submitted i\<close> N pi show ?thesis by (simp add: entries waiting act frame)
qed


section \<open>An execution\<close>

definition example_entry :: "string \<Rightarrow> string \<Rightarrow> bool \<Rightarrow> nat summary_entry" where
  "example_entry root sid reserved =
     \<lparr>se_root_session_id = root, se_session_id = sid, se_work = 0, se_reserved = reserved\<rparr>"

definition example0 :: "nat summary_queue" where
  "example0 =
     \<lparr>sq_concurrency = 1, sq_max_pending_sessions = 8, sq_max_pending_per_root = 2, sq_next_id = 0,
      sq_entries = (\<lambda>_. None), sq_waiting = [], sq_waiting_roots = [],
      sq_last_dispatched_root = None, sq_pending_by_session = (\<lambda>_. None), sq_active = [],
      sq_notified = {}\<rparr>"

definition example1 :: "nat summary_queue" where
  "example1 = example0
     \<lparr>sq_next_id := 1, sq_entries := [0 \<mapsto> example_entry ''r'' ''a'' True],
      sq_last_dispatched_root := Some ''r'', sq_pending_by_session := [''a'' \<mapsto> 0],
      sq_active := [(''a'', 0, ''r'')], sq_notified := {0}\<rparr>"

definition example2 :: "nat summary_queue" where
  "example2 = example1
     \<lparr>sq_next_id := 2,
      sq_entries := [0 \<mapsto> example_entry ''r'' ''a'' True, 1 \<mapsto> example_entry ''r'' ''b'' False],
      sq_pending_by_session := [''a'' \<mapsto> 0, ''b'' \<mapsto> 1], sq_waiting := [1], sq_waiting_roots := [''r'']\<rparr>"

definition example3 :: "nat summary_queue" where
  "example3 = example2
     \<lparr>sq_next_id := 3,
      sq_entries := [0 \<mapsto> example_entry ''r'' ''a'' True, 1 \<mapsto> example_entry ''r'' ''b'' False,
        2 \<mapsto> example_entry ''x'' ''c'' False],
      sq_pending_by_session := [''a'' \<mapsto> 0, ''b'' \<mapsto> 1, ''c'' \<mapsto> 2],
      sq_waiting := [1, 2], sq_waiting_roots := [''r'', ''x'']\<rparr>"

lemmas example_defs = example_entry_def example0_def example1_def example2_def example3_def
lemmas submit_eval = submit_for_def submit_root_def Let_def summary_active_def has_root_def u64_max_def
  summary_dispatch.simps dispatch_choice_def dispatch_candidates_def List.map_filter_simps runnable_position_def
  summary_runnable_def dispatch_one_def remove_at_def summary_notify_def enumerate_Suc_eq

lemma example_new: "summary_queue_new 1 8 = Some example0"
  by (simp add: summary_queue_new_def example0_def div_ceil_def)

lemma example_submit1: "submit_for ''r'' ''a'' 0 example0 = (Submitted 0, example1)"
  by (simp add: submit_eval example_defs)

lemma example_submit2: "submit_for ''r'' ''b'' 0 example1 = (Submitted 1, example2)"
  by (simp add: submit_eval example_defs)

lemma example_submit3: "submit_for ''x'' ''c'' 0 example2 = (Submitted 2, example3)"
  by (simp add: submit_eval example_defs)


definition example_runtime :: "nat summary_queue \<Rightarrow> nat set \<Rightarrow> nat summary_runtime" where
  "example_runtime q T = \<lparr>rt_queue = q, rt_tickets = T, rt_parked = {}, rt_permits = {}\<rparr>"

lemma example_init: "summary_init 1 8 = Some (example_runtime example0 {})"
  unfolding summary_init_def example_new by (simp add: example_runtime_def)

lemma example_reachable: "summary_step\<^sup>*\<^sup>* (example_runtime example0 {}) (example_runtime example3 {0, 1, 2})"
proof -
  have "summary_step (example_runtime example0 {}) (example_runtime example1 {0})"
    using step_submit [of "''r''" "''a''" 0 "example_runtime example0 {}"] example_submit1
    by (simp add: example_runtime_def)
  moreover have "summary_step (example_runtime example1 {0}) (example_runtime example2 {0, 1})"
    using step_submit [of "''r''" "''b''" 0 "example_runtime example1 {0}"] example_submit2
    by (simp add: example_runtime_def insert_commute)
  moreover have "summary_step (example_runtime example2 {0, 1}) (example_runtime example3 {0, 1, 2})"
    using step_submit [of "''x''" "''c''" 0 "example_runtime example2 {0, 1}"] example_submit3
    by (simp add: example_runtime_def insert_commute)
  ultimately show ?thesis by (intro rtranclp.rtrancl_into_rtrancl [OF rtranclp.rtrancl_into_rtrancl [OF r_into_rtranclp]])
qed

lemma example_inv: "sq_inv example3"
  using runtime_inv_reachable [OF example_init example_reachable]
  by (simp add: runtime_inv_def sq_ok_def example_runtime_def)

lemma summary_queue_limits_witness: "available_permits example3 \<le> 1 \<and> length (sq_waiting example3) \<le> 8"
  using summary_queue_limits [OF example_init example_reachable refl]
  by (simp add: example_runtime_def example_defs)

lemma no_wakeup_or_slot_lost_witness: "\<exists>work. fst (start_poll 0 example3) = Admitted work ''a''"
proof -
  have "map_of (sq_active example3) ''a'' = Some (0, ''r'')" by (simp add: example_defs)
  then show ?thesis
    using no_wakeup_or_slot_lost [OF example_init example_reachable refl]
    by (simp add: example_runtime_def)
qed

lemma roots_take_turns_witness:
  "root_rank (dispatch_one 1 1 example3) ''r'' < root_rank example3 ''r''"
proof -
  have "dispatch_choice example3 = Some (1, 1, False)" "runnable_position example3 ''r'' \<noteq> None"
    "sq_waiting_roots example3 ! 1 = ''x''"
    by (simp_all add: submit_eval example_defs)
  with roots_take_turns [OF example_inv this(1,2) refl] show ?thesis by simp
qed

lemma submission_coalesces_witness:
  "sq_waiting (snd (submit_for ''other'' ''b'' 7 example3)) = [3, 2]"
proof -
  have e: "sq_pending_by_session example3 ''b'' = Some 1"
    "sq_entries example3 1 = Some (example_entry ''r'' ''b'' False)"
    "sq_next_id example3 < u64_max" "sq_next_id example3 = 3" "sq_waiting example3 = [1, 2]"
    by (simp_all add: example_defs u64_max_def)
  have q: "rt_queue (example_runtime example3 {0, 1, 2}) = example3" by (simp add: example_runtime_def)
  obtain r q' where s: "submit_for ''other'' ''b'' 7 example3 = (r, q')" by fastforce
  from submission_coalesces [OF example_init example_reachable q [symmetric] e(1-3) s refl]
  show ?thesis by (simp add: s e)
qed

end
