(* ===== verification/Permission_Policy.thy ===== *)
theory Permission_Policy
  imports Json
begin

text \<open>
  The permission policy of tool calls: \<open>product-domains/src/tool_permissions.rs\<close> (rules, presets,
  modes, layers, the delegation ceiling, wildcards, the evaluator) and the planning of tool intents
  in \<open>agent-runtime/src/permission.rs\<close>.

  \<open>str::to_lowercase\<close> of the case-insensitive platforms is the parameter \<open>lower\<close>. A \<open>char\<close> of the
  code is one UTF-8 sequence of \<open>utf8_chars\<close>.
\<close>

section \<open>Rules\<close>

datatype permission_effect = Allow | Ask | Deny

definition most_restrictive :: "permission_effect \<Rightarrow> permission_effect \<Rightarrow> permission_effect" where
  "most_restrictive a b =
     (if a = Deny \<or> b = Deny then Deny else if a = Ask \<or> b = Ask then Ask else Allow)"

record permission_rule =
  pr_action :: string
  pr_resource :: string
  pr_effect :: permission_effect

definition permission_rule_new :: "string \<Rightarrow> string \<Rightarrow> permission_effect \<Rightarrow> permission_rule" where
  "permission_rule_new a r e = \<lparr>pr_action = a, pr_resource = r, pr_effect = e\<rparr>"

type_synonym permission_ruleset = "permission_rule list"

text \<open>A \<open>PermissionConstraintLayer\<close> is its rules.\<close>

type_synonym permission_constraint_layer = permission_ruleset

record resolved_permission_policy =
  rp_rules :: permission_ruleset
  rp_constraint_layers :: "permission_constraint_layer list"

record ceiling_validation_error =
  cv_rule_index :: nat
  cv_action :: string
  cv_resource :: string

definition ceiling_try_new :: "permission_ruleset \<Rightarrow> ceiling_validation_error + permission_ruleset" where
  "ceiling_try_new rules =
     (case find (\<lambda>(i, r). pr_effect r = Allow) (enumerate 0 rules) of
        Some (i, r) \<Rightarrow> Inl \<lparr>cv_rule_index = i, cv_action = pr_action r, cv_resource = pr_resource r\<rparr>
      | None \<Rightarrow> Inr rules)"

section \<open>Presets and modes\<close>

datatype permission_policy_preset = PresetAsk | PresetFullAccess

definition baseline_rules :: "permission_policy_preset \<Rightarrow> permission_ruleset" where
  "baseline_rules p =
     (case p of
        PresetAsk \<Rightarrow>
          [permission_rule_new ''*'' ''*'' Ask,
           permission_rule_new ''read'' ''*'' Allow,
           permission_rule_new ''read'' ''*/.env'' Ask,
           permission_rule_new ''read'' ''*/.env.*'' Ask,
           permission_rule_new ''read'' ''*/.env.example'' Allow,
           permission_rule_new ''websearch'' ''*'' Allow,
           permission_rule_new ''webfetch'' ''*'' Allow,
           permission_rule_new ''task'' ''*'' Allow,
           permission_rule_new ''skill'' ''*'' Allow,
           permission_rule_new ''git'' ''git status *'' Allow,
           permission_rule_new ''git'' ''git diff *'' Allow,
           permission_rule_new ''git'' ''git log *'' Allow,
           permission_rule_new ''git'' ''git show *'' Allow,
           permission_rule_new ''git'' ''git blame *'' Allow,
           permission_rule_new ''git'' ''git rev-parse *'' Allow,
           permission_rule_new ''git'' ''git describe *'' Allow,
           permission_rule_new ''git'' ''git shortlog *'' Allow,
           permission_rule_new ''git'' ''git branch'' Allow]
      | PresetFullAccess \<Rightarrow> [permission_rule_new ''*'' ''*'' Allow])"

record permission_policy_config =
  pc_preset :: permission_policy_preset
  pc_rules :: permission_ruleset

record tool_permission_config =
  tc_policy :: permission_policy_config
  tc_auto_approve_ask :: bool

datatype permission_mode = ModeAsk | ModeAutoApprove | ModeFullAccess

definition mode_preset :: "permission_mode \<Rightarrow> permission_policy_preset" where
  "mode_preset m =
     (case m of ModeAsk \<Rightarrow> PresetAsk | ModeAutoApprove \<Rightarrow> PresetAsk | ModeFullAccess \<Rightarrow> PresetFullAccess)"

definition mode_auto_approve_ask :: "permission_mode \<Rightarrow> bool" where
  "mode_auto_approve_ask m \<longleftrightarrow> m = ModeAutoApprove"

definition mode_as_str :: "permission_mode \<Rightarrow> string" where
  "mode_as_str m =
     (case m of
        ModeAsk \<Rightarrow> ''ask''
      | ModeAutoApprove \<Rightarrow> ''auto_approve''
      | ModeFullAccess \<Rightarrow> ''full_access'')"

definition ascii_lower :: "char \<Rightarrow> char" where
  "ascii_lower c =
     (if (65::nat) \<le> of_char c \<and> of_char c \<le> (90::nat) then char_of (of_char c + (32::nat)) else c)"

definition mode_parse :: "string \<Rightarrow> permission_mode option" where
  "mode_parse v =
     (let s = map ascii_lower (trim v)
      in if s = ''ask'' then Some ModeAsk
         else if s \<in> {''auto'', ''auto_approve'', ''autoapprove''} then Some ModeAutoApprove
         else if s \<in> {''full_access'', ''fullaccess'', ''full''} then Some ModeFullAccess
         else None)"

definition mode_from_config :: "tool_permission_config \<Rightarrow> permission_mode" where
  "mode_from_config c =
     (case pc_preset (tc_policy c) of
        PresetFullAccess \<Rightarrow> ModeFullAccess
      | PresetAsk \<Rightarrow> if tc_auto_approve_ask c then ModeAutoApprove else ModeAsk)"

definition deserialize_optional_permission_mode :: "json option \<Rightarrow> permission_mode option" where
  "deserialize_optional_permission_mode v = Option.bind (Option.bind v json_as_str) mode_parse"

datatype permission_mode_source = SourceGlobalDefault | SourceProject | SourceSession | SourceTurn

record permission_mode_layers =
  ml_global_default :: permission_mode
  ml_project :: "permission_mode option"
  ml_session :: "permission_mode option"
  ml_turn :: "permission_mode option"

definition mode_layers_new :: "permission_mode \<Rightarrow> permission_mode_layers" where
  "mode_layers_new g = \<lparr>ml_global_default = g, ml_project = None, ml_session = None, ml_turn = None\<rparr>"

definition with_session :: "permission_mode option \<Rightarrow> permission_mode_layers \<Rightarrow> permission_mode_layers" where
  "with_session m l = l\<lparr>ml_session := m\<rparr>"

definition with_turn :: "permission_mode option \<Rightarrow> permission_mode_layers \<Rightarrow> permission_mode_layers" where
  "with_turn m l = l\<lparr>ml_turn := m\<rparr>"

definition resolve_permission_mode :: "permission_mode_layers \<Rightarrow> permission_mode \<times> permission_mode_source" where
  "resolve_permission_mode l =
     (case ml_turn l of
        Some m \<Rightarrow> (m, SourceTurn)
      | None \<Rightarrow>
          (case ml_session l of
             Some m \<Rightarrow> (m, SourceSession)
           | None \<Rightarrow>
               (case ml_project l of
                  Some m \<Rightarrow> (m, SourceProject)
                | None \<Rightarrow> (ml_global_default l, SourceGlobalDefault))))"

section \<open>Resolution\<close>

definition effective_preset :: "permission_mode option \<Rightarrow> permission_policy_config \<Rightarrow> permission_policy_preset" where
  "effective_preset m g = (case m of None \<Rightarrow> pc_preset g | Some m \<Rightarrow> mode_preset m)"

definition merge_permission_rule_layers :: "permission_ruleset list \<Rightarrow> permission_ruleset" where
  "merge_permission_rule_layers layers = fold (\<lambda>layer merged. merged @ layer) layers []"

record permission_policy_layers =
  pl_product_defaults :: permission_ruleset
  pl_global :: permission_policy_config
  pl_mode :: "permission_mode option"
  pl_project :: permission_ruleset
  pl_agent :: permission_ruleset
  pl_enforced :: permission_ruleset

record child_permission_policy_layers = permission_policy_layers +
  pl_parent_runtime_ceiling :: permission_ruleset

definition resolve_permission_policy :: "'z permission_policy_layers_scheme \<Rightarrow> resolved_permission_policy" where
  "resolve_permission_policy l =
     (let baseline = baseline_rules (effective_preset (pl_mode l) (pl_global l))
      in \<lparr>rp_rules = merge_permission_rule_layers
            [pl_product_defaults l, baseline, pc_rules (pl_global l), pl_project l, pl_agent l,
             pl_enforced l],
          rp_constraint_layers = []\<rparr>)"

definition resolve_child_permission_policy :: "child_permission_policy_layers \<Rightarrow> resolved_permission_policy" where
  "resolve_child_permission_policy l =
     (let baseline = baseline_rules (effective_preset (pl_mode l) (pl_global l))
      in \<lparr>rp_rules = merge_permission_rule_layers
            [pl_product_defaults l, baseline, pc_rules (pl_global l), pl_project l, pl_agent l,
             pl_enforced l],
          rp_constraint_layers = [pl_parent_runtime_ceiling l]\<rparr>)"

section \<open>Wildcards\<close>

datatype case_sensitivity = Sensitive | Insensitive

definition normalize_wildcard_value :: "(string \<Rightarrow> string) \<Rightarrow> string \<Rightarrow> case_sensitivity \<Rightarrow> string" where
  "normalize_wildcard_value lower v cs =
     (let normalized = map (\<lambda>c. if c = CHR 0x5C then CHR ''/'' else c) v
      in case cs of Sensitive \<Rightarrow> normalized | Insensitive \<Rightarrow> lower normalized)"

text \<open>
  One pattern character of the dynamic program: the row \<open>previous\<close> says for every prefix of the
  input whether the pattern so far matches it.
\<close>

fun glob_cells :: "string \<Rightarrow> bool \<Rightarrow> bool list \<Rightarrow> string list \<Rightarrow> bool list" where
  "glob_cells pc left (p0 # p1 # ps) (c # cs) =
     (let cell = (if pc = ''*'' then p1 \<or> left else if pc = ''?'' then p0 else p0 \<and> pc = c)
      in cell # glob_cells pc cell (p1 # ps) cs)"
| "glob_cells pc left _ _ = []"

definition glob_row :: "string list \<Rightarrow> string \<Rightarrow> bool list \<Rightarrow> bool list" where
  "glob_row input pc previous =
     (let first = (pc = ''*'' \<and> previous ! 0) in first # glob_cells pc first previous input)"

definition glob_matches :: "string \<Rightarrow> string \<Rightarrow> bool" where
  "glob_matches input pattern =
     (let cs = utf8_chars input
      in fold (glob_row cs) (utf8_chars pattern) (True # replicate (length cs) False) ! length cs)"

definition strip_suffix :: "string \<Rightarrow> string \<Rightarrow> string option" where
  "strip_suffix suf s =
     (if length suf \<le> length s \<and> drop (length s - length suf) s = suf
      then Some (take (length s - length suf) s) else None)"

definition wildcard_matches :: "(string \<Rightarrow> string) \<Rightarrow> string \<Rightarrow> string \<Rightarrow> case_sensitivity \<Rightarrow> bool" where
  "wildcard_matches lower input pattern cs =
     (let i = normalize_wildcard_value lower input cs;
          p = normalize_wildcard_value lower pattern cs
      in if (case strip_suffix '' *'' p of Some pre \<Rightarrow> i = pre | None \<Rightarrow> False) then True
         else glob_matches i p)"

section \<open>Evaluation\<close>

definition rule_matches ::
  "(string \<Rightarrow> string) \<Rightarrow> case_sensitivity \<Rightarrow> string \<Rightarrow> string \<Rightarrow> permission_rule \<Rightarrow> bool" where
  "rule_matches lower cs action resource r \<longleftrightarrow>
     wildcard_matches lower action (pr_action r) Sensitive \<and>
     wildcard_matches lower resource (pr_resource r) cs"

definition last_effect :: "permission_effect \<Rightarrow> (permission_rule \<Rightarrow> bool) \<Rightarrow> permission_ruleset \<Rightarrow> permission_effect" where
  "last_effect d P rules =
     (case find P (rev rules) of Some r \<Rightarrow> pr_effect r | None \<Rightarrow> d)"

definition evaluate_resource ::
  "(string \<Rightarrow> string) \<Rightarrow> case_sensitivity \<Rightarrow> string \<Rightarrow> string \<Rightarrow> permission_ruleset \<Rightarrow> permission_effect" where
  "evaluate_resource lower cs action resource rules =
     last_effect Ask (rule_matches lower cs action resource) rules"

definition evaluate_constraint_resource ::
  "(string \<Rightarrow> string) \<Rightarrow> case_sensitivity \<Rightarrow> string \<Rightarrow> string \<Rightarrow> permission_constraint_layer \<Rightarrow> permission_effect" where
  "evaluate_constraint_resource lower cs action resource layer =
     last_effect Allow (rule_matches lower cs action resource) layer"

definition constrain ::
  "(string \<Rightarrow> string) \<Rightarrow> case_sensitivity \<Rightarrow> string \<Rightarrow> string \<Rightarrow> permission_constraint_layer list
   \<Rightarrow> permission_effect \<Rightarrow> permission_effect" where
  "constrain lower cs action resource layers e =
     fold (\<lambda>layer e. most_restrictive e (evaluate_constraint_resource lower cs action resource layer)) layers e"

definition evaluate_policy_resource ::
  "(string \<Rightarrow> string) \<Rightarrow> case_sensitivity \<Rightarrow> string \<Rightarrow> string \<Rightarrow> resolved_permission_policy \<Rightarrow> permission_effect" where
  "evaluate_policy_resource lower cs action resource p =
     constrain lower cs action resource (rp_constraint_layers p)
       (evaluate_resource lower cs action resource (rp_rules p))"

fun evaluate_loop :: "(string \<Rightarrow> permission_effect) \<Rightarrow> permission_effect \<Rightarrow> string list \<Rightarrow> permission_effect" where
  "evaluate_loop f aggregate [] = aggregate"
| "evaluate_loop f aggregate (r # rs) =
     (case f r of
        Deny \<Rightarrow> Deny
      | Ask \<Rightarrow> evaluate_loop f Ask rs
      | Allow \<Rightarrow> evaluate_loop f aggregate rs)"

definition evaluate_resources ::
  "(string \<Rightarrow> string) \<Rightarrow> case_sensitivity \<Rightarrow> string \<Rightarrow> string list \<Rightarrow> permission_ruleset \<Rightarrow> permission_effect" where
  "evaluate_resources lower cs action resources rules =
     (if resources = [] then Ask
      else evaluate_loop (\<lambda>r. evaluate_resource lower cs action r rules) Allow resources)"

section \<open>Planning tool intents\<close>

record permission_grant =
  pg_project_id :: string
  pg_action :: string
  pg_resource :: string
  pg_created_at_ms :: int

record permission_intent =
  pi_action :: string
  pi_resources :: "string list"
  pi_save_resources :: "string list"
  pi_display_metadata :: json_map

definition permission_intent_new :: "string \<Rightarrow> string list \<Rightarrow> permission_intent" where
  "permission_intent_new a rs =
     \<lparr>pi_action = a, pi_resources = rs, pi_save_resources = rs, pi_display_metadata = []\<rparr>"

definition bash_rule_matches ::
  "(string \<Rightarrow> string) \<Rightarrow> case_sensitivity \<Rightarrow> string \<Rightarrow> string \<Rightarrow> permission_rule \<Rightarrow> bool" where
  "bash_rule_matches lower cs action resource r \<longleftrightarrow>
     wildcard_matches lower action (pr_action r) Sensitive \<and>
     (if pr_effect r = Allow
      then pr_resource r = resource \<or> (pr_action r = ''*'' \<and> pr_resource r = ''*'')
      else wildcard_matches lower resource (pr_resource r) cs)"

definition configured_effect ::
  "(string \<Rightarrow> string) \<Rightarrow> case_sensitivity \<Rightarrow> resolved_permission_policy \<Rightarrow> string \<Rightarrow> string \<Rightarrow> permission_effect" where
  "configured_effect lower cs p action resource =
     constrain lower cs action resource (rp_constraint_layers p)
       (if action = ''bash'' then last_effect Ask (bash_rule_matches lower cs action resource) (rp_rules p)
        else evaluate_resource lower cs action resource (rp_rules p))"

definition remembered ::
  "(string \<Rightarrow> string) \<Rightarrow> case_sensitivity \<Rightarrow> permission_grant list \<Rightarrow> string \<Rightarrow> string \<Rightarrow> bool" where
  "remembered lower cs grants action resource \<longleftrightarrow>
     (\<exists>g \<in> set grants.
        if action = ''bash'' then pg_action g = action \<and> pg_resource g = resource
        else wildcard_matches lower action (pg_action g) Sensitive \<and>
             wildcard_matches lower resource (pg_resource g) cs)"

definition requires_fresh_approval :: "permission_intent \<Rightarrow> bool" where
  "requires_fresh_approval i \<longleftrightarrow>
     Option.bind (map_of (pi_display_metadata i) ''requiresFreshApproval'') json_as_bool = Some True"

definition permission_intent_effect ::
  "(string \<Rightarrow> string) \<Rightarrow> permission_intent \<Rightarrow> resolved_permission_policy \<Rightarrow> permission_grant list
   \<Rightarrow> case_sensitivity \<Rightarrow> permission_effect" where
  "permission_intent_effect lower i p grants cs =
     (let aggregate = evaluate_loop
            (\<lambda>r. case configured_effect lower cs p (pi_action i) r of
                    Deny \<Rightarrow> Deny
                  | Allow \<Rightarrow> Allow
                  | Ask \<Rightarrow> if remembered lower cs grants (pi_action i) r then Allow else Ask)
            Allow (pi_resources i);
          effect = (if pi_resources i = [] then Ask else aggregate)
      in if effect \<noteq> Deny \<and> requires_fresh_approval i then Ask else effect)"

datatype permission_intent_plan =
    Allowed
  | Denied permission_intent
  | RequiresApproval "permission_intent list"

fun plan_loop ::
  "(permission_intent \<Rightarrow> permission_effect) \<Rightarrow> permission_intent list \<Rightarrow> permission_intent list
   \<Rightarrow> permission_intent_plan" where
  "plan_loop f approvals [] = (if approvals = [] then Allowed else RequiresApproval approvals)"
| "plan_loop f approvals (i # is) =
     (case f i of
        Allow \<Rightarrow> plan_loop f approvals is
      | Ask \<Rightarrow> plan_loop f (approvals @ [i]) is
      | Deny \<Rightarrow> Denied i)"

definition plan_permission_intents ::
  "(string \<Rightarrow> string) \<Rightarrow> permission_intent list \<Rightarrow> resolved_permission_policy \<Rightarrow> permission_grant list
   \<Rightarrow> case_sensitivity \<Rightarrow> permission_intent_plan" where
  "plan_permission_intents lower is p grants cs =
     plan_loop (\<lambda>i. permission_intent_effect lower i p grants cs) [] is"


section \<open>Effects are ordered by restriction\<close>

definition effect_rank :: "permission_effect \<Rightarrow> nat" where
  "effect_rank e = (case e of Allow \<Rightarrow> 0 | Ask \<Rightarrow> 1 | Deny \<Rightarrow> 2)"

instantiation permission_effect :: linorder
begin

definition less_eq_permission_effect :: "permission_effect \<Rightarrow> permission_effect \<Rightarrow> bool" where
  "less_eq_permission_effect a b \<longleftrightarrow> effect_rank a \<le> effect_rank b"

definition less_permission_effect :: "permission_effect \<Rightarrow> permission_effect \<Rightarrow> bool" where
  "less_permission_effect a b \<longleftrightarrow> effect_rank a < effect_rank b"

instance
  by standard
    (auto simp: less_eq_permission_effect_def less_permission_effect_def effect_rank_def
      split: permission_effect.splits)

end

lemma effect_order [simp]:
  "Allow \<le> e" "e \<le> Deny" "Ask \<le> e \<longleftrightarrow> e \<noteq> Allow" "e \<le> Ask \<longleftrightarrow> e \<noteq> Deny"
  "Deny \<le> e \<longleftrightarrow> e = Deny" "e \<le> Allow \<longleftrightarrow> e = Allow"
  by (cases e; simp add: less_eq_permission_effect_def effect_rank_def)+

lemma most_restrictive_max: "most_restrictive a b = max a b"
  by (cases a; cases b; simp add: most_restrictive_def max_def)

lemma max_effect [simp]:
  "max Allow e = e" "max e Allow = e" "max Deny e = Deny" "max e Deny = Deny" "max e e = (e :: permission_effect)"
  by (simp_all add: max_def)

lemma constrain_max:
  "constrain lower cs a r layers e =
     fold max (map (evaluate_constraint_resource lower cs a r) layers) e"
  unfolding constrain_def by (induction layers arbitrary: e) (simp_all add: most_restrictive_max max.commute)

lemma constrain_ge: "e \<le> constrain lower cs a r layers e"
proof -
  have "e \<le> fold max xs e" for xs by (induction xs arbitrary: e) (auto intro: order_trans [OF max.cobounded2])
  then show ?thesis by (simp add: constrain_max)
qed

lemma last_effect_append:
  "last_effect d P (xs @ ys) = last_effect (last_effect d P xs) P ys"
proof -
  have "find P (us @ vs) = (case find P us of Some x \<Rightarrow> Some x | None \<Rightarrow> find P vs)" for us vs
    by (induction us) simp_all
  then show ?thesis by (simp add: last_effect_def split: option.split)
qed

lemma merge_layers: "merge_permission_rule_layers ls = concat ls"
proof -
  have "fold (\<lambda>layer merged. merged @ layer) ls acc = acc @ concat ls" for acc
    by (induction ls arbitrary: acc) simp_all
  then show ?thesis by (simp add: merge_permission_rule_layers_def)
qed

section \<open>The wildcard program decides the declarative match\<close>

text \<open>
  Every pattern character takes a piece of the input: a star any piece, a question mark one
  character, anything else itself.
\<close>

definition takes_piece :: "string \<Rightarrow> string list \<Rightarrow> bool" where
  "takes_piece p g \<longleftrightarrow> p = ''*'' \<or> (length g = 1 \<and> (p = ''?'' \<or> g = [p]))"

definition wild_match :: "string list \<Rightarrow> string list \<Rightarrow> bool" where
  "wild_match ps s \<longleftrightarrow> (\<exists>gs. list_all2 takes_piece ps gs \<and> concat gs = s)"

lemma wild_match_Nil: "wild_match [] s \<longleftrightarrow> s = []"
  by (auto simp: wild_match_def)

lemma wild_match_snoc: "wild_match (ps @ [p]) s \<longleftrightarrow> (\<exists>s' g. s = s' @ g \<and> wild_match ps s' \<and> takes_piece p g)"
proof
  assume "wild_match (ps @ [p]) s"
  then obtain gs where gs: "list_all2 takes_piece (ps @ [p]) gs" "concat gs = s" by (auto simp: wild_match_def)
  then obtain us g where "gs = us @ [g]" "list_all2 takes_piece ps us" "takes_piece p g"
    by (auto simp: list_all2_append1 list_all2_Cons1)
  with gs(2) show "\<exists>s' g. s = s' @ g \<and> wild_match ps s' \<and> takes_piece p g"
    by (intro exI [of _ "concat us"] exI [of _ g]) (auto simp: wild_match_def)
next
  assume "\<exists>s' g. s = s' @ g \<and> wild_match ps s' \<and> takes_piece p g"
  then obtain us g where "s = concat us @ g" "list_all2 takes_piece ps us" "takes_piece p g"
    by (auto simp: wild_match_def)
  then show "wild_match (ps @ [p]) s"
    by (auto simp: wild_match_def intro!: exI [of _ "us @ [g]"] list_all2_appendI)
qed

lemma wild_match_star: "wild_match (ps @ [''*'']) s \<longleftrightarrow> (\<exists>k \<le> length s. wild_match ps (take k s))"
proof -
  have "wild_match (ps @ [''*'']) s \<longleftrightarrow> (\<exists>s' g. s = s' @ g \<and> wild_match ps s')"
    by (simp add: wild_match_snoc takes_piece_def)
  also have "\<dots> \<longleftrightarrow> (\<exists>k \<le> length s. wild_match ps (take k s))"
    by (metis append_eq_conv_conj append_take_drop_id length_append le_add1)
  finally show ?thesis .
qed

lemma wild_match_star_snoc:
  "wild_match (ps @ [''*'']) (s @ [c]) \<longleftrightarrow> wild_match ps (s @ [c]) \<or> wild_match (ps @ [''*'']) s"
  unfolding wild_match_star by (auto simp: le_Suc_eq)

lemma wild_match_char_snoc:
  "p \<noteq> ''*'' \<Longrightarrow> wild_match (ps @ [p]) (s @ [c]) \<longleftrightarrow> wild_match ps s \<and> (p = ''?'' \<or> p = c)"
  unfolding wild_match_snoc takes_piece_def by (auto simp: length_Suc_conv)

lemma glob_cells_prefixes:
  assumes "cs = pre @ post"
  shows "glob_cells pc (wild_match (ps @ [pc]) pre)
      (map (\<lambda>i. wild_match ps (take i cs)) [length pre..<Suc (length cs)]) post =
    map (\<lambda>i. wild_match (ps @ [pc]) (take i cs)) [Suc (length pre)..<Suc (length cs)]"
  using assms
proof (induction post arbitrary: pre)
  case (Cons c post)
  let ?W = "\<lambda>i. wild_match ps (take i cs)" and ?T = "\<lambda>i. wild_match (ps @ [pc]) (take i cs)"
  let ?n = "length pre"
  have split: "[?n..<Suc (length cs)] = ?n # Suc ?n # [Suc (Suc ?n)..<Suc (length cs)]"
    "[Suc ?n..<Suc (length cs)] = Suc ?n # [Suc (Suc ?n)..<Suc (length cs)]"
    using Cons.prems by (simp_all add: upt_conv_Cons del: upt_Suc)
  have takes: "take ?n cs = pre" "take (Suc ?n) cs = pre @ [c]" using Cons.prems by simp_all
  have cell: "(if pc = ''*'' then wild_match ps (pre @ [c]) \<or> wild_match (ps @ [pc]) pre
      else if pc = ''?'' then wild_match ps pre else wild_match ps pre \<and> pc = c) =
      wild_match (ps @ [pc]) (pre @ [c])"
    using wild_match_star_snoc wild_match_char_snoc [of pc ps pre c] by auto
  have "glob_cells pc (wild_match (ps @ [pc]) (pre @ [c]))
      (map ?W [length (pre @ [c])..<Suc (length cs)]) post =
      map ?T [Suc (length (pre @ [c]))..<Suc (length cs)]"
    by (rule Cons.IH) (simp add: Cons.prems)
  then show ?case unfolding split by (simp add: takes cell split(2) Let_def del: upt_Suc)
qed simp

lemma glob_row_prefixes:
  "glob_row cs pc (map (\<lambda>i. wild_match ps (take i cs)) [0..<Suc (length cs)]) =
   map (\<lambda>i. wild_match (ps @ [pc]) (take i cs)) [0..<Suc (length cs)]"
proof -
  have first: "(pc = ''*'' \<and> wild_match ps []) = wild_match (ps @ [pc]) []"
    unfolding wild_match_snoc by (auto simp: takes_piece_def)
  have "map (\<lambda>i. wild_match (ps @ [pc]) (take i cs)) [0..<Suc (length cs)] =
      wild_match (ps @ [pc]) [] # map (\<lambda>i. wild_match (ps @ [pc]) (take i cs)) [Suc 0..<Suc (length cs)]"
    by (simp add: upt_conv_Cons del: upt_Suc)
  moreover have "map (\<lambda>i. wild_match ps (take i cs)) [0..<Suc (length cs)] ! 0 = wild_match ps []"
    by (simp add: nth_append del: upt_Suc)
  ultimately show ?thesis
    using glob_cells_prefixes [of cs "[]" cs pc ps] first
    by (simp add: glob_row_def Let_def del: upt_Suc)
qed

lemma glob_matches_wild: "glob_matches input pattern = wild_match (utf8_chars pattern) (utf8_chars input)"
proof -
  let ?cs = "utf8_chars input"
  have init: "True # replicate (length ?cs) False = map (\<lambda>i. wild_match [] (take i ?cs)) [0..<Suc (length ?cs)]"
    by (rule nth_equalityI) (auto simp: wild_match_Nil nth_Cons' simp del: upt_Suc)
  have rows: "fold (glob_row ?cs) ps (map (\<lambda>i. wild_match qs (take i ?cs)) [0..<Suc (length ?cs)]) =
      map (\<lambda>i. wild_match (qs @ ps) (take i ?cs)) [0..<Suc (length ?cs)]" for ps qs
    by (induction ps arbitrary: qs) (simp_all add: glob_row_prefixes del: upt_Suc)
  show ?thesis unfolding glob_matches_def Let_def init rows by (simp del: upt_Suc)
qed


text \<open>
  C24. The wildcard program decides the declarative match: after separators (and case, where the
  platform asks for it) are normalized, an input matches a pattern exactly if it is the pattern
  without a trailing \<open>space-star\<close>, or it splits into consecutive pieces that the pattern's characters take
  one by one.
\<close>

theorem wildcard_matches_spec:
  fixes lower :: "string \<Rightarrow> string" and input pattern :: string and cs :: case_sensitivity
  defines "i \<equiv> normalize_wildcard_value lower input cs"
    and "p \<equiv> normalize_wildcard_value lower pattern cs"
  shows "wildcard_matches lower input pattern cs \<longleftrightarrow>
    p = i @ '' *'' \<or>
    (\<exists>gs. list_all2 takes_piece (utf8_chars p) gs \<and> concat gs = utf8_chars i)"
proof -
  have strip: "strip_suffix '' *'' p = Some pre \<longleftrightarrow> p = pre @ '' *''" for pre
  proof
    assume "strip_suffix '' *'' p = Some pre"
    then have "length '' *'' \<le> length p" "drop (length p - length '' *'') p = '' *''"
      "pre = take (length p - length '' *'') p"
      unfolding strip_suffix_def by (simp_all only: split: if_splits) auto
    then show "p = pre @ '' *''" by (metis append_take_drop_id)
  qed (simp add: strip_suffix_def)
  show ?thesis
    using strip
    by (cases "strip_suffix '' *'' p")
      (auto simp: wildcard_matches_def i_def [symmetric] p_def [symmetric] glob_matches_wild wild_match_def)
qed

section \<open>Layers\<close>

lemma rules_of_child:
  "rp_rules (resolve_child_permission_policy l) = rp_rules (resolve_permission_policy l)"
  "rp_constraint_layers (resolve_child_permission_policy l) = [pl_parent_runtime_ceiling l]"
  "rp_constraint_layers (resolve_permission_policy l) = []"
  by (simp_all add: resolve_child_permission_policy_def resolve_permission_policy_def)

lemma configured_effect_child:
  "configured_effect lower cs (resolve_child_permission_policy l) action resource =
   max (configured_effect lower cs (resolve_permission_policy l) action resource)
     (evaluate_constraint_resource lower cs action resource (pl_parent_runtime_ceiling l))"
  by (simp add: configured_effect_def rules_of_child constrain_def most_restrictive_max)

text \<open>The effect of one resource after remembered grants.\<close>

definition granted_effect ::
  "(string \<Rightarrow> string) \<Rightarrow> case_sensitivity \<Rightarrow> resolved_permission_policy \<Rightarrow> permission_grant list
   \<Rightarrow> string \<Rightarrow> string \<Rightarrow> permission_effect" where
  "granted_effect lower cs p grants action r =
     (case configured_effect lower cs p action r of
        Deny \<Rightarrow> Deny
      | Allow \<Rightarrow> Allow
      | Ask \<Rightarrow> if remembered lower cs grants action r then Allow else Ask)"

lemma evaluate_loop_effect:
  "e \<noteq> Deny \<Longrightarrow> evaluate_loop f e rs = Deny \<longleftrightarrow> (\<exists>r \<in> set rs. f r = Deny)"
  "e \<noteq> Deny \<Longrightarrow> evaluate_loop f e rs = Allow \<longleftrightarrow> e = Allow \<and> (\<forall>r \<in> set rs. f r = Allow)"
proof (induction rs arbitrary: e)
  case (Cons r rs)
  {
    case 1
    then show ?case by (cases "f r") (simp_all add: Cons.IH)
  next
    case 2
    then show ?case by (cases "f r") (simp_all add: Cons.IH)
  }
qed simp_all

lemmas evaluate_loop_start = evaluate_loop_effect [of Allow, simplified]

lemma intent_effect:
  "permission_intent_effect lower i p grants cs = Deny \<longleftrightarrow>
     (\<exists>r \<in> set (pi_resources i). configured_effect lower cs p (pi_action i) r = Deny)"
  "permission_intent_effect lower i p grants cs = Allow \<longleftrightarrow>
     pi_resources i \<noteq> [] \<and> \<not> requires_fresh_approval i \<and>
     (\<forall>r \<in> set (pi_resources i).
        configured_effect lower cs p (pi_action i) r = Allow \<or>
        (configured_effect lower cs p (pi_action i) r = Ask \<and> remembered lower cs grants (pi_action i) r))"
proof -
  let ?f = "granted_effect lower cs p grants (pi_action i)"
  have f: "?f r = Deny \<longleftrightarrow> configured_effect lower cs p (pi_action i) r = Deny"
    "?f r = Allow \<longleftrightarrow> configured_effect lower cs p (pi_action i) r = Allow \<or>
      (configured_effect lower cs p (pi_action i) r = Ask \<and> remembered lower cs grants (pi_action i) r)" for r
    by (auto simp: granted_effect_def split: permission_effect.splits)
  have e: "permission_intent_effect lower i p grants cs =
      (let effect = if pi_resources i = [] then Ask else evaluate_loop ?f Allow (pi_resources i)
       in if effect \<noteq> Deny \<and> requires_fresh_approval i then Ask else effect)"
    by (simp add: permission_intent_effect_def granted_effect_def [abs_def])
  show "permission_intent_effect lower i p grants cs = Deny \<longleftrightarrow>
     (\<exists>r \<in> set (pi_resources i). configured_effect lower cs p (pi_action i) r = Deny)"
    unfolding e Let_def f(1) [symmetric] evaluate_loop_start(1) [symmetric]
    by (cases "pi_resources i = []") auto
  show "permission_intent_effect lower i p grants cs = Allow \<longleftrightarrow>
     pi_resources i \<noteq> [] \<and> \<not> requires_fresh_approval i \<and>
     (\<forall>r \<in> set (pi_resources i).
        configured_effect lower cs p (pi_action i) r = Allow \<or>
        (configured_effect lower cs p (pi_action i) r = Ask \<and> remembered lower cs grants (pi_action i) r))"
    unfolding e Let_def f(2) [symmetric] evaluate_loop_start(2) [symmetric] by auto
qed


section \<open>Tool intents\<close>

lemma constrain_Allow:
  "constrain lower cs a r layers e = Allow \<longleftrightarrow>
     e = Allow \<and> (\<forall>layer \<in> set layers. evaluate_constraint_resource lower cs a r layer = Allow)"
  unfolding constrain_def
  by (induction layers arbitrary: e) (auto simp: most_restrictive_def split: if_splits permission_effect.splits
      intro: permission_effect.exhaust)

lemma find_Some_set: "find P xs = Some x \<Longrightarrow> x \<in> set xs \<and> P x"
  by (induction xs) (auto split: if_splits)

lemma last_effect_None: "find P (rev rules) = None \<Longrightarrow> last_effect d P rules = d"
  by (simp add: last_effect_def)

lemma last_effect_default: "last_effect d P rules \<noteq> d \<Longrightarrow> last_effect d' P rules = last_effect d P rules"
  by (simp add: last_effect_def split: option.splits)

lemma last_effect_rule: "last_effect d P rules \<noteq> d \<Longrightarrow> \<exists>r \<in> set rules. P r \<and> pr_effect r = last_effect d P rules"
  using find_Some_set [of P "rev rules"] by (auto simp: last_effect_def split: option.splits)

lemma ceiling_no_allow: "ceiling_try_new rules = Inr ceiling \<longleftrightarrow> ceiling = rules \<and> (\<forall>r \<in> set rules. pr_effect r \<noteq> Allow)"
proof -
  have "find P (enumerate 0 rules) = None \<longleftrightarrow> (\<forall>r \<in> set rules. pr_effect r \<noteq> Allow)"
    if "P = (\<lambda>(i, r). pr_effect r = Allow)" for P :: "nat \<times> permission_rule \<Rightarrow> bool"
  proof -
    have "(\<forall>x \<in> set (enumerate 0 rules). \<not> P x) \<longleftrightarrow> (\<forall>i < length rules. pr_effect (rules ! i) \<noteq> Allow)"
      by (auto simp: that in_set_enumerate_eq)
    then show ?thesis
      unfolding find_None_iff all_set_conv_all_nth [of rules] by blast
  qed
  from this [OF refl] show ?thesis
    by (auto simp: ceiling_try_new_def split: option.splits)
qed

lemma intent_effect_mono:
  assumes "\<And>r. configured_effect lower cs p (pi_action i) r \<le> configured_effect lower cs q (pi_action i) r"
  shows "permission_intent_effect lower i p grants cs \<le> permission_intent_effect lower i q grants cs"
proof -
  have deny: "permission_intent_effect lower i q grants cs = Deny"
    if "permission_intent_effect lower i p grants cs = Deny"
  proof -
    from that obtain r where "r \<in> set (pi_resources i)" "configured_effect lower cs p (pi_action i) r = Deny"
      unfolding intent_effect by blast
    with assms [of r] show ?thesis unfolding intent_effect by auto
  qed
  have allow: "permission_intent_effect lower i p grants cs = Allow"
    if "permission_intent_effect lower i q grants cs = Allow"
  proof -
    have "configured_effect lower cs p (pi_action i) r = Allow \<or>
        (configured_effect lower cs p (pi_action i) r = Ask \<and> remembered lower cs grants (pi_action i) r)"
      if "configured_effect lower cs q (pi_action i) r = Allow \<or>
        (configured_effect lower cs q (pi_action i) r = Ask \<and> remembered lower cs grants (pi_action i) r)" for r
      using that assms [of r] by (cases "configured_effect lower cs p (pi_action i) r") auto
    with that show ?thesis unfolding intent_effect by blast
  qed
  show ?thesis
    using deny allow
    by (cases "permission_intent_effect lower i p grants cs"; cases "permission_intent_effect lower i q grants cs")
      simp_all
qed

text \<open>
  C21. Delegation only tightens. Under a validated ceiling, whatever the mode, the grants and the
  intent, a child's effect is at least as restrictive as under the same layers without the ceiling;
  a resource that the ceiling denies denies the intent; and a resource that a ceiling rule matches
  is never allowed silently, only by a remembered grant.
\<close>

theorem delegation_only_tightens:
  assumes "ceiling_try_new rules = Inr (pl_parent_runtime_ceiling l)"
    and "child = permission_intent_effect lower i (resolve_child_permission_policy l) grants cs"
  shows "permission_intent_effect lower i (resolve_permission_policy l) grants cs \<le> child \<and>
    (\<forall>r \<in> set (pi_resources i). \<forall>rule \<in> set rules. rule_matches lower cs (pi_action i) r rule \<longrightarrow>
       child = Allow \<longrightarrow> remembered lower cs grants (pi_action i) r) \<and>
    (\<forall>r \<in> set (pi_resources i).
       last_effect Allow (rule_matches lower cs (pi_action i) r) rules = Deny \<longrightarrow> child = Deny)"
proof -
  from assms(1) have ceiling: "pl_parent_runtime_ceiling l = rules" and strict: "\<forall>r \<in> set rules. pr_effect r \<noteq> Allow"
    by (simp_all add: ceiling_no_allow)
  note eff = configured_effect_child [of lower cs l "pi_action i", unfolded ceiling]
  have "permission_intent_effect lower i (resolve_permission_policy l) grants cs \<le> child"
    unfolding assms(2) by (rule intent_effect_mono) (simp add: eff)
  moreover have "remembered lower cs grants (pi_action i) r"
    if r: "r \<in> set (pi_resources i)" and rule: "rule \<in> set rules" "rule_matches lower cs (pi_action i) r rule"
      and a: "child = Allow" for r rule
  proof -
    let ?P = "rule_matches lower cs (pi_action i) r"
    have "find ?P (rev rules) \<noteq> None" using rule by (auto simp: find_None_iff)
    then obtain x where "find ?P (rev rules) = Some x" by blast
    with strict have "evaluate_constraint_resource lower cs (pi_action i) r rules \<noteq> Allow"
      using find_Some_set [of ?P "rev rules" x] by (auto simp: evaluate_constraint_resource_def last_effect_def)
    then have "configured_effect lower cs (resolve_child_permission_policy l) (pi_action i) r \<noteq> Allow"
      unfolding eff by (auto simp: max_def split: if_splits)
    with a r show ?thesis unfolding assms(2) intent_effect by blast
  qed
  moreover have "child = Deny"
    if "r \<in> set (pi_resources i)" "last_effect Allow (rule_matches lower cs (pi_action i) r) rules = Deny" for r
  proof -
    have "configured_effect lower cs (resolve_child_permission_policy l) (pi_action i) r = Deny"
      using that(2) by (simp add: eff evaluate_constraint_resource_def)
    with that(1) show ?thesis unfolding assms(2) intent_effect by blast
  qed
  ultimately show ?thesis by blast
qed

text \<open>A full-access session whose parent may write only after asking, and an enforced denial.\<close>

definition sample_layers :: "permission_ruleset \<Rightarrow> child_permission_policy_layers" where
  "sample_layers ceiling =
     \<lparr>pl_product_defaults = [], pl_global = \<lparr>pc_preset = PresetAsk, pc_rules = []\<rparr>,
      pl_mode = Some ModeFullAccess, pl_project = [], pl_agent = [],
      pl_enforced = [permission_rule_new ''write'' ''/etc/*'' Deny],
      pl_parent_runtime_ceiling = ceiling\<rparr>"

lemma delegation_only_tightens_witness:
  "let l = sample_layers [permission_rule_new ''write'' ''*'' Ask];
       i = permission_intent_new ''write'' [''a''];
       child = permission_intent_effect id i (resolve_child_permission_policy l) [] Sensitive
   in permission_intent_effect id i (resolve_permission_policy l) [] Sensitive = Allow \<and>
      permission_intent_effect id i (resolve_permission_policy l) [] Sensitive \<le> child \<and> child = Ask"
proof -
  let ?rules = "[permission_rule_new ''write'' ''*'' Ask]"
  let ?l = "sample_layers ?rules" and ?i = "permission_intent_new ''write'' [''a'']"
  have "ceiling_try_new ?rules = Inr (pl_parent_runtime_ceiling ?l)"
    by (simp add: ceiling_no_allow sample_layers_def permission_rule_new_def)
  from delegation_only_tightens [OF this refl, of id ?i "[]" Sensitive]
  have "permission_intent_effect id ?i (resolve_permission_policy ?l) [] Sensitive
      \<le> permission_intent_effect id ?i (resolve_child_permission_policy ?l) [] Sensitive" by blast
  moreover have "permission_intent_effect id ?i (resolve_permission_policy ?l) [] Sensitive = Allow"
    "permission_intent_effect id ?i (resolve_child_permission_policy ?l) [] Sensitive = Ask"
    by code_simp+
  ultimately show ?thesis by (simp add: Let_def)
qed

text \<open>
  An enforced denial is final. When the last matching rule of the enforced layer denies a
  resource, every intent with that resource is denied, for a parent or a delegated child, in every
  mode including full access, and with every preset, custom rule and remembered grant; and a plan
  with that intent is a denial.
\<close>

theorem enforced_denial_is_final:
  assumes "matches = (if pi_action i = ''bash'' then bash_rule_matches lower cs (pi_action i) r
      else rule_matches lower cs (pi_action i) r)"
    and "last_effect Allow matches (pl_enforced l) = Deny" and "r \<in> set (pi_resources i)"
    and "p = resolve_permission_policy l \<or> p = resolve_child_permission_policy l'" 
    and "permission_policy_layers.truncate l' = permission_policy_layers.truncate l"
  shows "permission_intent_effect lower i p grants cs = Deny \<and>
    (i \<in> set intents \<longrightarrow> (\<exists>j. plan_permission_intents lower intents p grants cs = Denied j))"
proof -
  have rules: "\<exists>rs. rp_rules p = rs @ pl_enforced l"
    using assms(4,5)
    by (auto simp: resolve_permission_policy_def resolve_child_permission_policy_def merge_layers
        permission_policy_layers.truncate_def Let_def)
  then obtain rs where rs: "rp_rules p = rs @ pl_enforced l" by blast
  have last: "last_effect d matches (pl_enforced l) = Deny" for d
    using last_effect_default [of Allow matches "pl_enforced l" d] assms(2) by simp
  have "configured_effect lower cs p (pi_action i) r = Deny"
    using last assms(1) constrain_ge [of Deny]
    by (simp add: configured_effect_def evaluate_resource_def rs last_effect_append split: if_splits)
  with assms(3) have deny: "permission_intent_effect lower i p grants cs = Deny"
    unfolding intent_effect by blast
  have "\<exists>j. plan_loop f acc intents = Denied j" if "i \<in> set intents" "f i = Deny" for f acc
    using that by (induction intents arbitrary: acc) (auto split: permission_effect.split)
  with deny show ?thesis by (simp add: plan_permission_intents_def)
qed

lemma enforced_denial_is_final_witness:
  "\<exists>j. plan_permission_intents id [permission_intent_new ''write'' [''/etc/hosts'']]
     (resolve_permission_policy (permission_policy_layers.truncate (sample_layers [])))
     [\<lparr>pg_project_id = ''p'', pg_action = ''*'', pg_resource = ''*'', pg_created_at_ms = 0\<rparr>] Sensitive = Denied j"
proof -
  let ?i = "permission_intent_new ''write'' [''/etc/hosts'']" and ?l = "sample_layers []"
  let ?grants = "[\<lparr>pg_project_id = ''p'', pg_action = ''*'', pg_resource = ''*'', pg_created_at_ms = 0\<rparr>]"
  let ?m = "rule_matches id Sensitive ''write'' ''/etc/hosts''"
  let ?p = "resolve_permission_policy (permission_policy_layers.truncate ?l)"
  have m: "?m = (if pi_action ?i = ''bash'' then bash_rule_matches id Sensitive (pi_action ?i) ''/etc/hosts''
      else rule_matches id Sensitive (pi_action ?i) ''/etc/hosts'')"
    by (simp add: permission_intent_new_def)
  have d: "last_effect Allow ?m (pl_enforced (permission_policy_layers.truncate ?l)) = Deny"
    by code_simp
  have r: "''/etc/hosts'' \<in> set (pi_resources ?i)" by (simp add: permission_intent_new_def)
  have p: "?p = resolve_permission_policy (permission_policy_layers.truncate ?l) \<or>
      ?p = resolve_child_permission_policy ?l" by simp
  have l: "permission_policy_layers.truncate ?l =
      permission_policy_layers.truncate (permission_policy_layers.truncate ?l)"
    by (simp add: permission_policy_layers.truncate_def)
  from enforced_denial_is_final [OF m d r p l, of "?grants" "[?i]"] show ?thesis
    by simp
qed

text \<open>
  C22. A plan is sound. The intents are allowed together exactly if every one has resources, asks for
  no fresh approval, and each of its resources is allowed by the policy or asked for and remembered;
  a denial names the first denied intent; an approval request lists, in order, exactly the intents
  that must be asked for, and none of the intents is denied.
\<close>

theorem plan_is_sound:
  fixes lower :: "string \<Rightarrow> string" and p :: resolved_permission_policy and grants cs
  defines "ok i \<equiv> pi_resources i \<noteq> [] \<and> \<not> requires_fresh_approval i \<and>
    (\<forall>r \<in> set (pi_resources i).
       configured_effect lower cs p (pi_action i) r = Allow \<or>
       (configured_effect lower cs p (pi_action i) r = Ask \<and> remembered lower cs grants (pi_action i) r))"
    and "denied i \<equiv> \<exists>r \<in> set (pi_resources i). configured_effect lower cs p (pi_action i) r = Deny"
  shows "case plan_permission_intents lower is p grants cs of
      Allowed \<Rightarrow> \<forall>i \<in> set is. ok i
    | Denied i \<Rightarrow> denied i \<and> (\<exists>pre post. is = pre @ i # post \<and> (\<forall>j \<in> set pre. \<not> denied j))
    | RequiresApproval asked \<Rightarrow>
        asked \<noteq> [] \<and> asked = filter (\<lambda>i. \<not> ok i) is \<and> (\<forall>i \<in> set is. \<not> denied i)"
proof -
  let ?f = "\<lambda>i. permission_intent_effect lower i p grants cs"
  have loop: "case plan_loop f acc is of
      Allowed \<Rightarrow> acc = [] \<and> (\<forall>i \<in> set is. f i = Allow)
    | Denied i \<Rightarrow> f i = Deny \<and> (\<exists>pre post. is = pre @ i # post \<and> (\<forall>j \<in> set pre. f j \<noteq> Deny))
    | RequiresApproval asked \<Rightarrow>
        asked \<noteq> [] \<and> asked = acc @ filter (\<lambda>i. f i \<noteq> Allow) is \<and> (\<forall>i \<in> set is. f i \<noteq> Deny)" for f acc
  proof (induction "is" arbitrary: acc)
    case (Cons i "is")
    show ?case
    proof (cases "f i")
      case Deny
      then show ?thesis by (auto intro: exI [of _ "[]"])
    next
      case Allow
      have "\<exists>pre post. i # is = pre @ j # post \<and> (\<forall>k \<in> set pre. f k \<noteq> Deny)"
        if "is = pre @ j # post" "\<forall>k \<in> set pre. f k \<noteq> Deny" for j pre post
        using that Allow by (intro exI [of _ "i # pre"] exI [of _ post]) auto
      with Allow Cons.IH [of acc] show ?thesis by (auto split: permission_intent_plan.splits)
    next
      case Ask
      have "\<exists>pre post. i # is = pre @ j # post \<and> (\<forall>k \<in> set pre. f k \<noteq> Deny)"
        if "is = pre @ j # post" "\<forall>k \<in> set pre. f k \<noteq> Deny" for j pre post
        using that Ask by (intro exI [of _ "i # pre"] exI [of _ post]) auto
      with Ask Cons.IH [of "acc @ [i]"] show ?thesis by (auto split: permission_intent_plan.splits)
    qed
  qed simp
  have eff: "?f i = Allow \<longleftrightarrow> ok i" "?f i = Deny \<longleftrightarrow> denied i" for i
    unfolding ok_def denied_def intent_effect by blast+
  show ?thesis
    using loop [where f = ?f and acc = "[]"] unfolding plan_permission_intents_def [symmetric]
    by (auto simp: eff split: permission_intent_plan.splits)
qed

lemma plan_is_sound_witness:
  "let is = [permission_intent_new ''read'' [''a.txt''], permission_intent_new ''edit'' [''b.txt'']];
       p = resolve_permission_policy ((permission_policy_layers.truncate (sample_layers []))\<lparr>pl_mode := None\<rparr>)
   in plan_permission_intents id is p [] Sensitive = RequiresApproval [is ! 1] \<and>
      (\<forall>i \<in> set is. \<not> (\<exists>r \<in> set (pi_resources i). configured_effect id Sensitive p (pi_action i) r = Deny))"
proof -
  let ?is = "[permission_intent_new ''read'' [''a.txt''], permission_intent_new ''edit'' [''b.txt'']]"
  let ?p = "resolve_permission_policy ((permission_policy_layers.truncate (sample_layers []))\<lparr>pl_mode := None\<rparr>)"
  have plan: "plan_permission_intents id ?is ?p [] Sensitive = RequiresApproval [?is ! 1]" by code_simp
  with plan_is_sound [of "?is" id Sensitive ?p "[]"]
  have "\<forall>i \<in> set ?is. \<not> (\<exists>r \<in> set (pi_resources i). configured_effect id Sensitive ?p (pi_action i) r = Deny)"
    unfolding plan permission_intent_plan.case by (elim conjE)
  with plan show ?thesis unfolding Let_def by blast
qed

lemma find_first: "\<forall>x \<in> set xs. \<not> P x \<Longrightarrow> P y \<Longrightarrow> find P (xs @ y # ys) = Some y"
  by (induction xs) auto

lemma last_effect_split:
  assumes "last_effect d m rules = e" and "e \<noteq> d"
  obtains pre rule post where "rules = pre @ rule # post" "pr_effect rule = e" "m rule" "\<forall>x \<in> set post. \<not> m x"
proof -
  have "\<exists>x \<in> set rules. m x"
    using last_effect_rule [of d m rules] assms by auto
  from split_list_last_prop [OF this] obtain pre rule post
    where s: "rules = pre @ rule # post" "m rule" "\<forall>x \<in> set post. \<not> m x"
    by blast
  then have "find m (rev rules) = Some rule"
    by (simp add: find_first)
  with assms(1) have "pr_effect rule = e"
    by (simp add: last_effect_def)
  with s show thesis by (intro that)
qed



text \<open>
  Full access does not settle every question: a custom rule after the preset can still ask, and the
  derived mode then drops the stored automatic answer.
\<close>

lemma full_access_still_asks:
  "let c = \<lparr>tc_policy = \<lparr>pc_preset = PresetFullAccess, pc_rules = [permission_rule_new ''write'' ''*'' Ask]\<rparr>,
            tc_auto_approve_ask = True\<rparr>;
       l = (permission_policy_layers.truncate (sample_layers []))\<lparr>pl_global := tc_policy c, pl_mode := Some (mode_from_config c)\<rparr>
   in \<not> mode_auto_approve_ask (mode_from_config c) \<and>
      permission_intent_effect id (permission_intent_new ''write'' [''a'']) (resolve_permission_policy l) [] Sensitive = Ask"
  by code_simp

end
