(* ===== verification/Permission_Store.thy ===== *)
theory Permission_Store
  imports Permission_Policy "HOL-Library.List_Lexorder" "HOL-Library.Char_ord" "HOL-Library.Product_Lexorder"
begin

text \<open>
  Permission requests, replies and audit facts of \<open>product-domains/src/tool_permissions.rs\<close>, and
  the SQLite store of grants and audit facts, \<open>services-core/src/permission_store.rs\<close>.

  The database is its two tables. A statement reads or writes them as SQLite documents it:
  \<open>INSERT OR IGNORE\<close> keeps a row whose primary key exists, text is compared bytewise, and a
  transaction that is not committed changes nothing. The environment decides for every operation
  whether the database opens and whether its statements run (\<open>db_outcome\<close>). \<open>serde_json\<close> is a
  \<open>codec\<close> of four functions.
\<close>

section \<open>Requests, replies and audit facts\<close>

datatype permission_request_source_kind = FromToolCall | FromProvider | FromExtension

record permission_request_source =
  rs_kind :: permission_request_source_kind
  rs_identity :: string

record permission_delegation_context =
  pd_parent_session_id :: string
  pd_parent_dialog_turn_id :: "string option"
  pd_parent_tool_call_id :: string
  pd_subagent_type :: string

record permission_request =
  pq_request_id :: string
  pq_round_id :: string
  pq_order :: nat
  pq_tool_call_id :: "string option"
  pq_project_path :: "string option"
  pq_project_id :: string
  pq_session_id :: string
  pq_agent_id :: string
  pq_action :: string
  pq_resources :: "string list"
  pq_save_resources :: "string list"
  pq_source :: permission_request_source
  pq_delegation :: "permission_delegation_context option"
  pq_display_metadata :: json_map

datatype permission_reply =
    ReplyOnce
  | ReplyOnceWithInput json
  | ReplyAlways
  | ReplyReject "string option"

datatype permission_reply_source = ReplyUser | ReplyAutoApprove | ReplySystem

datatype permission_request_event =
    PermissionAsked permission_request
  | PermissionReplied string permission_reply permission_reply_source
  | PermissionCancelled string string

type_synonym permission_grant_key = "string \<times> string \<times> string"

definition grant_key :: "permission_grant \<Rightarrow> permission_grant_key" where
  "grant_key g = (pg_project_id g, pg_action g, pg_resource g)"

datatype permission_audit_event =
    AuditRequested
  | AuditReplied permission_reply permission_reply_source
  | AuditCancelled string

record permission_audit_record =
  au_audit_id :: string
  au_request :: permission_request
  au_event :: permission_audit_event
  au_timestamp_ms :: int

datatype port_error_kind =
    NotAvailable | NotFound | InvalidRequest | PermissionDenied | PortCancelled | PortTimeout
  | SessionInUse | CleanupRequired | OutcomeUnknown | Backend

record port_error =
  pe_kind :: port_error_kind
  pe_message :: string

definition port_error_new :: "port_error_kind \<Rightarrow> string \<Rightarrow> port_error" where
  "port_error_new k msg = \<lparr>pe_kind = k, pe_message = msg\<rparr>"

section \<open>Tables\<close>

record audit_row =
  ar_audit_id :: string
  ar_project_id :: string
  ar_request_json :: string
  ar_event_json :: string
  ar_timestamp_ms :: int

record permission_db =
  db_user_version :: int
  db_grants :: "permission_grant list"
  db_audit :: "audit_row list"

record codec =
  ser_request :: "permission_request \<Rightarrow> string"
  ser_event :: "permission_audit_event \<Rightarrow> string"
  de_request :: "string \<Rightarrow> string + permission_request"
  de_event :: "string \<Rightarrow> string + permission_audit_event"

definition store_error :: "string \<Rightarrow> port_error" where
  "store_error e = port_error_new Backend (''Permission store operation failed: '' @ e)"

definition audit_conflict :: "string \<Rightarrow> port_error" where
  "audit_conflict aid =
     port_error_new InvalidRequest (''Permission audit ID already exists with different content: '' @ aid)"

definition deserialize_audit_value :: "(string \<Rightarrow> string + 'a) \<Rightarrow> string \<Rightarrow> string \<Rightarrow> port_error + 'a" where
  "deserialize_audit_value de v field =
     (case de v of
        Inl e \<Rightarrow> Inl (port_error_new Backend (''Permission audit '' @ field @ '' data is invalid: '' @ e))
      | Inr x \<Rightarrow> Inr x)"

text \<open>The text of the unsupported version number is not modelled.\<close>

definition initialize_schema :: "permission_db \<Rightarrow> port_error + permission_db" where
  "initialize_schema db =
     (if db_user_version db = 1 then Inr db
      else if db_user_version db \<noteq> 0
      then Inl (port_error_new Backend ''Unsupported permission store schema version'')
      else Inr (db\<lparr>db_user_version := 1\<rparr>))"

section \<open>Statements\<close>

definition list_grants :: "permission_db \<Rightarrow> string \<Rightarrow> permission_grant list" where
  "list_grants db project =
     sort_key (\<lambda>g. (pg_action g, pg_resource g)) (filter (\<lambda>g. pg_project_id g = project) (db_grants db))"

fun audit_rows_decode :: "codec \<Rightarrow> audit_row list \<Rightarrow> port_error + permission_audit_record list" where
  "audit_rows_decode c [] = Inr []"
| "audit_rows_decode c (r # rs) =
     (case deserialize_audit_value (de_request c) (ar_request_json r) ''request'' of
        Inl e \<Rightarrow> Inl e
      | Inr q \<Rightarrow>
          (case deserialize_audit_value (de_event c) (ar_event_json r) ''event'' of
             Inl e \<Rightarrow> Inl e
           | Inr ev \<Rightarrow>
               (case audit_rows_decode c rs of
                  Inl e \<Rightarrow> Inl e
                | Inr xs \<Rightarrow>
                    Inr (\<lparr>au_audit_id = ar_audit_id r, au_request = q, au_event = ev,
                          au_timestamp_ms = ar_timestamp_ms r\<rparr> # xs))))"

definition audit_order :: "audit_row \<Rightarrow> int \<times> string" where
  "audit_order r = (ar_timestamp_ms r, ar_audit_id r)"

definition list_audit_records :: "codec \<Rightarrow> permission_db \<Rightarrow> string \<Rightarrow> port_error + permission_audit_record list" where
  "list_audit_records c db project =
     audit_rows_decode c (sort_key audit_order (filter (\<lambda>r. ar_project_id r = project) (db_audit db)))"

definition insert_grant :: "permission_grant \<Rightarrow> permission_grant list \<Rightarrow> permission_grant list" where
  "insert_grant g rows = (if grant_key g \<in> set (map grant_key rows) then rows else rows @ [g])"

definition insert_grants :: "permission_grant list \<Rightarrow> permission_db \<Rightarrow> permission_db" where
  "insert_grants gs db = db\<lparr>db_grants := fold insert_grant gs (db_grants db)\<rparr>"

record prepared_audit_record =
  pa_record :: permission_audit_record
  pa_request_json :: string
  pa_event_json :: string

definition ensure_audit_record_compatible ::
  "codec \<Rightarrow> permission_db \<Rightarrow> prepared_audit_record \<Rightarrow> port_error + unit" where
  "ensure_audit_record_compatible c db p =
     (case find (\<lambda>r. ar_audit_id r = au_audit_id (pa_record p)) (db_audit db) of
        None \<Rightarrow> Inr ()
      | Some r \<Rightarrow>
          (case deserialize_audit_value (de_request c) (ar_request_json r) ''request'' of
             Inl e \<Rightarrow> Inl e
           | Inr q \<Rightarrow>
               (case deserialize_audit_value (de_event c) (ar_event_json r) ''event'' of
                  Inl e \<Rightarrow> Inl e
                | Inr ev \<Rightarrow>
                    if q \<noteq> au_request (pa_record p) \<or> ev \<noteq> au_event (pa_record p)
                    then Inl (audit_conflict (au_audit_id (pa_record p)))
                    else Inr ())))"

fun ensure_audit_records_compatible ::
  "codec \<Rightarrow> permission_db \<Rightarrow> prepared_audit_record list \<Rightarrow> port_error + unit" where
  "ensure_audit_records_compatible c db [] = Inr ()"
| "ensure_audit_records_compatible c db (p # ps) =
     (case ensure_audit_record_compatible c db p of
        Inl e \<Rightarrow> Inl e
      | Inr _ \<Rightarrow> ensure_audit_records_compatible c db ps)"

definition audit_row_of :: "prepared_audit_record \<Rightarrow> audit_row" where
  "audit_row_of p =
     \<lparr>ar_audit_id = au_audit_id (pa_record p), ar_project_id = pq_project_id (au_request (pa_record p)),
      ar_request_json = pa_request_json p, ar_event_json = pa_event_json p,
      ar_timestamp_ms = au_timestamp_ms (pa_record p)\<rparr>"

definition insert_audit_row :: "audit_row \<Rightarrow> audit_row list \<Rightarrow> audit_row list" where
  "insert_audit_row r rows = (if ar_audit_id r \<in> set (map ar_audit_id rows) then rows else rows @ [r])"

definition insert_audit_records :: "prepared_audit_record list \<Rightarrow> permission_db \<Rightarrow> permission_db" where
  "insert_audit_records ps db = db\<lparr>db_audit := fold insert_audit_row (map audit_row_of ps) (db_audit db)\<rparr>"

definition i64_max :: int where
  "i64_max = 9223372036854775807"

text \<open>The subquery of the deletion: the rows of a project after the \<open>limit\<close> newest ones.\<close>

definition expired_audit_ids :: "nat \<Rightarrow> audit_row list \<Rightarrow> string \<Rightarrow> string list" where
  "expired_audit_ids limit rows project =
     map ar_audit_id (drop limit (rev (sort_key audit_order (filter (\<lambda>r. ar_project_id r = project) rows))))"

definition prune_project :: "nat \<Rightarrow> string \<Rightarrow> audit_row list \<Rightarrow> audit_row list" where
  "prune_project limit project rows =
     filter (\<lambda>r. \<not> (ar_project_id r = project \<and> ar_audit_id r \<in> set (expired_audit_ids limit rows project))) rows"

definition prune_audit_records ::
  "prepared_audit_record list \<Rightarrow> nat \<Rightarrow> permission_db \<Rightarrow> port_error + permission_db" where
  "prune_audit_records ps limit db =
     (if int limit > i64_max
      then Inl (port_error_new InvalidRequest ''Permission audit retention limit exceeds SQLite integer range'')
      else Inr (db\<lparr>db_audit := fold (prune_project limit)
                   (remdups (map (\<lambda>p. pq_project_id (au_request (pa_record p))) ps)) (db_audit db)\<rparr>))"

definition prepare_audit_record :: "codec \<Rightarrow> permission_audit_record \<Rightarrow> port_error + prepared_audit_record" where
  "prepare_audit_record c r =
     (if trim (au_audit_id r) = [] \<or> trim (pq_project_id (au_request r)) = []
      then Inl (port_error_new InvalidRequest ''Permission audit ID and project ID must be non-empty'')
      else Inr \<lparr>pa_record = r, pa_request_json = ser_request c (au_request r),
                pa_event_json = ser_event c (au_event r)\<rparr>)"

fun prepare_audit_records :: "codec \<Rightarrow> permission_audit_record list \<Rightarrow> port_error + prepared_audit_record list" where
  "prepare_audit_records c [] = Inr []"
| "prepare_audit_records c (r # rs) =
     (case prepare_audit_record c r of
        Inl e \<Rightarrow> Inl e
      | Inr p \<Rightarrow> (case prepare_audit_records c rs of Inl e \<Rightarrow> Inl e | Inr ps \<Rightarrow> Inr (p # ps)))"

definition validate_grants :: "permission_grant list \<Rightarrow> port_error + unit" where
  "validate_grants gs =
     (if \<exists>g \<in> set gs. trim (pg_project_id g) = [] \<or> trim (pg_action g) = [] \<or> trim (pg_resource g) = []
      then Inl (port_error_new InvalidRequest ''Permission grant project, action, and resource must be non-empty'')
      else Inr ())"

section \<open>The store\<close>

datatype db_outcome = DbRuns | DbDoesNotOpen string | DbFails string

text \<open>
  \<open>ps_schedule\<close> is the environment: what happens to the next operations on the database. When it is
  used up, operations run.
\<close>

record permission_store =
  ps_db :: permission_db
  ps_limit :: nat
  ps_schedule :: "db_outcome list"

definition store_new :: "permission_db \<Rightarrow> db_outcome list \<Rightarrow> permission_store" where
  "store_new db sched = \<lparr>ps_db = db, ps_limit = 1000, ps_schedule = sched\<rparr>"

definition with_audit_limit :: "nat \<Rightarrow> permission_store \<Rightarrow> permission_store" where
  "with_audit_limit n st = st\<lparr>ps_limit := max n 1\<rparr>"

text \<open>
  \<open>execute\<close> with the closures of the operations, which all run in one transaction or one statement:
  an error leaves the tables as they were after the schema was initialized.
\<close>

definition execute ::
  "(permission_db \<Rightarrow> nat \<Rightarrow> port_error + 'r \<times> permission_db) \<Rightarrow> permission_store
   \<Rightarrow> (port_error + 'r) \<times> permission_store" where
  "execute operation st =
     (let outcome = (case ps_schedule st of [] \<Rightarrow> DbRuns | x # _ \<Rightarrow> x);
          st = st\<lparr>ps_schedule := tl (ps_schedule st)\<rparr>
      in case outcome of
           DbDoesNotOpen e \<Rightarrow> (Inl (store_error e), st)
         | _ \<Rightarrow>
             (case initialize_schema (ps_db st) of
                Inl e \<Rightarrow> (Inl e, st)
              | Inr db \<Rightarrow>
                  (case outcome of
                     DbFails e \<Rightarrow> (Inl (store_error e), st\<lparr>ps_db := db\<rparr>)
                   | _ \<Rightarrow>
                       (case operation db (ps_limit st) of
                          Inl e \<Rightarrow> (Inl e, st\<lparr>ps_db := db\<rparr>)
                        | Inr (r, db') \<Rightarrow> (Inr r, st\<lparr>ps_db := db'\<rparr>)))))"

definition list_project_grants ::
  "string \<Rightarrow> permission_store \<Rightarrow> (port_error + permission_grant list) \<times> permission_store" where
  "list_project_grants project st = execute (\<lambda>db _. Inr (list_grants db project, db)) st"

definition add_project_grants ::
  "permission_grant list \<Rightarrow> permission_store \<Rightarrow> (port_error + unit) \<times> permission_store" where
  "add_project_grants gs st =
     (if gs = [] then (Inr (), st)
      else case validate_grants gs of
        Inl e \<Rightarrow> (Inl e, st)
      | Inr _ \<Rightarrow> execute (\<lambda>db _. Inr ((), insert_grants gs db)) st)"

definition remove_project_grant ::
  "permission_grant_key \<Rightarrow> permission_store \<Rightarrow> (port_error + bool) \<times> permission_store" where
  "remove_project_grant k st =
     execute (\<lambda>db _.
       let kept = filter (\<lambda>g. grant_key g \<noteq> k) (db_grants db)
       in Inr (length kept < length (db_grants db), db\<lparr>db_grants := kept\<rparr>)) st"

definition clear_project_grants ::
  "string \<Rightarrow> permission_store \<Rightarrow> (port_error + nat) \<times> permission_store" where
  "clear_project_grants project st =
     (if trim project = []
      then (Inl (port_error_new InvalidRequest ''Permission grant project ID must be non-empty''), st)
      else execute (\<lambda>db _.
        let kept = filter (\<lambda>g. pg_project_id g \<noteq> project) (db_grants db)
        in Inr (length (db_grants db) - length kept, db\<lparr>db_grants := kept\<rparr>)) st)"

definition commit_transaction ::
  "codec \<Rightarrow> permission_grant list \<Rightarrow> prepared_audit_record list \<Rightarrow> permission_db \<Rightarrow> nat
   \<Rightarrow> port_error + unit \<times> permission_db" where
  "commit_transaction c gs ps db limit =
     (case ensure_audit_records_compatible c db ps of
        Inl e \<Rightarrow> Inl e
      | Inr _ \<Rightarrow>
          (case prune_audit_records ps limit (insert_audit_records ps (insert_grants gs db)) of
             Inl e \<Rightarrow> Inl e
           | Inr db' \<Rightarrow> Inr ((), db')))"

definition commit_permission_reply ::
  "codec \<Rightarrow> permission_grant list \<Rightarrow> permission_audit_record list \<Rightarrow> permission_store
   \<Rightarrow> (port_error + unit) \<times> permission_store" where
  "commit_permission_reply c gs audit st =
     (case validate_grants gs of
        Inl e \<Rightarrow> (Inl e, st)
      | Inr _ \<Rightarrow>
          (case prepare_audit_records c audit of
             Inl e \<Rightarrow> (Inl e, st)
           | Inr ps \<Rightarrow> execute (commit_transaction c gs ps) st))"

definition append_permission_audit ::
  "codec \<Rightarrow> permission_audit_record \<Rightarrow> permission_store \<Rightarrow> (port_error + unit) \<times> permission_store" where
  "append_permission_audit c r st =
     (case prepare_audit_record c r of
        Inl e \<Rightarrow> (Inl e, st)
      | Inr p \<Rightarrow>
          execute (\<lambda>db limit.
            case ensure_audit_record_compatible c db p of
              Inl e \<Rightarrow> Inl e
            | Inr _ \<Rightarrow>
                (case prune_audit_records [p] limit (insert_audit_records [p] db) of
                   Inl e \<Rightarrow> Inl e
                 | Inr db' \<Rightarrow> Inr ((), db'))) st)"

definition list_project_permission_audit ::
  "codec \<Rightarrow> string \<Rightarrow> permission_store \<Rightarrow> (port_error + permission_audit_record list) \<times> permission_store" where
  "list_project_permission_audit c project st =
     execute (\<lambda>db _. case list_audit_records c db project of Inl e \<Rightarrow> Inl e | Inr rs \<Rightarrow> Inr (rs, db)) st"

section \<open>What a client of the stores relies on\<close>

text \<open>
  The contract of \<open>PermissionAuditStorePort\<close> and \<open>PermissionReplyStorePort\<close>: an operation that fails
  changes no fact, an audit fact grants nothing, and a committed reply grants exactly its grants.
\<close>

locale permission_stores =
  fixes record_audit :: "permission_audit_record \<Rightarrow> 's \<Rightarrow> (port_error + unit) \<times> 's"
    and commit :: "permission_grant list \<Rightarrow> permission_audit_record list \<Rightarrow> 's \<Rightarrow> (port_error + unit) \<times> 's"
    and granted :: "'s \<Rightarrow> permission_grant_key set"
    and facts :: "'s \<Rightarrow> 'f"
  assumes append_error: "record_audit r s = (Inl e, s') \<Longrightarrow> granted s' = granted s \<and> facts s' = facts s"
    and append_granted: "record_audit r s = (Inr u, s') \<Longrightarrow> granted s' = granted s"
    and commit_error: "commit gs rs s = (Inl e, s') \<Longrightarrow> granted s' = granted s \<and> facts s' = facts s"
    and commit_granted: "commit gs rs s = (Inr u, s') \<Longrightarrow> granted s' = granted s \<union> grant_key ` set gs"

definition sql_granted :: "permission_store \<Rightarrow> permission_grant_key set" where
  "sql_granted st = grant_key ` set (db_grants (ps_db st))"

definition sql_facts :: "permission_store \<Rightarrow> audit_row list" where
  "sql_facts st = db_audit (ps_db st)"

lemma initialize_schema_tables:
  "initialize_schema db = Inr db' \<Longrightarrow> db_grants db' = db_grants db \<and> db_audit db' = db_audit db"
  by (auto simp: initialize_schema_def split: if_splits)

lemma execute_Inl:
  assumes "execute f st = (Inl e, st')"
  shows "db_grants (ps_db st') = db_grants (ps_db st) \<and> db_audit (ps_db st') = db_audit (ps_db st)"
  using assms initialize_schema_tables [of "ps_db st"]
  by (auto simp: execute_def Let_def split: list.splits db_outcome.splits sum.splits prod.splits)

lemma execute_Inr:
  assumes "execute f st = (Inr r, st')"
  obtains db where "initialize_schema (ps_db st) = Inr db" "f db (ps_limit st) = Inr (r, ps_db st')"
    "ps_limit st' = ps_limit st"
  using assms
  by (auto simp: execute_def Let_def split: list.splits db_outcome.splits sum.splits prod.splits)

lemma insert_grants_keys:
  "grant_key ` set (fold insert_grant gs rows) = grant_key ` set rows \<union> grant_key ` set gs"
  by (induction gs arbitrary: rows) (auto simp: insert_grant_def)

lemma insert_grants_append:
  "\<exists>new. fold insert_grant gs rows = rows @ new \<and> set new \<subseteq> set gs"
proof (induction gs arbitrary: rows)
  case (Cons g gs)
  from Cons.IH [of "insert_grant g rows"] obtain new
    where "fold insert_grant gs (insert_grant g rows) = insert_grant g rows @ new" "set new \<subseteq> set gs" by blast
  moreover have "insert_grant g rows = rows \<or> insert_grant g rows = rows @ [g]" by (simp add: insert_grant_def)
  ultimately have "fold insert_grant (g # gs) rows = rows @ new \<or> fold insert_grant (g # gs) rows = rows @ g # new"
    by auto
  with \<open>set new \<subseteq> set gs\<close> show ?case by (metis insert_mono list.simps(15) set_subset_Cons subset_trans)
qed simp

lemma insert_grants_distinct:
  "distinct (map grant_key rows) \<Longrightarrow> distinct (map grant_key (fold insert_grant gs rows))"
  by (induction gs arbitrary: rows) (auto simp: insert_grant_def)

lemma insert_audit_append:
  "\<exists>new. fold insert_audit_row rs rows = rows @ new \<and> set new \<subseteq> set rs \<and>
     ar_audit_id ` set (rows @ new) = ar_audit_id ` set rows \<union> ar_audit_id ` set rs"
proof (induction rs arbitrary: rows)
  case (Cons r rs)
  from Cons.IH [of "insert_audit_row r rows"] obtain new
    where new: "fold insert_audit_row rs (insert_audit_row r rows) = insert_audit_row r rows @ new"
      "set new \<subseteq> set rs"
      "ar_audit_id ` set (insert_audit_row r rows @ new) =
        ar_audit_id ` set (insert_audit_row r rows) \<union> ar_audit_id ` set rs" by blast
  show ?case
  proof (cases "ar_audit_id r \<in> set (map ar_audit_id rows)")
    case True
    then have "insert_audit_row r rows = rows" by (simp add: insert_audit_row_def)
    with new True show ?thesis by (intro exI [of _ new]) auto
  next
    case False
    then have "insert_audit_row r rows = rows @ [r]" by (simp add: insert_audit_row_def)
    with new show ?thesis by (intro exI [of _ "r # new"]) auto
  qed
qed simp

lemma insert_audit_distinct:
  "distinct (map ar_audit_id rows) \<Longrightarrow> distinct (map ar_audit_id (fold insert_audit_row rs rows))"
  by (induction rs arbitrary: rows) (auto simp: insert_audit_row_def)

lemma prune_audit_tables:
  "prune_audit_records ps limit db = Inr db' \<Longrightarrow> db_grants db' = db_grants db"
  by (auto simp: prune_audit_records_def split: if_splits)

lemma commit_transaction_grants:
  assumes "commit_transaction c gs ps db limit = Inr (u, db')"
  shows "db_grants db' = fold insert_grant gs (db_grants db)"
  using assms prune_audit_tables
  by (fastforce simp: commit_transaction_def insert_grants_def insert_audit_records_def split: sum.splits)

interpretation sql_store: permission_stores "append_permission_audit c" "commit_permission_reply c" sql_granted sql_facts
  for c :: codec
proof
  fix r s e s'
  assume "append_permission_audit c r s = (Inl e, s')"
  then show "sql_granted s' = sql_granted s \<and> sql_facts s' = sql_facts s"
    by (auto simp: append_permission_audit_def sql_granted_def sql_facts_def split: sum.splits dest: execute_Inl)
next
  fix r s u s'
  assume "append_permission_audit c r s = (Inr u, s')"
  then show "sql_granted s' = sql_granted s"
    by (auto simp: append_permission_audit_def sql_granted_def insert_audit_records_def split: sum.splits
        elim!: execute_Inr dest!: initialize_schema_tables prune_audit_tables)
next
  fix gs rs s e s'
  assume "commit_permission_reply c gs rs s = (Inl e, s')"
  then show "sql_granted s' = sql_granted s \<and> sql_facts s' = sql_facts s"
    by (auto simp: commit_permission_reply_def sql_granted_def sql_facts_def split: sum.splits dest: execute_Inl)
next
  fix gs rs s u s'
  assume "commit_permission_reply c gs rs s = (Inr u, s')"
  then have "db_grants (ps_db s') = fold insert_grant gs (db_grants (ps_db s))"
    by (auto simp: commit_permission_reply_def split: sum.splits
        elim!: execute_Inr dest!: initialize_schema_tables commit_transaction_grants)
  then show "sql_granted s' = sql_granted s \<union> grant_key ` set gs"
    by (simp add: sql_granted_def insert_grants_keys)
qed

text \<open>
  An audit id that is stored with another event refuses every later fact, whatever the schedule. A
  cancellation that failed after its first fact was stored can so never be repeated with another
  reason.
\<close>

lemma other_content_is_refused:
  assumes "find (\<lambda>r. ar_audit_id r = au_audit_id x) (db_audit (ps_db st)) = Some row"
    and "de_event c (ar_event_json row) = Inr ev" and "ev \<noteq> au_event x"
  shows "\<exists>e st'. append_permission_audit c x st = (Inl e, st') \<and> sql_facts st' = sql_facts st"
proof -
  obtain res st' where run: "append_permission_audit c x st = (res, st')" by fastforce
  have "res \<noteq> Inr u" for u
  proof
    assume "res = Inr u"
    with run obtain p db where p: "prepare_audit_record c x = Inr p" "initialize_schema (ps_db st) = Inr db"
      "ensure_audit_record_compatible c db p = Inr ()"
      by (auto simp: append_permission_audit_def split: sum.splits elim!: execute_Inr)
    have "pa_record p = x" using p(1) by (auto simp: prepare_audit_record_def split: if_splits)
    with p(3) assms initialize_schema_tables [OF p(2)] show False
      by (auto simp: ensure_audit_record_compatible_def deserialize_audit_value_def split: sum.splits if_splits)
  qed
  with run sql_store.append_error [of c x st _ st'] show ?thesis by (cases res) auto
qed

section \<open>Retention\<close>

definition rows_of :: "string \<Rightarrow> audit_row list \<Rightarrow> audit_row list" where
  "rows_of p rows = filter (\<lambda>r. ar_project_id r = p) rows"

definition newest_rows :: "nat \<Rightarrow> audit_row list \<Rightarrow> audit_row list" where
  "newest_rows limit rows =
     filter (\<lambda>r. ar_audit_id r \<notin> ar_audit_id ` set (drop limit (rev (sort_key audit_order rows)))) rows"

lemma rows_of_prune_project:
  "rows_of q (prune_project limit p rows) = (if q = p then newest_rows limit (rows_of p rows) else rows_of q rows)"
  by (auto simp: rows_of_def prune_project_def newest_rows_def expired_audit_ids_def filter_filter [abs_def]
      intro!: filter_cong)

lemma rows_of_prune:
  "distinct ps \<Longrightarrow> rows_of q (fold (prune_project limit) ps rows) =
     (if q \<in> set ps then newest_rows limit (rows_of q rows) else rows_of q rows)"
  by (induction ps arbitrary: rows) (auto simp: rows_of_prune_project)

lemma distinct_prune:
  "distinct (map ar_audit_id rows) \<Longrightarrow> distinct (map ar_audit_id (fold (prune_project limit) ps rows))"
  by (induction ps arbitrary: rows) (auto simp: prune_project_def distinct_map_filter)

lemma newest_rows_kept:
  assumes "distinct (map ar_audit_id rows)"
  shows "set (newest_rows limit rows) \<subseteq> set rows" "length (newest_rows limit rows) = min limit (length rows)"
    "r \<in> set (newest_rows limit rows) \<Longrightarrow> x \<in> set rows \<Longrightarrow> x \<notin> set (newest_rows limit rows) \<Longrightarrow>
      audit_order x \<le> audit_order r"
proof -
  let ?s = "rev (sort_key audit_order rows)"
  have inj: "inj_on ar_audit_id (set rows)" and d: "distinct rows" using assms by (simp_all add: distinct_map)
  have s: "set ?s = set rows" "distinct ?s" "length ?s = length rows" using d by simp_all
  have split: "set (take limit ?s) \<union> set (drop limit ?s) = set rows" "set (take limit ?s) \<inter> set (drop limit ?s) = {}"
    using s set_append [of "take limit ?s" "drop limit ?s"] distinct_append [of "take limit ?s" "drop limit ?s"]
    by simp_all
  have mem: "ar_audit_id x \<in> ar_audit_id ` set (drop limit ?s) \<longleftrightarrow> x \<in> set (drop limit ?s)" if "x \<in> set rows" for x
    using inj that s(1) by (intro inj_on_image_mem_iff [where B = "set rows"]) (auto dest: in_set_dropD)
  have kept: "set (newest_rows limit rows) = set (take limit ?s)"
    unfolding newest_rows_def using split mem by auto
  show "set (newest_rows limit rows) \<subseteq> set rows" by (auto simp: newest_rows_def)
  have "distinct (newest_rows limit rows)" using d by (simp add: newest_rows_def)
  then have "length (newest_rows limit rows) = card (set (take limit ?s))"
    by (simp only: kept [symmetric] distinct_card)
  also have "\<dots> = min limit (length rows)"
    using distinct_card [of "take limit ?s"] s(2,3) by (simp add: min.commute)
  finally show "length (newest_rows limit rows) = min limit (length rows)" .
  show "audit_order x \<le> audit_order r"
    if "r \<in> set (newest_rows limit rows)" "x \<in> set rows" "x \<notin> set (newest_rows limit rows)"
  proof -
    have "sorted (rev (map audit_order ?s))" by (simp add: rev_map)
    then have "sorted_wrt (\<ge>) (map audit_order (take limit ?s) @ map audit_order (drop limit ?s))"
      by (simp only: sorted_wrt_rev map_append [symmetric] append_take_drop_id)
    moreover have "r \<in> set (take limit ?s)" "x \<in> set (drop limit ?s)" using that split(1) unfolding kept by auto
    ultimately show ?thesis unfolding sorted_wrt_append by auto
  qed
qed

definition db_ok :: "permission_db \<Rightarrow> bool" where
  "db_ok db \<longleftrightarrow> distinct (map grant_key (db_grants db)) \<and> distinct (map ar_audit_id (db_audit db))"

definition row_of_record :: "codec \<Rightarrow> permission_audit_record \<Rightarrow> audit_row" where
  "row_of_record c r =
     \<lparr>ar_audit_id = au_audit_id r, ar_project_id = pq_project_id (au_request r),
      ar_request_json = ser_request c (au_request r), ar_event_json = ser_event c (au_event r),
      ar_timestamp_ms = au_timestamp_ms r\<rparr>"

lemma prepare_audit_records_rows:
  "prepare_audit_records c rs = Inr ps \<Longrightarrow> map audit_row_of ps = map (row_of_record c) rs \<and> map pa_record ps = rs"
  by (induction rs arbitrary: ps)
    (auto simp: prepare_audit_record_def audit_row_of_def row_of_record_def split: sum.splits if_splits)

text \<open>
  C25. A reply is committed as a whole, and the audit is bounded by its newest facts. If the commit
  fails, both tables are as before. If it succeeds, the remembered grants are the old ones and the
  new ones, nothing stored is overwritten, and a project of the audit keeps exactly the newest
  facts, up to the limit, of its old and added ones, while the other projects keep theirs.
\<close>

theorem commit_is_atomic_and_bounded:
  assumes "commit_permission_reply c gs audit st = (res, st')" and "db_ok (ps_db st)"
  shows "db_ok (ps_db st') \<and>
    (case res of
       Inl _ \<Rightarrow> db_grants (ps_db st') = db_grants (ps_db st) \<and> db_audit (ps_db st') = db_audit (ps_db st)
     | Inr _ \<Rightarrow>
         (\<exists>new. db_grants (ps_db st') = db_grants (ps_db st) @ new \<and> set new \<subseteq> set gs) \<and>
         grant_key ` set (db_grants (ps_db st')) = grant_key ` set (db_grants (ps_db st)) \<union> grant_key ` set gs \<and>
         (\<exists>added. set added \<subseteq> row_of_record c ` set audit \<and>
            ar_audit_id ` set (db_audit (ps_db st) @ added) =
              ar_audit_id ` set (db_audit (ps_db st)) \<union> au_audit_id ` set audit \<and>
            (\<forall>p. let all = rows_of p (db_audit (ps_db st) @ added); now = rows_of p (db_audit (ps_db st'))
                 in if p \<in> (\<lambda>r. pq_project_id (au_request r)) ` set audit
                    then set now \<subseteq> set all \<and> length now = min (ps_limit st) (length all) \<and>
                      (\<forall>r \<in> set now. \<forall>x \<in> set all - set now. audit_order x \<le> audit_order r)
                    else now = rows_of p (db_audit (ps_db st)))))"
proof (cases res)
  case (Inl e)
  then have "db_grants (ps_db st') = db_grants (ps_db st)" "db_audit (ps_db st') = db_audit (ps_db st)"
    using assms(1) by (auto simp: commit_permission_reply_def split: sum.splits dest: execute_Inl)
  with Inl assms(2) show ?thesis by (simp add: db_ok_def)
next
  case (Inr u)
  then obtain ps where ps: "prepare_audit_records c audit = Inr ps" "execute (commit_transaction c gs ps) st = (Inr u, st')"
    using assms(1) by (auto simp: commit_permission_reply_def split: sum.splits)
  from ps(2) obtain db where db: "initialize_schema (ps_db st) = Inr db"
    "commit_transaction c gs ps db (ps_limit st) = Inr (u, ps_db st')" by (rule execute_Inr)
  note tables = initialize_schema_tables [OF db(1)]
  let ?old = "db_audit (ps_db st)" and ?projects = "remdups (map (\<lambda>p. pq_project_id (au_request (pa_record p))) ps)"
  have grants: "db_grants (ps_db st') = fold insert_grant gs (db_grants (ps_db st))"
    using commit_transaction_grants [OF db(2)] tables by simp
  have rows: "map audit_row_of ps = map (row_of_record c) audit" "map pa_record ps = audit"
    using prepare_audit_records_rows [OF ps(1)] by auto
  have now: "db_audit (ps_db st') =
      fold (prune_project (ps_limit st)) ?projects (fold insert_audit_row (map (row_of_record c) audit) ?old)"
    using db(2) tables
    by (auto simp: commit_transaction_def prune_audit_records_def insert_audit_records_def insert_grants_def rows(1)
        split: sum.splits if_splits dest!: arg_cong [where f = db_audit])
  obtain added where added: "fold insert_audit_row (map (row_of_record c) audit) ?old = ?old @ added"
    "set added \<subseteq> row_of_record c ` set audit"
    "ar_audit_id ` set (?old @ added) = ar_audit_id ` set ?old \<union> au_audit_id ` set audit"
    using insert_audit_append [of "map (row_of_record c) audit" ?old]
    by (auto simp: image_image row_of_record_def)
  have d: "distinct (map ar_audit_id (?old @ added))"
    unfolding added(1) [symmetric] using assms(2) by (intro insert_audit_distinct) (simp add: db_ok_def)
  have projects: "set ?projects = (\<lambda>r. pq_project_id (au_request r)) ` set audit"
    unfolding rows(2) [symmetric] by (simp add: image_image)
  have other: "rows_of p added = []" if "p \<notin> set ?projects" for p
    using that added(2) unfolding projects rows_of_def by (force simp: filter_empty_conv row_of_record_def)
  have ok: "db_ok (ps_db st')"
    using assms(2) distinct_prune [OF d] by (simp add: db_ok_def grants insert_grants_distinct now added(1))
  have retention: "let all = rows_of p (?old @ added); now = rows_of p (db_audit (ps_db st'))
      in if p \<in> (\<lambda>r. pq_project_id (au_request r)) ` set audit
         then set now \<subseteq> set all \<and> length now = min (ps_limit st) (length all) \<and>
           (\<forall>r \<in> set now. \<forall>x \<in> set all - set now. audit_order x \<le> audit_order r)
         else now = rows_of p ?old" for p
  proof -
    have dp: "distinct (map ar_audit_id (rows_of p (?old @ added)))" using d unfolding rows_of_def by (rule distinct_map_filter)
    have n: "rows_of p (db_audit (ps_db st')) =
        (if p \<in> set ?projects then newest_rows (ps_limit st) (rows_of p (?old @ added)) else rows_of p (?old @ added))"
      unfolding now added(1) by (rule rows_of_prune) simp
    show ?thesis
      unfolding Let_def n projects [symmetric] using newest_rows_kept [where limit = "ps_limit st", OF dp] other [of p]
      by (auto simp: rows_of_def)
  qed
  from ok retention added(2,3) insert_grants_append [of gs "db_grants (ps_db st)"] show ?thesis
    unfolding Inr sum.case grants insert_grants_keys by blast
qed

text \<open>A store whose audit keeps one fact per project, and a reply that remembers a grant.\<close>

definition sample_request :: "string \<Rightarrow> permission_request" where
  "sample_request rid =
     \<lparr>pq_request_id = rid, pq_round_id = ''r'', pq_order = 0, pq_tool_call_id = Some ''t'', pq_project_path = None,
      pq_project_id = ''p'', pq_session_id = ''s'', pq_agent_id = ''a'', pq_action = ''write'', pq_resources = [''f''],
      pq_save_resources = [''f''], pq_source = \<lparr>rs_kind = FromToolCall, rs_identity = ''w''\<rparr>, pq_delegation = None,
      pq_display_metadata = []\<rparr>"

definition sample_codec :: codec where
  "sample_codec =
     \<lparr>ser_request = pq_request_id, ser_event = (\<lambda>_. []), de_request = (\<lambda>s. Inr (sample_request s)),
      de_event = (\<lambda>_. Inr AuditRequested)\<rparr>"

definition sample_store :: permission_store where
  "sample_store = \<lparr>ps_db = \<lparr>db_user_version = 0, db_grants = [], db_audit = []\<rparr>, ps_limit = 1, ps_schedule = []\<rparr>"

definition sample_record :: "string \<Rightarrow> int \<Rightarrow> permission_audit_record" where
  "sample_record aid ts =
     \<lparr>au_audit_id = aid, au_request = sample_request ''q'', au_event = AuditRequested, au_timestamp_ms = ts\<rparr>"

lemma commit_is_atomic_and_bounded_witness:
  "let (res, st') = commit_permission_reply sample_codec
         [\<lparr>pg_project_id = ''p'', pg_action = ''write'', pg_resource = ''f'', pg_created_at_ms = 1\<rparr>]
         [sample_record ''q:replied'' 2, sample_record ''q:old'' 1] sample_store
   in res = Inr () \<and> db_ok (ps_db st') \<and> map ar_audit_id (db_audit (ps_db st')) = [''q:replied'']"
proof -
  let ?gs = "[\<lparr>pg_project_id = ''p'', pg_action = ''write'', pg_resource = ''f'', pg_created_at_ms = 1\<rparr>]"
  let ?audit = "[sample_record ''q:replied'' 2, sample_record ''q:old'' 1]"
  obtain res st' where run: "commit_permission_reply sample_codec ?gs ?audit sample_store = (res, st')"
    by (cases "commit_permission_reply sample_codec ?gs ?audit sample_store")
  have "db_ok (ps_db sample_store)" by (simp add: db_ok_def sample_store_def)
  from commit_is_atomic_and_bounded [OF run this] have "db_ok (ps_db st')" by blast
  moreover have "fst (commit_permission_reply sample_codec ?gs ?audit sample_store) = Inr ()"
    "map ar_audit_id (db_audit (ps_db (snd (commit_permission_reply sample_codec ?gs ?audit sample_store)))) = [''q:replied'']"
    by code_simp+
  ultimately show ?thesis by (simp add: run)
qed

end
