(* ===== verification/Permission_Manager.thy ===== *)
theory Permission_Manager
  imports Permission_Store
begin

text \<open>
  The coordination of pending permission requests: \<open>PermissionRequestManager\<close> of
  \<open>agent-runtime/src/permission.rs\<close>.

  The operations lock makes each operation one step on the state. Inside it, every section under
  the snapshot barrier is a definition of its own (\<open>register_section\<close>, \<open>rollback_section\<close>,
  \<open>settle_section\<close>), because snapshots are read between them. The stores are the arguments
  \<open>record_audit\<close> and \<open>commit\<close> on the component \<open>mg_store\<close> of the state. A waiter's channel is a position in
  \<open>mg_channels\<close>; \<open>mg_events\<close> are the events sent to interactive subscribers.
\<close>

section \<open>State\<close>

datatype permission_wait_outcome = WaitReplied permission_reply | WaitCancelled string

text \<open>The channel of a waiter: open, used, or its sender dropped.\<close>

datatype oneshot = OneshotOpen | OneshotSent permission_wait_outcome | OneshotClosed

record pending_permission =
  pp_request :: permission_request
  pp_dialog_turn_id :: "string option"
  pp_sender :: nat
  pp_interactive :: bool
  pp_sequence :: nat

record pending_permission_receiver =
  rv_request_id :: string
  rv_channel :: nat

record 's permission_manager =
  mg_pending :: "(string, pending_permission) kv"
  mg_next_sequence :: nat
  mg_revision :: nat
  mg_channels :: "oneshot list"
  mg_store :: 's
  mg_events :: "permission_request_event list"

record permission_request_snapshot =
  sn_revision :: nat
  sn_requests :: "permission_request list"

datatype permission_manager_error =
    InvalidReply string
  | DuplicateRequest string
  | RequestNotFound string
  | ReplyStoreError port_error
  | GrantStoreError port_error
  | AuditStoreError port_error

record permission_reply_resolution =
  rr_request :: permission_request
  rr_reply :: permission_reply
  rr_saved_grants :: "permission_grant list"
  rr_resolved_request_ids :: "string list"

definition manager_new :: "'s \<Rightarrow> 's permission_manager" where
  "manager_new s =
     \<lparr>mg_pending = [], mg_next_sequence = 0, mg_revision = 0, mg_channels = [], mg_store = s, mg_events = []\<rparr>"

definition manager_wait :: "'s permission_manager \<Rightarrow> pending_permission_receiver \<Rightarrow> permission_wait_outcome option" where
  "manager_wait m r =
     (case mg_channels m ! rv_channel r of
        OneshotOpen \<Rightarrow> None
      | OneshotSent x \<Rightarrow> Some x
      | OneshotClosed \<Rightarrow> Some (WaitCancelled ''Permission request channel closed''))"

definition send_event :: "permission_request_event \<Rightarrow> 's permission_manager \<Rightarrow> 's permission_manager" where
  "send_event e m = m\<lparr>mg_events := mg_events m @ [e]\<rparr>"

definition send_outcome :: "nat \<Rightarrow> oneshot \<Rightarrow> 's permission_manager \<Rightarrow> 's permission_manager" where
  "send_outcome c x m = m\<lparr>mg_channels := (mg_channels m)[c := x]\<rparr>"

definition bump_revision :: "'s permission_manager \<Rightarrow> 's permission_manager" where
  "bump_revision m = m\<lparr>mg_revision := wrap_add_u64 (mg_revision m) 1\<rparr>"

definition manager_audit_id :: "string \<Rightarrow> string \<Rightarrow> string" where
  "manager_audit_id rid event = rid @ '':'' @ event"

section \<open>Registration\<close>

fun duplicate_request :: "string set \<Rightarrow> (string, pending_permission) kv \<Rightarrow> permission_request list \<Rightarrow> string option" where
  "duplicate_request seen pending [] = None"
| "duplicate_request seen pending (r # rs) =
     (if pq_request_id r \<in> seen then Some (pq_request_id r)
      else if map_of pending (pq_request_id r) \<noteq> None then Some (pq_request_id r)
      else duplicate_request (insert (pq_request_id r) seen) pending rs)"

definition insert_request ::
  "string option \<Rightarrow> bool \<Rightarrow> permission_request \<Rightarrow> 's permission_manager
   \<Rightarrow> pending_permission_receiver \<times> 's permission_manager" where
  "insert_request turn interactive r m =
     (let c = length (mg_channels m)
      in (\<lparr>rv_request_id = pq_request_id r, rv_channel = c\<rparr>,
          m\<lparr>mg_channels := mg_channels m @ [OneshotOpen],
            mg_next_sequence := wrap_add_u64 (mg_next_sequence m) 1,
            mg_pending := kv_put (pq_request_id r)
              \<lparr>pp_request = r, pp_dialog_turn_id = turn, pp_sender = c, pp_interactive = interactive,
               pp_sequence = mg_next_sequence m\<rparr> (mg_pending m)\<rparr>))"

fun insert_requests ::
  "string option \<Rightarrow> bool \<Rightarrow> permission_request list \<Rightarrow> 's permission_manager
   \<Rightarrow> pending_permission_receiver list \<times> 's permission_manager" where
  "insert_requests turn interactive [] m = ([], m)"
| "insert_requests turn interactive (r # rs) m =
     (let (receiver, m) = insert_request turn interactive r m;
          (receivers, m) = insert_requests turn interactive rs m
      in (receiver # receivers, m))"

definition register_section ::
  "string option \<Rightarrow> bool \<Rightarrow> permission_request list \<Rightarrow> 's permission_manager
   \<Rightarrow> pending_permission_receiver list \<times> 's permission_manager" where
  "register_section turn interactive rs m =
     (let (receivers, m) = insert_requests turn interactive rs m in (receivers, bump_revision m))"

fun append_audit ::
  "(permission_audit_record \<Rightarrow> 's \<Rightarrow> (port_error + unit) \<times> 's) \<Rightarrow> string \<Rightarrow> permission_audit_event \<Rightarrow> int
   \<Rightarrow> permission_request list \<Rightarrow> 's \<Rightarrow> port_error option \<times> 's" where
  "append_audit record_audit name event now [] s = (None, s)"
| "append_audit record_audit name event now (r # rs) s =
     (case record_audit \<lparr>au_audit_id = manager_audit_id (pq_request_id r) name, au_request = r, au_event = event,
                   au_timestamp_ms = now\<rparr> s of
        (Inl e, s) \<Rightarrow> (Some e, s)
      | (Inr _, s) \<Rightarrow> append_audit record_audit name event now rs s)"

text \<open>Removing an entry drops its sender; \<open>x\<close> is what its waiter sees.\<close>

definition remove_request ::
  "oneshot \<Rightarrow> string \<Rightarrow> 's permission_manager \<Rightarrow> pending_permission option \<times> 's permission_manager" where
  "remove_request x rid m =
     (case map_of (mg_pending m) rid of
        None \<Rightarrow> (None, m)
      | Some p \<Rightarrow> (Some p, send_outcome (pp_sender p) x (m\<lparr>mg_pending := kv_del rid (mg_pending m)\<rparr>)))"

fun rollback_requests :: "permission_request list \<Rightarrow> bool \<Rightarrow> 's permission_manager \<Rightarrow> bool \<times> 's permission_manager" where
  "rollback_requests [] removed m = (removed, m)"
| "rollback_requests (r # rs) removed m =
     (let (p, m) = remove_request OneshotClosed (pq_request_id r) m
      in rollback_requests rs (removed \<or> p \<noteq> None) m)"

definition rollback_section :: "permission_request list \<Rightarrow> 's permission_manager \<Rightarrow> 's permission_manager" where
  "rollback_section rs m =
     (let (removed, m) = rollback_requests rs False m in if removed then bump_revision m else m)"

definition register_batch_with_visibility ::
  "(permission_audit_record \<Rightarrow> 's \<Rightarrow> (port_error + unit) \<times> 's) \<Rightarrow> int \<Rightarrow> permission_request list
   \<Rightarrow> string option \<Rightarrow> bool \<Rightarrow> 's permission_manager
   \<Rightarrow> (permission_manager_error + pending_permission_receiver list) \<times> 's permission_manager" where
  "register_batch_with_visibility record_audit now rs turn interactive m =
     (if rs = [] then (Inr [], m)
      else case duplicate_request {} (mg_pending m) rs of
        Some rid \<Rightarrow> (Inl (DuplicateRequest rid), m)
      | None \<Rightarrow>
          (let (receivers, m) = register_section turn interactive rs m;
               (failure, s) = append_audit record_audit ''requested'' AuditRequested now rs (mg_store m);
               m = m\<lparr>mg_store := s\<rparr>
           in case failure of
                Some e \<Rightarrow> (Inl (AuditStoreError e), rollback_section rs m)
              | None \<Rightarrow> (Inr receivers, if interactive then fold (\<lambda>r. send_event (PermissionAsked r)) rs m else m)))"

definition register_batch where
  "register_batch record_audit now rs m = register_batch_with_visibility record_audit now rs None True m"

definition register_batch_for_turn where
  "register_batch_for_turn record_audit now rs turn m = register_batch_with_visibility record_audit now rs (Some turn) True m"

definition register_batch_non_interactive where
  "register_batch_non_interactive record_audit now rs m = register_batch_with_visibility record_audit now rs None False m"

definition register_batch_non_interactive_for_turn where
  "register_batch_non_interactive_for_turn record_audit now rs turn m =
     register_batch_with_visibility record_audit now rs (Some turn) False m"

section \<open>Presentation order\<close>

definition batch_id :: "pending_permission \<Rightarrow> string \<times> string" where
  "batch_id p = (pq_session_id (pp_request p), pq_round_id (pp_request p))"

fun first_registrations :: "pending_permission list \<Rightarrow> (string \<times> string \<Rightarrow> nat option) \<Rightarrow> (string \<times> string \<Rightarrow> nat option)" where
  "first_registrations [] firsts = firsts"
| "first_registrations (p # ps) firsts =
     first_registrations ps (firsts(batch_id p \<mapsto>
       (case firsts (batch_id p) of None \<Rightarrow> pp_sequence p | Some f \<Rightarrow> min f (pp_sequence p))))"

definition presentation_key ::
  "(string \<times> string \<Rightarrow> nat option) \<Rightarrow> pending_permission \<Rightarrow> nat \<times> nat \<times> nat \<times> string" where
  "presentation_key firsts p =
     (case firsts (batch_id p) of Some f \<Rightarrow> f | None \<Rightarrow> pp_sequence p,
      pq_order (pp_request p), pp_sequence p, pq_request_id (pp_request p))"

definition ordered_pending_requests ::
  "(pending_permission \<Rightarrow> bool) \<Rightarrow> 's permission_manager \<Rightarrow> permission_request list" where
  "ordered_pending_requests include m =
     (let entries = filter include (map snd (mg_pending m));
          firsts = first_registrations entries (\<lambda>_. None)
      in map pp_request (sort_key (presentation_key firsts) entries))"

definition pending_requests :: "'s permission_manager \<Rightarrow> permission_request list" where
  "pending_requests m = ordered_pending_requests (\<lambda>_. True) m"

definition interactive_pending_requests :: "'s permission_manager \<Rightarrow> permission_request list" where
  "interactive_pending_requests m = ordered_pending_requests pp_interactive m"

definition interactive_pending_snapshot :: "'s permission_manager \<Rightarrow> permission_request_snapshot" where
  "interactive_pending_snapshot m =
     \<lparr>sn_revision = mg_revision m, sn_requests = ordered_pending_requests pp_interactive m\<rparr>"

definition pending_request_dialog_turn_id :: "'s permission_manager \<Rightarrow> string \<Rightarrow> string option" where
  "pending_request_dialog_turn_id m rid = Option.bind (map_of (mg_pending m) rid) pp_dialog_turn_id"

section \<open>Replies and cancellation\<close>

definition grants_for_reply :: "permission_reply \<Rightarrow> int \<Rightarrow> permission_request \<Rightarrow> permission_grant list" where
  "grants_for_reply reply now r =
     (if reply \<noteq> ReplyAlways then []
      else map (\<lambda>resource. \<lparr>pg_project_id = pq_project_id r, pg_action = pq_action r, pg_resource = resource,
                           pg_created_at_ms = now\<rparr>) (rev (remdups (rev (pq_save_resources r)))))"

fun settle_requests ::
  "permission_wait_outcome \<Rightarrow> (string \<Rightarrow> permission_request_event) \<Rightarrow> permission_request list \<Rightarrow> bool
   \<Rightarrow> 's permission_manager \<Rightarrow> bool \<times> 's permission_manager" where
  "settle_requests outcome event [] removed m = (removed, m)"
| "settle_requests outcome event (r # rs) removed m =
     (case remove_request (OneshotSent outcome) (pq_request_id r) m of
        (None, m) \<Rightarrow> settle_requests outcome event rs removed m
      | (Some p, m) \<Rightarrow>
          settle_requests outcome event rs True
            (if pp_interactive p then send_event (event (pq_request_id r)) m else m))"

definition settle_section ::
  "permission_wait_outcome \<Rightarrow> (string \<Rightarrow> permission_request_event) \<Rightarrow> permission_request list
   \<Rightarrow> 's permission_manager \<Rightarrow> 's permission_manager" where
  "settle_section outcome event rs m =
     (let (removed, m) = settle_requests outcome event rs False m in if removed then bump_revision m else m)"

definition is_edited :: "permission_reply \<Rightarrow> bool" where
  "is_edited reply \<longleftrightarrow> (case reply of ReplyOnceWithInput _ \<Rightarrow> True | _ \<Rightarrow> False)"

definition reply_targets ::
  "permission_request \<Rightarrow> bool \<Rightarrow> 's permission_manager \<Rightarrow> permission_request list" where
  "reply_targets r following m =
     (if following
      then ordered_pending_requests
             (\<lambda>p. pq_session_id (pp_request p) = pq_session_id r \<and> pq_round_id (pp_request p) = pq_round_id r \<and>
                  pq_order (pp_request p) \<ge> pq_order r) m
      else [r])"

definition reply_from ::
  "(permission_grant list \<Rightarrow> permission_audit_record list \<Rightarrow> 's \<Rightarrow> (port_error + unit) \<times> 's) \<Rightarrow> int
   \<Rightarrow> string \<Rightarrow> bool \<Rightarrow> permission_reply \<Rightarrow> permission_reply_source \<Rightarrow> 's permission_manager
   \<Rightarrow> (permission_manager_error + permission_reply_resolution) \<times> 's permission_manager" where
  "reply_from commit now rid following reply source m =
     (if (case reply of ReplyOnceWithInput v \<Rightarrow> following \<or> \<not> json_is_object v | _ \<Rightarrow> False)
      then (Inl (InvalidReply ''Edited approval requires an object input and a single request''), m)
      else case map_of (mg_pending m) rid of
        None \<Rightarrow> (Inl (RequestNotFound rid), m)
      | Some p \<Rightarrow>
          (let r = pp_request p
           in if is_edited reply \<and> (rs_kind (pq_source r) \<noteq> FromToolCall \<or> pq_tool_call_id r = None)
              then (Inl (InvalidReply ''This permission owner does not support edited input''), m)
              else
                (let targets = reply_targets r following m;
                     grants = concat (map (grants_for_reply reply now) targets);
                     audit = map (\<lambda>q. \<lparr>au_audit_id = manager_audit_id (pq_request_id q) ''replied'', au_request = q,
                                       au_event = AuditReplied reply source, au_timestamp_ms = now\<rparr>) targets
                 in case commit grants audit (mg_store m) of
                      (Inl e, s) \<Rightarrow> (Inl (ReplyStoreError e), m\<lparr>mg_store := s\<rparr>)
                    | (Inr _, s) \<Rightarrow>
                        (Inr \<lparr>rr_request = r, rr_reply = reply, rr_saved_grants = grants,
                              rr_resolved_request_ids = map pq_request_id targets\<rparr>,
                         settle_section (WaitReplied reply) (\<lambda>i. PermissionReplied i reply source) targets
                           (m\<lparr>mg_store := s\<rparr>)))))"

definition manager_reply where
  "manager_reply commit now rid reply source m = reply_from commit now rid False reply source m"

definition cancel_requests ::
  "(permission_audit_record \<Rightarrow> 's \<Rightarrow> (port_error + unit) \<times> 's) \<Rightarrow> int \<Rightarrow> permission_request list \<Rightarrow> string
   \<Rightarrow> 's permission_manager \<Rightarrow> (permission_manager_error + unit) \<times> 's permission_manager" where
  "cancel_requests record_audit now rs reason m =
     (let (failure, s) = append_audit record_audit ''cancelled'' (AuditCancelled reason) now rs (mg_store m);
          m = m\<lparr>mg_store := s\<rparr>
      in case failure of
           Some e \<Rightarrow> (Inl (AuditStoreError e), m)
         | None \<Rightarrow> (Inr (), settle_section (WaitCancelled reason) (\<lambda>i. PermissionCancelled i reason) rs m))"

definition cancel_request ::
  "(permission_audit_record \<Rightarrow> 's \<Rightarrow> (port_error + unit) \<times> 's) \<Rightarrow> int \<Rightarrow> string \<Rightarrow> string
   \<Rightarrow> 's permission_manager \<Rightarrow> (permission_manager_error + bool) \<times> 's permission_manager" where
  "cancel_request record_audit now rid reason m =
     (case map_of (mg_pending m) rid of
        None \<Rightarrow> (Inr False, m)
      | Some p \<Rightarrow>
          (case cancel_requests record_audit now [pp_request p] reason m of
             (Inl e, m) \<Rightarrow> (Inl e, m)
           | (Inr _, m) \<Rightarrow> (Inr True, m)))"

definition cancel_session ::
  "(permission_audit_record \<Rightarrow> 's \<Rightarrow> (port_error + unit) \<times> 's) \<Rightarrow> int \<Rightarrow> string \<Rightarrow> string
   \<Rightarrow> 's permission_manager \<Rightarrow> (permission_manager_error + string list) \<times> 's permission_manager" where
  "cancel_session record_audit now sid reason m =
     (let rs = ordered_pending_requests (\<lambda>p. pq_session_id (pp_request p) = sid) m
      in case cancel_requests record_audit now rs reason m of
           (Inl e, m) \<Rightarrow> (Inl e, m)
         | (Inr _, m) \<Rightarrow> (Inr (map pq_request_id rs), m))"

section \<open>Invariant\<close>

abbreviation pend :: "'s permission_manager \<Rightarrow> string \<Rightarrow> pending_permission option" where
  "pend m \<equiv> map_of (mg_pending m)"

abbreviation request_ids :: "permission_request list \<Rightarrow> string set" where
  "request_ids rs \<equiv> pq_request_id ` set rs"

text \<open>The entries are filed under their ids, and the open channels are exactly their channels.\<close>

definition manager_inv :: "'s permission_manager \<Rightarrow> bool" where
  "manager_inv m \<longleftrightarrow>
     kv_ok (mg_pending m) \<and>
     (\<forall>k p. pend m k = Some p \<longrightarrow> k = pq_request_id (pp_request p) \<and> pp_sender p < length (mg_channels m) \<and>
        mg_channels m ! pp_sender p = OneshotOpen) \<and>
     (\<forall>k p k' p'. pend m k = Some p \<longrightarrow> pend m k' = Some p' \<longrightarrow> pp_sender p = pp_sender p' \<longrightarrow> k = k') \<and>
     (\<forall>c < length (mg_channels m). mg_channels m ! c = OneshotOpen \<longrightarrow> (\<exists>k p. pend m k = Some p \<and> pp_sender p = c))"

lemma manager_invD:
  assumes "manager_inv m" and "pend m k = Some p"
  shows "pq_request_id (pp_request p) = k" "pp_sender p < length (mg_channels m)"
    "mg_channels m ! pp_sender p = OneshotOpen" "pend m k' = Some p' \<Longrightarrow> pp_sender p' = pp_sender p \<Longrightarrow> k' = k"
proof -
  have "\<forall>k p. pend m k = Some p \<longrightarrow> k = pq_request_id (pp_request p) \<and> pp_sender p < length (mg_channels m) \<and>
      mg_channels m ! pp_sender p = OneshotOpen"
    using assms(1) unfolding manager_inv_def by (elim conjE)
  moreover have inj: "\<forall>k p k' p'. pend m k = Some p \<longrightarrow> pend m k' = Some p' \<longrightarrow> pp_sender p = pp_sender p' \<longrightarrow> k = k'"
    using assms(1) unfolding manager_inv_def by (elim conjE)
  ultimately show "pq_request_id (pp_request p) = k" "pp_sender p < length (mg_channels m)"
    "mg_channels m ! pp_sender p = OneshotOpen" using assms(2) by auto
  show "k' = k" if "pend m k' = Some p'" "pp_sender p' = pp_sender p"
    using inj [rule_format, OF that(1) assms(2) that(2)] .
qed

lemma manager_inv_open:
  "manager_inv m \<Longrightarrow> c < length (mg_channels m) \<Longrightarrow> mg_channels m ! c = OneshotOpen \<Longrightarrow>
   \<exists>k p. pend m k = Some p \<and> pp_sender p = c"
proof -
  assume "manager_inv m" and c: "c < length (mg_channels m)" "mg_channels m ! c = OneshotOpen"
  then have "\<forall>c < length (mg_channels m). mg_channels m ! c = OneshotOpen \<longrightarrow> (\<exists>k p. pend m k = Some p \<and> pp_sender p = c)"
    unfolding manager_inv_def by (elim conjE)
  with c show ?thesis by simp
qed

lemma manager_inv_kv: "manager_inv m \<Longrightarrow> kv_ok (mg_pending m)"
  unfolding manager_inv_def by (elim conjE)

lemma manager_inv_cong [inv_intros]:
  "manager_inv m \<Longrightarrow> mg_pending m' = mg_pending m \<Longrightarrow> mg_channels m' = mg_channels m \<Longrightarrow> manager_inv m'"
proof -
  assume inv: "manager_inv m" and eqs: "mg_pending m' = mg_pending m" "mg_channels m' = mg_channels m"
  show ?thesis using inv unfolding manager_inv_def eqs .
qed

lemma manager_new_inv [inv_intros]: "manager_inv (manager_new s)"
  by (simp add: manager_inv_def manager_new_def)

lemma fields_of_updates [simp]:
  "mg_pending (send_event e m) = mg_pending m" "mg_channels (send_event e m) = mg_channels m"
  "mg_revision (send_event e m) = mg_revision m" "mg_store (send_event e m) = mg_store m"
  "mg_events (send_event e m) = mg_events m @ [e]"
  "mg_pending (bump_revision m) = mg_pending m" "mg_channels (bump_revision m) = mg_channels m"
  "mg_store (bump_revision m) = mg_store m" "mg_events (bump_revision m) = mg_events m"
  "mg_revision (bump_revision m) = wrap_add_u64 (mg_revision m) 1"
  by (simp_all add: send_event_def bump_revision_def)

lemma remove_request_None: "pend m rid = None \<Longrightarrow> remove_request x rid m = (None, m)"
  by (simp add: remove_request_def)

lemma remove_request_Some:
  assumes "pend m rid = Some p"
  shows "fst (remove_request x rid m) = Some p"
    "pend (snd (remove_request x rid m)) = (pend m)(rid := None)"
    "mg_channels (snd (remove_request x rid m)) = (mg_channels m)[pp_sender p := x]"
    "mg_revision (snd (remove_request x rid m)) = mg_revision m"
    "mg_store (snd (remove_request x rid m)) = mg_store m"
    "mg_events (snd (remove_request x rid m)) = mg_events m"
  using assms by (auto simp: remove_request_def send_outcome_def)

lemma remove_request_inv:
  assumes "manager_inv m" and "x \<noteq> OneshotOpen"
  shows "manager_inv (snd (remove_request x rid m))"
proof (cases "pend m rid")
  case None
  then show ?thesis using assms by (simp add: remove_request_None)
next
  case (Some p)
  let ?m = "snd (remove_request x rid m)"
  note eqs = remove_request_Some [OF Some, of x]
  have ok: "kv_ok (mg_pending ?m)"
    using manager_inv_kv [OF assms(1)] Some by (simp add: remove_request_def send_outcome_def)
  show ?thesis
    unfolding manager_inv_def
  proof (intro conjI allI impI ok)
    fix k q assume "pend ?m k = Some q"
    then have q: "k \<noteq> rid" "pend m k = Some q" by (auto simp: eqs split: if_splits)
    then have "pp_sender q \<noteq> pp_sender p" using manager_invD(4) [OF assms(1) Some, of k q] by blast
    with manager_invD(1-3) [OF assms(1) q(2)]
    show "k = pq_request_id (pp_request q)" "pp_sender q < length (mg_channels ?m)"
      "mg_channels ?m ! pp_sender q = OneshotOpen"
      by (simp_all add: eqs)
  next
    fix k q k' q' assume "pend ?m k = Some q" "pend ?m k' = Some q'" "pp_sender q = pp_sender q'"
    then have "pend m k = Some q" "pend m k' = Some q'" "pp_sender q = pp_sender q'"
      by (auto simp: eqs split: if_splits)
    then show "k = k'" using manager_invD(4) [OF assms(1), of k' q' k q] by blast
  next
    fix c assume c: "c < length (mg_channels ?m)" "mg_channels ?m ! c = OneshotOpen"
    then have "c < length (mg_channels m)" by (simp add: eqs)
    moreover have "c \<noteq> pp_sender p" using c assms(2) by (auto simp: eqs)
    ultimately obtain k q where q: "pend m k = Some q" "pp_sender q = c"
      using manager_inv_open [OF assms(1), of c] c by (auto simp: eqs)
    with \<open>c \<noteq> pp_sender p\<close> Some have "pend ?m k = Some q" by (auto simp: eqs)
    with q(2) show "\<exists>k q. pend ?m k = Some q \<and> pp_sender q = c" by blast
  qed
qed

section \<open>Removing a list of requests\<close>

text \<open>
  \<open>rollback_requests\<close> and \<open>settle_requests\<close> are one loop, with another word to the waiter and with
  or without events.
\<close>

fun remove_all ::
  "oneshot \<Rightarrow> (string \<Rightarrow> permission_request_event) option \<Rightarrow> permission_request list \<Rightarrow> bool
   \<Rightarrow> 's permission_manager \<Rightarrow> bool \<times> 's permission_manager" where
  "remove_all x event [] removed m = (removed, m)"
| "remove_all x event (r # rs) removed m =
     (case remove_request x (pq_request_id r) m of
        (None, m) \<Rightarrow> remove_all x event rs removed m
      | (Some p, m) \<Rightarrow>
          remove_all x event rs True
            (case event of
               Some f \<Rightarrow> (if pp_interactive p then send_event (f (pq_request_id r)) m else m)
             | None \<Rightarrow> m))"

lemma settle_requests_all: "settle_requests w f rs removed m = remove_all (OneshotSent w) (Some f) rs removed m"
  by (induction rs arbitrary: removed m) (auto split: prod.splits option.splits)

lemma rollback_requests_all: "rollback_requests rs removed m = remove_all OneshotClosed None rs removed m"
  by (induction rs arbitrary: removed m) (auto split: prod.splits option.splits)

text \<open>What a removal does, for every request of the list.\<close>

definition removal ::
  "oneshot \<Rightarrow> (string \<Rightarrow> permission_request_event) option \<Rightarrow> string set \<Rightarrow> 's permission_manager
   \<Rightarrow> 's permission_manager \<Rightarrow> bool" where
  "removal x event ids m m' \<longleftrightarrow>
     manager_inv m' \<and> pend m' = pend m |` (- ids) \<and> mg_store m' = mg_store m \<and>
     length (mg_channels m') = length (mg_channels m) \<and>
     (\<forall>k \<in> ids. \<forall>p. pend m k = Some p \<longrightarrow> mg_channels m' ! pp_sender p = x) \<and>
     (\<forall>c < length (mg_channels m). (\<forall>k \<in> ids. \<forall>p. pend m k = Some p \<longrightarrow> pp_sender p \<noteq> c) \<longrightarrow>
        mg_channels m' ! c = mg_channels m ! c) \<and>
     (\<exists>told. mg_events m' = mg_events m @ (case event of None \<Rightarrow> [] | Some f \<Rightarrow> map f told) \<and> distinct told \<and>
        set told = {k \<in> ids. \<exists>p. pend m k = Some p \<and> pp_interactive p})"

lemma removal_step:
  assumes "manager_inv m" and "x \<noteq> OneshotOpen" and p: "pend m k = Some p"
    and m1: "m1 = snd (remove_request x k m)"
    and m2: "m2 = (case event of Some f \<Rightarrow> (if pp_interactive p then send_event (f k) m1 else m1) | None \<Rightarrow> m1)"
    and rest: "removal x event ids m2 m'"
  shows "removal x event (insert k ids) m m'"
proof -
  note eqs = remove_request_Some [OF p, of x, folded m1]
  have same: "pend m2 = (pend m)(k := None)" "mg_channels m2 = (mg_channels m)[pp_sender p := x]"
    "mg_store m2 = mg_store m"
    unfolding m2 by (auto simp: eqs split: option.splits)
  obtain told where told: "mg_events m' = mg_events m2 @ (case event of None \<Rightarrow> [] | Some f \<Rightarrow> map f told)" "distinct told"
    "set told = {k \<in> ids. \<exists>p. pend m2 k = Some p \<and> pp_interactive p}"
    using rest unfolding removal_def by blast
  let ?told = "if pp_interactive p then k # told else told"
  have ev: "mg_events m' = mg_events m @ (case event of None \<Rightarrow> [] | Some f \<Rightarrow> map f ?told)"
    using told(1) unfolding m2 by (auto simp: eqs split: option.splits)
  have d: "distinct ?told" using told(2,3) same(1) by auto
  have set: "set ?told = {k' \<in> insert k ids. \<exists>p. pend m k' = Some p \<and> pp_interactive p}"
  proof (rule set_eqI)
    fix k'
    show "k' \<in> set ?told \<longleftrightarrow> k' \<in> {k' \<in> insert k ids. \<exists>p. pend m k' = Some p \<and> pp_interactive p}"
      using p by (cases "k' = k"; cases "pp_interactive p") (simp_all add: told(3) same(1))
  qed
  have other: "pp_sender q \<noteq> pp_sender p" if "pend m k' = Some q" "k' \<noteq> k" for k' q
    using manager_invD(4) [OF assms(1) p, of k' q] that by blast
  have sender: "pp_sender p < length (mg_channels m)" using manager_invD(2) [OF assms(1) p] .
  have chan: "mg_channels m' ! pp_sender q = x" if k': "k' \<in> insert k ids" "pend m k' = Some q" for k' q
  proof (cases "k' = k")
    case True
    have "\<forall>k \<in> ids. \<forall>q. pend m2 k = Some q \<longrightarrow> pp_sender q \<noteq> pp_sender p"
      using other same(1) by (auto split: if_splits)
    with rest sender have "mg_channels m' ! pp_sender p = mg_channels m2 ! pp_sender p"
      unfolding removal_def by (simp add: same)
    with True k' p sender show ?thesis by (simp add: same)
  next
    case False
    with k' have "k' \<in> ids" "pend m2 k' = Some q" by (simp_all add: same(1))
    with rest show ?thesis unfolding removal_def by blast
  qed
  have keep: "mg_channels m' ! c = mg_channels m ! c"
    if "c < length (mg_channels m)" "\<forall>k' \<in> insert k ids. \<forall>q. pend m k' = Some q \<longrightarrow> pp_sender q \<noteq> c" for c
  proof -
    have "\<forall>k' \<in> ids. \<forall>q. pend m2 k' = Some q \<longrightarrow> pp_sender q \<noteq> c" using that(2) same(1) by (auto split: if_splits)
    with rest that(1) have "mg_channels m' ! c = mg_channels m2 ! c" unfolding removal_def by (simp add: same)
    with that p show ?thesis by (auto simp: same)
  qed
  have base: "manager_inv m'" "pend m' = pend m |` (- insert k ids)" "mg_store m' = mg_store m"
    "length (mg_channels m') = length (mg_channels m)"
    using rest unfolding removal_def by (auto simp: same restrict_map_def)
  show ?thesis unfolding removal_def using base chan keep ev d set by blast
qed

lemma remove_all_spec:
  assumes "manager_inv m" and "x \<noteq> OneshotOpen"
  shows "removal x event (request_ids rs) m (snd (remove_all x event rs removed m)) \<and>
    (fst (remove_all x event rs removed m) \<longleftrightarrow> removed \<or> (\<exists>k \<in> request_ids rs. pend m k \<noteq> None)) \<and>
    mg_revision (snd (remove_all x event rs removed m)) = mg_revision m"
  using assms(1)
proof (induction rs arbitrary: removed m)
  case Nil
  then show ?case by (auto simp: removal_def split: option.split intro: exI [of _ "[]"])
next
  case (Cons r rs)
  let ?k = "pq_request_id r"
  show ?case
  proof (cases "pend m ?k")
    case None
    have "removal x event (insert ?k ids) m m'" if "removal x event ids m m'" for ids m'
      using that None unfolding removal_def by (auto simp: restrict_map_def fun_eq_iff cong: conj_cong)
    with Cons.IH [OF Cons.prems, of removed] None show ?thesis by (auto simp: remove_request_None)
  next
    case (Some p)
    define m1 where "m1 = snd (remove_request x ?k m)"
    define m2 where "m2 = (case event of Some f \<Rightarrow> (if pp_interactive p then send_event (f ?k) m1 else m1) | None \<Rightarrow> m1)"
    have rm: "remove_request x ?k m = (Some p, m1)"
      using remove_request_Some(1) [OF Some, of x] by (simp add: m1_def prod_eq_iff)
    have run: "remove_all x event (r # rs) removed m = remove_all x event rs True m2"
      using rm by (simp add: m2_def)
    have "manager_inv m1" unfolding m1_def by (rule remove_request_inv [OF Cons.prems assms(2)])
    then have inv: "manager_inv m2"
      unfolding m2_def by (auto split: option.split intro: manager_inv_cong)
    have rev: "mg_revision m2 = mg_revision m"
      using remove_request_Some(4) [OF Some, of x] by (auto simp: m1_def m2_def split: option.split)
    from Cons.IH [OF inv, of True] removal_step [OF Cons.prems assms(2) Some m1_def m2_def] Some
    show ?thesis unfolding run by (simp add: rev)
  qed
qed

lemma settle_section_spec:
  assumes "manager_inv m"
  shows "removal (OneshotSent w) (Some f) (request_ids rs) m (settle_section w f rs m)"
    "mg_revision (settle_section w f rs m) =
      (if \<exists>k \<in> request_ids rs. pend m k \<noteq> None then wrap_add_u64 (mg_revision m) 1 else mg_revision m)"
  using remove_all_spec [OF assms, of "OneshotSent w" "Some f" rs False]
  by (auto simp: settle_section_def settle_requests_all removal_def split: prod.splits intro: manager_inv_cong)

lemma rollback_section_spec:
  assumes "manager_inv m"
  shows "removal OneshotClosed None (request_ids rs) m (rollback_section rs m)"
    "mg_revision (rollback_section rs m) =
      (if \<exists>k \<in> request_ids rs. pend m k \<noteq> None then wrap_add_u64 (mg_revision m) 1 else mg_revision m)"
  using remove_all_spec [OF assms, of OneshotClosed None rs False]
  by (auto simp: rollback_section_def rollback_requests_all removal_def split: prod.splits intro: manager_inv_cong)

section \<open>Registration\<close>

lemma duplicate_request_None:
  "duplicate_request seen pending rs = None \<longleftrightarrow>
     distinct (map pq_request_id rs) \<and> request_ids rs \<inter> seen = {} \<and>
     (\<forall>k \<in> request_ids rs. map_of pending k = None)"
  by (induction rs arbitrary: seen) auto

lemma insert_request_eqs:
  fixes m :: "'s permission_manager"
  defines "p \<equiv> \<lambda>turn interactive r. \<lparr>pp_request = r, pp_dialog_turn_id = turn, pp_sender = length (mg_channels m),
      pp_interactive = interactive, pp_sequence = mg_next_sequence m\<rparr>"
  shows "fst (insert_request turn interactive r m) = \<lparr>rv_request_id = pq_request_id r, rv_channel = length (mg_channels m)\<rparr>"
    "pend (snd (insert_request turn interactive r m)) = (pend m)(pq_request_id r \<mapsto> p turn interactive r)"
    "mg_channels (snd (insert_request turn interactive r m)) = mg_channels m @ [OneshotOpen]"
    "mg_revision (snd (insert_request turn interactive r m)) = mg_revision m"
    "mg_store (snd (insert_request turn interactive r m)) = mg_store m"
    "mg_events (snd (insert_request turn interactive r m)) = mg_events m"
  by (auto simp: insert_request_def p_def Let_def)

lemma insert_request_inv:
  assumes inv: "manager_inv m" and new: "pend m (pq_request_id r) = None"
  shows "manager_inv (snd (insert_request turn interactive r m))"
proof -
  let ?m = "snd (insert_request turn interactive r m)" and ?n = "length (mg_channels m)"
  note eqs = insert_request_eqs [of turn interactive r m]
  have ok: "kv_ok (mg_pending ?m)"
    using manager_inv_kv [OF inv] by (simp add: insert_request_def Let_def)
  have old: "pp_sender q < ?n \<and> pq_request_id (pp_request q) = k \<and> mg_channels m ! pp_sender q = OneshotOpen"
    if "pend m k = Some q" for k q
    using manager_invD [OF inv that] by blast
  have inj: "k = k'" if "pend m k = Some q" "pend m k' = Some q'" "pp_sender q = pp_sender q'" for k q k' q'
    using manager_invD(4) [OF inv that(2,1,3)] .
  show ?thesis
    unfolding manager_inv_def
  proof (intro conjI allI impI ok)
    fix k q assume "pend ?m k = Some q"
    then show "k = pq_request_id (pp_request q)" "pp_sender q < length (mg_channels ?m)"
      "mg_channels ?m ! pp_sender q = OneshotOpen"
      using old [of k q] by (auto simp: eqs nth_append split: if_splits)
  next
    fix k q k' q' assume a: "pend ?m k = Some q" "pend ?m k' = Some q'" "pp_sender q = pp_sender q'"
    show "k = k'"
    proof (cases "k = pq_request_id r"; cases "k' = pq_request_id r")
      assume "k \<noteq> pq_request_id r" "k' \<noteq> pq_request_id r"
      with a show ?thesis by (intro inj [of k q k' q']) (simp_all add: eqs)
    next
      assume "k = pq_request_id r" "k' \<noteq> pq_request_id r"
      with a old [of k' q'] show ?thesis by (auto simp: eqs)
    next
      assume "k \<noteq> pq_request_id r" "k' = pq_request_id r"
      with a old [of k q] show ?thesis by (auto simp: eqs)
    qed simp
  next
    fix c assume c: "c < length (mg_channels ?m)" "mg_channels ?m ! c = OneshotOpen"
    show "\<exists>k q. pend ?m k = Some q \<and> pp_sender q = c"
    proof (cases "c < ?n")
      case True
      with c obtain k q where q: "pend m k = Some q" "pp_sender q = c"
        using manager_inv_open [OF inv True] by (auto simp: eqs nth_append)
      with new have "pend ?m k = Some q" by (auto simp: eqs)
      with q show ?thesis by blast
    next
      case False
      with c have "c = ?n" by (simp add: eqs)
      then show ?thesis by (intro exI [of _ "pq_request_id r"]) (simp add: eqs)
    qed
  qed
qed

definition registered ::
  "string option \<Rightarrow> bool \<Rightarrow> 's permission_manager \<Rightarrow> permission_request \<Rightarrow> pending_permission_receiver \<Rightarrow> bool" where
  "registered turn interactive m r rv \<longleftrightarrow> rv_request_id rv = pq_request_id r \<and>
     (\<exists>p. pend m (pq_request_id r) = Some p \<and> pp_request p = r \<and> pp_sender p = rv_channel rv \<and>
        pp_dialog_turn_id p = turn \<and> pp_interactive p = interactive)"

lemma insert_requests_spec:
  assumes "manager_inv m" and "distinct (map pq_request_id rs)" and "\<forall>k \<in> request_ids rs. pend m k = None"
    and "insert_requests turn interactive rs m = (rvs, m')"
  shows "manager_inv m' \<and> mg_store m' = mg_store m \<and> mg_revision m' = mg_revision m \<and> mg_events m' = mg_events m \<and>
    mg_channels m' = mg_channels m @ replicate (length rs) OneshotOpen \<and>
    list_all2 (registered turn interactive m') rs rvs \<and>
    (\<forall>k. k \<notin> request_ids rs \<longrightarrow> pend m' k = pend m k)"
  using assms
proof (induction rs arbitrary: m rvs)
  case (Cons r rs)
  define m1 where "m1 = snd (insert_request turn interactive r m)"
  note eqs = insert_request_eqs [of turn interactive r m, folded m1_def]
  from Cons.prems(4) obtain rv rvs' where run: "insert_requests turn interactive rs m1 = (rvs', m')"
    "rvs = rv # rvs'" "rv = fst (insert_request turn interactive r m)"
    by (auto simp: m1_def split: prod.splits)
  have inv: "manager_inv m1"
    unfolding m1_def using Cons.prems by (intro insert_request_inv) simp_all
  have new: "\<forall>k \<in> request_ids rs. pend m1 k = None"
  proof
    fix k assume "k \<in> request_ids rs"
    then show "pend m1 k = None" using Cons.prems(2,3) by (cases "k = pq_request_id r") (auto simp: eqs)
  qed
  have d: "distinct (map pq_request_id rs)" using Cons.prems(2) by simp
  note IH = Cons.IH [OF inv d new run(1)]
  have "pend m' (pq_request_id r) = pend m1 (pq_request_id r)" using IH Cons.prems(2) by simp
  then have "registered turn interactive m' r rv"
    unfolding registered_def run(3) by (simp add: eqs)
  with IH run(2) show ?case by (simp add: eqs)
qed simp

lemma send_asked [simp]:
  "mg_pending (fold (\<lambda>r. send_event (PermissionAsked r)) rs m) = mg_pending m"
  "mg_channels (fold (\<lambda>r. send_event (PermissionAsked r)) rs m) = mg_channels m"
  "mg_revision (fold (\<lambda>r. send_event (PermissionAsked r)) rs m) = mg_revision m"
  "mg_store (fold (\<lambda>r. send_event (PermissionAsked r)) rs m) = mg_store m"
  "mg_events (fold (\<lambda>r. send_event (PermissionAsked r)) rs m) = mg_events m @ map PermissionAsked rs"
  by (induction rs arbitrary: m) simp_all

lemma registered_cong: "mg_pending m' = mg_pending m \<Longrightarrow> registered t i m' = registered t i m"
  by (simp add: registered_def fun_eq_iff)

lemma registered_ids: "list_all2 (registered t i m) rs rvs \<Longrightarrow> \<forall>k \<in> request_ids rs. pend m k \<noteq> None"
  by (induction rule: list_all2_induct) (auto simp: registered_def)

text \<open>
  What a registration did: nothing, or an insertion that was rolled back, or all of it.
\<close>

lemma register_cases:
  assumes inv: "manager_inv m" and run: "register_batch_with_visibility record_audit now rs turn interactive m = (res, m')"
  obtains (empty) "rs = []" "res = Inr []" "m' = m"
  | (duplicate) rid where "res = Inl (DuplicateRequest rid)" "m' = m"
      "\<not> distinct (map pq_request_id rs) \<or> (\<exists>k \<in> request_ids rs. pend m k \<noteq> None)"
  | (not_audited) e s m1 rvs where "register_section turn interactive rs m = (rvs, m1)" "manager_inv m1"
      "append_audit record_audit ''requested'' AuditRequested now rs (mg_store m) = (Some e, s)"
      "res = Inl (AuditStoreError e)" "m' = rollback_section rs (m1\<lparr>mg_store := s\<rparr>)"
      "pend m = pend m1 |` (- request_ids rs)" "mg_events m1 = mg_events m"
      "mg_channels m1 = mg_channels m @ replicate (length rs) OneshotOpen" "list_all2 (registered turn interactive m1) rs rvs"
      "\<forall>k \<in> request_ids rs. pend m k = None"
  | (asked) s m1 rvs where "register_section turn interactive rs m = (rvs, m1)" "rs \<noteq> []" "manager_inv m1"
      "append_audit record_audit ''requested'' AuditRequested now rs (mg_store m) = (None, s)"
      "res = Inr rvs" "m' = (if interactive then fold (\<lambda>r. send_event (PermissionAsked r)) rs (m1\<lparr>mg_store := s\<rparr>)
         else m1\<lparr>mg_store := s\<rparr>)"
      "pend m = pend m1 |` (- request_ids rs)" "mg_events m1 = mg_events m"
      "mg_channels m1 = mg_channels m @ replicate (length rs) OneshotOpen" "list_all2 (registered turn interactive m1) rs rvs"
      "distinct (map pq_request_id rs)" "\<forall>k \<in> request_ids rs. pend m k = None"
proof (cases "rs = [] \<or> duplicate_request {} (mg_pending m) rs \<noteq> None")
  case True
  with run show ?thesis
    using empty duplicate duplicate_request_None [of "{}" "mg_pending m" rs]
    by (auto simp: register_batch_with_visibility_def split: if_splits)
next
  case False
  then have fresh: "rs \<noteq> []" "duplicate_request {} (mg_pending m) rs = None" by simp_all
  then have new: "distinct (map pq_request_id rs)" "\<forall>k \<in> request_ids rs. pend m k = None"
    using duplicate_request_None [of "{}" "mg_pending m" rs] by simp_all
  obtain rvs m0 where ins: "insert_requests turn interactive rs m = (rvs, m0)" by fastforce
  define m1 where "m1 = bump_revision m0"
  note spec = insert_requests_spec [OF inv new ins]
  have sec: "register_section turn interactive rs m = (rvs, m1)" by (simp add: register_section_def ins m1_def)
  have inv1: "manager_inv m1" using spec by (auto simp: m1_def intro: manager_inv_cong)
  have m1: "mg_store m1 = mg_store m" "mg_events m1 = mg_events m"
    "mg_channels m1 = mg_channels m @ replicate (length rs) OneshotOpen" "list_all2 (registered turn interactive m1) rs rvs"
    using spec registered_cong [of m1 m0] by (simp_all add: m1_def)
  have pend: "pend m = pend m1 |` (- request_ids rs)"
    using spec new by (auto simp: m1_def restrict_map_def fun_eq_iff)
  obtain failure s where "append_audit record_audit ''requested'' AuditRequested now rs (mg_store m) = (failure, s)" by fastforce
  with run fresh sec m1 show ?thesis
    using not_audited [OF sec inv1 _ _ _ pend m1(2-4) new(2)] asked [OF sec fresh(1) inv1 _ _ _ pend m1(2-4) new]
    by (cases failure) (simp_all add: register_batch_with_visibility_def Let_def)
qed

lemma rolled_back:
  assumes inv: "manager_inv m" and inv1: "manager_inv m1"
    and old: "pend m = pend m1 |` (- request_ids rs)" "mg_events m1 = mg_events m"
      "mg_channels m1 = mg_channels m @ replicate n OneshotOpen"
    and m': "m' = rollback_section rs (m1\<lparr>mg_store := s\<rparr>)"
  shows "manager_inv m' \<and> pend m' = pend m \<and> mg_events m' = mg_events m \<and> mg_store m' = s \<and>
    mg_channels m' = mg_channels m @ replicate n OneshotClosed"
proof -
  have "manager_inv (m1\<lparr>mg_store := s\<rparr>)" using inv1 by (rule manager_inv_cong) simp_all
  from rollback_section_spec(1) [OF this, of rs, folded m']
  have r: "manager_inv m'" "pend m' = pend m" "mg_store m' = s" "mg_events m' = mg_events m"
    "length (mg_channels m') = length (mg_channels m) + n"
    and closed: "\<forall>k \<in> request_ids rs. \<forall>p. pend m1 k = Some p \<longrightarrow> mg_channels m' ! pp_sender p = OneshotClosed"
    and kept: "\<forall>c < length (mg_channels m) + n. (\<forall>k \<in> request_ids rs. \<forall>p. pend m1 k = Some p \<longrightarrow> pp_sender p \<noteq> c) \<longrightarrow>
      mg_channels m' ! c = mg_channels m1 ! c"
    unfolding removal_def by (simp_all add: old)
  have "mg_channels m' ! c = (mg_channels m @ replicate n OneshotClosed) ! c" if c: "c < length (mg_channels m) + n" for c
  proof (cases "\<exists>k \<in> request_ids rs. \<exists>p. pend m1 k = Some p \<and> pp_sender p = c")
    case True
    then obtain k p where p: "k \<in> request_ids rs" "pend m1 k = Some p" "pp_sender p = c" by blast
    have "\<not> c < length (mg_channels m)"
    proof
      assume lt: "c < length (mg_channels m)"
      with manager_invD(3) [OF inv1 p(2)] p(3) have "mg_channels m ! c = OneshotOpen" by (simp add: old nth_append)
      then obtain k' p' where p': "pend m k' = Some p'" "pp_sender p' = c" using manager_inv_open [OF inv lt] by blast
      then have "pend m1 k' = Some p'" "k' \<notin> request_ids rs" unfolding old by (auto simp: restrict_map_def split: if_splits)
      with manager_invD(4) [OF inv1 p(2), of k' p'] p p'(2) show False by auto
    qed
    with closed p c show ?thesis by (auto simp: nth_append)
  next
    case False
    with kept c have "mg_channels m' ! c = mg_channels m1 ! c" by blast
    moreover have "c < length (mg_channels m)"
    proof (rule ccontr)
      assume ge: "\<not> c < length (mg_channels m)"
      with c have "mg_channels m1 ! c = OneshotOpen" "c < length (mg_channels m1)" by (simp_all add: old nth_append)
      then obtain k p where "pend m1 k = Some p" "pp_sender p = c" using manager_inv_open [OF inv1] by blast
      with False have "pend m k = Some p" "pp_sender p = c" unfolding old by (auto simp: restrict_map_def)
      with manager_invD(2) [OF inv] ge show False by blast
    qed
    ultimately show ?thesis by (simp add: old nth_append)
  qed
  then have "mg_channels m' = mg_channels m @ replicate n OneshotClosed"
    by (intro nth_equalityI) (simp_all add: r)
  with r show ?thesis by blast
qed

section \<open>The requests of a reply\<close>

lemma ordered_pending_requests_set:
  assumes "manager_inv m"
  shows "set (ordered_pending_requests include m) = {pp_request p |p. \<exists>k. pend m k = Some p \<and> include p}"
proof -
  have "snd ` set (mg_pending m) = {p. \<exists>k. pend m k = Some p}"
    using kv_in_set_iff [OF manager_inv_kv [OF assms]] by force
  then show ?thesis unfolding ordered_pending_requests_def Let_def by auto
qed

lemma ordered_pending_requests_distinct:
  assumes "manager_inv m"
  shows "distinct (map pq_request_id (ordered_pending_requests include m))"
proof -
  have keys: "map (\<lambda>p. pq_request_id (pp_request p)) (map snd (mg_pending m)) = map fst (mg_pending m)"
    using manager_invD(1) [OF assms] kv_in_set_iff [OF manager_inv_kv [OF assms]] by force
  have "distinct (map (\<lambda>p. pq_request_id (pp_request p)) (map snd (mg_pending m)))"
    using manager_inv_kv [OF assms] unfolding keys by (simp add: kv_ok_def)
  then have "distinct (map (\<lambda>p. pq_request_id (pp_request p)) (filter include (map snd (mg_pending m))))"
    by (rule distinct_map_filter)
  then have "distinct (map (\<lambda>p. pq_request_id (pp_request p)) (sort_key f (filter include (map snd (mg_pending m)))))"
    for f :: "pending_permission \<Rightarrow> nat \<times> nat \<times> nat \<times> string"
    by (simp only: distinct_map distinct_sort set_sort)
  then show ?thesis by (simp add: ordered_pending_requests_def Let_def comp_def)
qed

definition reply_entries :: "pending_permission \<Rightarrow> bool \<Rightarrow> 's permission_manager \<Rightarrow> pending_permission set" where
  "reply_entries p following m =
     (if following
      then {q. (\<exists>k. pend m k = Some q) \<and> batch_id q = batch_id p \<and> pq_order (pp_request q) \<ge> pq_order (pp_request p)}
      else {p})"

lemma reply_targets_set:
  assumes "manager_inv m" and "pend m rid = Some p"
  shows "set (reply_targets (pp_request p) following m) = pp_request ` reply_entries p following m"
    "distinct (map pq_request_id (reply_targets (pp_request p) following m))"
  using ordered_pending_requests_set [OF assms(1)] ordered_pending_requests_distinct [OF assms(1)]
  by (auto simp: reply_targets_def reply_entries_def batch_id_def)

lemma reply_entries_pending:
  assumes "manager_inv m" and "pend m rid = Some p" and "q \<in> reply_entries p following m"
  shows "pend m (pq_request_id (pp_request q)) = Some q"
  using assms manager_invD(1) [OF assms(1)] by (auto simp: reply_entries_def split: if_splits)

lemma grants_for_reply_keys:
  "grant_key ` set (concat (map (grants_for_reply reply now) rs)) =
     (if reply = ReplyAlways
      then {(pq_project_id r, pq_action r, x) |r x. r \<in> set rs \<and> x \<in> set (pq_save_resources r)} else {})"
  by (auto simp: grants_for_reply_def grant_key_def image_iff)

section \<open>The manager on any stores\<close>

context permission_stores
begin

lemma append_audit_granted: "append_audit record_audit name event now rs s = (res, s') \<Longrightarrow> granted s' = granted s"
proof (induction rs arbitrary: s)
  case (Cons r rs)
  then show ?case
    using append_error append_granted
    by (fastforce split: prod.splits sum.splits)
qed simp

lemma register_all_or_nothing:
  assumes "manager_inv m" and "register_batch_with_visibility record_audit now rs turn interactive m = (res, m')"
  shows "manager_inv m' \<and> granted (mg_store m') = granted (mg_store m) \<and>
    (case res of
       Inl e \<Rightarrow> pend m' = pend m \<and> mg_events m' = mg_events m \<and>
         (\<exists>n. mg_channels m' = mg_channels m @ replicate n OneshotClosed)
     | Inr rvs \<Rightarrow> distinct (map pq_request_id rs) \<and> pend m = pend m' |` (- request_ids rs) \<and>
         list_all2 (registered turn interactive m') rs rvs \<and>
         mg_channels m' = mg_channels m @ replicate (length rs) OneshotOpen \<and>
         mg_events m' = mg_events m @ (if interactive then map PermissionAsked rs else []))"
  using assms
proof (cases rule: register_cases)
  case empty
  then show ?thesis using assms(1) by (simp add: restrict_map_def)
next
  case (duplicate rid)
  then show ?thesis using assms(1) by (auto intro: exI [of _ 0])
next
  case (not_audited e s m1 rvs)
  have "granted s = granted (mg_store m)" using append_audit_granted [OF not_audited(3)] .
  with rolled_back [OF assms(1) not_audited(2,6,7,8,5)] not_audited(4) show ?thesis by auto
next
  case (asked s m1 rvs)
  have m': "mg_pending m' = mg_pending m1" "mg_channels m' = mg_channels m1" "mg_store m' = s"
    "mg_events m' = mg_events m1 @ (if interactive then map PermissionAsked rs else [])"
    using asked(6) by simp_all
  have "manager_inv m'" using asked(3) m'(1,2) by (rule manager_inv_cong)
  moreover have "granted s = granted (mg_store m)" using append_audit_granted [OF asked(4)] .
  moreover have "list_all2 (registered turn interactive m') rs rvs" using asked(10) registered_cong [OF m'(1)] by simp
  ultimately show ?thesis using asked m' by simp
qed

lemma reply_is_atomic:
  assumes inv: "manager_inv m" and run: "reply_from commit now rid following reply source m = (res, m')"
  shows "manager_inv m' \<and>
    (case res of
       Inl e \<Rightarrow> m' = m\<lparr>mg_store := mg_store m'\<rparr> \<and> granted (mg_store m') = granted (mg_store m) \<and>
         facts (mg_store m') = facts (mg_store m)
     | Inr r \<Rightarrow> \<exists>p. pend m rid = Some p \<and>
         (let entries = reply_entries p following m; ids = (\<lambda>q. pq_request_id (pp_request q)) ` entries
          in set (rr_resolved_request_ids r) = ids \<and> pend m' = pend m |` (- ids) \<and>
             (\<forall>q \<in> entries. mg_channels m' ! pp_sender q = OneshotSent (WaitReplied reply)) \<and>
             granted (mg_store m') = granted (mg_store m) \<union>
               (if reply = ReplyAlways
                then {(pq_project_id (pp_request q), pq_action (pp_request q), x) |q x.
                      q \<in> entries \<and> x \<in> set (pq_save_resources (pp_request q))} else {}) \<and>
             (\<exists>told. mg_events m' = mg_events m @ map (\<lambda>i. PermissionReplied i reply source) told \<and> distinct told \<and>
                set told = {i \<in> ids. \<exists>q. pend m i = Some q \<and> pp_interactive q})))"
proof (cases res)
  case (Inl e)
  have same: "m = m\<lparr>mg_store := mg_store m\<rparr>" by simp
  have "m' = m \<or> (\<exists>grants audit s. commit grants audit (mg_store m) = (Inl x, s) \<and> m' = m\<lparr>mg_store := s\<rparr>)" if "e = ReplyStoreError x" for x
    using run Inl that by (auto simp: reply_from_def Let_def split: if_splits option.splits prod.splits sum.splits)
  moreover have "m' = m" if "\<forall>x. e \<noteq> ReplyStoreError x"
    using run Inl that by (auto simp: reply_from_def Let_def split: if_splits option.splits prod.splits sum.splits)
  ultimately consider "m' = m" | grants audit x s where "commit grants audit (mg_store m) = (Inl x, s)" "m' = m\<lparr>mg_store := s\<rparr>"
    by blast
  then show ?thesis
  proof cases
    case 1
    with inv show ?thesis by (simp add: Inl)
  next
    case 2
    have "manager_inv m'" using inv by (rule manager_inv_cong) (simp_all add: 2)
    with commit_error [OF 2(1)] show ?thesis by (simp add: Inl 2(2))
  qed
next
  case (Inr r)
  obtain p where p: "pend m rid = Some p"
    using run Inr by (cases "pend m rid") (auto simp: reply_from_def split: if_splits)
  define targets where "targets = reply_targets (pp_request p) following m"
  define grants where "grants = concat (map (grants_for_reply reply now) targets)"
  obtain audit s where commit: "commit grants audit (mg_store m) = (Inr (), s)"
    and r: "rr_resolved_request_ids r = map pq_request_id targets"
    and m': "m' = settle_section (WaitReplied reply) (\<lambda>i. PermissionReplied i reply source) targets (m\<lparr>mg_store := s\<rparr>)"
    using run Inr p
    by (auto simp: reply_from_def Let_def targets_def grants_def split: if_splits prod.splits sum.splits)
  have "manager_inv (m\<lparr>mg_store := s\<rparr>)" using inv by (rule manager_inv_cong) simp_all
  note settled = settle_section_spec(1) [OF this, of "WaitReplied reply" "\<lambda>i. PermissionReplied i reply source" targets, folded m']
  let ?entries = "reply_entries p following m"
  let ?ids = "(\<lambda>q. pq_request_id (pp_request q)) ` ?entries"
  have targets: "set targets = pp_request ` ?entries" unfolding targets_def by (rule reply_targets_set(1) [OF inv p])
  then have ids: "request_ids targets = ?ids" by (simp add: image_image)
  have rid: "set (rr_resolved_request_ids r) = ?ids" unfolding r ids [symmetric] by simp
  have store: "mg_store m' = s" using settled by (simp add: removal_def)
  have chan: "\<forall>q \<in> ?entries. mg_channels m' ! pp_sender q = OneshotSent (WaitReplied reply)"
    using settled reply_entries_pending [OF inv p] unfolding removal_def ids by force
  have "granted (mg_store m') = granted (mg_store m) \<union> grant_key ` set grants"
    using commit_granted [OF commit] by (simp add: store)
  also have "grant_key ` set grants = (if reply = ReplyAlways
      then {(pq_project_id (pp_request q), pq_action (pp_request q), x) |q x.
            q \<in> ?entries \<and> x \<in> set (pq_save_resources (pp_request q))} else {})"
    unfolding grants_def grants_for_reply_keys targets by auto
  finally show ?thesis
    using settled p chan rid unfolding Inr removal_def ids Let_def by simp
qed

end

section \<open>Calls\<close>

datatype manager_call =
    CallRegister "permission_request list" "string option" bool
  | CallReply string bool permission_reply permission_reply_source
  | CallCancel string string
  | CallCancelSession string string

definition run_call ::
  "(permission_audit_record \<Rightarrow> 's \<Rightarrow> (port_error + unit) \<times> 's)
   \<Rightarrow> (permission_grant list \<Rightarrow> permission_audit_record list \<Rightarrow> 's \<Rightarrow> (port_error + unit) \<times> 's)
   \<Rightarrow> int \<times> manager_call \<Rightarrow> 's permission_manager \<Rightarrow> 's permission_manager" where
  "run_call record_audit commit nc m =
     (case nc of (now, call) \<Rightarrow>
       (case call of
          CallRegister rs turn interactive \<Rightarrow> snd (register_batch_with_visibility record_audit now rs turn interactive m)
        | CallReply rid following reply source \<Rightarrow> snd (reply_from commit now rid following reply source m)
        | CallCancel rid reason \<Rightarrow> snd (cancel_request record_audit now rid reason m)
        | CallCancelSession sid reason \<Rightarrow> snd (cancel_session record_audit now sid reason m)))"

lemma nothing_settled: "\<exists>s rs. m = settle_section w f rs (m\<lparr>mg_store := s\<rparr>)"
  by (rule exI [of _ "mg_store m"], rule exI [of _ "[]"]) (simp add: settle_section_def)

lemma reply_from_settles:
  "\<exists>s rs. snd (reply_from commit now rid following reply source m) =
     settle_section (WaitReplied reply) (\<lambda>i. PermissionReplied i reply source) rs (m\<lparr>mg_store := s\<rparr>)"
proof -
  have none: "\<exists>s rs. m\<lparr>mg_store := s'\<rparr> = settle_section (WaitReplied reply) f rs (m\<lparr>mg_store := s\<rparr>)" for s' f
    by (rule exI [of _ s'], rule exI [of _ "[]"]) (simp add: settle_section_def)
  have "m = m\<lparr>mg_store := mg_store m\<rparr>" by simp
  with none [of "mg_store m"] none show ?thesis
    by (auto simp: reply_from_def Let_def split: option.split prod.split sum.split)
qed

lemma cancel_requests_settles:
  "\<exists>s rs'. snd (cancel_requests record_audit now rs reason m) =
     settle_section (WaitCancelled reason) (\<lambda>i. PermissionCancelled i reason) rs' (m\<lparr>mg_store := s\<rparr>)"
proof -
  have none: "\<exists>s rs. m\<lparr>mg_store := s'\<rparr> = settle_section (WaitCancelled reason) f rs (m\<lparr>mg_store := s\<rparr>)" for s' f
    by (rule exI [of _ s'], rule exI [of _ "[]"]) (simp add: settle_section_def)
  then show ?thesis
    by (auto simp: cancel_requests_def Let_def split: option.split prod.split)
qed

lemma cancel_request_settles:
  "\<exists>s rs. snd (cancel_request record_audit now rid reason m) =
     settle_section (WaitCancelled reason) (\<lambda>i. PermissionCancelled i reason) rs (m\<lparr>mg_store := s\<rparr>)"
proof (cases "pend m rid")
  case None
  then show ?thesis using nothing_settled [of m] by (simp add: cancel_request_def)
next
  case (Some p)
  then have "snd (cancel_request record_audit now rid reason m) =
      snd (cancel_requests record_audit now [pp_request p] reason m)"
    by (simp add: cancel_request_def split: prod.splits sum.splits)
  then show ?thesis using cancel_requests_settles by metis
qed

lemma cancel_session_settles:
  "\<exists>s rs. snd (cancel_session record_audit now sid reason m) =
     settle_section (WaitCancelled reason) (\<lambda>i. PermissionCancelled i reason) rs (m\<lparr>mg_store := s\<rparr>)"
proof -
  have "snd (cancel_session record_audit now sid reason m) = snd (cancel_requests record_audit now
      (ordered_pending_requests (\<lambda>p. pq_session_id (pp_request p) = sid) m) reason m)"
    by (simp add: cancel_session_def Let_def split: prod.splits sum.splits)
  then show ?thesis using cancel_requests_settles by metis
qed

definition asks :: "string \<Rightarrow> permission_request_event \<Rightarrow> bool" where
  "asks i e \<longleftrightarrow> (case e of PermissionAsked r \<Rightarrow> pq_request_id r = i | _ \<Rightarrow> False)"

definition settles :: "string \<Rightarrow> permission_request_event \<Rightarrow> bool" where
  "settles i e \<longleftrightarrow> (case e of PermissionAsked _ \<Rightarrow> False | PermissionReplied j _ _ \<Rightarrow> j = i | PermissionCancelled j _ \<Rightarrow> j = i)"

lemma run_call_cases:
  obtains (register) now rs turn interactive res where
      "register_batch_with_visibility record_audit now rs turn interactive m = (res, run_call record_audit commit nc m)"
  | (settle) w f rs s where "run_call record_audit commit nc m = settle_section w f rs (m\<lparr>mg_store := s\<rparr>)"
      "\<And>i j. settles i (f j) \<longleftrightarrow> j = i" "\<And>i j. \<not> asks i (f j)"
proof -
  obtain now call where nc: "nc = (now, call)" by fastforce
  show ?thesis
  proof (cases call)
    case (CallRegister rs turn interactive)
    show ?thesis
      by (rule register [of now rs turn interactive
            "fst (register_batch_with_visibility record_audit now rs turn interactive m)"])
        (simp add: run_call_def nc CallRegister)
  next
    case (CallReply rid following reply source)
    then show ?thesis
      using reply_from_settles [of commit now rid following reply source m] settle
      by (force simp: run_call_def nc settles_def asks_def)
  next
    case (CallCancel rid reason)
    then show ?thesis
      using cancel_request_settles [of record_audit now rid reason m] settle
      by (force simp: run_call_def nc settles_def asks_def)
  next
    case (CallCancelSession sid reason)
    then show ?thesis
      using cancel_session_settles [of record_audit now sid reason m] settle
      by (force simp: run_call_def nc settles_def asks_def)
  qed
qed

section \<open>Snapshots\<close>

text \<open>The sections between which a snapshot may be read.\<close>

inductive snapshot_step :: "'s permission_manager \<Rightarrow> 's permission_manager \<Rightarrow> bool" where
  step_register: "rs \<noteq> [] \<Longrightarrow> snapshot_step m (snd (register_section turn interactive rs m))"
| step_rollback: "snapshot_step m (rollback_section rs m)"
| step_settle: "snapshot_step m (settle_section w f rs m)"
| step_store: "snapshot_step m (m\<lparr>mg_store := s\<rparr>)"
| step_event: "snapshot_step m (send_event e m)"

lemma insert_requests_revision: "mg_revision (snd (insert_requests turn interactive rs m)) = mg_revision m"
proof (induction rs arbitrary: m)
  case (Cons r rs)
  have "snd (insert_requests turn interactive (r # rs) m) =
      snd (insert_requests turn interactive rs (snd (insert_request turn interactive r m)))"
    by (simp split: prod.split)
  with Cons.IH show ?case by (simp add: insert_request_eqs)
qed simp

lemma remove_all_idle:
  "\<forall>k \<in> request_ids rs. pend m k = None \<Longrightarrow> remove_all x event rs removed m = (removed, m)"
  by (induction rs) (simp_all add: remove_request_None)

lemma remove_all_flag:
  "fst (remove_all x event rs removed m) \<or> remove_all x event rs removed m = (removed, m)"
proof -
  have true: "fst (remove_all x event rs True m)" for rs and m :: "'b permission_manager"
    by (induction rs arbitrary: m) (auto split: prod.splits option.splits)
  show ?thesis
  proof (induction rs)
    case (Cons r rs)
    then show ?case using true by (auto simp: remove_request_def split: option.splits)
  qed simp
qed

lemma remove_all_revision: "mg_revision (snd (remove_all x event rs removed m)) = mg_revision m"
proof (induction rs arbitrary: removed m)
  case (Cons r rs)
  have "mg_revision (snd (remove_request x (pq_request_id r) m)) = mg_revision m"
    by (simp add: remove_request_def send_outcome_def split: option.split)
  with Cons.IH show ?case by (auto split: prod.splits option.splits)
qed simp

lemma removal_section_revision:
  assumes "m' = (let (removed, m) = remove_all x event rs False m in if removed then bump_revision m else m)"
  shows "m' = m \<or> mg_revision m' = wrap_add_u64 (mg_revision m) 1"
  using assms remove_all_flag [of x event rs False m] remove_all_revision [of x event rs False m]
  by (auto split: prod.splits if_splits)

lemma snapshot_step_revision:
  assumes "snapshot_step m m'"
  shows "mg_revision m' = wrap_add_u64 (mg_revision m) 1 \<or>
    mg_revision m' = mg_revision m \<and> mg_pending m' = mg_pending m"
  using assms
proof cases
  case (step_register rs turn interactive)
  then show ?thesis using insert_requests_revision [of turn interactive rs m]
    by (auto simp: register_section_def split: prod.splits)
next
  case (step_rollback rs)
  then show ?thesis
    using removal_section_revision [of m' OneshotClosed None rs m]
    by (auto simp: rollback_section_def rollback_requests_all)
next
  case (step_settle w f rs)
  then show ?thesis
    using removal_section_revision [of m' "OneshotSent w" "Some f" rs m]
    by (auto simp: settle_section_def settle_requests_all)
qed simp_all

lemma snapshot_cong: "mg_pending m' = mg_pending m \<Longrightarrow> mg_revision m' = mg_revision m \<Longrightarrow>
    interactive_pending_snapshot m' = interactive_pending_snapshot m"
  by (simp add: interactive_pending_snapshot_def ordered_pending_requests_def)

text \<open>Every call is a sequence of sections.\<close>

lemma settle_steps: "snapshot_step\<^sup>*\<^sup>* m (settle_section w f rs (m\<lparr>mg_store := s\<rparr>))"
  by (rule rtranclp_trans [OF r_into_rtranclp r_into_rtranclp]) (rule step_store step_settle)+

lemma call_is_sections: "snapshot_step\<^sup>*\<^sup>* m (run_call record_audit commit nc m)"
proof -
  have events: "snapshot_step\<^sup>*\<^sup>* m (fold (\<lambda>r. send_event (PermissionAsked r)) rs m)" for rs and m :: "'a permission_manager"
    by (induction rs arbitrary: m) (auto intro: converse_rtranclp_into_rtranclp step_event)
  have reg: "snapshot_step\<^sup>*\<^sup>* m (snd (register_batch_with_visibility record_audit now rs turn interactive m))"
    for now rs turn interactive
  proof (cases "rs = [] \<or> duplicate_request {} (mg_pending m) rs \<noteq> None")
    case True
    then show ?thesis by (auto simp: register_batch_with_visibility_def)
  next
    case False
    let ?m1 = "snd (register_section turn interactive rs m)"
    have start: "snapshot_step\<^sup>*\<^sup>* m (?m1\<lparr>mg_store := s\<rparr>)" for s
      using False by (intro rtranclp_trans [OF r_into_rtranclp [of snapshot_step, OF step_register]
            r_into_rtranclp [of snapshot_step, OF step_store]]) simp
    show ?thesis
      using False start events rtranclp.rtrancl_into_rtrancl [OF start step_rollback] rtranclp_trans [OF start events]
      by (auto simp: register_batch_with_visibility_def Let_def split: prod.splits option.splits)
  qed
  show ?thesis
  proof (cases rule: run_call_cases [of record_audit m commit nc])
    case (register now rs turn interactive res)
    with reg [of now rs turn interactive] show ?thesis by simp
  next
    case (settle w f rs s)
    then show ?thesis using settle_steps by simp
  qed
qed

section \<open>Every request is settled once\<close>

definition asked_count :: "string \<Rightarrow> 's permission_manager \<Rightarrow> nat" where
  "asked_count i m = length (filter (asks i) (mg_events m))"

definition settled_count :: "string \<Rightarrow> 's permission_manager \<Rightarrow> nat" where
  "settled_count i m = length (filter (settles i) (mg_events m))"

definition awaits_user :: "string \<Rightarrow> 's permission_manager \<Rightarrow> bool" where
  "awaits_user i m \<longleftrightarrow> (\<exists>p. pend m i = Some p \<and> pp_interactive p)"

text \<open>The events balance, and a used channel keeps its word.\<close>

definition balanced :: "'s permission_manager \<Rightarrow> bool" where
  "balanced m \<longleftrightarrow> (\<forall>i. asked_count i m = settled_count i m + (if awaits_user i m then 1 else 0))"

definition channels_kept :: "'s permission_manager \<Rightarrow> 's permission_manager \<Rightarrow> bool" where
  "channels_kept m m' \<longleftrightarrow> length (mg_channels m) \<le> length (mg_channels m') \<and>
     (\<forall>c < length (mg_channels m). mg_channels m ! c \<noteq> OneshotOpen \<longrightarrow> mg_channels m' ! c = mg_channels m ! c)"

lemma channels_kept_refl [intro]: "channels_kept m m"
  by (simp add: channels_kept_def)

lemma channels_kept_trans: "channels_kept m m1 \<Longrightarrow> channels_kept m1 m2 \<Longrightarrow> channels_kept m m2"
  by (auto simp: channels_kept_def)

lemma channels_kept_append: "mg_channels m' = mg_channels m @ xs \<Longrightarrow> channels_kept m m'"
  by (simp add: channels_kept_def nth_append)

lemma count_distinct: "distinct xs \<Longrightarrow> length (filter (\<lambda>x. x = i) xs) = (if i \<in> set xs then 1 else 0)"
  by (induction xs) auto

lemma settle_section_books:
  assumes inv: "manager_inv m" and "balanced m"
    and f: "\<And>i j. settles i (f j) \<longleftrightarrow> j = i" "\<And>i j. \<not> asks i (f j)"
  shows "balanced (settle_section w f rs m)" "channels_kept m (settle_section w f rs m)"
proof -
  let ?m = "settle_section w f rs m"
  note r = settle_section_spec(1) [OF inv, of w f rs, unfolded removal_def]
  then obtain told where told: "mg_events ?m = mg_events m @ map f told" "distinct told"
    "set told = {k \<in> request_ids rs. \<exists>p. pend m k = Some p \<and> pp_interactive p}" by auto
  have p: "pend ?m = pend m |` (- request_ids rs)" using r by blast
  have count: "asked_count i ?m = asked_count i m"
    "settled_count i ?m = settled_count i m + (if i \<in> set told then 1 else 0)" for i
    using count_distinct [OF told(2), of i]
    by (simp_all add: asked_count_def settled_count_def told(1) filter_map comp_def f)
  have "(if awaits_user i m then 1 else 0) = (if i \<in> set told then 1 else 0) + (if awaits_user i ?m then 1 else (0::nat))" for i
    by (auto simp: awaits_user_def p told(3) restrict_map_def)
  with assms(2) show "balanced ?m" by (simp add: balanced_def count)
  have "mg_channels ?m ! c = mg_channels m ! c"
    if c: "c < length (mg_channels m)" "mg_channels m ! c \<noteq> OneshotOpen" for c
  proof -
    have "\<forall>k \<in> request_ids rs. \<forall>p. pend m k = Some p \<longrightarrow> pp_sender p \<noteq> c"
      using manager_invD(3) [OF inv] c by blast
    with r c show ?thesis by blast
  qed
  with r show "channels_kept m ?m" by (simp add: channels_kept_def)
qed

lemma register_books:
  assumes inv: "manager_inv m" and "balanced m"
    and run: "register_batch_with_visibility record_audit now rs turn interactive m = (res, m')"
  shows "manager_inv m' \<and> balanced m' \<and> channels_kept m m'"
  using inv run
proof (cases rule: register_cases)
  case (not_audited e s m1 rvs)
  from rolled_back [OF inv not_audited(2,6,7,8,5)] assms(2) show ?thesis
    by (auto simp: balanced_def asked_count_def settled_count_def awaits_user_def intro: channels_kept_append)
next
  case (asked s m1 rvs)
  have m': "mg_pending m' = mg_pending m1" "mg_channels m' = mg_channels m @ replicate (length rs) OneshotOpen"
    "mg_events m' = mg_events m @ (if interactive then map PermissionAsked rs else [])"
    using asked(6,8,9) by simp_all
  have count: "settled_count i m' = settled_count i m"
    "asked_count i m' = asked_count i m + (if interactive \<and> i \<in> request_ids rs then 1 else 0)" for i
    using count_distinct [OF asked(11), of i]
    by (auto simp: settled_count_def asked_count_def m' filter_map comp_def settles_def asks_def filter_empty_conv image_iff)
  have new: "\<exists>p. pend m1 i = Some p \<and> pp_interactive p = interactive" if "i \<in> request_ids rs" for i
    using asked(10) that by (induction rule: list_all2_induct) (auto simp: registered_def)
  have waits: "awaits_user i m' \<longleftrightarrow> (if i \<in> request_ids rs then interactive else awaits_user i m)" for i
    using new [of i] by (auto simp: awaits_user_def m' asked(7))
  have "\<not> awaits_user i m" if "i \<in> request_ids rs" for i
    using bspec [OF asked(12) that] by (simp add: awaits_user_def)
  with assms(2) have "balanced m'" by (auto simp: balanced_def count waits)
  moreover have "manager_inv m'" using asked(3) m'(1) by (rule manager_inv_cong) (simp add: m' asked(9))
  ultimately show ?thesis using m'(2) by (auto intro: channels_kept_append)
qed (use assms(1,2) in auto)

lemma run_call_books:
  assumes "manager_inv m" and "balanced m"
  shows "manager_inv (run_call record_audit commit nc m) \<and> balanced (run_call record_audit commit nc m) \<and>
    channels_kept m (run_call record_audit commit nc m)"
proof (cases rule: run_call_cases [of record_audit m commit nc])
  case (register now rs turn interactive res)
  then show ?thesis by (rule register_books [OF assms])
next
  case (settle w f rs s)
  let ?m = "m\<lparr>mg_store := s\<rparr>"
  have "manager_inv ?m" using assms(1) by (rule manager_inv_cong) simp_all
  moreover have "balanced ?m"
    using assms(2) by (simp add: balanced_def asked_count_def settled_count_def awaits_user_def)
  ultimately show ?thesis
    using settle_section_books [of ?m f w rs] settle_section_spec(1) [of ?m w f rs] settle(2,3)
    by (simp add: settle(1) removal_def channels_kept_def)
qed

lemma run_calls_books:
  assumes "manager_inv m" and "balanced m"
  shows "manager_inv (fold (run_call record_audit commit) calls m) \<and>
    balanced (fold (run_call record_audit commit) calls m) \<and>
    channels_kept m (fold (run_call record_audit commit) calls m)"
  using assms
proof (induction calls arbitrary: m)
  case (Cons nc calls)
  note step = run_call_books [OF Cons.prems, of record_audit commit nc]
  from Cons.IH [of "run_call record_audit commit nc m"] step show ?case by (auto intro: channels_kept_trans)
qed auto

section \<open>Properties\<close>

text \<open>
  C27. Every request is settled once. After any sequence of registrations, replies and
  cancellations, over any stores, a waiter's channel is open exactly if its request is pending, a
  waiter that was told something is never told anything else by later calls, and for every request
  id the events sent to interactive surfaces pair each question with exactly one reply or
  cancellation, except the one that is still pending.
\<close>

theorem requests_settle_once:
  fixes record_audit :: "permission_audit_record \<Rightarrow> 's \<Rightarrow> (port_error + unit) \<times> 's"
    and commit :: "permission_grant list \<Rightarrow> permission_audit_record list \<Rightarrow> 's \<Rightarrow> (port_error + unit) \<times> 's"
  defines "run \<equiv> fold (run_call record_audit commit)"
  assumes "m = run calls (manager_new s)" and "m' = run later m"
  shows "(\<forall>c < length (mg_channels m).
      (mg_channels m ! c = OneshotOpen \<longleftrightarrow> (\<exists>k p. pend m k = Some p \<and> pp_sender p = c)) \<and>
      (mg_channels m ! c \<noteq> OneshotOpen \<longrightarrow> mg_channels m' ! c = mg_channels m ! c)) \<and>
    (\<forall>i. asked_count i m = settled_count i m + (if awaits_user i m then 1 else 0))"
proof -
  have "balanced (manager_new s)"
    by (simp add: balanced_def manager_new_def asked_count_def settled_count_def awaits_user_def)
  from run_calls_books [OF manager_new_inv this, of record_audit commit calls, folded run_def] assms(2)
  have m: "manager_inv m" "balanced m" by simp_all
  from run_calls_books [OF m, of record_audit commit later, folded run_def] assms(3)
  have "channels_kept m m'" by simp
  moreover have "mg_channels m ! c = OneshotOpen \<longleftrightarrow> (\<exists>k p. pend m k = Some p \<and> pp_sender p = c)"
    if "c < length (mg_channels m)" for c
    using manager_inv_open [OF m(1) that] manager_invD(3) [OF m(1)] by blast
  ultimately show ?thesis using m(2) by (auto simp: balanced_def channels_kept_def)
qed

text \<open>A registration and its reply, over stores that accept everything.\<close>

definition sample_calls :: "(int \<times> manager_call) list" where
  "sample_calls = [(1, CallRegister [sample_request ''q''] None True), (2, CallReply ''q'' False ReplyAlways ReplyUser)]"

abbreviation sample_run :: "(int \<times> manager_call) list \<Rightarrow> unit permission_manager" where
  "sample_run calls \<equiv> fold (run_call (\<lambda>_ s. (Inr (), s)) (\<lambda>_ _ s. (Inr (), s))) calls (manager_new ())"

lemmas manager_eval = sample_calls_def run_call_def register_batch_with_visibility_def register_section_def
  insert_request_def manager_new_def Let_def bump_revision_def reply_from_def reply_targets_def is_edited_def
  settle_section_def remove_request_def send_outcome_def send_event_def sample_request_def

lemma requests_settle_once_witness:
  "mg_channels (sample_run sample_calls) = [OneshotSent (WaitReplied ReplyAlways)] \<and>
   asked_count ''q'' (sample_run sample_calls) = 1 \<and> settled_count ''q'' (sample_run sample_calls) = 1"
proof -
  have "mg_channels (sample_run sample_calls) = [OneshotSent (WaitReplied ReplyAlways)]"
    "asked_count ''q'' (sample_run sample_calls) = 1" "\<not> awaits_user ''q'' (sample_run sample_calls)"
    by (simp_all add: manager_eval asked_count_def awaits_user_def asks_def)
  with requests_settle_once [OF refl refl, of "\<lambda>_ s. (Inr (), s)" "\<lambda>_ _ s. (Inr (), s)" sample_calls "()" "[]"]
  show ?thesis by simp
qed

text \<open>
  A snapshot revision identifies its content. Between two snapshots, taken at any points
  between or inside calls, the revision never decreases, and if it is the same the snapshots are
  the same; a call is a sequence of such sections.
\<close>

theorem snapshot_revision_identifies:
  assumes "(snapshot_step ^^ n) m m'" and "mg_revision m + n \<le> u64_max"
  shows "mg_revision m \<le> mg_revision m' \<and>
    (mg_revision m' = mg_revision m \<longrightarrow> interactive_pending_snapshot m' = interactive_pending_snapshot m) \<and>
    snapshot_step\<^sup>*\<^sup>* m' (run_call record_audit commit nc m')"
proof -
  have "mg_revision m \<le> mg_revision m' \<and> mg_revision m' \<le> mg_revision m + n \<and>
      (mg_revision m' = mg_revision m \<longrightarrow> mg_pending m' = mg_pending m)"
    using assms
  proof (induction n arbitrary: m')
    case (Suc n)
    then obtain m1 where m1: "(snapshot_step ^^ n) m m1" "snapshot_step m1 m'" by auto
    from Suc.IH [OF m1(1)] Suc.prems(2)
    have IH: "mg_revision m \<le> mg_revision m1" "mg_revision m1 \<le> mg_revision m + n"
      "mg_revision m1 = mg_revision m \<longrightarrow> mg_pending m1 = mg_pending m" by simp_all
    then have "wrap_add_u64 (mg_revision m1) 1 = mg_revision m1 + 1"
      using Suc.prems(2) by (intro wrap_add_u64_exact) simp
    with snapshot_step_revision [OF m1(2)] IH show ?case by auto
  qed simp
  then show ?thesis using snapshot_cong call_is_sections by blast
qed

lemma snapshot_revision_identifies_witness:
  "let m = sample_run []; m' = snd (register_section None True [sample_request ''q''] m)
   in mg_revision m = 0 \<and> mg_revision m' = 1 \<and> mg_revision m \<le> mg_revision m' \<and>
      sn_requests (interactive_pending_snapshot m') = [sample_request ''q'']"
proof -
  let ?m = "sample_run []"
  let ?m' = "snd (register_section None True [sample_request ''q''] ?m)"
  have "(snapshot_step ^^ 1) ?m ?m'" unfolding relpowp_1 by (rule step_register) simp
  moreover have "mg_revision ?m + 1 \<le> u64_max" by (simp add: manager_new_def u64_max_def)
  ultimately have "mg_revision ?m \<le> mg_revision ?m'" using snapshot_revision_identifies by blast
  moreover have "mg_revision ?m = 0" by (simp add: manager_new_def)
  moreover have "mg_revision ?m' = 1"
    by (simp add: register_section_def insert_request_def manager_new_def Let_def wrap_add_u64_def u64_max_def)
  moreover have "sn_requests (interactive_pending_snapshot ?m') = [sample_request ''q'']"
    by (simp add: register_section_def insert_request_def manager_new_def Let_def bump_revision_def
        interactive_pending_snapshot_def ordered_pending_requests_def)
  ultimately show ?thesis unfolding Let_def by blast
qed

text \<open>
  A batch is registered as a whole or not at all. Over the SQLite store, if the batch repeats an
  id, holds a pending one, or an audit fact is refused, then the pending requests and the events are
  as before and every channel made for the batch is closed. Otherwise all its requests are
  pending with fresh open channels and, if they are interactive, asked in their order. Either way
  nothing is granted.
\<close>

theorem register_batch_whole_or_not:
  assumes "manager_inv m"
    and "register_batch_with_visibility (append_permission_audit c) now rs turn interactive m = (res, m')"
  shows "manager_inv m' \<and> sql_granted (mg_store m') = sql_granted (mg_store m) \<and>
    (case res of
       Inl e \<Rightarrow> pend m' = pend m \<and> mg_events m' = mg_events m \<and>
         (\<exists>n. mg_channels m' = mg_channels m @ replicate n OneshotClosed)
     | Inr rvs \<Rightarrow> distinct (map pq_request_id rs) \<and> pend m = pend m' |` (- request_ids rs) \<and>
         list_all2 (registered turn interactive m') rs rvs \<and>
         mg_channels m' = mg_channels m @ replicate (length rs) OneshotOpen \<and>
         mg_events m' = mg_events m @ (if interactive then map PermissionAsked rs else []))"
  by (rule sql_store.register_all_or_nothing [OF assms])

lemma register_batch_whole_or_not_witness:
  "\<exists>e m'. register_batch (append_permission_audit sample_codec) 0 [sample_request ''q'', sample_request ''q'']
      (manager_new sample_store) = (Inl e, m') \<and> mg_events m' = []"
proof -
  obtain res m' where run: "register_batch_with_visibility (append_permission_audit sample_codec) 0
      [sample_request ''q'', sample_request ''q''] None True (manager_new sample_store) = (res, m')" by fastforce
  from register_batch_whole_or_not [OF manager_new_inv run] show ?thesis
    using run by (cases res) (auto simp: register_batch_def manager_new_def)
qed

text \<open>
  C26. A reply takes effect as a whole or not at all. Over the SQLite store, if it is refused or not
  stored, then pending requests, waiters, events, grants and audit facts are as before. Otherwise
  exactly the replied request, or with the following ones the pending requests of its session and
  round from its order on, are no longer pending, each of their waiters has the reply, interactive
  ones are announced once, and the grants grow exactly by the saved resources of those requests if
  the reply is \<open>Always\<close>, and by nothing otherwise.
\<close>

theorem reply_whole_or_not:
  assumes "manager_inv m" and "reply_from (commit_permission_reply c) now rid following reply source m = (res, m')"
  shows "manager_inv m' \<and>
    (case res of
       Inl e \<Rightarrow> m' = m\<lparr>mg_store := mg_store m'\<rparr> \<and> sql_granted (mg_store m') = sql_granted (mg_store m) \<and>
         sql_facts (mg_store m') = sql_facts (mg_store m)
     | Inr r \<Rightarrow> \<exists>p. pend m rid = Some p \<and>
         (let entries = reply_entries p following m; ids = (\<lambda>q. pq_request_id (pp_request q)) ` entries
          in set (rr_resolved_request_ids r) = ids \<and> pend m' = pend m |` (- ids) \<and>
             (\<forall>q \<in> entries. mg_channels m' ! pp_sender q = OneshotSent (WaitReplied reply)) \<and>
             sql_granted (mg_store m') = sql_granted (mg_store m) \<union>
               (if reply = ReplyAlways
                then {(pq_project_id (pp_request q), pq_action (pp_request q), x) |q x.
                      q \<in> entries \<and> x \<in> set (pq_save_resources (pp_request q))} else {}) \<and>
             (\<exists>told. mg_events m' = mg_events m @ map (\<lambda>i. PermissionReplied i reply source) told \<and> distinct told \<and>
                set told = {i \<in> ids. \<exists>q. pend m i = Some q \<and> pp_interactive q})))"
  by (rule sql_store.reply_is_atomic [OF assms])

lemma reply_whole_or_not_witness:
  "\<exists>r m'. reply_from (commit_permission_reply sample_codec) 2 ''q'' False ReplyAlways ReplyUser
      (snd (register_section None True [sample_request ''q''] (manager_new sample_store))) = (Inr r, m') \<and>
     set (rr_resolved_request_ids r) = {''q''} \<and> pend m' ''q'' = None"
proof -
  let ?m = "snd (register_section None True [sample_request ''q''] (manager_new sample_store))"
  let ?run = "reply_from (commit_permission_reply sample_codec) 2 ''q'' False ReplyAlways ReplyUser ?m"
  obtain res m' where run: "?run = (res, m')" by fastforce
  have inv: "manager_inv ?m"
    using insert_request_inv [of "manager_new sample_store" "sample_request ''q''" None True, OF manager_new_inv]
    by (auto simp: register_section_def manager_new_def split: prod.split intro: manager_inv_cong)
  have "fst (commit_permission_reply sample_codec
      [\<lparr>pg_project_id = ''p'', pg_action = ''write'', pg_resource = ''f'', pg_created_at_ms = 2\<rparr>]
      [\<lparr>au_audit_id = ''q:replied'', au_request = sample_request ''q'', au_event = AuditReplied ReplyAlways ReplyUser,
        au_timestamp_ms = 2\<rparr>] sample_store) = Inr ()" by code_simp
  then obtain r where r: "res = Inr r"
    using run by (auto simp: manager_eval grants_for_reply_def manager_audit_id_def split: prod.splits sum.splits)
  obtain p where p: "pend ?m ''q'' = Some p" "pp_request p = sample_request ''q''" by (simp add: manager_eval)
  have "set (rr_resolved_request_ids r) = {''q''} \<and> pend m' = pend ?m |` (- {''q''})"
    using reply_whole_or_not [OF inv run] unfolding r sum.case Let_def
    by (simp add: p reply_entries_def) (simp add: sample_request_def)
  with run r show ?thesis by simp
qed

end
