(* ===== verification/Shell_Lexer.thy ===== *)
theory Shell_Lexer
  imports Prelude
begin

text \<open>
  The lexer of shell commands: \<open>tool-execution/src/shell_analysis/lexer.rs\<close> with the issues and
  spans of \<open>shell_analysis/mod.rs\<close>.

  The source is its sequence of characters (\<open>utf8_chars\<close>). A position is a byte offset; the lexer
  carries it together with the characters that remain. \<open>rest().starts_with\<close> on an ASCII literal
  is \<open>starts\<close>.
\<close>

section \<open>Issues and spans\<close>

datatype analysis_status = Supported | Unsupported | Invalid | ResourceLimit

record span =
  sp_start :: nat
  sp_end :: nat

record issue =
  is_status :: analysis_status
  is_reason :: string
  is_span :: span

definition max_depth :: nat where
  "max_depth = 32"

definition max_nodes :: nat where
  "max_nodes = 32768"

definition span_of :: "nat \<Rightarrow> nat \<Rightarrow> span" where
  "span_of a b = \<lparr>sp_start = a, sp_end = b\<rparr>"

definition lex_issue :: "nat \<Rightarrow> string \<Rightarrow> issue" where
  "lex_issue pos reason = \<lparr>is_status = Invalid, is_reason = reason, is_span = span_of pos pos\<rparr>"

definition limit_issue :: "nat \<Rightarrow> string \<Rightarrow> issue" where
  "limit_issue pos reason = \<lparr>is_status = ResourceLimit, is_reason = reason, is_span = span_of pos pos\<rparr>"

section \<open>Tokens\<close>

record shell_word =
  sw_value :: string
  sw_dynamic :: bool
  sw_executes :: bool
  sw_quoted :: bool
  sw_assignment :: bool
  sw_span :: span

record redirect =
  rd_op :: string
  rd_fd :: "string option"
  rd_word :: shell_word
  rd_body :: "shell_word option"
  rd_span :: span

datatype token = TWord shell_word | TRedirect redirect | TOp string span

definition token_span :: "token \<Rightarrow> span" where
  "token_span t = (case t of TWord w \<Rightarrow> sw_span w | TRedirect r \<Rightarrow> rd_span r | TOp _ s \<Rightarrow> s)"

section \<open>Characters\<close>

definition nl :: string where "nl = [CHR 0x0A]"
definition tab :: string where "tab = [CHR 0x09]"
definition cr :: string where "cr = [CHR 0x0D]"
definition bslash :: string where "bslash = [CHR 0x5C]"
definition squote :: string where "squote = [CHR 0x27]"
definition dquote :: string where "dquote = [CHR 0x22]"
definition btick :: string where "btick = [CHR 0x60]"

definition ascii_chars :: "string \<Rightarrow> string list" where
  "ascii_chars s = map (\<lambda>c. [c]) s"

definition starts :: "string \<Rightarrow> string list \<Rightarrow> bool" where
  "starts s rest \<longleftrightarrow> take (length s) rest = ascii_chars s"

definition byte_len :: "string list \<Rightarrow> nat" where
  "byte_len cs = length (concat cs)"

definition is_digit :: "string \<Rightarrow> bool" where
  "is_digit c \<longleftrightarrow> c \<in> set (ascii_chars ''0123456789'')"

definition is_alpha :: "string \<Rightarrow> bool" where
  "is_alpha c \<longleftrightarrow> c \<in> set (ascii_chars ''abcdefghijklmnopqrstuvwxyzABCDEFGHIJKLMNOPQRSTUVWXYZ'')"

definition is_whitespace :: "string \<Rightarrow> bool" where
  "is_whitespace c \<longleftrightarrow> c \<in> set utf8_whitespace"

section \<open>Substitutions\<close>

fun skip_substitution :: "nat \<Rightarrow> string option \<Rightarrow> nat \<Rightarrow> string list \<Rightarrow> issue + nat \<times> string list" where
  "skip_substitution depth quote pos [] = Inl (lex_issue pos ''unterminated substitution'')"
| "skip_substitution depth quote pos (c # rest) =
     (let pos = pos + length c
      in if c = bslash
         then (case rest of
                 [] \<Rightarrow> Inl (lex_issue pos ''unterminated substitution'')
               | n # rest' \<Rightarrow> skip_substitution depth quote (pos + length n) rest')
         else case quote of
           Some q \<Rightarrow> skip_substitution depth (if c = q then None else quote) pos rest
         | None \<Rightarrow>
             if c = squote \<or> c = dquote \<or> c = btick then skip_substitution depth (Some c) pos rest
             else if c = ''('' then
               (if depth + 1 > max_depth then Inl (limit_issue pos ''shell nesting limit'')
                else skip_substitution (depth + 1) None pos rest)
             else if c = '')'' then
               (if depth - 1 = 0 then Inr (pos, rest) else skip_substitution (depth - 1) None pos rest)
             else skip_substitution depth None pos rest)"

fun skip_backtick :: "nat \<Rightarrow> string list \<Rightarrow> issue + nat \<times> string list" where
  "skip_backtick pos [] = Inl (lex_issue pos ''unterminated command substitution'')"
| "skip_backtick pos (c # rest) =
     (let pos = pos + length c
      in if c = btick then Inr (pos, rest)
         else if c = bslash
         then (case rest of
                 [] \<Rightarrow> Inl (lex_issue pos ''unterminated command substitution'')
               | n # rest' \<Rightarrow> skip_backtick (pos + length n) rest')
         else skip_backtick pos rest)"

section \<open>Words\<close>

record word_state =
  ws_pos :: nat
  ws_rest :: "string list"
  ws_value :: string
  ws_quoted :: bool
  ws_dynamic :: bool
  ws_executes :: bool
  ws_quote :: "string option"

datatype word_step = WordNext word_state | WordBreak word_state | WordFail issue

definition ws_bump :: "word_state \<Rightarrow> word_state" where
  "ws_bump ws = ws\<lparr>ws_pos := ws_pos ws + length (hd (ws_rest ws)), ws_rest := tl (ws_rest ws)\<rparr>"

definition ws_push :: "string \<Rightarrow> word_state \<Rightarrow> word_state" where
  "ws_push c ws = ws\<lparr>ws_value := ws_value ws @ c\<rparr>"

definition ws_substitution :: "word_state \<Rightarrow> issue + nat \<times> string list \<Rightarrow> word_step" where
  "ws_substitution ws res =
     (case res of
        Inl e \<Rightarrow> WordFail e
      | Inr (pos, rest) \<Rightarrow> WordNext (ws\<lparr>ws_pos := pos, ws_rest := rest, ws_dynamic := True, ws_executes := True\<rparr>))"

text \<open>
  The part of the loop after the quoting decisions. \<open>c\<close> is the character they looked at: after a
  backslash that stays in double quotes it is the backslash, already consumed.
\<close>

definition word_tail :: "bool \<Rightarrow> nat \<Rightarrow> string \<Rightarrow> word_state \<Rightarrow> word_step" where
  "word_tail delimiter start c ws =
     (let rest = ws_rest ws; unquoted = (ws_quote ws = None)
      in if \<not> delimiter \<and> (starts ''$('' rest \<or> (unquoted \<and> (starts ''<('' rest \<or> starts ''>('' rest)))
         then ws_substitution ws (skip_substitution 1 None (ws_pos ws + 2) (drop 2 rest))
         else if \<not> delimiter \<and> c = btick
         then ws_substitution ws (skip_backtick (ws_pos ws + length c) (tl rest))
         else if unquoted \<and> (is_whitespace c \<or> c \<in> set (ascii_chars ''<>|&;()''))
         then WordBreak ws
         else
           (let expands = \<not> delimiter \<and> (c = ''$'' \<or> (unquoted \<and>
                  (c \<in> set (ascii_chars ''*?[{}'') \<or> (c = ''~'' \<and> ws_pos ws = start))));
                ws = ws\<lparr>ws_dynamic := ws_dynamic ws \<or> expands\<rparr>
            in WordNext (ws_bump (ws_push (hd rest) ws))))"

definition word_step :: "bool \<Rightarrow> nat \<Rightarrow> word_state \<Rightarrow> word_step" where
  "word_step delimiter start ws =
     (case ws_rest ws of
        [] \<Rightarrow> WordBreak ws
      | c # rest \<Rightarrow>
          if ws_quote ws = Some squote then
            WordNext (ws_bump (if c = squote then ws\<lparr>ws_quote := None\<rparr> else ws_push c ws))
          else if c = bslash then
            (let ws = ws_bump (ws\<lparr>ws_quoted := True\<rparr>)
             in case rest of
                  [] \<Rightarrow> WordFail (lex_issue (ws_pos ws) ''trailing escape'')
                | n # _ \<Rightarrow>
                    if n = nl then WordNext (ws_bump ws)
                    else if ws_quote ws = Some dquote \<and> n \<notin> {''$'', btick, dquote, bslash}
                    then word_tail delimiter start c (ws_push bslash ws)
                    else WordNext (ws_bump (ws_push n ws)))
          else if c = squote \<and> ws_quote ws = None then
            WordNext (ws_bump (ws\<lparr>ws_quoted := True, ws_quote := Some squote\<rparr>))
          else if c = dquote then
            WordNext (ws_bump (ws\<lparr>ws_quoted := True,
              ws_quote := (if ws_quote ws = None then Some dquote else None)\<rparr>))
          else word_tail delimiter start c ws)"

lemma skip_substitution_shorter:
  "skip_substitution depth quote pos rest = Inr (pos', rest') \<Longrightarrow> length rest' < length rest"
proof (induction rest arbitrary: depth quote pos rule: length_induct)
  case (1 rest)
  have IH: "skip_substitution d q p r = Inr (pos', rest') \<Longrightarrow> length r < length rest \<Longrightarrow> length rest' < length rest"
    for d q p r
    using "1.IH" less_trans by blast
  from "1.prems" show ?case
    by (cases rest) (auto simp: Let_def split: if_splits list.splits option.splits dest!: IH)
qed

lemma skip_backtick_shorter:
  "skip_backtick pos rest = Inr (pos', rest') \<Longrightarrow> length rest' < length rest"
proof (induction rest arbitrary: pos rule: length_induct)
  case (1 rest)
  have IH: "skip_backtick p r = Inr (pos', rest') \<Longrightarrow> length r < length rest \<Longrightarrow> length rest' < length rest" for p r
    using "1.IH" less_trans by blast
  from "1.prems" show ?case
    by (cases rest) (auto simp: Let_def split: if_splits list.splits dest!: IH)
qed

lemma word_state_fields [simp]:
  "ws_quote (ws_bump ws) = ws_quote ws" "ws_quote (ws_push c ws) = ws_quote ws"
  "ws_rest (ws_bump ws) = tl (ws_rest ws)" "ws_rest (ws_push c ws) = ws_rest ws"
  "ws_pos (ws_push c ws) = ws_pos ws" "ws_pos (ws_bump ws) = ws_pos ws + length (hd (ws_rest ws))"
  "ws_value (ws_bump ws) = ws_value ws" "ws_value (ws_push c ws) = ws_value ws @ c"
  "ws_dynamic (ws_bump ws) = ws_dynamic ws" "ws_dynamic (ws_push c ws) = ws_dynamic ws"
  "ws_executes (ws_bump ws) = ws_executes ws" "ws_executes (ws_push c ws) = ws_executes ws"
  "ws_quoted (ws_bump ws) = ws_quoted ws" "ws_quoted (ws_push c ws) = ws_quoted ws"
  by (simp_all add: ws_bump_def ws_push_def)

lemma word_tail_shorter:
  "word_tail delimiter start c ws = WordNext ws' \<Longrightarrow> ws_rest ws \<noteq> [] \<Longrightarrow> length (ws_rest ws') < length (ws_rest ws)"
  by (cases "ws_rest ws")
    (auto simp: word_tail_def ws_substitution_def ws_bump_def ws_push_def Let_def
      split: if_splits sum.splits dest!: skip_substitution_shorter skip_backtick_shorter)

lemma word_step_shorter:
  "word_step delimiter start ws = WordNext ws' \<Longrightarrow> length (ws_rest ws') < length (ws_rest ws)"
  by (auto simp: word_step_def ws_bump_def ws_push_def Let_def split: if_splits list.splits
      dest!: word_tail_shorter)

function word_loop :: "bool \<Rightarrow> nat \<Rightarrow> word_state \<Rightarrow> issue + word_state" where
  "word_loop delimiter start ws =
     (case word_step delimiter start ws of
        WordBreak ws' \<Rightarrow> Inr ws'
      | WordFail e \<Rightarrow> Inl e
      | WordNext ws' \<Rightarrow> word_loop delimiter start ws')"
  by pat_completeness auto
termination
  by (relation "measure (\<lambda>(d, s, ws). length (ws_rest ws))") (auto dest: word_step_shorter)

declare word_loop.simps [simp del]

definition is_assignment :: "string list \<Rightarrow> bool" where
  "is_assignment raw \<longleftrightarrow>
     ''='' \<in> set raw \<and>
     (let name = takeWhile (\<lambda>c. c \<noteq> ''='') raw
      in name \<noteq> [] \<and> (\<forall>(i, c) \<in> set (enumerate 0 name). c = ''_'' \<or> is_alpha c \<or> (0 < i \<and> is_digit c)))"

definition lex_word :: "bool \<Rightarrow> nat \<Rightarrow> string list \<Rightarrow> issue + shell_word \<times> nat \<times> string list" where
  "lex_word delimiter pos rest =
     (case word_loop delimiter pos \<lparr>ws_pos = pos, ws_rest = rest, ws_value = [], ws_quoted = False,
             ws_dynamic = False, ws_executes = False, ws_quote = None\<rparr> of
        Inl e \<Rightarrow> Inl e
      | Inr ws \<Rightarrow>
          if ws_quote ws \<noteq> None then Inl (lex_issue (ws_pos ws) ''unterminated quote'')
          else if ws_pos ws = pos then Inl (lex_issue (ws_pos ws) ''missing redirection operand or word'')
          else
            (let raw = take (length rest - length (ws_rest ws)) rest
             in Inr (\<lparr>sw_value = ws_value ws, sw_dynamic = ws_dynamic ws, sw_executes = ws_executes ws,
                      sw_quoted = ws_quoted ws, sw_assignment = is_assignment raw,
                      sw_span = span_of pos (ws_pos ws)\<rparr>, ws_pos ws, ws_rest ws)))"

section \<open>Here-documents\<close>

fun has_unescaped_expansion :: "string list \<Rightarrow> bool" where
  "has_unescaped_expansion [] = False"
| "has_unescaped_expansion (c # cs) =
     (if c = bslash then (case cs of [] \<Rightarrow> False | _ # cs' \<Rightarrow> has_unescaped_expansion cs')
      else if c = ''$'' \<or> c = btick then True
      else has_unescaped_expansion cs)"

fun has_executable_expansion :: "string list \<Rightarrow> bool" where
  "has_executable_expansion [] = False"
| "has_executable_expansion (c # cs) =
     (if c = bslash then (case cs of [] \<Rightarrow> False | _ # cs' \<Rightarrow> has_executable_expansion cs')
      else if c = btick \<or> (c = ''$'' \<and> starts ''('' cs) then True
      else has_executable_expansion cs)"

lemma line_shorter: "rest \<noteq> [] \<Longrightarrow> length (dropWhile P rest) - Suc 0 < length rest"
  using length_dropWhile_le [of P rest] by (cases rest) auto

text \<open>The lines up to the delimiter: the body, and the position and rest after it.\<close>

function heredoc_lines ::
  "bool \<Rightarrow> string \<Rightarrow> nat \<Rightarrow> string list \<Rightarrow> string \<Rightarrow> (string \<times> nat \<times> string list) option \<times> nat" where
  "heredoc_lines strip delimiter pos rest body =
     (if rest = [] then (None, pos)
      else
        (let raw = takeWhile (\<lambda>c. c \<noteq> nl) rest;
             after = dropWhile (\<lambda>c. c \<noteq> nl) rest;
             line = concat (if strip then dropWhile (\<lambda>c. c = tab) raw else raw);
             pos = pos + byte_len raw + (if after = [] then 0 else 1);
             rest = tl after
         in if line = delimiter then (Some (body, pos, rest), pos)
            else heredoc_lines strip delimiter pos rest (body @ line @ (if after = [] then [] else nl))))"
  by pat_completeness auto
termination
  by (relation "measure (\<lambda>(strip, d, pos, rest, body). length rest)") (auto simp: line_shorter)

declare heredoc_lines.simps [simp del]

lemma heredoc_lines_shorter:
  "fst (heredoc_lines strip delimiter pos rest body) = Some (b, p, rest') \<Longrightarrow> length rest' \<le> length rest"
proof (induction rest arbitrary: strip pos body rule: length_induct)
  case (1 rest)
  show ?case
  proof (cases "rest = []")
    case True
    with "1.prems" show ?thesis by (simp add: heredoc_lines.simps)
  next
    case False
    let ?after = "tl (dropWhile (\<lambda>c. c \<noteq> nl) rest)"
    have less: "length ?after < length rest"
      using False by (simp add: line_shorter)
    have IH: "fst (heredoc_lines st delimiter q ?after b') = Some (b, p, rest') \<Longrightarrow> length rest' \<le> length rest" for st q b'
      using "1.IH" [rule_format, OF less, of st q b'] less by linarith
    show ?thesis
      using "1.prems" False less
      by (subst (asm) heredoc_lines.simps) (auto simp: Let_def split: if_splits dest!: IH)
  qed
qed

section \<open>The lexer\<close>

record lexer =
  lx_pos :: nat
  lx_rest :: "string list"
  lx_tokens :: "token list"
  lx_pending :: "nat list"

text \<open>
  The body of the loop over the queued here-documents: \<open>unreachable!\<close> for a token that is no redirect is an
  error of its own, shown not to occur below.
\<close>

definition heredoc_fill :: "nat \<Rightarrow> lexer \<Rightarrow> issue + lexer" where
  "heredoc_fill i lx =
     (case lx_tokens lx ! i of
        TRedirect r \<Rightarrow>
          (case heredoc_lines (rd_op r = ''<<-'') (sw_value (rd_word r)) (lx_pos lx) (lx_rest lx) [] of
             (None, pos) \<Rightarrow> Inl (lex_issue pos ''unterminated here-doc'')
           | (Some (body, pos, rest), _) \<Rightarrow>
               (let quoted = sw_quoted (rd_word r);
                    w = \<lparr>sw_value = body,
                         sw_dynamic = (\<not> quoted \<and> has_unescaped_expansion (utf8_chars body)),
                         sw_executes = (\<not> quoted \<and> has_executable_expansion (utf8_chars body)),
                         sw_quoted = quoted, sw_assignment = False, sw_span = span_of (lx_pos lx) pos\<rparr>
                in Inr (lx\<lparr>lx_pos := pos, lx_rest := rest,
                     lx_tokens := (lx_tokens lx)[i := TRedirect (r\<lparr>rd_body := Some w\<rparr>)]\<rparr>)))
      | _ \<Rightarrow> Inl (lex_issue (lx_pos lx) ''unreachable''))"

fun heredocs_loop :: "nat list \<Rightarrow> lexer \<Rightarrow> issue + lexer" where
  "heredocs_loop [] lx = Inr lx"
| "heredocs_loop (i # is) lx =
     (case heredoc_fill i lx of Inl e \<Rightarrow> Inl e | Inr lx' \<Rightarrow> heredocs_loop is lx')"

definition heredocs :: "lexer \<Rightarrow> issue + lexer" where
  "heredocs lx = heredocs_loop (lx_pending lx) (lx\<lparr>lx_pending := []\<rparr>)"

definition redirect_ops :: "string list" where
  "redirect_ops = [''&>>'', ''<<<'', ''<<-'', ''>>'', ''>|'', ''<>'', ''>&'', ''<&'', ''<<'', ''&>'', ''>'', ''<'']"

definition control_ops :: "string list" where
  "control_ops = [''&&'', ''||'', ''|&'', '';;&'', '';;'', '';&'', '';'', ''|'', ''&'', ''('', '')'']"

fun skip_continuations :: "nat \<Rightarrow> string list \<Rightarrow> nat \<times> string list" where
  "skip_continuations pos (a # b # rest) =
     (if a = bslash \<and> b = nl then skip_continuations (pos + 2) rest else (pos, a # b # rest))"
| "skip_continuations pos rest = (pos, rest)"

definition lex_push :: "token \<Rightarrow> nat \<Rightarrow> string list \<Rightarrow> lexer \<Rightarrow> lexer" where
  "lex_push t pos rest lx = lx\<lparr>lx_pos := pos, lx_rest := rest, lx_tokens := lx_tokens lx @ [t]\<rparr>"

text \<open>From the operator to the operand: escaped newlines, the joined descriptor operator, blanks.\<close>

definition redirect_operand :: "string \<Rightarrow> nat \<Rightarrow> string list \<Rightarrow> string \<times> nat \<times> string list" where
  "redirect_operand op pos rest =
     (let (pos, rest) = skip_continuations pos rest;
          joined = (op \<in> {''>'', ''<''} \<and> starts ''&'' rest);
          (pos, rest) = (if joined then (pos + 1, tl rest) else (pos, rest))
      in (if joined then op @ ''&'' else op,
          pos + byte_len (takeWhile (\<lambda>c. c = '' '' \<or> c = tab) rest),
          dropWhile (\<lambda>c. c = '' '' \<or> c = tab) rest))"

definition lex_redirect :: "string \<Rightarrow> string list \<Rightarrow> string list \<Rightarrow> lexer \<Rightarrow> issue + lexer" where
  "lex_redirect op digits tail lx =
     (let start = lx_pos lx;
          fd = (if digits = [] then None else Some (concat digits));
          (operator, pos, rest) =
            redirect_operand op (start + byte_len digits + length op) (drop (length op) tail);
          here = (operator = ''<<'' \<or> operator = ''<<-'')
      in case lex_word here pos rest of
           Inl e \<Rightarrow> Inl e
         | Inr (w, pos, rest) \<Rightarrow>
             Inr (lex_push (TRedirect \<lparr>rd_op = operator, rd_fd = fd, rd_word = w, rd_body = None,
                              rd_span = span_of start pos\<rparr>) pos rest
               (lx\<lparr>lx_pending := lx_pending lx @ (if here then [length (lx_tokens lx)] else [])\<rparr>)))"

definition lex_operator_or_word :: "lexer \<Rightarrow> issue + lexer" where
  "lex_operator_or_word lx =
     (let start = lx_pos lx; rest = lx_rest lx
      in case find (\<lambda>op. starts op rest) control_ops of
           Some op \<Rightarrow>
             Inr (lex_push (TOp op (span_of start (start + length op))) (start + length op) (drop (length op) rest) lx)
         | None \<Rightarrow>
             (case lex_word False start rest of
                Inl e \<Rightarrow> Inl e
              | Inr (w, pos, rest) \<Rightarrow> Inr (lex_push (TWord w) pos rest lx)))"

text \<open>One turn of the loop of \<open>run\<close>.\<close>

definition lex_step :: "lexer \<Rightarrow> issue + lexer" where
  "lex_step lx =
     (let start = lx_pos lx; rest = lx_rest lx; c = hd rest;
          skipped = lx\<lparr>lx_pos := start + length c, lx_rest := tl rest\<rparr>
      in if c \<in> {'' '', tab, cr} then Inr skipped
         else if c = nl then heredocs (lex_push (TOp nl (span_of start (start + 1))) (start + 1) (tl rest) lx)
         else if c = ''#'' then
           Inr (lx\<lparr>lx_pos := start + byte_len (takeWhile (\<lambda>c. c \<noteq> nl) rest),
                   lx_rest := dropWhile (\<lambda>c. c \<noteq> nl) rest\<rparr>)
         else if c = bslash \<and> starts nl (tl rest) then Inr (lx\<lparr>lx_pos := start + 2, lx_rest := drop 2 rest\<rparr>)
         else
           (let digits = takeWhile is_digit rest; tail = dropWhile is_digit rest
            in case find (\<lambda>op. starts op tail) redirect_ops of
                 Some op \<Rightarrow>
                   if \<not> starts ''<('' tail \<and> \<not> starts ''>('' tail then lex_redirect op digits tail lx
                   else lex_operator_or_word lx
               | None \<Rightarrow> lex_operator_or_word lx))"

lemma word_tail_break: "word_tail delimiter start c ws = WordBreak ws' \<Longrightarrow> ws' = ws \<and> ws_quote ws = None"
  by (auto simp: word_tail_def ws_substitution_def Let_def split: if_splits sum.splits)

lemma word_step_break: "word_step delimiter start ws = WordBreak ws' \<Longrightarrow> ws' = ws"
  by (auto simp: word_step_def Let_def split: list.splits if_splits dest!: word_tail_break)

lemma word_loop_shorter:
  "word_loop delimiter start ws = Inr ws' \<Longrightarrow> ws' = ws \<or> length (ws_rest ws') < length (ws_rest ws)"
proof (induction delimiter start ws rule: word_loop.induct)
  case (1 delimiter start ws)
  show ?case
  proof (cases "word_step delimiter start ws")
    case (WordNext w)
    with "1.IH" "1.prems" have "ws' = w \<or> length (ws_rest ws') < length (ws_rest w)"
      by (simp add: word_loop.simps [of delimiter start ws])
    with word_step_shorter [OF WordNext] show ?thesis by auto
  next
    case (WordBreak w)
    with "1.prems" word_step_break [OF WordBreak] show ?thesis
      by (simp add: word_loop.simps [of delimiter start ws])
  qed (use "1.prems" in \<open>simp add: word_loop.simps [of delimiter start ws]\<close>)
qed

lemma lex_word_shorter:
  "lex_word delimiter pos rest = Inr (w, pos', rest') \<Longrightarrow> length rest' < length rest"
  by (auto simp: lex_word_def Let_def split: sum.splits if_splits dest!: word_loop_shorter)

lemma skip_continuations_shorter: "length (snd (skip_continuations pos rest)) \<le> length rest"
  by (induction pos rest rule: skip_continuations.induct) auto

lemma heredoc_fill_shorter: "heredoc_fill i lx = Inr lx' \<Longrightarrow> length (lx_rest lx') \<le> length (lx_rest lx)"
  by (auto simp: heredoc_fill_def Let_def split: token.splits prod.splits option.splits
      intro: heredoc_lines_shorter [OF arg_cong [of _ "(x, y)" fst for x y, THEN trans]])

lemma heredocs_loop_shorter:
  "heredocs_loop is lx = Inr lx' \<Longrightarrow> length (lx_rest lx') \<le> length (lx_rest lx)"
  by (induction "is" lx rule: heredocs_loop.induct)
    (auto split: sum.splits dest!: heredoc_fill_shorter)

lemma heredocs_shorter: "heredocs lx = Inr lx' \<Longrightarrow> length (lx_rest lx') \<le> length (lx_rest lx)"
  unfolding heredocs_def by (drule heredocs_loop_shorter) simp

lemma redirect_operand_shorter: "redirect_operand op pos rest = (operator, pos', rest') \<Longrightarrow> length rest' \<le> length rest"
  using skip_continuations_shorter [of pos rest]
    length_dropWhile_le [of "\<lambda>c. c = '' '' \<or> c = tab" "snd (skip_continuations pos rest)"]
    length_dropWhile_le [of "\<lambda>c. c = '' '' \<or> c = tab" "tl (snd (skip_continuations pos rest))"]
  by (auto simp: redirect_operand_def Let_def split: prod.splits if_splits)

lemma lex_redirect_shorter:
  "lex_redirect op digits tail lx = Inr lx' \<Longrightarrow> length (lx_rest lx') < length tail"
  by (auto simp: lex_redirect_def lex_push_def Let_def split: sum.splits prod.splits
      dest!: lex_word_shorter redirect_operand_shorter)

lemma find_op_nonempty: "find P ops = Some op \<Longrightarrow> [] \<notin> set ops \<Longrightarrow> op \<noteq> []"
  by (metis find_Some_iff nth_mem)

lemma lex_operator_or_word_shorter:
  "lex_operator_or_word lx = Inr lx' \<Longrightarrow> lx_rest lx \<noteq> [] \<Longrightarrow> length (lx_rest lx') < length (lx_rest lx)"
  by (auto simp: lex_operator_or_word_def lex_push_def Let_def split: option.splits sum.splits
      dest!: lex_word_shorter find_op_nonempty) (simp_all add: control_ops_def)

lemma lex_step_shorter:
  "lex_step lx = Inr lx' \<Longrightarrow> lx_rest lx \<noteq> [] \<Longrightarrow> length (lx_rest lx') < length (lx_rest lx)"
proof -
  assume h: "lex_step lx = Inr lx'" and ne: "lx_rest lx \<noteq> []"
  then obtain c rest where rest: "lx_rest lx = c # rest" by (cases "lx_rest lx") auto
  have dw: "length (dropWhile P rest) \<le> length rest" for P by (rule length_dropWhile_le)
  from h rest show ?thesis
    using dw [of "\<lambda>c. c \<noteq> nl"] dw [of is_digit]
    by (auto simp: lex_step_def Let_def lex_push_def nl_def split: if_splits option.splits
        dest!: heredocs_shorter lex_redirect_shorter lex_operator_or_word_shorter)
qed

function lex_loop :: "lexer \<Rightarrow> issue + token list" where
  "lex_loop lx =
     (if lx_rest lx = [] then
        (if lx_pending lx \<noteq> [] then Inl (lex_issue (lx_pos lx) ''unterminated here-doc'')
         else Inr (lx_tokens lx))
      else if max_nodes \<le> length (lx_tokens lx) then Inl (limit_issue (lx_pos lx) ''shell token limit'')
      else case lex_step lx of
             Inl e \<Rightarrow> Inl e
           | Inr lx' \<Rightarrow> lex_loop lx')"
  by pat_completeness auto
termination
  by (relation "measure (\<lambda>lx. length (lx_rest lx))") (auto dest: lex_step_shorter)

declare lex_loop.simps [simp del]

definition lex :: "string \<Rightarrow> issue + token list" where
  "lex source = lex_loop \<lparr>lx_pos = 0, lx_rest = utf8_chars source, lx_tokens = [], lx_pending = []\<rparr>"

section \<open>Positions\<close>

text \<open>Every piece of the lexer advances its position by the bytes of the characters it takes.\<close>

lemma byte_len_simps [simp]: "byte_len [] = 0" "byte_len (c # cs) = length c + byte_len cs"
  "byte_len (cs @ ds) = byte_len cs + byte_len ds"
  by (simp_all add: byte_len_def)

lemma byte_len_takeWhile: "byte_len (takeWhile P cs) + byte_len (dropWhile P cs) = byte_len cs"
  by (metis byte_len_simps(3) takeWhile_dropWhile_id)

lemma starts_byte_len:
  assumes "starts op rest" shows "byte_len rest = length op + byte_len (drop (length op) rest)"
proof -
  have "byte_len (ascii_chars op) = length op" by (induction op) (simp_all add: ascii_chars_def)
  with assms have "byte_len (take (length op) rest) = length op" by (simp add: starts_def)
  then show ?thesis by (metis append_take_drop_id byte_len_simps(3))
qed

lemma skip_substitution_pos:
  "skip_substitution depth quote pos rest = Inr (pos', rest') \<Longrightarrow> pos \<le> pos' \<and> pos' + byte_len rest' = pos + byte_len rest"
proof (induction rest arbitrary: depth quote pos rule: length_induct)
  case (1 rest)
  have IH: "skip_substitution d q p r = Inr (pos', rest') \<Longrightarrow> length r < length rest \<Longrightarrow>
      p \<le> pos' \<and> pos' + byte_len rest' = p + byte_len r" for d q p r
    using "1.IH" by blast
  from "1.prems" show ?case
    by (cases rest) (auto simp: Let_def split: if_splits list.splits option.splits dest!: IH)
qed

lemma skip_backtick_pos:
  "skip_backtick pos rest = Inr (pos', rest') \<Longrightarrow> pos \<le> pos' \<and> pos' + byte_len rest' = pos + byte_len rest"
proof (induction rest arbitrary: pos rule: length_induct)
  case (1 rest)
  have IH: "skip_backtick p r = Inr (pos', rest') \<Longrightarrow> length r < length rest \<Longrightarrow>
      p \<le> pos' \<and> pos' + byte_len rest' = p + byte_len r" for p r
    using "1.IH" by blast
  from "1.prems" show ?case
    by (cases rest) (auto simp: Let_def split: if_splits list.splits dest!: IH)
qed

lemma two_starts: "starts [a, b] rest \<Longrightarrow> byte_len rest = 2 + byte_len (drop 2 rest)"
  using starts_byte_len [of "[a, b]" rest] by (simp add: numeral_2_eq_2)

lemma word_tail_pos:
  assumes "word_tail delimiter start c ws = WordNext ws'" "ws_rest ws \<noteq> []" "c = hd (ws_rest ws) \<or> c \<noteq> btick"
  shows "ws_pos ws \<le> ws_pos ws' \<and> ws_pos ws' + byte_len (ws_rest ws') = ws_pos ws + byte_len (ws_rest ws)"
proof (cases "\<not> delimiter \<and> (starts ''$('' (ws_rest ws) \<or>
    (ws_quote ws = None \<and> (starts ''<('' (ws_rest ws) \<or> starts ''>('' (ws_rest ws))))")
  case True
  with assms(1) obtain pos rest where sub: "skip_substitution 1 None (ws_pos ws + 2) (drop 2 (ws_rest ws)) = Inr (pos, rest)"
    "ws_pos ws' = pos" "ws_rest ws' = rest"
    by (auto simp: word_tail_def ws_substitution_def Let_def split: sum.splits)
  from True have "byte_len (ws_rest ws) = 2 + byte_len (drop 2 (ws_rest ws))"
    by (auto dest: two_starts)
  with skip_substitution_pos [OF sub(1)] sub(2,3) show ?thesis by simp
next
  case sub: False
  from assms(2) obtain d rest where rest: "ws_rest ws = d # rest" by (cases "ws_rest ws") auto
  show ?thesis
  proof (cases "\<not> delimiter \<and> c = btick")
    case True
    with assms(3) rest have "d = btick" by simp
    from True sub assms(1) obtain pos r where bt: "skip_backtick (ws_pos ws + length c) (tl (ws_rest ws)) = Inr (pos, r)"
      "ws_pos ws' = pos" "ws_rest ws' = r"
      by (auto simp: word_tail_def ws_substitution_def Let_def split: sum.splits if_splits)
    with skip_backtick_pos [OF bt(1)] rest \<open>d = btick\<close> True show ?thesis by simp
  next
    case False
    with sub assms(1) rest show ?thesis
      by (auto simp: word_tail_def Let_def split: if_splits)
  qed
qed

lemma bslash_not_btick [simp]: "bslash \<noteq> btick"
  by (simp add: bslash_def btick_def)

lemma word_step_pos:
  assumes "word_step delimiter start ws = WordNext ws'"
  shows "ws_pos ws \<le> ws_pos ws' \<and> ws_pos ws' + byte_len (ws_rest ws') = ws_pos ws + byte_len (ws_rest ws)"
proof (cases "ws_rest ws")
  case Nil
  with assms show ?thesis by (simp add: word_step_def)
next
  case (Cons c rest)
  with assms show ?thesis
    by (auto simp: word_step_def Let_def split: if_splits list.splits dest!: word_tail_pos)
qed

lemma word_loop_pos:
  "word_loop delimiter start ws = Inr ws' \<Longrightarrow> ws_pos ws \<le> ws_pos ws' \<and> ws_pos ws' + byte_len (ws_rest ws') = ws_pos ws + byte_len (ws_rest ws)"
proof (induction delimiter start ws rule: word_loop.induct)
  case (1 delimiter start ws)
  then show ?case
    by (cases "word_step delimiter start ws")
      (fastforce simp: word_loop.simps [of delimiter start ws] dest: word_step_pos word_step_break)+
qed

lemma lex_word_pos:
  "lex_word delimiter pos rest = Inr (w, pos', rest') \<Longrightarrow>
   pos' + byte_len rest' = pos + byte_len rest \<and> pos < pos' \<and> sw_span w = span_of pos pos'"
  by (auto simp: lex_word_def Let_def split: sum.splits if_splits dest!: word_loop_pos)

lemma skip_continuations_pos:
  "skip_continuations pos rest = (pos', rest') \<Longrightarrow> pos \<le> pos' \<and> pos' + byte_len rest' = pos + byte_len rest"
  by (induction pos rest arbitrary: pos' rest' rule: skip_continuations.induct)
    (auto simp: bslash_def nl_def split: if_splits)

lemma starts_hd: "starts [a] rest \<Longrightarrow> byte_len rest = Suc (byte_len (tl rest))"
  using starts_byte_len [of "[a]" rest] by (simp add: drop_Suc)

lemma redirect_operand_pos:
  "redirect_operand op pos rest = (operator, pos', rest') \<Longrightarrow> pos \<le> pos' \<and> pos' + byte_len rest' = pos + byte_len rest"
proof -
  assume h: "redirect_operand op pos rest = (operator, pos', rest')"
  obtain p r where cont: "skip_continuations pos rest = (p, r)" by fastforce
  let ?joined = "op \<in> {''>'', ''<''} \<and> starts ''&'' r"
  obtain p2 r2 where j: "(if ?joined then (p + 1, tl r) else (p, r)) = (p2, r2)" by fastforce
  then have "p \<le> p2 \<and> p2 + byte_len r2 = p + byte_len r" by (auto dest: starts_hd split: if_splits)
  moreover have "pos' = p2 + byte_len (takeWhile (\<lambda>c. c = '' '' \<or> c = tab) r2)"
    "rest' = dropWhile (\<lambda>c. c = '' '' \<or> c = tab) r2"
    using h cont j by (auto simp: redirect_operand_def Let_def split: if_splits)
  ultimately show ?thesis
    using skip_continuations_pos [OF cont] byte_len_takeWhile [of "\<lambda>c. c = '' '' \<or> c = tab" r2] by simp
qed

lemma heredoc_lines_pos:
  "fst (heredoc_lines strip delimiter pos rest body) = Some (b, p, rest') \<Longrightarrow>
   pos \<le> p \<and> p + byte_len rest' = pos + byte_len rest"
proof (induction rest arbitrary: strip pos body rule: length_induct)
  case (1 rest)
  show ?case
  proof (cases "rest = []")
    case True
    with "1.prems" show ?thesis by (simp add: heredoc_lines.simps)
  next
    case False
    let ?raw = "takeWhile (\<lambda>c. c \<noteq> nl) rest"
    let ?after = "dropWhile (\<lambda>c. c \<noteq> nl) rest"
    have bytes: "byte_len ?raw + (if ?after = [] then 0 else 1) + byte_len (tl ?after) = byte_len rest"
    proof (cases ?after)
      case (Cons c after)
      with hd_dropWhile [of "\<lambda>c. c \<noteq> nl" rest] have "c = nl" by simp
      with Cons byte_len_takeWhile [of "\<lambda>c. c \<noteq> nl" rest] show ?thesis by (simp add: nl_def)
    next
      case Nil
      with byte_len_takeWhile [of "\<lambda>c. c \<noteq> nl" rest] show ?thesis by (simp only: Nil) simp
    qed
    have less: "length (tl ?after) < length rest" using False by (simp add: line_shorter)
    have IH: "fst (heredoc_lines st delimiter q (tl ?after) b') = Some (b, p, rest') \<Longrightarrow>
        q \<le> p \<and> p + byte_len rest' = q + byte_len (tl ?after)" for st q b'
      using "1.IH" [rule_format, OF less, of st q b'] by simp
    let ?pos = "pos + byte_len ?raw + (if ?after = [] then 0 else 1)"
    from "1.prems" False have "?pos \<le> p \<and> p + byte_len rest' = ?pos + byte_len (tl ?after)"
      by (subst (asm) heredoc_lines.simps) (simp only: Let_def if_False fst_conv option.inject prod.inject IH split: if_split_asm; simp)
    with bytes show ?thesis by linarith
  qed
qed

section \<open>The lexer's invariant\<close>

text \<open>
  An error of the lexer is a syntax error or a limit; \<open>unreachable!\<close> is not one of them.
\<close>

definition lex_error :: "issue \<Rightarrow> bool" where
  "lex_error e \<longleftrightarrow> is_status e \<in> {Invalid, ResourceLimit} \<and> is_reason e \<noteq> ''unreachable''"

definition spans_ok :: "nat \<Rightarrow> span list \<Rightarrow> bool" where
  "spans_ok n ss \<longleftrightarrow>
     (\<forall>s \<in> set ss. sp_start s < sp_end s \<and> sp_end s \<le> n) \<and> sorted_wrt (\<lambda>s t. sp_end s \<le> sp_start t) ss"

definition is_redirect :: "token \<Rightarrow> bool" where
  "is_redirect t = (case t of TRedirect _ \<Rightarrow> True | _ \<Rightarrow> False)"

definition lexer_ok :: "nat \<Rightarrow> lexer \<Rightarrow> bool" where
  "lexer_ok n lx \<longleftrightarrow>
     lx_pos lx + byte_len (lx_rest lx) = n \<and> spans_ok (lx_pos lx) (map token_span (lx_tokens lx)) \<and>
     (\<forall>i \<in> set (lx_pending lx). i < length (lx_tokens lx) \<and> is_redirect (lx_tokens lx ! i))"

lemma spans_ok_mono: "spans_ok n ss \<Longrightarrow> n \<le> m \<Longrightarrow> spans_ok m ss"
  by (auto simp: spans_ok_def)

lemma lexer_ok_advance:
  "lexer_ok n lx \<Longrightarrow> lx_pos lx \<le> p \<Longrightarrow> p + byte_len rest = lx_pos lx + byte_len (lx_rest lx) \<Longrightarrow>
   lexer_ok n (lx\<lparr>lx_pos := p, lx_rest := rest\<rparr>)"
  by (auto simp: lexer_ok_def intro: spans_ok_mono)

lemma lexer_ok_push:
  assumes "lexer_ok n lx" "token_span t = span_of s p" "lx_pos lx \<le> s" "s < p"
    "p + byte_len rest = lx_pos lx + byte_len (lx_rest lx)"
  shows "lexer_ok n (lex_push t p rest lx)"
proof -
  have "spans_ok p (map token_span (lx_tokens lx) @ [span_of s p])"
    using assms(1,3,4) unfolding lexer_ok_def spans_ok_def
    by (auto simp: sorted_wrt_append span_of_def)
  with assms show ?thesis by (auto simp: lexer_ok_def lex_push_def nth_append)
qed

lemma lex_errors [simp]:
  "lex_error (lex_issue pos ''unterminated substitution'')"
  "lex_error (lex_issue pos ''unterminated command substitution'')" "lex_error (lex_issue pos ''trailing escape'')"
  "lex_error (lex_issue pos ''unterminated quote'')" "lex_error (lex_issue pos ''unterminated here-doc'')"
  "lex_error (lex_issue pos ''missing redirection operand or word'')"
  "lex_error (limit_issue pos ''shell nesting limit'')" "lex_error (limit_issue pos ''shell token limit'')"
  by (simp_all add: lex_error_def lex_issue_def limit_issue_def)

lemma skip_substitution_error: "skip_substitution depth quote pos rest = Inl e \<Longrightarrow> lex_error e"
proof (induction rest arbitrary: depth quote pos rule: length_induct)
  case (1 rest)
  have IH: "skip_substitution d q p r = Inl e \<Longrightarrow> length r < length rest \<Longrightarrow> lex_error e" for d q p r
    using "1.IH" by blast
  from "1.prems" show ?case
    by (cases rest) (auto simp: Let_def split: if_splits list.splits option.splits dest: IH)
qed

lemma skip_backtick_error: "skip_backtick pos rest = Inl e \<Longrightarrow> lex_error e"
proof (induction rest arbitrary: pos rule: length_induct)
  case (1 rest)
  have IH: "skip_backtick p r = Inl e \<Longrightarrow> length r < length rest \<Longrightarrow> lex_error e" for p r
    using "1.IH" by blast
  from "1.prems" show ?case
    by (cases rest) (auto simp: Let_def split: if_splits list.splits dest: IH)
qed

lemma word_tail_error: "word_tail delimiter start c ws = WordFail e \<Longrightarrow> lex_error e"
  by (auto simp: word_tail_def ws_substitution_def Let_def split: if_splits sum.splits
      dest: skip_substitution_error skip_backtick_error)

lemma word_loop_error: "word_loop delimiter start ws = Inl e \<Longrightarrow> lex_error e"
proof (induction delimiter start ws rule: word_loop.induct)
  case (1 delimiter start ws)
  have "lex_error e'" if "word_step delimiter start ws = WordFail e'" for e'
    using that by (auto simp: word_step_def Let_def split: if_splits list.splits dest: word_tail_error)
  with 1 show ?case
    by (cases "word_step delimiter start ws") (auto simp: word_loop.simps [of delimiter start ws])
qed

lemma lex_word_error: "lex_word delimiter pos rest = Inl e \<Longrightarrow> lex_error e"
  by (auto simp: lex_word_def Let_def split: sum.splits if_splits dest: word_loop_error)

text \<open>One turn keeps the invariant, or fails with an error of the lexer.\<close>

definition step_ok :: "nat \<Rightarrow> issue + lexer \<Rightarrow> bool" where
  "step_ok n res \<longleftrightarrow> (case res of Inl e \<Rightarrow> lex_error e | Inr lx \<Rightarrow> lexer_ok n lx)"

lemma heredoc_fill_ok:
  assumes ok: "lexer_ok n lx" and i: "i < length (lx_tokens lx)" "is_redirect (lx_tokens lx ! i)"
  shows "step_ok n (heredoc_fill i lx)"
    "heredoc_fill i lx = Inr lx' \<Longrightarrow> lx_pending lx' = lx_pending lx \<and> length (lx_tokens lx') = length (lx_tokens lx)
       \<and> (\<forall>j. is_redirect (lx_tokens lx ! j) \<longrightarrow> is_redirect (lx_tokens lx' ! j))"
proof -
  from i(2) obtain r where r: "lx_tokens lx ! i = TRedirect r"
    by (cases "lx_tokens lx ! i") (auto simp: is_redirect_def)
  obtain res q where lines:
    "heredoc_lines (rd_op r = ''<<-'') (sw_value (rd_word r)) (lx_pos lx) (lx_rest lx) [] = (res, q)" by fastforce
  show "step_ok n (heredoc_fill i lx)"
  proof (cases res)
    case None
    with r lines show ?thesis by (simp add: heredoc_fill_def step_ok_def)
  next
    case (Some t)
    then obtain b p rest where t: "res = Some (b, p, rest)" by (cases t) auto
    with lines heredoc_lines_pos [of _ _ _ _ _ b p rest] have
      pos: "lx_pos lx \<le> p" "p + byte_len rest = lx_pos lx + byte_len (lx_rest lx)" by (metis fst_conv)+
    obtain w where fill: "heredoc_fill i lx = Inr (lx\<lparr>lx_pos := p, lx_rest := rest,
        lx_tokens := (lx_tokens lx)[i := TRedirect (r\<lparr>rd_body := Some w\<rparr>)]\<rparr>)"
      using r lines t by (simp add: heredoc_fill_def Let_def)
    have "map token_span ((lx_tokens lx)[i := TRedirect (r\<lparr>rd_body := Some w\<rparr>)]) = map token_span (lx_tokens lx)"
      using r i(1) by (simp add: map_update token_span_def list_update_same_conv)
    with fill lexer_ok_advance [OF ok pos] r i(1) show ?thesis
      by (auto simp: step_ok_def lexer_ok_def nth_list_update is_redirect_def)
  qed
  show "heredoc_fill i lx = Inr lx' \<Longrightarrow> lx_pending lx' = lx_pending lx \<and> length (lx_tokens lx') = length (lx_tokens lx)
       \<and> (\<forall>j. is_redirect (lx_tokens lx ! j) \<longrightarrow> is_redirect (lx_tokens lx' ! j))"
    using r lines i(1)
    by (auto simp: heredoc_fill_def Let_def is_redirect_def nth_list_update split: option.splits)
qed

lemma heredocs_loop_ok:
  "lexer_ok n lx \<Longrightarrow> \<forall>i \<in> set is. i < length (lx_tokens lx) \<and> is_redirect (lx_tokens lx ! i) \<Longrightarrow>
   step_ok n (heredocs_loop is lx)"
proof (induction "is" arbitrary: lx)
  case (Cons i "is")
  then have fill: "step_ok n (heredoc_fill i lx)" by (intro heredoc_fill_ok(1)) auto
  show ?case
  proof (cases "heredoc_fill i lx")
    case (Inl e)
    with fill show ?thesis by (simp add: step_ok_def)
  next
    case (Inr lx')
    with fill have "lexer_ok n lx'" by (simp add: step_ok_def)
    moreover have "\<forall>j \<in> set is. j < length (lx_tokens lx') \<and> is_redirect (lx_tokens lx' ! j)"
      using heredoc_fill_ok(2) [OF Cons.prems(1) _ _ Inr] Cons.prems(2) by auto
    ultimately show ?thesis using Cons.IH Inr by simp
  qed
qed (simp add: step_ok_def)

lemma heredocs_ok: "lexer_ok n lx \<Longrightarrow> step_ok n (heredocs lx)"
  unfolding heredocs_def by (rule heredocs_loop_ok) (auto simp: lexer_ok_def)

lemma lex_redirect_ok:
  assumes ok: "lexer_ok n lx" and rest: "lx_rest lx = digits @ tail" and op: "starts op tail"
  shows "step_ok n (lex_redirect op digits tail lx)"
proof -
  let ?pos = "lx_pos lx + byte_len digits + length op"
  obtain operator p r where o: "redirect_operand op ?pos (drop (length op) tail) = (operator, p, r)"
    by (metis surj_pair)
  let ?here = "operator = ''<<'' \<or> operator = ''<<-''"
  show ?thesis
  proof (cases "lex_word ?here p r")
    case (Inl e)
    with o lex_word_error [OF Inl] show ?thesis by (simp add: lex_redirect_def Let_def step_ok_def)
  next
    case (Inr x)
    then obtain w p' r' where w: "lex_word ?here p r = Inr (w, p', r')" by (cases x) auto
    from redirect_operand_pos [OF o] lex_word_pos [OF w] starts_byte_len [OF op] rest
    have pos: "lx_pos lx < p'" "p' + byte_len r' = lx_pos lx + byte_len (lx_rest lx)" by auto
    let ?t = "TRedirect \<lparr>rd_op = operator, rd_fd = (if digits = [] then None else Some (concat digits)), rd_word = w,
      rd_body = None, rd_span = span_of (lx_pos lx) p'\<rparr>"
    let ?lx = "lex_push ?t p' r' lx"
    have eq: "lex_redirect op digits tail lx =
      Inr (?lx\<lparr>lx_pending := lx_pending lx @ (if ?here then [length (lx_tokens lx)] else [])\<rparr>)"
      using o w by (simp add: lex_redirect_def Let_def lex_push_def)
    have "lexer_ok n ?lx"
      by (rule lexer_ok_push [OF ok _ _ pos]) (simp_all add: token_span_def)
    then show ?thesis unfolding eq step_ok_def
      by (auto simp: lexer_ok_def lex_push_def nth_append is_redirect_def)
  qed
qed

lemma lex_operator_or_word_ok:
  assumes ok: "lexer_ok n lx" shows "step_ok n (lex_operator_or_word lx)"
proof (cases "find (\<lambda>op. starts op (lx_rest lx)) control_ops")
  case (Some op)
  then have op: "starts op (lx_rest lx)" "op \<noteq> []"
    by (auto simp: find_Some_iff find_op_nonempty [OF Some]) (use find_op_nonempty [OF Some] in \<open>simp add: control_ops_def\<close>)
  let ?p = "lx_pos lx + length op"
  have "lexer_ok n (lex_push (TOp op (span_of (lx_pos lx) ?p)) ?p (drop (length op) (lx_rest lx)) lx)"
    by (rule lexer_ok_push [OF ok]) (use op starts_byte_len [OF op(1)] in \<open>auto simp: token_span_def\<close>)
  with Some show ?thesis by (simp add: lex_operator_or_word_def Let_def step_ok_def)
next
  case None
  show ?thesis
  proof (cases "lex_word False (lx_pos lx) (lx_rest lx)")
    case (Inl e)
    with None lex_word_error [OF Inl] show ?thesis by (simp add: lex_operator_or_word_def step_ok_def)
  next
    case (Inr x)
    then obtain w p r where w: "lex_word False (lx_pos lx) (lx_rest lx) = Inr (w, p, r)" by (cases x) auto
    from lex_word_pos [OF w] have "lexer_ok n (lex_push (TWord w) p r lx)"
      by (intro lexer_ok_push [OF ok, of _ "lx_pos lx"]) (simp_all add: token_span_def)
    with None w show ?thesis by (simp add: lex_operator_or_word_def step_ok_def)
  qed
qed

lemma lex_step_ok:
  assumes ok: "lexer_ok n lx" and "lx_rest lx \<noteq> []"
  shows "step_ok n (lex_step lx)"
proof -
  from assms(2) obtain c rest where rest: "lx_rest lx = c # rest" by (cases "lx_rest lx") auto
  consider (blank) "c \<in> {'' '', tab, cr}" | (newline) "c \<notin> {'' '', tab, cr}" "c = nl"
    | (comment) "c \<notin> {'' '', tab, cr}" "c \<noteq> nl" "c = ''#''"
    | (joined) "c \<notin> {'' '', tab, cr}" "c \<noteq> nl" "c \<noteq> ''#''" "c = bslash" "starts nl rest"
    | (other) "c \<notin> {'' '', tab, cr}" "c \<noteq> nl" "c \<noteq> ''#''" "\<not> (c = bslash \<and> starts nl rest)" by blast
  then show ?thesis
  proof cases
    case blank
    with rest lexer_ok_advance [OF ok, of "lx_pos lx + length c" rest] show ?thesis
      by (simp add: lex_step_def Let_def step_ok_def)
  next
    case newline
    then have "lexer_ok n (lex_push (TOp nl (span_of (lx_pos lx) (lx_pos lx + 1))) (lx_pos lx + 1) rest lx)"
      by (intro lexer_ok_push [OF ok, of _ "lx_pos lx"]) (simp_all add: token_span_def rest nl_def)
    from heredocs_ok [OF this] rest newline show ?thesis by (simp add: lex_step_def Let_def)
  next
    case comment
    with rest lexer_ok_advance [OF ok, of "lx_pos lx + byte_len (takeWhile (\<lambda>c. c \<noteq> nl) (c # rest))"
        "dropWhile (\<lambda>c. c \<noteq> nl) (c # rest)"] byte_len_takeWhile [of "\<lambda>c. c \<noteq> nl" "c # rest"]
    show ?thesis by (simp add: lex_step_def Let_def step_ok_def)
  next
    case joined
    then have "byte_len (drop 2 (lx_rest lx)) + 2 = byte_len (lx_rest lx)"
      using rest starts_hd [of "CHR 0x0A" rest] by (simp add: nl_def bslash_def drop_Suc numeral_2_eq_2)
    with lexer_ok_advance [OF ok, of "lx_pos lx + 2" "drop 2 (lx_rest lx)"]
    have "lexer_ok n (lx\<lparr>lx_pos := lx_pos lx + 2, lx_rest := drop 2 (lx_rest lx)\<rparr>)" by simp
    with joined rest show ?thesis by (simp add: lex_step_def Let_def step_ok_def)
  next
    case other
    let ?digits = "takeWhile is_digit (lx_rest lx)"
    let ?tail = "dropWhile is_digit (lx_rest lx)"
    have eq: "lex_step lx =
      (case find (\<lambda>op. starts op ?tail) redirect_ops of
         Some op \<Rightarrow> if \<not> starts ''<('' ?tail \<and> \<not> starts ''>('' ?tail then lex_redirect op ?digits ?tail lx
                    else lex_operator_or_word lx
       | None \<Rightarrow> lex_operator_or_word lx)"
      unfolding lex_step_def Let_def using other rest by (simp only: list.sel if_False)
    have "step_ok n (lex_redirect op ?digits ?tail lx)" if "starts op ?tail" for op
      by (rule lex_redirect_ok [OF ok]) (simp_all add: that)
    with lex_operator_or_word_ok [OF ok] show ?thesis
      unfolding eq by (auto split: option.splits simp: find_Some_iff)
  qed
qed

lemma heredocs_tokens: "heredocs lx = Inr lx' \<Longrightarrow> length (lx_tokens lx') = length (lx_tokens lx)"
proof -
  have fill: "heredoc_fill i lx = Inr lx' \<Longrightarrow> length (lx_tokens lx') = length (lx_tokens lx)" for i lx lx'
    by (auto simp: heredoc_fill_def Let_def split: token.splits prod.splits option.splits)
  have "heredocs_loop is lx = Inr lx' \<Longrightarrow> length (lx_tokens lx') = length (lx_tokens lx)" for "is" lx lx'
    by (induction "is" lx rule: heredocs_loop.induct) (auto split: sum.splits dest: fill)
  then show "heredocs lx = Inr lx' \<Longrightarrow> length (lx_tokens lx') = length (lx_tokens lx)"
    by (fastforce simp: heredocs_def)
qed

lemma lex_step_tokens: "lex_step lx = Inr lx' \<Longrightarrow> length (lx_tokens lx') \<le> Suc (length (lx_tokens lx))"
  by (auto simp: lex_step_def Let_def lex_redirect_def lex_operator_or_word_def lex_push_def
      split: if_splits option.splits sum.splits prod.splits dest!: heredocs_tokens)

lemma lex_loop_ok:
  "lexer_ok n lx \<Longrightarrow> length (lx_tokens lx) \<le> max_nodes \<Longrightarrow>
   (case lex_loop lx of
      Inl e \<Rightarrow> lex_error e
    | Inr ts \<Rightarrow> spans_ok n (map token_span ts) \<and> length ts \<le> max_nodes)"
proof (induction lx rule: lex_loop.induct)
  case (1 lx)
  show ?case
  proof (cases "lx_rest lx = []")
    case True
    with "1.prems" show ?thesis
      by (subst lex_loop.simps) (auto simp: lexer_ok_def)
  next
    case rest: False
    show ?thesis
    proof (cases "max_nodes \<le> length (lx_tokens lx)")
      case True
      with rest show ?thesis by (subst lex_loop.simps) simp
    next
      case False
      show ?thesis
      proof (cases "lex_step lx")
        case (Inl e)
        with rest False lex_step_ok [OF "1.prems"(1) rest] show ?thesis
          by (subst lex_loop.simps) (simp add: step_ok_def)
      next
        case (Inr lx')
        with lex_step_ok [OF "1.prems"(1) rest] have "lexer_ok n lx'" by (simp add: step_ok_def)
        moreover from lex_step_tokens [OF Inr] False have "length (lx_tokens lx') \<le> max_nodes" by simp
        ultimately show ?thesis
          using "1.IH" [OF rest False Inr] rest False Inr by (subst lex_loop.simps) simp
      qed
    qed
  qed
qed

section \<open>Properties\<close>

text \<open>
  C31. The lexer returns on every command, without a panic: a failure is a syntax error or a limit, never the
  \<open>unreachable!\<close> of the here-document loop; a success is at most 32768 tokens whose spans are non-empty byte
  ranges of the command, in order and without overlap.
\<close>

theorem lexer_total_and_spans_ordered:
  "case lex source of
     Inl e \<Rightarrow> is_status e \<in> {Invalid, ResourceLimit} \<and> is_reason e \<noteq> ''unreachable''
   | Inr tokens \<Rightarrow>
       length tokens \<le> max_nodes \<and> sorted_wrt (\<lambda>s t. sp_end (token_span s) \<le> sp_start (token_span t)) tokens \<and>
       list_all (\<lambda>t. sp_start (token_span t) < sp_end (token_span t) \<and> sp_end (token_span t) \<le> length source) tokens"
proof -
  let ?lx = "\<lparr>lx_pos = 0, lx_rest = utf8_chars source, lx_tokens = [], lx_pending = []\<rparr>"
  have "lexer_ok (length source) ?lx" by (simp add: lexer_ok_def byte_len_def spans_ok_def)
  from lex_loop_ok [OF this] show ?thesis
    by (auto simp: lex_def lex_error_def spans_ok_def sorted_wrt_map list_all_iff split: sum.splits)
qed

end
