(* ===== verification/Shell_Parser.thy ===== *)
theory Shell_Parser
  imports Shell_Lexer
begin

text \<open>
  The recursive-descent parser of shell commands: \<open>Ast\<close> and \<open>Parser\<close> of
  \<open>tool-execution/src/shell_analysis/mod.rs\<close>.

  The parser's state is the list of tokens from its position on; \<open>tl\<close> is \<open>pos += 1\<close>. A function
  that succeeds returns its tree with the tokens it left.
\<close>

section \<open>Trees\<close>

datatype ast =
    Command "shell_word list" "redirect list"
  | Group ast "redirect list"
  | And ast ast
  | Or ast ast
  | Pipe "ast list"
  | Sequence "ast list"

type_synonym parse_result = "issue + ast \<times> token list"

definition op_of :: "token list \<Rightarrow> string option" where
  "op_of ts = (case ts of TOp op _ # _ \<Rightarrow> Some op | _ \<Rightarrow> None)"

definition parse_error :: "string \<Rightarrow> token list \<Rightarrow> issue" where
  "parse_error reason ts =
     \<lparr>is_status = Unsupported, is_reason = reason,
      is_span = (case ts of [] \<Rightarrow> span_of 0 0 | t # _ \<Rightarrow> token_span t)\<rparr>"

definition nesting_error :: "string \<Rightarrow> span \<Rightarrow> issue" where
  "nesting_error reason sp = \<lparr>is_status = ResourceLimit, is_reason = reason, is_span = sp\<rparr>"

text \<open>\<open>while self.op() == Some newline\<close>.\<close>

fun skip_newlines :: "token list \<Rightarrow> token list" where
  "skip_newlines (TOp op sp # ts) = (if op = nl then skip_newlines ts else TOp op sp # ts)"
| "skip_newlines ts = ts"

text \<open>The words and redirections of a simple command, up to the first operator.\<close>

fun simple_command :: "token list \<Rightarrow> shell_word list \<times> redirect list \<times> token list" where
  "simple_command (TWord w # ts) = (let (ws, rs, rest) = simple_command ts in (w # ws, rs, rest))"
| "simple_command (TRedirect r # ts) = (let (ws, rs, rest) = simple_command ts in (ws, r # rs, rest))"
| "simple_command ts = ([], [], ts)"

text \<open>The redirections after a subshell.\<close>

fun group_redirects :: "token list \<Rightarrow> redirect list \<times> token list" where
  "group_redirects (TRedirect r # ts) = (let (rs, rest) = group_redirects ts in (r # rs, rest))"
| "group_redirects ts = ([], ts)"

section \<open>The parser\<close>

function (sequential)
  parse_sequence :: "nat \<Rightarrow> token list \<Rightarrow> parse_result" and
  sequence_loop :: "nat \<Rightarrow> ast list \<Rightarrow> token list \<Rightarrow> parse_result" and
  parse_and_or :: "nat \<Rightarrow> token list \<Rightarrow> parse_result" and
  and_or_loop :: "nat \<Rightarrow> nat \<Rightarrow> ast \<Rightarrow> token list \<Rightarrow> parse_result" and
  parse_pipeline :: "nat \<Rightarrow> token list \<Rightarrow> parse_result" and
  pipeline_loop :: "nat \<Rightarrow> ast list \<Rightarrow> token list \<Rightarrow> parse_result" and
  parse_command :: "nat \<Rightarrow> token list \<Rightarrow> parse_result"
where
  "parse_sequence depth ts =
     (if max_depth < depth then Inl (nesting_error ''shell nesting limit'' (span_of 0 0))
      else sequence_loop depth [] ts)"
| "sequence_loop depth list ts =
     (if ts = [] \<or> op_of ts = Some '')'' then Inr (Sequence list, ts)
      else if op_of ts = Some nl then sequence_loop depth list (tl ts)
      else case parse_and_or depth ts of
             Inl e \<Rightarrow> Inl e
           | Inr (a, ts') \<Rightarrow>
               if op_of ts' = Some '';'' \<or> op_of ts' = Some nl
               then sequence_loop depth (list @ [a]) (tl ts')
               else if op_of ts' = Some '')'' \<or> op_of ts' = None then Inr (Sequence (list @ [a]), ts')
               else Inl (parse_error ''unsupported shell control operator'' ts'))"
| "parse_and_or depth ts =
     (case parse_pipeline depth ts of
        Inl e \<Rightarrow> Inl e
      | Inr (a, ts') \<Rightarrow> and_or_loop depth 0 a ts')"
| "and_or_loop depth operators a ts =
     (if op_of ts = Some ''&&'' \<or> op_of ts = Some ''||'' then
        (if max_depth < operators + 1
         then Inl (nesting_error ''shell control nesting limit'' (token_span (hd ts)))
         else case parse_pipeline depth (skip_newlines (tl ts)) of
                Inl e \<Rightarrow> Inl e
              | Inr (b, ts') \<Rightarrow>
                  and_or_loop depth (operators + 1) (if op_of ts = Some ''&&'' then And a b else Or a b) ts')
      else Inr (a, ts))"
| "parse_pipeline depth ts =
     (case parse_command depth ts of
        Inl e \<Rightarrow> Inl e
      | Inr (a, ts') \<Rightarrow> pipeline_loop depth [a] ts')"
| "pipeline_loop depth list ts =
     (if op_of ts = Some ''|'' \<or> op_of ts = Some ''|&'' then
        (case parse_command depth (skip_newlines (tl ts)) of
           Inl e \<Rightarrow> Inl e
         | Inr (a, ts') \<Rightarrow> pipeline_loop depth (list @ [a]) ts')
      else Inr (if length list = 1 then last list else Pipe list, ts))"
| "parse_command depth ts =
     (if op_of ts = Some ''('' then
        (case parse_sequence (depth + 1) (tl ts) of
           Inl e \<Rightarrow> Inl e
         | Inr (a, ts') \<Rightarrow>
             if a = Sequence [] then Inl (parse_error ''empty subshell'' ts')
             else if op_of ts' \<noteq> Some '')'' then Inl (parse_error ''unclosed subshell'' ts')
             else (let (rs, rest) = group_redirects (tl ts') in Inr (Group a rs, rest)))
      else
        (let (ws, rs, rest) = simple_command ts
         in if ws = [] \<and> rs = [] then Inl (parse_error ''missing command'' rest)
            else Inr (Command ws rs, rest)))"
  by pat_completeness auto

lemma op_of_nonempty: "op_of ts = Some op \<Longrightarrow> ts \<noteq> []"
  by (cases ts) (auto simp: op_of_def)

lemma op_of_shorter: "op_of ts = Some op \<Longrightarrow> length (tl ts) < length ts"
  by (cases ts) (auto simp: op_of_def)

lemma skip_newlines_shorter: "length (skip_newlines ts) \<le> length ts"
  by (induction ts rule: skip_newlines.induct) auto

lemma simple_command_shorter:
  "simple_command ts = (ws, rs, rest) \<Longrightarrow> length rest + length ws + length rs = length ts"
  by (induction ts arbitrary: ws rs rule: simple_command.induct) (auto simp: Let_def split: prod.splits)

lemma group_redirects_shorter:
  "group_redirects ts = (rs, rest) \<Longrightarrow> length rest + length rs = length ts"
  by (induction ts arbitrary: rs rule: group_redirects.induct) (auto simp: Let_def split: prod.splits)

lemmas parser_pinduct =
  parse_sequence_sequence_loop_parse_and_or_and_or_loop_parse_pipeline_pipeline_loop_parse_command.pinduct

lemmas parser_psimps = parse_sequence.psimps sequence_loop.psimps parse_and_or.psimps and_or_loop.psimps
  parse_pipeline.psimps pipeline_loop.psimps parse_command.psimps

abbreviation parser_dom where
  "parser_dom \<equiv>
     parse_sequence_sequence_loop_parse_and_or_and_or_loop_parse_pipeline_pipeline_loop_parse_command_dom"

lemma parser_shorter:
  "parser_dom (Inl (Inl (d, ts))) \<Longrightarrow> parse_sequence d ts = Inr (a, ts') \<Longrightarrow> length ts' \<le> length ts"
  "parser_dom (Inl (Inr (Inl (d, list, ts)))) \<Longrightarrow> sequence_loop d list ts = Inr (a, ts') \<Longrightarrow> length ts' \<le> length ts"
  "parser_dom (Inl (Inr (Inr (d, ts)))) \<Longrightarrow> parse_and_or d ts = Inr (a, ts') \<Longrightarrow> length ts' < length ts"
  "parser_dom (Inr (Inl (Inl (d, n, b, ts)))) \<Longrightarrow> and_or_loop d n b ts = Inr (a, ts') \<Longrightarrow> length ts' \<le> length ts"
  "parser_dom (Inr (Inl (Inr (d, ts)))) \<Longrightarrow> parse_pipeline d ts = Inr (a, ts') \<Longrightarrow> length ts' < length ts"
  "parser_dom (Inr (Inr (Inl (d, list, ts)))) \<Longrightarrow> pipeline_loop d list ts = Inr (a, ts') \<Longrightarrow> length ts' \<le> length ts"
  "parser_dom (Inr (Inr (Inr (d, ts)))) \<Longrightarrow> parse_command d ts = Inr (a, ts') \<Longrightarrow> length ts' < length ts"
proof (induction arbitrary: a ts' and a ts' and a ts' and a ts' and a ts' and a ts' and a ts' rule: parser_pinduct)
  case (1 depth ts)
  then show ?case by (auto simp: parser_psimps split: if_splits)
next
  case (2 depth list ts)
  show ?case
  proof (cases "ts = [] \<or> op_of ts = Some '')'' \<or> op_of ts = Some nl")
    case True
    with "2.IH"(1) "2.prems" show ?thesis
      by (auto simp: sequence_loop.psimps [OF "2.hyps"] split: if_splits)
  next
    case False
    with "2.prems" obtain b us where b: "parse_and_or depth ts = Inr (b, us)"
      by (auto simp: sequence_loop.psimps [OF "2.hyps"] split: sum.splits)
    with "2.IH"(2) False have "length us < length ts" by blast
    moreover have "length ts' \<le> length (tl us)" if "op_of us = Some '';'' \<or> op_of us = Some nl"
      using "2.IH"(3) [OF _ _ b refl] "2.prems" False b that
      by (auto simp: sequence_loop.psimps [OF "2.hyps"] split: if_splits)
    ultimately show ?thesis
      using "2.prems" False b by (fastforce simp: sequence_loop.psimps [OF "2.hyps"] split: if_splits)
  qed
next
  case (3 depth ts)
  then show ?case
    by (fastforce simp: parse_and_or.psimps split: sum.splits)
next
  case (4 depth operators b ts)
  show ?case
  proof (cases "op_of ts = Some ''&&'' \<or> op_of ts = Some ''||''")
    case True
    with "4.prems" have n: "\<not> max_depth < operators + 1"
      by (auto simp: and_or_loop.psimps [OF "4.hyps"] split: if_splits)
    with True "4.prems" obtain c us where c: "parse_pipeline depth (skip_newlines (tl ts)) = Inr (c, us)"
      by (auto simp: and_or_loop.psimps [OF "4.hyps"] split: sum.splits)
    have "length us < length (skip_newlines (tl ts))" using "4.IH"(1) True n c by blast
    moreover have "length ts' \<le> length us"
      using "4.IH"(2) [OF True n c refl] "4.prems" True n c
      by (auto simp: and_or_loop.psimps [OF "4.hyps"])
    moreover have "length (tl ts) < length ts" using True by (auto dest: op_of_shorter)
    ultimately show ?thesis using skip_newlines_shorter [of "tl ts"] by linarith
  next
    case False
    with "4.prems" show ?thesis by (simp add: and_or_loop.psimps [OF "4.hyps"])
  qed
next
  case (5 depth ts)
  then show ?case by (fastforce simp: parse_pipeline.psimps split: sum.splits)
next
  case (6 depth list ts)
  show ?case
  proof (cases "op_of ts = Some ''|'' \<or> op_of ts = Some ''|&''")
    case True
    with "6.prems" obtain c us where c: "parse_command depth (skip_newlines (tl ts)) = Inr (c, us)"
      by (auto simp: pipeline_loop.psimps [OF "6.hyps"] split: sum.splits)
    have "length us < length (skip_newlines (tl ts))" using "6.IH"(1) True c by blast
    moreover have "length ts' \<le> length us"
      using "6.IH"(2) [OF True c refl] "6.prems" True c by (auto simp: pipeline_loop.psimps [OF "6.hyps"])
    moreover have "length (tl ts) < length ts" using True by (auto dest: op_of_shorter)
    ultimately show ?thesis using skip_newlines_shorter [of "tl ts"] by linarith
  next
    case False
    with "6.prems" show ?thesis by (simp add: pipeline_loop.psimps [OF "6.hyps"])
  qed
next
  case (7 depth ts)
  show ?case
  proof (cases "op_of ts = Some ''(''")
    case True
    with "7.prems" obtain b us where b: "parse_sequence (depth + 1) (tl ts) = Inr (b, us)"
      by (auto simp: parse_command.psimps [OF "7.hyps"] split: sum.splits)
    have "length us \<le> length (tl ts)" using "7.IH" True b by blast
    moreover have "length (tl ts) < length ts" using True by (auto dest: op_of_shorter)
    ultimately show ?thesis
      using "7.prems" True b
      by (auto simp: parse_command.psimps [OF "7.hyps"] Let_def split: if_splits prod.splits
          dest!: group_redirects_shorter)
  next
    case False
    with "7.prems" show ?thesis
      by (auto simp: parse_command.psimps [OF "7.hyps"] Let_def split: if_splits prod.splits
          dest!: simple_command_shorter simp flip: length_greater_0_conv)
  qed
qed

lemma after_newlines_shorter:
  "length us < length (skip_newlines (tl ts)) \<Longrightarrow> op_of ts = Some op \<Longrightarrow> length us < length ts"
  using skip_newlines_shorter [of "tl ts"] op_of_shorter [of ts op] by simp

termination parse_sequence
  by (relation "measures [
    \<lambda>x. case x of Inl (Inl (d, ts)) \<Rightarrow> length ts | Inl (Inr (Inl (d, l, ts))) \<Rightarrow> length ts
      | Inl (Inr (Inr (d, ts))) \<Rightarrow> length ts | Inr (Inl (Inl (d, n, a, ts))) \<Rightarrow> length ts
      | Inr (Inl (Inr (d, ts))) \<Rightarrow> length ts | Inr (Inr (Inl (d, l, ts))) \<Rightarrow> length ts
      | Inr (Inr (Inr (d, ts))) \<Rightarrow> length ts,
    \<lambda>x. case x of Inl (Inl _) \<Rightarrow> 4 | Inl (Inr (Inl _)) \<Rightarrow> 3
      | Inl (Inr (Inr _)) \<Rightarrow> 2 | Inr (Inl (Inl _)) \<Rightarrow> 0
      | Inr (Inl (Inr _)) \<Rightarrow> 1 | Inr (Inr (Inl _)) \<Rightarrow> 0
      | Inr (Inr (Inr _)) \<Rightarrow> (0::nat)]")
    (auto dest: op_of_shorter parser_shorter op_of_nonempty after_newlines_shorter
      intro: le_less_trans [OF skip_newlines_shorter] le_trans)

declare parse_sequence.simps [simp del] sequence_loop.simps [simp del] parse_and_or.simps [simp del]
  and_or_loop.simps [simp del] parse_pipeline.simps [simp del] pipeline_loop.simps [simp del]
  parse_command.simps [simp del]

lemmas parser_induct =
  parse_sequence_sequence_loop_parse_and_or_and_or_loop_parse_pipeline_pipeline_loop_parse_command.induct

section \<open>Nothing is lost\<close>

text \<open>The words and redirections of a tree, left to right, and those of a list of tokens.\<close>

fun ast_words :: "ast \<Rightarrow> shell_word list" where
  "ast_words (Command ws rs) = ws"
| "ast_words (Group a rs) = ast_words a"
| "ast_words (And a b) = ast_words a @ ast_words b"
| "ast_words (Or a b) = ast_words a @ ast_words b"
| "ast_words (Pipe as) = concat (map ast_words as)"
| "ast_words (Sequence as) = concat (map ast_words as)"

fun ast_redirects :: "ast \<Rightarrow> redirect list" where
  "ast_redirects (Command ws rs) = rs"
| "ast_redirects (Group a rs) = ast_redirects a @ rs"
| "ast_redirects (And a b) = ast_redirects a @ ast_redirects b"
| "ast_redirects (Or a b) = ast_redirects a @ ast_redirects b"
| "ast_redirects (Pipe as) = concat (map ast_redirects as)"
| "ast_redirects (Sequence as) = concat (map ast_redirects as)"

fun token_words :: "token list \<Rightarrow> shell_word list" where
  "token_words [] = []"
| "token_words (t # ts) = (case t of TWord w \<Rightarrow> w # token_words ts | _ \<Rightarrow> token_words ts)"

fun token_redirects :: "token list \<Rightarrow> redirect list" where
  "token_redirects [] = []"
| "token_redirects (t # ts) = (case t of TRedirect r \<Rightarrow> r # token_redirects ts | _ \<Rightarrow> token_redirects ts)"

lemma token_words_append [simp]: "token_words (xs @ ys) = token_words xs @ token_words ys"
  by (induction xs) (auto split: token.splits)

lemma token_redirects_append [simp]: "token_redirects (xs @ ys) = token_redirects xs @ token_redirects ys"
  by (induction xs) (auto split: token.splits)

text \<open>What a piece of the parser consumed accounts for what its tree holds beyond \<open>ws\<close> and \<open>rs\<close>.\<close>

definition consumed ::
  "token list \<Rightarrow> token list \<Rightarrow> shell_word list \<Rightarrow> redirect list \<Rightarrow> bool" where
  "consumed ts rest ws rs \<longleftrightarrow>
     (\<exists>used. ts = used @ rest \<and> token_words used = ws \<and> token_redirects used = rs)"

lemma consumed_refl [intro, simp]: "consumed ts ts [] []"
  by (auto simp: consumed_def)

lemma consumed_trans:
  "consumed ts us ws rs \<Longrightarrow> consumed us vs ws' rs' \<Longrightarrow> consumed ts vs (ws @ ws') (rs @ rs')"
  unfolding consumed_def by force

lemma consumed_op: "op_of ts = Some op \<Longrightarrow> consumed ts (tl ts) [] []"
  unfolding consumed_def
  by (cases ts) (auto simp: op_of_def split: token.splits intro!: exI [of _ "[hd ts]"])

lemma consumed_newlines: "consumed ts (skip_newlines ts) [] []"
proof (induction ts rule: skip_newlines.induct)
  case (1 op sp ts)
  then show ?case
    using consumed_trans [OF consumed_op [of "TOp op sp # ts" op]] by (auto simp: op_of_def)
qed auto

lemma consumed_simple_command:
  "simple_command ts = (ws, rs, rest) \<Longrightarrow> consumed ts rest ws rs"
proof (induction ts arbitrary: ws rs rule: simple_command.induct)
  case (1 w ts)
  then obtain ws' where "simple_command ts = (ws', rs, rest)" "ws = w # ws'"
    by (auto simp: Let_def split: prod.splits)
  with "1.IH" [of ws' rs] obtain used where "ts = used @ rest" "token_words used = ws'" "token_redirects used = rs"
    by (auto simp: consumed_def)
  with \<open>ws = w # ws'\<close> show ?case by (auto simp: consumed_def intro!: exI [of _ "TWord w # used"])
next
  case (2 r ts)
  then obtain rs' where "simple_command ts = (ws, rs', rest)" "rs = r # rs'"
    by (auto simp: Let_def split: prod.splits)
  with "2.IH" [of ws rs'] obtain used where "ts = used @ rest" "token_words used = ws" "token_redirects used = rs'"
    by (auto simp: consumed_def)
  with \<open>rs = r # rs'\<close> show ?case by (auto simp: consumed_def intro!: exI [of _ "TRedirect r # used"])
qed auto

lemma consumed_group_redirects: "group_redirects ts = (rs, rest) \<Longrightarrow> consumed ts rest [] rs"
proof (induction ts arbitrary: rs rule: group_redirects.induct)
  case (1 r ts)
  then obtain rs' where "group_redirects ts = (rs', rest)" "rs = r # rs'"
    by (auto simp: Let_def split: prod.splits)
  with "1.IH" [of rs'] obtain used where "ts = used @ rest" "token_words used = []" "token_redirects used = rs'"
    by (auto simp: consumed_def)
  with \<open>rs = r # rs'\<close> show ?case by (auto simp: consumed_def intro!: exI [of _ "TRedirect r # used"])
qed auto

text \<open>How each function succeeds.\<close>

lemma sequence_loopE:
  assumes "sequence_loop d list ts = Inr (a, rest)"
  obtains (stop) "a = Sequence list" "rest = ts"
    | (newline) "\<not> (ts = [] \<or> op_of ts = Some '')'')" "op_of ts = Some nl" "sequence_loop d list (tl ts) = Inr (a, rest)"
    | (item) b us where "\<not> (ts = [] \<or> op_of ts = Some '')'')" "op_of ts \<noteq> Some nl"
        "parse_and_or d ts = Inr (b, us)" "op_of us = Some '';'' \<or> op_of us = Some nl"
        "sequence_loop d (list @ [b]) (tl us) = Inr (a, rest)"
    | (last) b where "\<not> (ts = [] \<or> op_of ts = Some '')'')" "op_of ts \<noteq> Some nl"
        "parse_and_or d ts = Inr (b, rest)" "a = Sequence (list @ [b])"
  using assms by (subst (asm) sequence_loop.simps) (auto split: if_splits sum.splits prod.splits)

lemma and_or_loopE:
  assumes "and_or_loop d n b ts = Inr (a, rest)"
  obtains (stop) "a = b" "rest = ts"
    | (more) c us where "op_of ts = Some ''&&'' \<or> op_of ts = Some ''||''" "\<not> max_depth < n + 1"
        "parse_pipeline d (skip_newlines (tl ts)) = Inr (c, us)"
        "and_or_loop d (n + 1) (if op_of ts = Some ''&&'' then And b c else Or b c) us = Inr (a, rest)"
  using assms by (subst (asm) and_or_loop.simps) (auto split: if_splits sum.splits prod.splits)

lemma pipeline_loopE:
  assumes "pipeline_loop d list ts = Inr (a, rest)"
  obtains (stop) "a = (if length list = 1 then last list else Pipe list)" "rest = ts"
    | (more) b us where "op_of ts = Some ''|'' \<or> op_of ts = Some ''|&''"
        "parse_command d (skip_newlines (tl ts)) = Inr (b, us)"
        "pipeline_loop d (list @ [b]) us = Inr (a, rest)"
  using assms by (subst (asm) pipeline_loop.simps) (auto split: if_splits sum.splits prod.splits)

lemma parse_and_orE:
  assumes "parse_and_or d ts = Inr (a, rest)"
  obtains b us where "parse_pipeline d ts = Inr (b, us)" "and_or_loop d 0 b us = Inr (a, rest)"
  using assms by (subst (asm) parse_and_or.simps) (auto split: sum.splits)

lemma parse_pipelineE:
  assumes "parse_pipeline d ts = Inr (a, rest)"
  obtains b us where "parse_command d ts = Inr (b, us)" "pipeline_loop d [b] us = Inr (a, rest)"
  using assms by (subst (asm) parse_pipeline.simps) (auto split: sum.splits)

lemma parse_commandE:
  assumes "parse_command d ts = Inr (a, rest)"
  obtains (group) b us rs where "op_of ts = Some ''(''" "parse_sequence (d + 1) (tl ts) = Inr (b, us)"
      "b \<noteq> Sequence []" "op_of us = Some '')''" "group_redirects (tl us) = (rs, rest)" "a = Group b rs"
    | (simple) ws rs where "simple_command ts = (ws, rs, rest)" "ws \<noteq> [] \<or> rs \<noteq> []" "a = Command ws rs"
  using assms by (subst (asm) parse_command.simps) (auto simp: Let_def split: if_splits sum.splits prod.splits)

lemma last_item: "length list = Suc 0 \<Longrightarrow> f (last list) = concat (map f list)"
  by (cases list) auto

lemma parser_consumes:
  "parse_sequence d ts = Inr (a, rest) \<Longrightarrow> consumed ts rest (ast_words a) (ast_redirects a)"
  "sequence_loop d list ts = Inr (a, rest) \<Longrightarrow>
     \<exists>ws rs. consumed ts rest ws rs \<and> ast_words a = concat (map ast_words list) @ ws
       \<and> ast_redirects a = concat (map ast_redirects list) @ rs"
  "parse_and_or d ts = Inr (a, rest) \<Longrightarrow> consumed ts rest (ast_words a) (ast_redirects a)"
  "and_or_loop d n b ts = Inr (a, rest) \<Longrightarrow>
     \<exists>ws rs. consumed ts rest ws rs \<and> ast_words a = ast_words b @ ws \<and> ast_redirects a = ast_redirects b @ rs"
  "parse_pipeline d ts = Inr (a, rest) \<Longrightarrow> consumed ts rest (ast_words a) (ast_redirects a)"
  "pipeline_loop d list ts = Inr (a, rest) \<Longrightarrow>
     \<exists>ws rs. consumed ts rest ws rs \<and> ast_words a = concat (map ast_words list) @ ws
       \<and> ast_redirects a = concat (map ast_redirects list) @ rs"
  "parse_command d ts = Inr (a, rest) \<Longrightarrow> consumed ts rest (ast_words a) (ast_redirects a)"
proof (induction d ts and d list ts and d ts and d n b ts and d ts and d list ts and d ts
    arbitrary: a rest and a rest and a rest and a rest and a rest and a rest and a rest rule: parser_induct)
  case (1 depth ts)
  then show ?case by (auto simp: parse_sequence.simps [of depth ts] split: if_splits)
next
  case (2 depth list ts)
  from "2.prems" show ?case
  proof (cases rule: sequence_loopE)
    case newline
    from "2.IH"(1) [OF newline] consumed_trans [OF consumed_op [OF newline(2)]]
    show ?thesis by fastforce
  next
    case (item b us)
    from item(4) have op: "consumed us (tl us) [] []" by (auto intro: consumed_op)
    from "2.IH"(2) [OF item(1-3)] "2.IH"(3) [OF item(1-3) refl item(4,5)]
    show ?thesis using consumed_trans [OF _ consumed_trans [OF op]] by fastforce
  next
    case (last b)
    with "2.IH"(2) [OF last(1-3)] show ?thesis by auto
  qed auto
next
  case (3 depth ts)
  from "3.prems" obtain b us where b: "parse_pipeline depth ts = Inr (b, us)" "and_or_loop depth 0 b us = Inr (a, rest)"
    by (rule parse_and_orE)
  from "3.IH"(1) [OF b(1)] "3.IH"(2) [OF b(1) refl b(2)] show ?case
    using consumed_trans by fastforce
next
  case (4 depth n b ts)
  from "4.prems" show ?case
  proof (cases rule: and_or_loopE)
    case (more c us)
    from more(1) have op: "consumed ts (tl ts) [] []" by (auto intro: consumed_op)
    from "4.IH"(1) [OF more(1-3)] "4.IH"(2) [OF more(1-3) refl more(4)] show ?thesis
      using consumed_trans [OF consumed_trans [OF op consumed_newlines] consumed_trans] by (fastforce split: if_splits)
  qed auto
next
  case (5 depth ts)
  from "5.prems" obtain b us where b: "parse_command depth ts = Inr (b, us)" "pipeline_loop depth [b] us = Inr (a, rest)"
    by (rule parse_pipelineE)
  from "5.IH"(1) [OF b(1)] "5.IH"(2) [OF b(1) refl b(2)] show ?case
    using consumed_trans by fastforce
next
  case (6 depth list ts)
  from "6.prems" show ?case
  proof (cases rule: pipeline_loopE)
    case stop
    then show ?thesis
      by (cases "length list = 1") (auto simp: last_item [of _ ast_words] last_item [of _ ast_redirects])
  next
    case (more b us)
    from more(1) have op: "consumed ts (tl ts) [] []" by (auto intro: consumed_op)
    from "6.IH"(1) [OF more(1,2)] "6.IH"(2) [OF more(1,2) refl more(3)] show ?thesis
      using consumed_trans [OF consumed_trans [OF op consumed_newlines] consumed_trans] by fastforce
  qed
next
  case (7 depth ts)
  from "7.prems" show ?case
  proof (cases rule: parse_commandE)
    case (group b us rs)
    from consumed_trans [OF consumed_op [OF group(1)] consumed_trans [OF "7.IH" [OF group(1,2)]
        consumed_trans [OF consumed_op [OF group(4)] consumed_group_redirects [OF group(5)]]]] group(6)
    show ?thesis by simp
  next
    case (simple ws rs)
    then show ?thesis by (simp add: consumed_simple_command)
  qed
qed

section \<open>Bounded nesting\<close>

text \<open>The frames that \<open>visit\<close> needs for a tree.\<close>

fun ast_height :: "ast \<Rightarrow> nat" where
  "ast_height (Command ws rs) = 1"
| "ast_height (Group a rs) = Suc (ast_height a)"
| "ast_height (And a b) = Suc (max (ast_height a) (ast_height b))"
| "ast_height (Or a b) = Suc (max (ast_height a) (ast_height b))"
| "ast_height (Pipe as) = Suc (fold (\<lambda>a m. max (ast_height a) m) as 0)"
| "ast_height (Sequence as) = Suc (fold (\<lambda>a m. max (ast_height a) m) as 0)"

lemma fold_max_le: "fold (\<lambda>a m. max (f a) m) as k \<le> (n::nat) \<longleftrightarrow> k \<le> n \<and> (\<forall>a \<in> set as. f a \<le> n)"
  by (induction as arbitrary: k) auto

definition level_height :: "nat \<Rightarrow> nat" where
  "level_height d = 35 * (max_depth - d)"

lemma level_height_Suc: "d < max_depth \<Longrightarrow> level_height d = 35 + level_height (Suc d)"
  by (simp add: level_height_def Suc_diff_Suc)

lemma parser_height:
  "parse_sequence d ts = Inr (a, rest) \<Longrightarrow> d \<le> max_depth \<and> ast_height a \<le> 35 + level_height d"
  "sequence_loop d list ts = Inr (a, rest) \<Longrightarrow> d \<le> max_depth \<Longrightarrow>
     \<forall>x \<in> set list. ast_height x \<le> 34 + level_height d \<Longrightarrow> ast_height a \<le> 35 + level_height d"
  "parse_and_or d ts = Inr (a, rest) \<Longrightarrow> d \<le> max_depth \<Longrightarrow> ast_height a \<le> 34 + level_height d"
  "and_or_loop d n b ts = Inr (a, rest) \<Longrightarrow> d \<le> max_depth \<Longrightarrow> n \<le> max_depth \<Longrightarrow>
     ast_height b \<le> 2 + n + level_height d \<Longrightarrow> ast_height a \<le> 34 + level_height d"
  "parse_pipeline d ts = Inr (a, rest) \<Longrightarrow> d \<le> max_depth \<Longrightarrow> ast_height a \<le> 2 + level_height d"
  "pipeline_loop d list ts = Inr (a, rest) \<Longrightarrow> d \<le> max_depth \<Longrightarrow>
     \<forall>x \<in> set list. ast_height x \<le> 1 + level_height d \<Longrightarrow> ast_height a \<le> 2 + level_height d"
  "parse_command d ts = Inr (a, rest) \<Longrightarrow> d \<le> max_depth \<Longrightarrow> ast_height a \<le> 1 + level_height d"
proof (induction d ts and d list ts and d ts and d n b ts and d ts and d list ts and d ts
    arbitrary: a rest and a rest and a rest and a rest and a rest and a rest and a rest rule: parser_induct)
  case (1 depth ts)
  then show ?case by (auto simp: parse_sequence.simps [of depth ts] split: if_splits)
next
  case (2 depth list ts)
  from "2.prems"(1) show ?case
  proof (cases rule: sequence_loopE)
    case stop
    with "2.prems" show ?thesis by (simp add: fold_max_le)
  next
    case newline
    from "2.IH"(1) [OF newline] "2.prems" show ?thesis by blast
  next
    case (item b us)
    with "2.IH"(2) [OF item(1-3)] "2.IH"(3) [OF item(1-3) refl item(4,5)] "2.prems" show ?thesis by simp
  next
    case (last b)
    with "2.IH"(2) [OF last(1-3)] "2.prems" show ?thesis by (simp add: fold_max_le)
  qed
next
  case (3 depth ts)
  from "3.prems"(1) obtain b us where b: "parse_pipeline depth ts = Inr (b, us)" "and_or_loop depth 0 b us = Inr (a, rest)"
    by (rule parse_and_orE)
  from "3.IH"(1) [OF b(1)] "3.IH"(2) [OF b(1) refl b(2)] "3.prems"(2) show ?case by simp
next
  case (4 depth n b ts)
  from "4.prems"(1) show ?case
  proof (cases rule: and_or_loopE)
    case stop
    with "4.prems" show ?thesis by (simp add: max_depth_def)
  next
    case (more c us)
    have "ast_height c \<le> 2 + level_height depth" using "4.IH"(1) [OF more(1-3)] "4.prems" by simp
    with "4.IH"(2) [OF more(1-3) refl more(4)] "4.prems" more(2) show ?thesis
      by (simp split: if_splits)
  qed
next
  case (5 depth ts)
  from "5.prems"(1) obtain b us where b: "parse_command depth ts = Inr (b, us)" "pipeline_loop depth [b] us = Inr (a, rest)"
    by (rule parse_pipelineE)
  from "5.IH"(1) [OF b(1)] "5.IH"(2) [OF b(1) refl b(2)] "5.prems"(2) show ?case by simp
next
  case (6 depth list ts)
  from "6.prems"(1) show ?case
  proof (cases rule: pipeline_loopE)
    case stop
    with "6.prems" show ?thesis by (cases list) (auto simp: fold_max_le)
  next
    case (more b us)
    from "6.IH"(1) [OF more(1,2)] "6.IH"(2) [OF more(1,2) refl more(3)] "6.prems" show ?thesis by simp
  qed
next
  case (7 depth ts)
  from "7.prems"(1) show ?case
  proof (cases rule: parse_commandE)
    case (group b us rs)
    from "7.IH" [OF group(1,2)] have "Suc depth \<le> max_depth" "ast_height b \<le> 35 + level_height (Suc depth)" by simp_all
    with group(6) show ?thesis by (simp add: level_height_Suc [of depth])
  qed simp
qed

section \<open>Errors\<close>

definition parser_error :: "issue \<Rightarrow> bool" where
  "parser_error e \<longleftrightarrow> is_status e \<in> {Unsupported, ResourceLimit}"

lemma parser_errors [simp]: "parser_error (parse_error reason ts)" "parser_error (nesting_error reason sp)"
  by (simp_all add: parser_error_def parse_error_def nesting_error_def)

lemma parser_status:
  "parse_sequence d ts = Inl e \<Longrightarrow> parser_error e"
  "sequence_loop d list ts = Inl e \<Longrightarrow> parser_error e"
  "parse_and_or d ts = Inl e \<Longrightarrow> parser_error e"
  "and_or_loop d n b ts = Inl e \<Longrightarrow> parser_error e"
  "parse_pipeline d ts = Inl e \<Longrightarrow> parser_error e"
  "pipeline_loop d list ts = Inl e \<Longrightarrow> parser_error e"
  "parse_command d ts = Inl e \<Longrightarrow> parser_error e"
proof (induction d ts and d list ts and d ts and d n b ts and d ts and d list ts and d ts
    arbitrary: e and e and e and e and e and e and e rule: parser_induct)
  case (1 depth ts)
  then show ?case by (auto simp: parse_sequence.simps [of depth ts] split: if_splits)
next
  case (2 depth list ts)
  then show ?case
    by (auto simp: sequence_loop.simps [of depth list ts] split: if_splits sum.splits)
next
  case (3 depth ts)
  then show ?case by (auto simp: parse_and_or.simps [of depth ts] split: sum.splits)
next
  case (4 depth n b ts)
  then show ?case by (auto simp: and_or_loop.simps [of depth n b ts] split: if_splits sum.splits)
next
  case (5 depth ts)
  then show ?case by (auto simp: parse_pipeline.simps [of depth ts] split: sum.splits)
next
  case (6 depth list ts)
  then show ?case by (auto simp: pipeline_loop.simps [of depth list ts] split: if_splits sum.splits)
next
  case (7 depth ts)
  then show ?case
    by (auto simp: parse_command.simps [of depth ts] Let_def split: if_splits sum.splits prod.splits)
qed

section \<open>Properties\<close>

text \<open>
  C32. The parser terminates on every list of tokens and loses none of them: what it returns holds the
  words and the redirections of the tokens it consumed, all of them and in their order, and the rest is
  what it did not consume. When it fails it says so as unsupported or as a limit, never as a tree.
\<close>

theorem parser_keeps_every_token:
  "case parse_sequence depth ts of
     Inl e \<Rightarrow> parser_error e
   | Inr (a, rest) \<Rightarrow>
       (\<exists>used. ts = used @ rest \<and> ast_words a = token_words used \<and> ast_redirects a = token_redirects used)"
  using parser_status(1) [of depth ts] parser_consumes(1) [of depth ts]
  by (auto simp: consumed_def split: sum.splits)

text \<open>
  Nesting is bounded: a tree the parser returns needs at most 1155 frames of \<open>visit\<close>, however long
  the command is.
\<close>

theorem parser_bounds_nesting:
  "case parse_sequence 0 ts of Inl e \<Rightarrow> True | Inr (a, rest) \<Rightarrow> ast_height a \<le> 1155"
  using parser_height(1) [of 0 ts]
  by (auto simp: level_height_def max_depth_def split: sum.splits)

end
