(* ===== verification/Shell_Effects.thy ===== *)
theory Shell_Effects
  imports Shell_Parser
begin

text \<open>
  What a parsed shell command does to files and descriptors: \<open>Analysis\<close>, \<open>Cwd\<close>, \<open>Flow\<close>, \<open>visit\<close> and the
  command recognisers of \<open>tool-execution/src/shell_analysis/mod.rs\<close>, and the program recognisers of
  \<open>shell_analysis/program.rs\<close>.

  The compiled regular expressions of \<open>program.rs\<close> belong to the \<open>regex\<close> crate. They are a parameter
  \<open>captures\<close>: for a recogniser and a program, the matches of \<open>captures_iter\<close>, each with its groups 1 and 2.
\<close>

section \<open>Strings\<close>

definition trim_end_char :: "char \<Rightarrow> string \<Rightarrow> string" where
  "trim_end_char c s = rev (dropWhile (\<lambda>d. d = c) (rev s))"

definition basename :: "string \<Rightarrow> string" where
  "basename s = rev (takeWhile (\<lambda>c. c \<noteq> CHR ''/'') (rev s))"

fun split_slash :: "string \<Rightarrow> string list" where
  "split_slash [] = [[]]"
| "split_slash (c # cs) =
     (if c = CHR ''/'' then [] # split_slash cs
      else case split_slash cs of [] \<Rightarrow> [[c]] | p # ps \<Rightarrow> (c # p) # ps)"

section \<open>The analysis\<close>

record file_operation =
  fo_operation :: string
  fo_path :: string
  fo_cwd :: string
  fo_span :: span

record descriptor_operation =
  do_operation :: string
  do_fd :: string
  do_target :: "string option"
  do_span :: span

record analysis =
  an_status :: analysis_status
  an_files :: "file_operation list"
  an_descriptors :: "descriptor_operation list"
  an_unresolved :: "issue list"

definition max_facts :: nat where
  "max_facts = 4096"

definition max_unresolved :: nat where
  "max_unresolved = 64"

definition max_command_bytes :: nat where
  "max_command_bytes = 1048576"

definition analysis_default :: analysis where
  "analysis_default = \<lparr>an_status = Supported, an_files = [], an_descriptors = [], an_unresolved = []\<rparr>"

definition add_issue :: "issue \<Rightarrow> analysis \<Rightarrow> analysis" where
  "add_issue i r =
     (let r = (if length (an_unresolved r) < max_unresolved
               then r\<lparr>an_unresolved := an_unresolved r @ [i]\<rparr> else r)
      in if is_status i = ResourceLimit \<or> an_status r = Supported then r\<lparr>an_status := is_status i\<rparr> else r)"

definition issue_of :: "analysis_status \<Rightarrow> string \<Rightarrow> span \<Rightarrow> issue" where
  "issue_of status reason sp = \<lparr>is_status = status, is_reason = reason, is_span = sp\<rparr>"

definition unresolved :: "string \<Rightarrow> span \<Rightarrow> analysis \<Rightarrow> analysis" where
  "unresolved reason sp r = add_issue (issue_of Supported reason sp) r"

section \<open>Working directories\<close>

type_synonym cwd = "string list option"

definition cwd_label :: "cwd \<Rightarrow> string" where
  "cwd_label c = (case c of Some [d] \<Rightarrow> d | _ \<Rightarrow> ''<uncertain>'')"

definition join_path :: "string \<Rightarrow> string \<Rightarrow> string" where
  "join_path dir path =
     (if prefix ''/'' path then path else trim_end_char (CHR ''/'') dir @ ''/'' @ path)"

definition cwd_union :: "cwd \<Rightarrow> cwd \<Rightarrow> cwd" where
  "cwd_union c d =
     (case (c, d) of
        (Some a, Some b) \<Rightarrow>
          (let r = fold (\<lambda>p r. if p \<in> set r then r else r @ [p]) b a
           in if 8 < length r then None else Some r)
      | _ \<Rightarrow> None)"

definition cwd_change :: "cwd \<Rightarrow> shell_word \<Rightarrow> cwd" where
  "cwd_change c w =
     (if sw_dynamic w then None
      else if prefix ''/'' (sw_value w) then Some [sw_value w]
      else map_option (map (\<lambda>p. join_path p (sw_value w))) c)"

record flow =
  fl_success :: cwd
  fl_failure :: cwd

definition flow_same :: "cwd \<Rightarrow> flow" where
  "flow_same c = \<lparr>fl_success = c, fl_failure = c\<rparr>"

definition flow_after :: "flow \<Rightarrow> cwd" where
  "flow_after f = cwd_union (fl_success f) (fl_failure f)"

section \<open>File targets\<close>

fun add_files :: "string \<Rightarrow> shell_word \<Rightarrow> string list \<Rightarrow> analysis \<Rightarrow> analysis" where
  "add_files operation w [] r = r"
| "add_files operation w (p # ps) r =
     (if max_facts \<le> length (an_files r)
      then add_issue (issue_of ResourceLimit ''file operation limit'' (sw_span w)) r
      else add_files operation w ps
        (r\<lparr>an_files := an_files r @
           [\<lparr>fo_operation = operation, fo_path = join_path p (sw_value w), fo_cwd = p, fo_span = sw_span w\<rparr>]\<rparr>))"

definition file_target :: "shell_word \<Rightarrow> string \<Rightarrow> cwd \<Rightarrow> analysis \<Rightarrow> analysis" where
  "file_target w operation c r =
     (if sw_dynamic w then unresolved ''dynamic file target'' (sw_span w) r
      else if sw_value w = [] then unresolved ''empty file target'' (sw_span w) r
      else if max_facts \<le> length (an_files r)
      then add_issue (issue_of ResourceLimit ''file operation limit'' (sw_span w)) r
      else if prefix ''/'' (sw_value w)
      then r\<lparr>an_files := an_files r @
             [\<lparr>fo_operation = operation, fo_path = sw_value w, fo_cwd = cwd_label c, fo_span = sw_span w\<rparr>]\<rparr>
      else case c of
             Some paths \<Rightarrow> add_files operation w paths r
           | None \<Rightarrow> unresolved ''relative target after uncertain directory change'' (sw_span w) r)"

section \<open>Redirections\<close>

definition write_operation :: "string \<Rightarrow> string" where
  "write_operation op =
     (if op = ''>>'' \<or> op = ''&>>'' then ''append'' else if op = ''<>'' then ''read_write_open'' else ''write'')"

definition write_ops :: "string list" where
  "write_ops = [''>'', ''>>'', ''>|'', ''<>'', ''&>'', ''&>>'']"

text \<open>The descriptor a numeric operand, or a dash, copies, moves or closes.\<close>

definition descriptor_fact :: "redirect \<Rightarrow> descriptor_operation option" where
  "descriptor_fact rd =
     (let v = sw_value (rd_word rd); number = trim_end_char (CHR ''-'') v
      in if v = ''-'' \<or> (number \<noteq> [] \<and> (\<forall>d \<in> set number. d \<in> set ''0123456789'')
                           \<and> (v = number \<or> v = number @ ''-''))
         then Some \<lparr>do_operation = (if v = ''-'' then ''close'' else if suffix ''-'' v then ''move'' else ''copy''),
                    do_fd = (case rd_fd rd of Some fd \<Rightarrow> fd | None \<Rightarrow> if rd_op rd = ''>&'' then ''1'' else ''0''),
                    do_target = (if v = ''-'' then None else Some number), do_span = rd_span rd\<rparr>
         else None)"

definition descriptor_redirect :: "cwd \<Rightarrow> string \<Rightarrow> redirect \<Rightarrow> analysis \<Rightarrow> analysis" where
  "descriptor_redirect c shell rd r =
     (if sw_dynamic (rd_word rd) then unresolved ''dynamic descriptor or file target'' (rd_span rd) r
      else case descriptor_fact rd of
             Some d \<Rightarrow>
               if max_facts \<le> length (an_descriptors r)
               then add_issue (issue_of ResourceLimit ''descriptor operation limit'' (rd_span rd)) r
               else r\<lparr>an_descriptors := an_descriptors r @ [d]\<rparr>
           | None \<Rightarrow>
               if rd_fd rd = None \<and> rd_op rd = ''>&'' \<and> shell \<noteq> ''sh'' then file_target (rd_word rd) ''write'' c r
               else add_issue (issue_of Invalid ''non-numeric descriptor operand'' (rd_span rd)) r)"

definition redirect_effect :: "cwd \<Rightarrow> string \<Rightarrow> redirect \<Rightarrow> analysis \<Rightarrow> analysis" where
  "redirect_effect c shell rd r =
     (let op = rd_op rd
      in if shell = ''sh'' \<and> op \<in> {''&>'', ''&>>'', ''<<<''}
         then add_issue (issue_of Unsupported ''redirection outside supported sh subset'' (rd_span rd)) r
         else if op \<in> set write_ops then file_target (rd_word rd) (write_operation op) c r
         else if op \<in> {''>&'', ''<&''} then descriptor_redirect c shell rd r
         else if op \<in> {''<'', ''<<'', ''<<-'', ''<<<''} then r
         else add_issue (issue_of Unsupported ''unsupported redirect'' (rd_span rd)) r)"

definition redirect_executes :: "redirect \<Rightarrow> bool" where
  "redirect_executes rd \<longleftrightarrow>
     sw_executes (rd_word rd) \<or> (case rd_body rd of Some w \<Rightarrow> sw_executes w | None \<Rightarrow> False)"

definition visit_redirect :: "cwd \<Rightarrow> string \<Rightarrow> redirect \<Rightarrow> analysis \<Rightarrow> analysis" where
  "visit_redirect c shell rd r =
     redirect_effect c shell rd
       (if redirect_executes rd then unresolved ''executable expansion in redirection input'' (rd_span rd) r else r)"

definition visit_redirects :: "redirect list \<Rightarrow> cwd \<Rightarrow> string \<Rightarrow> analysis \<Rightarrow> analysis" where
  "visit_redirects rds c shell r = fold (visit_redirect c shell) rds r"

section \<open>Operands\<close>

definition flag_takes_value :: "string \<Rightarrow> string \<Rightarrow> bool" where
  "flag_takes_value name flag =
     (if name = ''truncate'' then flag \<in> {''-s'', ''--size'', ''-r'', ''--reference''}
      else if name = ''touch'' then flag \<in> {''-r'', ''--reference'', ''-d'', ''--date'', ''-t''}
      else if name = ''mkdir'' then flag \<in> {''-m'', ''--mode''}
      else False)"

definition operand_flag :: "string \<Rightarrow> shell_word \<Rightarrow> analysis \<Rightarrow> analysis" where
  "operand_flag name a r =
     (let r = (if name \<in> {''cp'', ''mv'', ''install'', ''ln'', ''rsync''}
                 \<and> sw_value a \<notin> {''-f'', ''-r'', ''-R'', ''-a'', ''-p'', ''-v'', ''-n'', ''--force'', ''--recursive''}
               then unresolved ''unresolved mutation options'' (sw_span a) r else r)
      in if sw_dynamic a then unresolved ''dynamic mutation options'' (sw_span a) r else r)"

function operands :: "string \<Rightarrow> bool \<Rightarrow> shell_word list \<Rightarrow> analysis \<Rightarrow> shell_word list \<times> analysis" where
  "operands name flags [] r = ([], r)"
| "operands name flags (a # args) r =
     (if flags \<and> sw_value a = ''--'' then operands name False args r
      else if flags \<and> prefix ''-'' (sw_value a) then
        (if flag_takes_value name (sw_value a) then operands name flags (drop 1 args) r
         else operands name flags args (operand_flag name a r))
      else (let (out, r) = operands name flags args r in (a # out, r)))"
  by pat_completeness auto
termination by (relation "measure (\<lambda>(n, f, args, r). length args)") auto

text \<open>The targets of a command that moves: all but the last are deleted.\<close>

fun move_targets :: "shell_word list \<Rightarrow> cwd \<Rightarrow> analysis \<Rightarrow> analysis" where
  "move_targets [] c r = r"
| "move_targets (p # ps) c r =
     move_targets ps c (file_target p (if ps = [] then ''write'' else ''delete'') c r)"

definition all_targets :: "string \<Rightarrow> shell_word list \<Rightarrow> cwd \<Rightarrow> analysis \<Rightarrow> analysis" where
  "all_targets operation ps c r = fold (\<lambda>p. file_target p operation c) ps r"

section \<open>Git\<close>

function git_directory :: "shell_word list \<Rightarrow> cwd \<Rightarrow> issue + cwd \<times> shell_word list" where
  "git_directory [] base = Inr (base, [])"
| "git_directory (a # args) base =
     (if sw_value a = ''-C'' \<and> args \<noteq> [] then git_directory (tl args) (cwd_change base (hd args))
      else if prefix ''-'' (sw_value a) then Inl (issue_of Supported ''unresolved git global options'' (sw_span a))
      else Inr (base, a # args))"
  by pat_completeness auto
termination by (relation "measure (\<lambda>(args, b). length args)") (auto simp: neq_Nil_conv)

definition git :: "shell_word list \<Rightarrow> cwd \<Rightarrow> span \<Rightarrow> analysis \<Rightarrow> analysis" where
  "git args c sp r =
     (case git_directory args c of
        Inl e \<Rightarrow> add_issue e r
      | Inr (base, []) \<Rightarrow> r
      | Inr (base, sub # rest) \<Rightarrow>
          if sw_dynamic sub then unresolved ''dynamic git operation'' (sw_span sub) r
          else if sw_value sub = ''rm'' then
            (let (paths, r) = operands ''rm'' True rest r in all_targets ''delete'' paths base r)
          else if sw_value sub = ''mv'' then
            (let (paths, r) = operands ''mv'' True rest r in move_targets paths base r)
          else if sw_value sub = ''restore'' then
            (let (paths, r) = operands ''restore'' True rest r;
                 r = (if paths = [] then unresolved ''implicit git worktree targets'' sp r else r)
             in all_targets ''write'' paths base r)
          else if sw_value sub = ''checkout'' then
            (case position (\<lambda>a. sw_value a = ''--'') rest of
               Some j \<Rightarrow> all_targets ''write'' (drop (j + 1) rest) base r
             | None \<Rightarrow> unresolved ''implicit git checkout targets'' sp r)
          else if sw_value sub \<in> {''switch'', ''pull'', ''merge'', ''rebase'', ''reset'', ''stash'', ''clean'',
                 ''cherry-pick'', ''apply'', ''am''}
          then unresolved ''implicit git worktree targets'' sp r
          else r)"

section \<open>Interpreter programs\<close>

datatype mutation = MutWrite | MutDelete

datatype recogniser =
    OpenForWrite | PathWrite | PathDelete | PathMove
  | NodePathWrite | NodePathDelete | NodeCopy | NodeMove

type_synonym captures = "recogniser \<Rightarrow> string \<Rightarrow> (string option \<times> string option) list"

type_synonym mutation_target = "string \<times> mutation"

definition is_quote_char :: "char \<Rightarrow> bool" where
  "is_quote_char c \<longleftrightarrow> c \<in> {CHR 0x27, CHR 0x22, CHR '',''}"

definition push_target :: "mutation \<Rightarrow> string \<Rightarrow> mutation_target list \<Rightarrow> mutation_target list" where
  "push_target m raw ts =
     (let path = rev (dropWhile is_quote_char (rev (dropWhile is_quote_char raw)))
      in if path \<noteq> [] \<and> (path, m) \<notin> set ts then ts @ [(path, m)] else ts)"

definition push_capture :: "mutation \<Rightarrow> string option \<Rightarrow> mutation_target list \<Rightarrow> mutation_target list" where
  "push_capture m g ts = (case g of Some path \<Rightarrow> push_target m path ts | None \<Rightarrow> ts)"

definition push_moves :: "(string option \<times> string option) list \<Rightarrow> mutation_target list \<Rightarrow> mutation_target list" where
  "push_moves ms ts = fold (\<lambda>(g1, g2) ts. push_capture MutWrite g2 (push_capture MutDelete g1 ts)) ms ts"

definition python_mutation_targets :: "captures \<Rightarrow> string \<Rightarrow> mutation_target list" where
  "python_mutation_targets captures seg =
     (let ts = fold (\<lambda>(g1, _). push_capture MutWrite g1) (captures OpenForWrite seg) [];
          ts = fold (\<lambda>(g1, _). push_capture MutWrite g1) (captures PathWrite seg) ts;
          ts = fold (\<lambda>(g1, _). push_capture MutDelete g1) (captures PathDelete seg) ts
      in push_moves (captures PathMove seg) ts)"

definition node_mutation_targets :: "captures \<Rightarrow> string \<Rightarrow> mutation_target list" where
  "node_mutation_targets captures seg =
     (let ts = fold (\<lambda>(g1, _). push_capture MutWrite g1) (captures NodePathWrite seg) [];
          ts = fold (\<lambda>(g1, _). push_capture MutDelete g1) (captures NodePathDelete seg) ts;
          ts = fold (\<lambda>(_, g2). push_capture MutWrite g2) (captures NodeCopy seg) ts
      in push_moves (captures NodeMove seg) ts)"

definition quoted_mode :: "char \<Rightarrow> string list" where
  "quoted_mode c = [squote @ [c] @ squote, dquote @ [c] @ dquote]"

definition python_segment_may_mutate :: "string \<Rightarrow> bool" where
  "python_segment_may_mutate seg \<longleftrightarrow>
     contains seg ''write_text'' \<or> contains seg ''write_bytes'' \<or> contains seg ''.unlink('' \<or>
     contains seg ''.rename('' \<or> contains seg ''.replace('' \<or>
     (contains seg ''open('' \<and> list_ex (contains seg) (concat (map quoted_mode ''wax'')))"

definition node_segment_may_mutate :: "string \<Rightarrow> bool" where
  "node_segment_may_mutate seg \<longleftrightarrow>
     list_ex (contains seg) [''writefile'', ''appendfile'', ''unlink'', ''rmsync'', ''rename'', ''copyfile'']"

definition program_effects :: "captures \<Rightarrow> string \<Rightarrow> shell_word \<Rightarrow> cwd \<Rightarrow> analysis \<Rightarrow> analysis" where
  "program_effects captures name input c r =
     (let lower = ascii_lowercase (sw_value input);
          targets = (if name = ''node'' then node_mutation_targets captures (sw_value input)
                     else python_mutation_targets captures (sw_value input));
          r = fold (\<lambda>(path, m). file_target
                \<lparr>sw_value = path, sw_dynamic = False, sw_executes = False, sw_quoted = True,
                  sw_assignment = False, sw_span = sw_span input\<rparr>
                (case m of MutWrite \<Rightarrow> ''write'' | MutDelete \<Rightarrow> ''delete'') c) targets r
      in if (name = ''node'' \<and> node_segment_may_mutate lower) \<or>
            (name \<noteq> ''node'' \<and> python_segment_may_mutate lower) \<or>
            list_ex (contains lower) [''exec('', ''eval('', ''system('', ''subprocess'', ''child_process'',
              ''shutil.'', ''os.remove'', ''os.chdir'']
         then unresolved ''interpreter effects cannot be fully resolved'' (sw_span input) r
         else r)"

text \<open>The facts of a nested shell program, with the span of the word it came from.\<close>

fun merge_files :: "span \<Rightarrow> file_operation list \<Rightarrow> analysis \<Rightarrow> analysis" where
  "merge_files sp [] r = r"
| "merge_files sp (f # fs) r =
     (if length (an_files r) < max_facts then merge_files sp fs (r\<lparr>an_files := an_files r @ [f]\<rparr>)
      else add_issue (issue_of ResourceLimit ''nested file operation limit'' sp) r)"

definition merge_nested :: "span \<Rightarrow> span \<Rightarrow> analysis \<Rightarrow> analysis \<Rightarrow> analysis" where
  "merge_nested input_span sp nested r =
     (let files = map (\<lambda>f. f\<lparr>fo_span := input_span\<rparr>) (an_files nested);
          descriptors = map (\<lambda>d. d\<lparr>do_span := input_span\<rparr>) (an_descriptors nested);
          issues = map (\<lambda>i. i\<lparr>is_span := input_span\<rparr>) (an_unresolved nested);
          r = merge_files sp files r;
          r = (if max_facts < length (an_descriptors r) + length descriptors
               then add_issue (issue_of ResourceLimit ''nested descriptor operation limit'' sp) r else r);
          r = r\<lparr>an_descriptors :=
                 an_descriptors r @ take (max_facts - length (an_descriptors r)) descriptors\<rparr>
      in fold add_issue issues r)"

definition is_shell :: "string \<Rightarrow> bool" where
  "is_shell name \<longleftrightarrow> name \<in> {''bash'', ''sh'', ''zsh'', ''fish'', ''ksh''}"

definition is_code_flag :: "string \<Rightarrow> string \<Rightarrow> bool" where
  "is_code_flag name v =
     (if is_shell name then prefix ''-'' v \<and> \<not> prefix ''--'' v \<and> contains v ''c''
      else if name = ''node'' then v \<in> {''-e'', ''--eval'', ''-p'', ''--print''}
      else v = ''-c'')"

text \<open>The options of an interpreter: the program given to a code flag, and whether one is external.\<close>

fun interpreter_options ::
  "string \<Rightarrow> shell_word list \<Rightarrow> analysis \<Rightarrow> (shell_word option \<times> bool) \<times> analysis" where
  "interpreter_options name [] r = ((None, False), r)"
| "interpreter_options name (a # args) r =
     (if is_code_flag name (sw_value a) then
        (case args of
           [] \<Rightarrow> ((None, False), unresolved ''missing interpreter program'' (sw_span a) r)
         | input # _ \<Rightarrow> ((Some input, False), r))
      else if sw_value a = ''--'' then ((None, args \<noteq> []), r)
      else if \<not> prefix ''-'' (sw_value a) then ((None, True), r)
      else interpreter_options name args
        (if sw_value a \<in> {''-'', ''-s'', ''-l'', ''-u'', ''-B'', ''-I'', ''-S'', ''--noprofile'', ''--norc''} then r
         else unresolved ''unresolved interpreter options'' (sw_span a) r))"

text \<open>The program on standard input.\<close>

definition stdin_input :: "redirect list \<Rightarrow> shell_word option" where
  "stdin_input rds =
     fold (\<lambda>rd input.
       if rd_fd rd = None \<or> rd_fd rd = Some ''0'' then
         (if rd_op rd = ''<<'' \<or> rd_op rd = ''<<-'' then rd_body rd
          else if rd_op rd = ''<<<'' then Some (rd_word rd)
          else if rd_op rd = ''<'' \<or> rd_op rd = ''<&'' then None
          else input)
       else input) rds None"

type_synonym nested_analysis = "string \<Rightarrow> string \<Rightarrow> cwd \<Rightarrow> analysis"

definition interpreter ::
  "captures \<Rightarrow> nested_analysis \<Rightarrow> string \<Rightarrow> shell_word list \<Rightarrow> redirect list \<Rightarrow> cwd \<Rightarrow> span \<Rightarrow> analysis \<Rightarrow> analysis"
where
  "interpreter captures nested name args rds c sp r =
     (let ((input, external), r) = interpreter_options name args r
      in if external
         then unresolved ''external interpreter program is not statically available'' sp r
         else
           (case (case input of Some w \<Rightarrow> Some w | None \<Rightarrow> stdin_input rds) of
              None \<Rightarrow> unresolved ''interpreter consumes unverified input'' sp r
            | Some input \<Rightarrow>
                if sw_dynamic input then unresolved ''expanded interpreter program'' (sw_span input) r
                else if is_shell name
                then merge_nested (sw_span input) sp (nested (sw_value input) name c) r
                else program_effects captures name input c r))"

section \<open>Commands\<close>

text \<open>The loop over the words after \<open>env\<close>: the option that stops it, or the words that remain.\<close>

fun skip_env :: "shell_word list \<Rightarrow> shell_word + shell_word list" where
  "skip_env [] = Inr []"
| "skip_env (a # ws) =
     (if sw_assignment a then skip_env ws
      else if sw_value a = ''--'' then Inr ws
      else if prefix ''-'' (sw_value a) then Inl a
      else Inr (a # ws))"

lemma skip_env_shorter: "skip_env ws = Inr ws' \<Longrightarrow> length ws' \<le> length ws"
  by (induction ws rule: skip_env.induct) (auto split: if_splits)

text \<open>
  The loop over execution wrappers: the words from the name of the program on; or, for a command whose name is
  not resolved, whether its flow keeps the directory, and the effect it leaves unresolved.
\<close>

datatype unwrapped = Unnamed bool "issue option" | Named shell_word "shell_word list"

function unwrap :: "shell_word list \<Rightarrow> unwrapped" where
  "unwrap [] = Unnamed True None"
| "unwrap (w # ws) =
     (if sw_dynamic w then Unnamed False (Some (issue_of Supported ''dynamic command name'' (sw_span w)))
      else
        (let name = basename (sw_value w)
         in if name = ''env'' then
              (case skip_env ws of
                 Inl a \<Rightarrow> Unnamed False (Some (issue_of Supported ''unresolved env wrapper options'' (sw_span a)))
               | Inr ws' \<Rightarrow> unwrap ws')
            else if name = ''command'' \<and> ws \<noteq> [] \<and> sw_value (hd ws) \<in> {''-v'', ''-V''} then Unnamed True None
            else if name \<in> {''command'', ''nohup'', ''exec''} then
              (let ws' = (if ws \<noteq> [] \<and> sw_value (hd ws) = ''--'' then tl ws else ws)
               in if ws' \<noteq> [] \<and> prefix ''-'' (sw_value (hd ws'))
                  then Unnamed False (Some (issue_of Supported ''unresolved execution wrapper options'' (sw_span w)))
                  else unwrap ws')
            else if name = ''timeout'' then
              (if ws = [] \<or> sw_dynamic (hd ws) \<or> prefix ''-'' (sw_value (hd ws))
               then Unnamed False (Some (issue_of Supported ''unresolved timeout wrapper'' (sw_span w)))
               else unwrap (tl ws))
            else Named w ws))"
  by pat_completeness auto
termination
  by (relation "measure length") (auto dest!: skip_env_shorter simp: less_Suc_eq_le Let_def)

declare unwrap.simps(2) [simp del]

definition compound_words :: "string list" where
  "compound_words = [''if'', ''then'', ''else'', ''fi'', ''for'', ''while'', ''until'', ''do'', ''done'', ''case'',
     ''esac'', ''function'', ''{'', ''}'', ''!'', ''[['', ''((''] "

definition executable_names :: "string list" where
  "executable_names = [''eval'', ''xargs'', ''patch'', ''apply_patch'', ''ruby'', ''php'', ''powershell'', ''pwsh'',
     ''cmd'', ''sudo'']"

definition mutation_names :: "string list" where
  "mutation_names = [''tee'', ''touch'', ''truncate'', ''mkdir'', ''rm'', ''rmdir'', ''unlink'', ''mv'', ''cp'',
     ''install'', ''ln'', ''rsync'']"

text \<open>The checks of \<open>find\<close>, the archivers and \<open>awk\<close>, which leave effects unresolved.\<close>

definition program_issues :: "string \<Rightarrow> shell_word list \<Rightarrow> span \<Rightarrow> analysis \<Rightarrow> analysis" where
  "program_issues name args sp r =
     (let any = (\<lambda>P. list_ex (\<lambda>a. P (sw_value a)) args);
          r = (if name \<in> set executable_names then unresolved ''unresolved executable program'' sp r else r);
          r = (if name = ''find'' \<and> any (\<lambda>v. v \<in> {''-delete'', ''-exec'', ''-execdir'', ''-ok'', ''-okdir''})
               then unresolved ''unresolved find effects'' sp r else r);
          r = (if (name = ''tar'' \<and> \<not> any (\<lambda>v. v = ''--list'' \<or> (prefix ''-'' v \<and> contains v ''t''))) \<or>
                  (name = ''unzip'' \<and> \<not> any (\<lambda>v. v \<in> {''-l'', ''-v''}))
               then unresolved ''unresolved archive effects'' sp r else r)
      in if name = ''awk'' \<and> any (\<lambda>v. contains v ''system('' \<or> contains v ''>'' \<or> contains v ''inplace'')
         then unresolved ''unresolved awk program'' sp r else r)"

definition mutation_command :: "string \<Rightarrow> shell_word list \<Rightarrow> cwd \<Rightarrow> span \<Rightarrow> analysis \<Rightarrow> analysis" where
  "mutation_command name args c sp r =
     (let (paths, r) = operands name True args r;
          r = (if paths = [] \<and> name \<noteq> ''tee''
               then unresolved ''missing or implicit mutation target'' sp r else r)
      in if name \<in> {''cp'', ''install'', ''ln'', ''rsync''}
         then (if paths = [] then r else file_target (last paths) ''write'' c r)
         else if name = ''mv'' then move_targets paths c r
         else all_targets (if name \<in> {''rm'', ''rmdir'', ''unlink''} then ''delete'' else ''write'') paths c r)"

definition dd_command :: "shell_word list \<Rightarrow> cwd \<Rightarrow> analysis \<Rightarrow> analysis" where
  "dd_command args c r =
     fold (\<lambda>a r. if prefix ''of='' (sw_value a)
                  then file_target (a\<lparr>sw_value := drop 3 (sw_value a)\<rparr>) ''write'' c r else r) args r"

text \<open>The loop over the arguments of an in-place edit; the number is \<open>files\<close>.\<close>

function edit_targets :: "bool \<Rightarrow> nat \<Rightarrow> shell_word list \<Rightarrow> cwd \<Rightarrow> analysis \<Rightarrow> nat \<times> analysis" where
  "edit_targets script files [] c r = (files, r)"
| "edit_targets script files (a # args) c r =
     (let v = sw_value a
      in if v = ''-e'' \<or> v = ''--expression'' then edit_targets True files (drop 1 args) c r
         else if v = ''-f'' \<or> v = ''--file''
         then edit_targets script files (drop 1 args) c (unresolved ''unresolved editing program file'' (sw_span a) r)
         else if prefix ''-'' v
         then edit_targets (script \<or> prefix ''-e'' v \<or> prefix ''--expression='' v) files args c r
         else if \<not> script then edit_targets True files args c r
         else edit_targets script (files + 1) args c (file_target a ''write'' c r))"
  by pat_completeness auto
termination by (relation "measure (\<lambda>(s, n, args, c, r). length args)") (auto simp: Let_def)

definition edits_in_place :: "shell_word list \<Rightarrow> bool" where
  "edits_in_place args \<longleftrightarrow>
     list_ex (\<lambda>a. let v = sw_value a
       in v = ''--in-place'' \<or> prefix ''--in-place='' v \<or>
          (prefix ''-'' v \<and> \<not> prefix ''--'' v \<and> contains v ''i'')) args"

definition edit_command :: "string \<Rightarrow> shell_word list \<Rightarrow> cwd \<Rightarrow> span \<Rightarrow> analysis \<Rightarrow> analysis" where
  "edit_command name args c sp r =
     (let r = (if edits_in_place args then
                 (let (files, r) = edit_targets False 0 args c r
                  in if files = 0 then unresolved ''unresolved in-place file operands'' sp r else r)
               else r)
      in if name = ''perl'' \<or>
            list_ex (\<lambda>a. contains (sw_value a) '';w '' \<or> prefix ''w '' (sw_value a) \<or> suffix ''/e'' (sw_value a)) args
         then unresolved ''unresolved editing program effects'' sp r else r)"

text \<open>The end of \<open>command\<close>: the command names it knows the targets of.\<close>

definition known_command :: "string \<Rightarrow> shell_word list \<Rightarrow> cwd \<Rightarrow> span \<Rightarrow> analysis \<Rightarrow> analysis" where
  "known_command name args c sp r =
     (if name \<in> set mutation_names then mutation_command name args c sp r
      else if name = ''dd'' then dd_command args c r
      else if name = ''sed'' \<or> name = ''perl'' then edit_command name args c sp r
      else if name = ''git'' then git args c sp r
      else r)"

definition change_directory :: "shell_word list \<Rightarrow> cwd \<Rightarrow> flow" where
  "change_directory args c =
     (if length args \<noteq> 1 \<or> \<not> prefix ''/'' (sw_value (hd args)) \<or> ''..'' \<in> set (split_slash (sw_value (hd args)))
      then \<lparr>fl_success = None, fl_failure = c\<rparr>
      else \<lparr>fl_success = cwd_change c (hd args), fl_failure = c\<rparr>)"

definition visit_command ::
  "captures \<Rightarrow> nested_analysis \<Rightarrow> string \<Rightarrow> shell_word list \<Rightarrow> redirect list \<Rightarrow> cwd \<Rightarrow> analysis \<Rightarrow> flow \<times> analysis"
where
  "visit_command captures nested shell words rds c r =
     (let r = visit_redirects rds c shell r;
          r = fold (\<lambda>w r. if sw_executes w then unresolved ''executable argument expansion'' (sw_span w) r else r) words r
      in case unwrap (dropWhile sw_assignment words) of
           Unnamed keeps i \<Rightarrow>
             (flow_same (if keeps then c else None), case i of Some i \<Rightarrow> add_issue i r | None \<Rightarrow> r)
         | Named w args \<Rightarrow>
             (let name = basename (sw_value w); sp = sw_span w
              in if name \<in> set compound_words
                 then (flow_same None, add_issue (issue_of Unsupported ''unsupported compound shell program'' sp) r)
                 else if name = ''cd'' then (change_directory args c, r)
                 else if name \<in> {''pushd'', ''popd'', ''source'', ''.''}
                 then (flow_same None, unresolved ''unresolved shell state change'' sp r)
                 else if is_shell name \<or> name \<in> {''python'', ''python3'', ''node''}
                 then (flow_same c, interpreter captures nested name args rds c sp r)
                 else (flow_same c, known_command name args c sp (program_issues name args sp r))))"

section \<open>Trees and programs\<close>

fun visit ::
    "captures \<Rightarrow> nested_analysis \<Rightarrow> string \<Rightarrow> ast \<Rightarrow> cwd \<Rightarrow> analysis \<Rightarrow> flow \<times> analysis"
  and visit_list ::
    "captures \<Rightarrow> nested_analysis \<Rightarrow> string \<Rightarrow> ast list \<Rightarrow> flow \<Rightarrow> analysis \<Rightarrow> flow \<times> analysis"
  and visit_pipe ::
    "captures \<Rightarrow> nested_analysis \<Rightarrow> string \<Rightarrow> ast list \<Rightarrow> cwd \<Rightarrow> analysis \<Rightarrow> analysis"
where
  "visit caps nested shell (Command ws rds) c r = visit_command caps nested shell ws rds c r"
| "visit caps nested shell (Group a rds) c r =
     (let r = visit_redirects rds c shell r; r = snd (visit caps nested shell a c r) in (flow_same c, r))"
| "visit caps nested shell (Sequence as) c r = visit_list caps nested shell as (flow_same c) r"
| "visit caps nested shell (And a b) c r =
     (let (left, r) = visit caps nested shell a c r;
          (right, r) = visit caps nested shell b (fl_success left) r
      in (\<lparr>fl_success = fl_success right, fl_failure = cwd_union (fl_failure left) (fl_failure right)\<rparr>, r))"
| "visit caps nested shell (Or a b) c r =
     (let (left, r) = visit caps nested shell a c r;
          (right, r) = visit caps nested shell b (fl_failure left) r
      in (\<lparr>fl_success = cwd_union (fl_success left) (fl_success right), fl_failure = fl_failure right\<rparr>, r))"
| "visit caps nested shell (Pipe as) c r = (flow_same c, visit_pipe caps nested shell as c r)"
| "visit_list caps nested shell [] flow r = (flow, r)"
| "visit_list caps nested shell (a # as) flow r =
     (let (flow, r) = visit caps nested shell a (flow_after flow) r in visit_list caps nested shell as flow r)"
| "visit_pipe caps nested shell [] c r = r"
| "visit_pipe caps nested shell (a # as) c r = visit_pipe caps nested shell as c (snd (visit caps nested shell a c r))"

text \<open>
  The part of \<open>analyze_into\<close> before the visit: the tree of a program, or the issue of an early return.
\<close>

definition parse_program :: "nat \<Rightarrow> string \<Rightarrow> string \<Rightarrow> issue + ast" where
  "parse_program depth source shell =
     (let sp = span_of 0 (length source)
      in if max_command_bytes < length source \<or> max_depth < depth
         then Inl (issue_of ResourceLimit ''shell input or nesting limit'' sp)
         else if shell \<notin> {''bash'', ''sh'', ''zsh''} then Inl (issue_of Unsupported ''unsupported shell dialect'' sp)
         else if CHR 0x00 \<in> set source then Inl (issue_of Invalid ''NUL in shell source'' sp)
         else
           (case lex source of
              Inl e \<Rightarrow> Inl e
            | Inr tokens \<Rightarrow>
                (case parse_sequence 0 tokens of
                   Inl e \<Rightarrow> Inl e
                 | Inr (ast, rest) \<Rightarrow>
                     if rest = [] then Inr ast else Inl (parse_error ''unexpected shell delimiter'' rest))))"

lemma parse_program_depth: "parse_program depth source shell = Inr ast \<Longrightarrow> depth \<le> max_depth"
  by (simp add: parse_program_def Let_def split: if_splits)

text \<open>\<open>analyze_into\<close> of a program at nesting depth \<open>depth\<close>, and \<open>analyze\<close>.\<close>

function analyze_into :: "captures \<Rightarrow> nat \<Rightarrow> string \<Rightarrow> string \<Rightarrow> cwd \<Rightarrow> analysis \<Rightarrow> analysis" where
  "analyze_into caps depth source shell c r =
     (case parse_program depth source shell of
        Inl e \<Rightarrow> add_issue e r
      | Inr ast \<Rightarrow>
          snd (visit caps (\<lambda>source shell c. analyze_into caps (depth + 1) source shell c analysis_default)
            shell ast c r))"
  by pat_completeness auto
termination
  by (relation "measure (\<lambda>(caps, depth, _). Suc max_depth - depth)") (auto dest: parse_program_depth)

declare analyze_into.simps [simp del]

definition analyze :: "captures \<Rightarrow> string \<Rightarrow> string \<Rightarrow> string \<Rightarrow> analysis" where
  "analyze caps command shell_kind workdir =
     (if \<not> prefix ''/'' workdir
      then add_issue (issue_of Unsupported ''non-POSIX working directory requires a shell path adapter'' (span_of 0 0))
             analysis_default
      else analyze_into caps 0 command shell_kind (Some [workdir]) analysis_default)"

end
