(* ===== verification/Shell_Analysis.thy ===== *)
theory Shell_Analysis
  imports Shell_Effects
begin

text \<open>
  What the analysis of a shell command guarantees. Every operation of \<open>Shell_Effects\<close> relates the analysis it
  is given to the one it returns by any preorder that its three primitive updates respect
  (\<open>analysis_relation\<close>). Two instances carry the properties: \<open>extends\<close>, by which facts are never taken back
  and an unresolved effect is never forgotten, and the preservation of \<open>analysis_ok\<close>, the bounds.
\<close>

section \<open>Working directories\<close>

definition cwd_ok :: "cwd \<Rightarrow> bool" where
  "cwd_ok c \<longleftrightarrow>
     (case c of None \<Rightarrow> True | Some ps \<Rightarrow> ps \<noteq> [] \<and> length ps \<le> 8 \<and> (\<forall>p \<in> set ps. prefix ''/'' p))"

definition flow_ok :: "flow \<Rightarrow> bool" where
  "flow_ok f \<longleftrightarrow> cwd_ok (fl_success f) \<and> cwd_ok (fl_failure f)"

lemma prefix_slash: "prefix ''/'' s \<longleftrightarrow> (\<exists>t. s = CHR ''/'' # t)"
  by (cases s) auto

lemma trim_end_char_prefix: "\<exists>t. s = trim_end_char c s @ t"
proof -
  have "s = rev (takeWhile (\<lambda>d. d = c) (rev s) @ dropWhile (\<lambda>d. d = c) (rev s))" by simp
  then have "s = trim_end_char c s @ rev (takeWhile (\<lambda>d. d = c) (rev s))"
    unfolding trim_end_char_def rev_append .
  then show ?thesis ..
qed

lemma join_path_absolute:
  assumes "prefix ''/'' dir" shows "prefix ''/'' (join_path dir path)"
proof (cases "trim_end_char (CHR ''/'') dir")
  case (Cons a list)
  with trim_end_char_prefix [of dir "CHR ''/''"] assms show ?thesis
    by (auto simp: join_path_def)
qed (auto simp: join_path_def)

lemma fold_insert_set: "set (fold (\<lambda>p r. if p \<in> set r then r else r @ [p]) b a) = set a \<union> set b"
  by (induction b arbitrary: a) auto

lemma cwd_ok_union: "cwd_ok c \<Longrightarrow> cwd_ok d \<Longrightarrow> cwd_ok (cwd_union c d)"
  using fold_insert_set [of "the d" "the c"]
  by (fastforce simp: cwd_ok_def cwd_union_def Let_def split: option.splits)

lemma cwd_ok_change: "cwd_ok c \<Longrightarrow> cwd_ok (cwd_change c w)"
  by (auto simp: cwd_ok_def cwd_change_def join_path_absolute split: option.splits)

lemma cwd_ok_None [simp]: "cwd_ok None"
  by (simp add: cwd_ok_def)

lemma flow_ok_same [simp]: "flow_ok (flow_same c) = cwd_ok c"
  by (simp add: flow_ok_def flow_same_def)

lemma cwd_ok_after: "flow_ok f \<Longrightarrow> cwd_ok (flow_after f)"
  by (simp add: flow_ok_def flow_after_def cwd_ok_union)

lemma flow_ok_directory: "cwd_ok c \<Longrightarrow> flow_ok (change_directory args c)"
  by (simp add: change_directory_def flow_ok_def cwd_ok_change)

lemma git_directory_ok: "git_directory args c = Inr (base, rest) \<Longrightarrow> cwd_ok c \<Longrightarrow> cwd_ok base"
  by (induction args c rule: git_directory.induct) (auto simp: cwd_ok_change split: if_splits)

section \<open>Relations that every operation respects\<close>

definition absolute_files :: "analysis \<Rightarrow> bool" where
  "absolute_files r \<longleftrightarrow> (\<forall>f \<in> set (an_files r). prefix ''/'' (fo_path f))"

locale analysis_relation =
  fixes R :: "analysis \<Rightarrow> analysis \<Rightarrow> bool"
  assumes refl: "R r r"
    and trans: "R r s \<Longrightarrow> R s t \<Longrightarrow> R r t"
    and issue: "R r (add_issue i r)"
    and push_file: "length (an_files r) < max_facts \<Longrightarrow> prefix ''/'' (fo_path f) \<Longrightarrow>
      R r (r\<lparr>an_files := an_files r @ [f]\<rparr>)"
    and push_descriptors: "length ds \<le> max_facts - length (an_descriptors r) \<Longrightarrow>
      R r (r\<lparr>an_descriptors := an_descriptors r @ ds\<rparr>)"
begin

lemma unresolved_rel: "R r (unresolved reason sp r)"
  by (simp add: unresolved_def issue)

lemma trans_unresolved: "R r s \<Longrightarrow> R r (unresolved reason sp s)"
  by (rule trans [OF _ unresolved_rel])

lemma trans_if: "(P \<Longrightarrow> R r s) \<Longrightarrow> (\<not> P \<Longrightarrow> R r t) \<Longrightarrow> R r (if P then s else t)"
  by simp

lemma fold_steps:
  assumes "\<And>x s. x \<in> set xs \<Longrightarrow> R s (f x s)" shows "R r (fold f xs r)"
  using assms
proof (induction xs arbitrary: r)
  case (Cons x xs)
  from Cons.prems have "R r (f x r)" "R (f x r) (fold f xs (f x r))"
    by (auto intro: Cons.IH)
  then show ?case by (auto intro: trans)
qed (simp add: refl)

lemma add_files_rel: "\<forall>p \<in> set ps. prefix ''/'' p \<Longrightarrow> R r (add_files operation w ps r)"
proof (induction operation w ps r rule: add_files.induct)
  case (2 operation w p ps r)
  show ?case
  proof (cases "max_facts \<le> length (an_files r)")
    case True
    then show ?thesis by (simp add: issue)
  next
    case False
    let ?f = "\<lparr>fo_operation = operation, fo_path = join_path p (sw_value w), fo_cwd = p, fo_span = sw_span w\<rparr>"
    have "R r (r\<lparr>an_files := an_files r @ [?f]\<rparr>)"
      using False "2.prems" by (intro push_file) (simp_all add: join_path_absolute)
    moreover have "R (r\<lparr>an_files := an_files r @ [?f]\<rparr>) (add_files operation w ps (r\<lparr>an_files := an_files r @ [?f]\<rparr>))"
      using "2.IH" False "2.prems" by simp
    ultimately show ?thesis using False by (auto intro: trans)
  qed
qed (simp add: refl)

lemma file_target_rel: "cwd_ok c \<Longrightarrow> R r (file_target w operation c r)"
  unfolding file_target_def cwd_ok_def
  by (auto simp: unresolved_rel issue push_file add_files_rel not_le split: option.splits)

lemma all_targets_rel: "cwd_ok c \<Longrightarrow> R r (all_targets operation ps c r)"
  unfolding all_targets_def by (rule fold_steps) (rule file_target_rel)

lemma move_targets_rel: "cwd_ok c \<Longrightarrow> R r (move_targets ps c r)"
  by (induction ps c r rule: move_targets.induct) (auto intro: refl trans file_target_rel)

lemma descriptor_redirect_rel: "cwd_ok c \<Longrightarrow> R r (descriptor_redirect c shell rd r)"
  unfolding descriptor_redirect_def
  by (cases "descriptor_fact rd") (auto simp: unresolved_rel issue file_target_rel not_le intro!: push_descriptors)

lemma redirect_effect_rel: "cwd_ok c \<Longrightarrow> R r (redirect_effect c shell rd r)"
  unfolding redirect_effect_def Let_def by (intro trans_if issue file_target_rel descriptor_redirect_rel refl)

lemma visit_redirect_rel: "cwd_ok c \<Longrightarrow> R r (visit_redirect c shell rd r)"
  unfolding visit_redirect_def by (rule trans [OF _ redirect_effect_rel]) (intro trans_if unresolved_rel refl)

lemma visit_redirects_rel: "cwd_ok c \<Longrightarrow> R r (visit_redirects rds c shell r)"
  unfolding visit_redirects_def by (rule fold_steps) (rule visit_redirect_rel)

lemma operand_flag_rel: "R r (operand_flag name a r)"
  unfolding operand_flag_def Let_def by (intro trans_if trans_unresolved refl)

lemma operands_rel: "operands name flags args r = (out, r') \<Longrightarrow> R r r'"
  by (induction name flags args r arbitrary: out rule: operands.induct)
    (auto simp: refl Let_def split: prod.splits if_splits intro: trans [OF operand_flag_rel])

lemmas after = trans [OF _ issue] trans_unresolved trans [OF _ file_target_rel] trans [OF _ all_targets_rel]
  trans [OF _ move_targets_rel]

lemma operand_targets:
  assumes "cwd_ok c" "\<And>paths s. R s (f paths s)"
  shows "R r (let (paths, r) = operands name flags args r in f paths r)"
  by (cases "operands name flags args r") (auto intro: trans [OF operands_rel assms(2)])

lemma git_rel:
  assumes "cwd_ok c" shows "R r (git args c sp r)"
proof (cases "git_directory args c")
  case (Inl e)
  then show ?thesis by (simp add: git_def issue)
next
  case (Inr p)
  then obtain base rest where p: "git_directory args c = Inr (base, rest)" by (cases p) auto
  from git_directory_ok [OF p assms] have base: "cwd_ok base" .
  show ?thesis
  proof (cases rest)
    case (Cons sub args')
    have "R r (let (paths, r) = operands ''rm'' True args' r in all_targets ''delete'' paths base r)"
      "R r (let (paths, r) = operands ''mv'' True args' r in move_targets paths base r)"
      "R r (let (paths, r) = operands ''restore'' True args' r;
               r = (if paths = [] then unresolved ''implicit git worktree targets'' sp r else r)
             in all_targets ''write'' paths base r)"
      by (rule operand_targets [OF base]; auto simp: base Let_def intro: after all_targets_rel move_targets_rel unresolved_rel refl)+
    then show ?thesis
      by (simp add: git_def p Cons refl unresolved_rel all_targets_rel base split: option.split del: Let_def)
  qed (simp add: git_def p refl)
qed

lemma program_issues_rel: "R r (program_issues name args sp r)"
  unfolding program_issues_def Let_def by (auto intro!: after refl)

lemma mutation_command_rel: "cwd_ok c \<Longrightarrow> R r (mutation_command name args c sp r)"
  unfolding mutation_command_def Let_def
  by (auto split: prod.splits dest!: operands_rel intro!: after)

lemma dd_command_rel: "cwd_ok c \<Longrightarrow> R r (dd_command args c r)"
  unfolding dd_command_def by (rule fold_steps) (auto intro: refl file_target_rel)

lemma edit_targets_rel: "cwd_ok c \<Longrightarrow> edit_targets script files args c r = (n, r') \<Longrightarrow> R r r'"
proof (induction script files args c r rule: edit_targets.induct)
  case (2 script files a args c r)
  then show ?case
    by (auto simp: Let_def split: if_splits intro: trans [OF unresolved_rel] trans [OF file_target_rel])
qed (simp add: refl)

lemma edit_command_rel:
  assumes "cwd_ok c" shows "R r (edit_command name args c sp r)"
proof -
  obtain n s where "edit_targets False 0 args c r = (n, s)" by fastforce
  moreover from edit_targets_rel [OF assms this] have "R r s" .
  ultimately show ?thesis
    unfolding edit_command_def Let_def by (auto intro!: trans_if trans_unresolved refl)
qed

lemma known_command_rel: "cwd_ok c \<Longrightarrow> R r (known_command name args c sp r)"
  unfolding known_command_def by (auto intro: refl mutation_command_rel dd_command_rel edit_command_rel git_rel)

lemma interpreter_options_rel: "interpreter_options name args r = (x, r') \<Longrightarrow> R r r'"
  by (induction name args r rule: interpreter_options.induct)
    (auto simp: Let_def refl unresolved_rel split: if_splits list.splits intro: trans [OF unresolved_rel])

lemma program_effects_rel: "cwd_ok c \<Longrightarrow> R r (program_effects captures name input c r)"
  unfolding program_effects_def Let_def
  by (auto intro!: after fold_steps file_target_rel split: prod.splits)

lemma merge_files_rel: "\<forall>f \<in> set fs. prefix ''/'' (fo_path f) \<Longrightarrow> R r (merge_files sp fs r)"
  by (induction sp fs r rule: merge_files.induct) (auto simp: refl issue intro: trans [OF push_file])

lemma merge_nested_rel: "absolute_files nested \<Longrightarrow> R r (merge_nested input_span sp nested r)"
  unfolding merge_nested_def Let_def absolute_files_def
  by (auto intro!: trans [OF _ fold_steps] trans [OF _ push_descriptors] after merge_files_rel issue)

lemma interpreter_rel:
  assumes "cwd_ok c" "\<And>source shell. absolute_files (nested source shell c)"
  shows "R r (interpreter captures nested name args rds c sp r)"
  using assms unfolding interpreter_def Let_def
  by (auto split: prod.splits option.splits dest!: interpreter_options_rel
      intro!: after trans [OF _ merge_nested_rel] trans [OF _ program_effects_rel])

lemma visit_command_rel:
  assumes "cwd_ok c" "\<And>source shell c. cwd_ok c \<Longrightarrow> absolute_files (nested source shell c)"
  shows "R r (snd (visit_command captures nested shell words rds c r))"
proof -
  have "R r (fold (\<lambda>w r. if sw_executes w then unresolved ''executable argument expansion'' (sw_span w) r
      else r) words (visit_redirects rds c shell r))"
    by (rule trans [OF visit_redirects_rel [OF assms(1)] fold_steps]) (auto intro: refl unresolved_rel)
  then show ?thesis
    using assms unfolding visit_command_def Let_def
    by (auto split: unwrapped.splits option.splits
        intro!: after trans [OF _ known_command_rel] trans [OF _ program_issues_rel] trans [OF _ interpreter_rel])
qed

end

lemma command_flow_ok:
  "cwd_ok c \<Longrightarrow> flow_ok (fst (visit_command captures nested shell words rds c r))"
  unfolding visit_command_def Let_def
  by (auto split: unwrapped.splits intro: flow_ok_directory)

lemma visit_flow_ok:
  "cwd_ok c \<Longrightarrow> flow_ok (fst (visit captures nested shell a c r))"
  "flow_ok flow \<Longrightarrow> flow_ok (fst (visit_list captures nested shell as flow r))"
  "True"
proof (induction captures nested shell a c r and captures nested shell as flow r and captures nested shell as c r
    rule: visit_visit_list_visit_pipe.induct)
  case (4 caps nested shell a b c r)
  obtain left s where left: "visit caps nested shell a c r = (left, s)" by fastforce
  obtain right t where right: "visit caps nested shell b (fl_success left) s = (right, t)" by fastforce
  from 4 left right show ?case by (auto simp: flow_ok_def Let_def cwd_ok_union)
next
  case (5 caps nested shell a b c r)
  obtain left s where left: "visit caps nested shell a c r = (left, s)" by fastforce
  obtain right t where right: "visit caps nested shell b (fl_failure left) s = (right, t)" by fastforce
  from 5 left right show ?case by (auto simp: flow_ok_def Let_def cwd_ok_union)
next
  case (8 caps nested shell a as flow r)
  obtain f s where f: "visit caps nested shell a (flow_after flow) r = (f, s)" by fastforce
  with 8 show ?case by (simp add: cwd_ok_after)
qed (simp_all add: command_flow_ok Let_def)

context analysis_relation
begin

lemma visit_rel:
  assumes nested: "\<And>source shell c. cwd_ok c \<Longrightarrow> absolute_files (nested source shell c)"
  shows "cwd_ok c \<Longrightarrow> R r (snd (visit captures nested shell a c r))"
    "flow_ok flow \<Longrightarrow> R r (snd (visit_list captures nested shell as flow r))"
    "cwd_ok c \<Longrightarrow> R r (visit_pipe captures nested shell as c r)"
  using nested
proof (induction captures nested shell a c r and captures nested shell as flow r and captures nested shell as c r
    rule: visit_visit_list_visit_pipe.induct)
  case (1 caps nested shell ws rds c r)
  then show ?case by (simp add: visit_command_rel)
next
  case (2 caps nested shell a rds c r)
  then show ?case by (auto simp: Let_def intro: trans [OF visit_redirects_rel])
next
  case (3 caps nested shell as c r)
  then show ?case by simp
next
  case (4 caps nested shell a b c r)
  obtain left s where left: "visit caps nested shell a c r = (left, s)" by fastforce
  obtain right t where right: "visit caps nested shell b (fl_success left) s = (right, t)" by fastforce
  from left visit_flow_ok(1) [OF 4(3)] have "flow_ok left" by (metis fst_conv)
  with 4 left right have "R r s" "R s t" by (auto simp: flow_ok_def)
  then show ?case using left right by (simp add: Let_def trans [of r s t])
next
  case (5 caps nested shell a b c r)
  obtain left s where left: "visit caps nested shell a c r = (left, s)" by fastforce
  obtain right t where right: "visit caps nested shell b (fl_failure left) s = (right, t)" by fastforce
  from left visit_flow_ok(1) [OF 5(3)] have "flow_ok left" by (metis fst_conv)
  with 5 left right have "R r s" "R s t" by (auto simp: flow_ok_def)
  then show ?case using left right by (simp add: Let_def trans [of r s t])
next
  case (6 caps nested shell as c r)
  then show ?case by simp
next
  case (8 caps nested shell a as flow r)
  obtain f s where f: "visit caps nested shell a (flow_after flow) r = (f, s)" by fastforce
  from f visit_flow_ok(1) [OF cwd_ok_after [OF 8(3)]] have "flow_ok f" by (metis fst_conv)
  with 8 f have "R r s" "R s (snd (visit_list caps nested shell as f s))" by (auto simp: cwd_ok_after)
  then show ?case using f by (auto intro: trans)
next
  case (10 caps nested shell a as c r)
  from 10 have "R r (snd (visit caps nested shell a c r))"
    "R (snd (visit caps nested shell a c r)) (visit_pipe caps nested shell as c (snd (visit caps nested shell a c r)))"
    by simp_all
  then show ?case by (auto intro: trans)
qed (simp_all add: refl)

end

section \<open>Bounds\<close>

definition analysis_ok :: "analysis \<Rightarrow> bool" where
  "analysis_ok r \<longleftrightarrow>
     (an_status r = Supported \<or> an_unresolved r \<noteq> []) \<and> length (an_unresolved r) \<le> max_unresolved \<and>
     length (an_files r) \<le> max_facts \<and> length (an_descriptors r) \<le> max_facts \<and> absolute_files r"

lemma analysis_ok_default [simp]: "analysis_ok analysis_default"
  by (simp add: analysis_ok_def analysis_default_def absolute_files_def)

lemma analysis_ok_issue: "analysis_ok r \<Longrightarrow> analysis_ok (add_issue i r)"
  by (auto simp: analysis_ok_def add_issue_def Let_def absolute_files_def max_unresolved_def)

interpretation ok: analysis_relation "\<lambda>r s. analysis_ok r \<longrightarrow> analysis_ok s"
  by unfold_locales
    (simp_all add: analysis_ok_issue, auto simp: analysis_ok_def absolute_files_def)

abbreviation nested_at :: "captures \<Rightarrow> nat \<Rightarrow> nested_analysis" where
  "nested_at caps depth \<equiv> \<lambda>source shell c. analyze_into caps depth source shell c analysis_default"

lemma parse_program_Inr:
  assumes "parse_program depth source shell = Inr ast"
  obtains tokens where "depth \<le> max_depth" "lex source = Inr tokens" "parse_sequence 0 tokens = Inr (ast, [])"
    "shell \<in> {''bash'', ''sh'', ''zsh''}"
  using assms unfolding parse_program_def Let_def
  by (force split: if_split_asm sum.splits prod.splits)

lemma analyze_into_cases:
  obtains (issue) i where "analyze_into caps depth source shell c r = add_issue i r"
  | (visited) ast where "parse_program depth source shell = Inr ast"
      "analyze_into caps depth source shell c r = snd (visit caps (nested_at caps (depth + 1)) shell ast c r)"
  unfolding analyze_into.simps [of caps depth source shell c r]
  by (cases "parse_program depth source shell") auto

lemma analysis_ok_absolute: "analysis_ok r \<Longrightarrow> absolute_files r"
  by (simp add: analysis_ok_def)

lemma analyze_into_ok:
  "cwd_ok c \<Longrightarrow> analysis_ok r \<Longrightarrow> analysis_ok (analyze_into caps depth source shell c r)"
proof (induction "Suc max_depth - depth" arbitrary: depth source shell c r rule: less_induct)
  case less
  show ?case
  proof (cases rule: analyze_into_cases [of caps depth source shell c r])
    case (issue i)
    with less.prems show ?thesis by (simp add: analysis_ok_issue)
  next
    case (visited ast)
    have "absolute_files (nested_at caps (depth + 1) src sh c')" if "cwd_ok c'" for src sh c'
      by (rule analysis_ok_absolute, rule less.hyps) (use parse_program_depth [OF visited(1)] that in auto)
    from ok.visit_rel(1) [OF this] visited less.prems show ?thesis by simp
  qed
qed

section \<open>Facts are kept\<close>

definition clean :: "analysis \<Rightarrow> bool" where
  "clean r \<longleftrightarrow> an_status r = Supported \<and> an_unresolved r = []"

definition extends :: "analysis \<Rightarrow> analysis \<Rightarrow> bool" where
  "extends r s \<longleftrightarrow> (clean s \<longrightarrow> clean r) \<and> set (an_files r) \<subseteq> set (an_files s)
     \<and> set (an_descriptors r) \<subseteq> set (an_descriptors s)"

lemma clean_default [simp]: "clean analysis_default"
  by (simp add: clean_def analysis_default_def)

lemma not_clean_issue [simp]: "\<not> clean (add_issue i r)"
  by (auto simp: clean_def add_issue_def Let_def max_unresolved_def)

lemma not_clean_unresolved [simp]: "\<not> clean (unresolved reason sp r)"
  by (simp add: unresolved_def)

lemma add_issue_fields [simp]: "an_files (add_issue i r) = an_files r" "an_descriptors (add_issue i r) = an_descriptors r"
  by (simp_all add: add_issue_def Let_def)

interpretation kept: analysis_relation extends
  by unfold_locales (auto simp: extends_def, auto simp: clean_def)

lemma cleanD: "extends r s \<Longrightarrow> clean s \<Longrightarrow> clean r"
  by (simp add: extends_def)

lemma filesD: "extends r s \<Longrightarrow> f \<in> set (an_files r) \<Longrightarrow> f \<in> set (an_files s)"
  by (auto simp: extends_def)

lemma nested_absolute: "cwd_ok c \<Longrightarrow> absolute_files (nested_at caps depth source shell c)"
  by (rule analysis_ok_absolute, rule analyze_into_ok) simp_all

lemma visit_extends:
  "cwd_ok c \<Longrightarrow> extends r (snd (visit caps (nested_at caps depth) shell a c r))"
  "flow_ok flow \<Longrightarrow> extends r (snd (visit_list caps (nested_at caps depth) shell as flow r))"
  "cwd_ok c \<Longrightarrow> extends r (visit_pipe caps (nested_at caps depth) shell as c r)"
  by (rule kept.visit_rel; simp add: nested_absolute)+

section \<open>Targets\<close>

text \<open>A word of a command that names a file is recorded when the analysis holds the operation with its path.\<close>

definition target_recorded :: "shell_word \<Rightarrow> string \<Rightarrow> analysis \<Rightarrow> bool" where
  "target_recorded w operation r \<longleftrightarrow>
     \<not> sw_dynamic w \<and> sw_value w \<noteq> [] \<and>
     (\<exists>f \<in> set (an_files r). fo_operation f = operation \<and> fo_span f = sw_span w \<and>
        (if prefix ''/'' (sw_value w) then fo_path f = sw_value w else fo_path f = join_path (fo_cwd f) (sw_value w)))"

lemma target_recorded_extends: "target_recorded w operation r \<Longrightarrow> extends r s \<Longrightarrow> target_recorded w operation s"
  unfolding target_recorded_def by (blast dest: filesD)

lemma file_target_recorded:
  assumes "cwd_ok c" "clean (file_target w operation c r)"
  shows "target_recorded w operation (file_target w operation c r)"
proof (cases "prefix ''/'' (sw_value w)")
  case True
  with assms(2) show ?thesis
    by (auto simp: file_target_def target_recorded_def split: if_splits)
next
  case False
  with assms(2) obtain ps where ps: "c = Some ps" "\<not> sw_dynamic w" "sw_value w \<noteq> []"
    "file_target w operation c r = add_files operation w ps r"
    by (auto simp: file_target_def split: if_splits option.splits)
  with assms(1) obtain p ps' where p: "ps = p # ps'" "\<forall>q \<in> set ps'. prefix ''/'' q"
    by (cases ps) (auto simp: cwd_ok_def)
  let ?s = "r\<lparr>an_files := an_files r @ [\<lparr>fo_operation = operation, fo_path = join_path p (sw_value w),
      fo_cwd = p, fo_span = sw_span w\<rparr>]\<rparr>"
  from assms(2) ps p have "file_target w operation c r = add_files operation w ps' ?s"
    by (auto split: if_splits)
  moreover have "target_recorded w operation ?s"
    using False ps by (auto simp: target_recorded_def)
  ultimately show ?thesis
    using kept.add_files_rel [OF p(2)] by (metis target_recorded_extends)
qed

lemma file_target_then_recorded:
  assumes "cwd_ok c" "extends (file_target w operation c r) s" "clean s"
  shows "target_recorded w operation s"
  using file_target_recorded [OF assms(1) cleanD [OF assms(2,3)]] assms(2) by (rule target_recorded_extends)

lemma all_targets_recorded:
  "cwd_ok c \<Longrightarrow> clean (all_targets operation ps c r) \<Longrightarrow> p \<in> set ps \<Longrightarrow>
   target_recorded p operation (all_targets operation ps c r)"
proof (induction ps arbitrary: r)
  case (Cons q ps)
  let ?s = "file_target q operation c r"
  have eq: "all_targets operation (q # ps) c r = all_targets operation ps c ?s"
    by (simp add: all_targets_def)
  have "extends ?s (all_targets operation ps c ?s)" using Cons.prems(1) by (rule kept.all_targets_rel)
  with Cons.prems eq have "target_recorded q operation (all_targets operation ps c ?s)"
    by (auto intro: file_target_then_recorded)
  with Cons eq show ?case by auto
qed simp

lemma move_targets_recorded:
  "cwd_ok c \<Longrightarrow> clean (move_targets ps c r) \<Longrightarrow> i < length ps \<Longrightarrow>
   target_recorded (ps ! i) (if Suc i = length ps then ''write'' else ''delete'') (move_targets ps c r)"
proof (induction ps c r arbitrary: i rule: move_targets.induct)
  case (2 p ps c r)
  let ?op = "if ps = [] then ''write'' else ''delete''"
  let ?s = "file_target p ?op c r"
  have eq: "move_targets (p # ps) c r = move_targets ps c ?s" by simp
  show ?case
  proof (cases i)
    case 0
    have "extends ?s (move_targets ps c ?s)" using 2(2) by (rule kept.move_targets_rel)
    from file_target_then_recorded [OF 2(2) this] 2(3) 0 eq show ?thesis by simp
  next
    case (Suc j)
    with 2(1) [of j] 2(2-) eq show ?thesis by simp
  qed
qed simp

text \<open>
  A redirection is accounted for when nothing in it executes and the analysis holds what it does: the file it
  opens for writing, or the descriptor it copies, moves or closes.
\<close>

definition descriptor_recorded :: "redirect \<Rightarrow> analysis \<Rightarrow> bool" where
  "descriptor_recorded rd r \<longleftrightarrow> (\<exists>d \<in> set (an_descriptors r). descriptor_fact rd = Some d)"

definition redirect_accounted :: "redirect \<Rightarrow> analysis \<Rightarrow> bool" where
  "redirect_accounted rd r \<longleftrightarrow>
     \<not> redirect_executes rd \<and>
     (if rd_op rd \<in> set write_ops then target_recorded (rd_word rd) (write_operation (rd_op rd)) r
      else if rd_op rd \<in> {''>&'', ''<&''}
      then \<not> sw_dynamic (rd_word rd) \<and>
           (descriptor_recorded rd r \<or>
            (rd_op rd = ''>&'' \<and> rd_fd rd = None \<and> target_recorded (rd_word rd) ''write'' r))
      else rd_op rd \<in> {''<'', ''<<'', ''<<-'', ''<<<''})"

lemma descriptor_recorded_extends: "descriptor_recorded rd r \<Longrightarrow> extends r s \<Longrightarrow> descriptor_recorded rd s"
  unfolding descriptor_recorded_def extends_def by blast

lemma redirect_accounted_extends:
  assumes "redirect_accounted rd r" "extends r s" shows "redirect_accounted rd s"
proof (cases "rd_op rd \<in> set write_ops")
  case True
  with assms show ?thesis
    unfolding redirect_accounted_def by (simp only: if_True) (blast intro: target_recorded_extends)
next
  case False
  with assms show ?thesis
    unfolding redirect_accounted_def
    by (simp only: if_False if_True simp_thms split: if_split_asm)
      (blast intro: target_recorded_extends descriptor_recorded_extends)
qed

lemma descriptor_redirect_accounted:
  assumes "cwd_ok c" "clean (descriptor_redirect c shell rd r)"
  shows "\<not> sw_dynamic (rd_word rd) \<and>
    (descriptor_recorded rd (descriptor_redirect c shell rd r) \<or>
     (rd_op rd = ''>&'' \<and> rd_fd rd = None \<and> target_recorded (rd_word rd) ''write'' (descriptor_redirect c shell rd r)))"
proof (cases "descriptor_fact rd")
  case None
  with assms show ?thesis
    by (auto simp: descriptor_redirect_def split: if_split_asm intro: file_target_recorded)
next
  case (Some d)
  with assms show ?thesis
    by (auto simp: descriptor_redirect_def descriptor_recorded_def split: if_split_asm)
qed

lemma visit_redirect_accounted:
  assumes c: "cwd_ok c" and clean: "clean (visit_redirect c shell rd r)"
  shows "redirect_accounted rd (visit_redirect c shell rd r)"
proof -
  have ex: "\<not> redirect_executes rd"
    using cleanD [OF kept.redirect_effect_rel [OF c] clean [unfolded visit_redirect_def]]
    by (cases "redirect_executes rd") simp_all
  with clean have eff: "visit_redirect c shell rd r = redirect_effect c shell rd r"
    "clean (redirect_effect c shell rd r)" by (simp_all add: visit_redirect_def)
  let ?s = "redirect_effect c shell rd r"
  have sh: "\<not> (shell = ''sh'' \<and> rd_op rd \<in> {''&>'', ''&>>'', ''<<<''})"
    using eff(2) unfolding redirect_effect_def Let_def by (rule contrapos_pn) (simp only: if_True not_clean_issue simp_thms)
  note def = redirect_effect_def Let_def sh if_False
  show ?thesis
  proof (cases "rd_op rd \<in> set write_ops")
    case True
    then have "?s = file_target (rd_word rd) (write_operation (rd_op rd)) c r" by (simp only: def if_True)
    with file_target_recorded [OF c] eff ex True show ?thesis by (simp add: redirect_accounted_def)
  next
    case False
    show ?thesis
    proof (cases "rd_op rd \<in> {''>&'', ''<&''}")
      case True
      with False have "?s = descriptor_redirect c shell rd r" by (simp only: def if_True)
      with descriptor_redirect_accounted [OF c] eff ex False True show ?thesis
        by (simp only: redirect_accounted_def if_False if_True) blast
    next
      case other: False
      have "rd_op rd \<in> {''<'', ''<<'', ''<<-'', ''<<<''}"
        using eff(2) False other by (simp only: def not_clean_issue split: if_split_asm)
      with False other ex show ?thesis by (simp only: redirect_accounted_def if_False) blast
    qed
  qed
qed

lemma visit_redirects_accounted:
  "cwd_ok c \<Longrightarrow> clean (visit_redirects rds c shell r) \<Longrightarrow> rd \<in> set rds \<Longrightarrow>
   redirect_accounted rd (visit_redirects rds c shell r)"
proof (induction rds arbitrary: r)
  case (Cons q rds)
  let ?s = "visit_redirect c shell q r"
  have eq: "visit_redirects (q # rds) c shell r = visit_redirects rds c shell ?s"
    by (simp add: visit_redirects_def)
  have "extends ?s (visit_redirects rds c shell ?s)" using Cons.prems(1) by (rule kept.visit_redirects_rel)
  with Cons.prems eq have "redirect_accounted q (visit_redirects rds c shell ?s)"
    by (auto intro: redirect_accounted_extends visit_redirect_accounted dest: cleanD)
  with Cons eq show ?case by auto
qed simp

section \<open>Commands\<close>

lemma fst_operands_Cons:
  "fst (operands name flags (a # args) r) =
     (if flags \<and> sw_value a = ''--'' then fst (operands name False args r)
      else if flags \<and> prefix ''-'' (sw_value a) then
        (if flag_takes_value name (sw_value a) then fst (operands name flags (drop 1 args) r)
         else fst (operands name flags args (operand_flag name a r)))
      else a # fst (operands name flags args r))"
  by (simp add: Let_def split_beta del: drop_Suc_Cons)

lemma operands_out: "fst (operands name flags args r) = fst (operands name flags args r')"
proof (induction "length args" arbitrary: flags args r r' rule: less_induct)
  case less
  show ?case
  proof (cases args)
    case (Cons a as)
    have IH: "fst (operands name f bs s) = fst (operands name f bs s')" if "length bs \<le> length as" for f bs s s'
      using less.hyps [of bs f s s'] Cons that by simp
    show ?thesis
      unfolding Cons fst_operands_Cons
      by (intro if_cong arg_cong2 [of _ _ _ _ "(#)"] HOL.refl IH) simp_all
  qed simp
qed

text \<open>
  The targets that the arguments of a command name, with what it does to them: the specification of
  \<open>mutation_command\<close> and \<open>dd_command\<close>.
\<close>

definition command_targets :: "string \<Rightarrow> shell_word list \<Rightarrow> (shell_word \<times> string) list" where
  "command_targets name args =
     (if name \<in> set mutation_names then
        (let ps = fst (operands name True args analysis_default)
         in if name \<in> {''cp'', ''install'', ''ln'', ''rsync''} then (if ps = [] then [] else [(last ps, ''write'')])
            else if name = ''mv''
            then map (\<lambda>i. (ps ! i, if Suc i = length ps then ''write'' else ''delete'')) [0..<length ps]
            else map (\<lambda>p. (p, if name \<in> {''rm'', ''rmdir'', ''unlink''} then ''delete'' else ''write'')) ps)
      else if name = ''dd''
      then map (\<lambda>a. (a\<lparr>sw_value := drop 3 (sw_value a)\<rparr>, ''write'')) (filter (\<lambda>a. prefix ''of='' (sw_value a)) args)
      else [])"

lemma mutation_command_recorded:
  assumes c: "cwd_ok c" and clean: "clean (mutation_command name args c sp r)"
    and name: "name \<in> set mutation_names" and t: "(p, operation) \<in> set (command_targets name args)"
  shows "target_recorded p operation (mutation_command name args c sp r)"
proof -
  obtain ps s where ps: "operands name True args r = (ps, s)" by fastforce
  then have out: "fst (operands name True args analysis_default) = ps"
    using operands_out [of name True args analysis_default r] by simp
  let ?s = "if ps = [] \<and> name \<noteq> ''tee'' then unresolved ''missing or implicit mutation target'' sp s else s"
  have eq: "mutation_command name args c sp r =
    (if name \<in> {''cp'', ''install'', ''ln'', ''rsync''}
     then (if ps = [] then ?s else file_target (last ps) ''write'' c ?s)
     else if name = ''mv'' then move_targets ps c ?s
     else all_targets (if name \<in> {''rm'', ''rmdir'', ''unlink''} then ''delete'' else ''write'') ps c ?s)"
    unfolding mutation_command_def ps by (simp only: Let_def split)
  have targets: "command_targets name args =
    (if name \<in> {''cp'', ''install'', ''ln'', ''rsync''} then (if ps = [] then [] else [(last ps, ''write'')])
     else if name = ''mv''
     then map (\<lambda>i. (ps ! i, if Suc i = length ps then ''write'' else ''delete'')) [0..<length ps]
     else map (\<lambda>p. (p, if name \<in> {''rm'', ''rmdir'', ''unlink''} then ''delete'' else ''write'')) ps)"
    unfolding command_targets_def out Let_def using name by (simp only: if_True)
  show ?thesis
  proof (cases "name \<in> {''cp'', ''install'', ''ln'', ''rsync''}")
    case True
    with t targets have "ps \<noteq> []" "p = last ps" "operation = ''write''"
      by (simp_all only: if_True split: if_split_asm) simp_all
    with True eq clean c show ?thesis by (simp only: if_True if_False) (blast intro: file_target_recorded)
  next
    case False
    show ?thesis
    proof (cases "name = ''mv''")
      case True
      from t targets False True obtain i where
        "i < length ps" "p = ps ! i" "operation = (if Suc i = length ps then ''write'' else ''delete'')"
        by (simp only: if_True if_False) auto
      moreover from False True have "mutation_command name args c sp r = move_targets ps c ?s"
        unfolding eq by (simp only: if_True if_False simp_thms)
      ultimately show ?thesis
        using clean move_targets_recorded [OF c, of ps ?s i] by (simp del: move_targets.simps)
    next
      case other: False
      obtain op where op: "(if name \<in> {''rm'', ''rmdir'', ''unlink''} then ''delete'' else ''write'') = op" by blast
      from t have "(p, operation) \<in> set (map (\<lambda>p. (p, op)) ps)"
        unfolding targets op by (simp only: False other if_False)
      then have "p \<in> set ps" "operation = op" by auto
      moreover have "mutation_command name args c sp r = all_targets op ps c ?s"
        unfolding eq op by (simp only: False other if_False)
      ultimately show ?thesis using clean all_targets_recorded [OF c, of op ps ?s p] by simp
    qed
  qed
qed

lemma dd_command_recorded:
  "cwd_ok c \<Longrightarrow> clean (dd_command args c r) \<Longrightarrow> a \<in> set args \<Longrightarrow> prefix ''of='' (sw_value a) \<Longrightarrow>
   target_recorded (a\<lparr>sw_value := drop 3 (sw_value a)\<rparr>) ''write'' (dd_command args c r)"
proof (induction args arbitrary: r)
  case (Cons b args)
  let ?s = "if prefix ''of='' (sw_value b) then file_target (b\<lparr>sw_value := drop 3 (sw_value b)\<rparr>) ''write'' c r else r"
  have eq: "dd_command (b # args) c r = dd_command args c ?s" by (simp add: dd_command_def)
  have ext: "extends ?s (dd_command args c ?s)" using Cons.prems(1) by (rule kept.dd_command_rel)
  show ?case
  proof (cases "a = b")
    case True
    with ext Cons.prems eq show ?thesis by (simp add: file_target_then_recorded)
  next
    case False
    with Cons eq show ?thesis by auto
  qed
qed simp

lemma known_command_recorded:
  assumes c: "cwd_ok c" and clean: "clean (known_command name args c sp r)"
    and t: "(p, operation) \<in> set (command_targets name args)"
  shows "target_recorded p operation (known_command name args c sp r)"
proof (cases "name \<in> set mutation_names")
  case True
  then have "known_command name args c sp r = mutation_command name args c sp r"
    by (simp only: known_command_def if_True)
  with mutation_command_recorded [OF c _ True t] clean show ?thesis by simp
next
  case False
  with t have dd: "name = ''dd''" by (simp only: command_targets_def if_False split: if_split_asm) simp_all
  with False have "known_command name args c sp r = dd_command args c r"
    by (simp add: known_command_def)
  moreover from t False dd obtain a where "a \<in> set args" "prefix ''of='' (sw_value a)"
    "p = a\<lparr>sw_value := drop 3 (sw_value a)\<rparr>" "operation = ''write''"
    by (auto simp: command_targets_def)
  ultimately show ?thesis using dd_command_recorded [OF c] clean by metis
qed

section \<open>Nested programs\<close>

text \<open>A nested analysis is included: it is clean itself, and its file operations are all in the outer one.\<close>

definition nested_included :: "span \<Rightarrow> analysis \<Rightarrow> analysis \<Rightarrow> bool" where
  "nested_included sp nested r \<longleftrightarrow>
     clean nested \<and> (\<forall>f \<in> set (an_files nested). f\<lparr>fo_span := sp\<rparr> \<in> set (an_files r))"

lemma nested_included_extends: "nested_included sp n r \<Longrightarrow> extends r s \<Longrightarrow> nested_included sp n s"
  unfolding nested_included_def by (blast dest: filesD)

lemma clean_fold_issues: "clean (fold add_issue is r) \<Longrightarrow> is = []"
proof (induction "is" arbitrary: r)
  case (Cons i "is")
  have "extends (add_issue i r) (fold add_issue is (add_issue i r))"
    by (rule kept.fold_steps) (rule kept.issue)
  with Cons.prems have "clean (add_issue i r)" by (auto dest: cleanD)
  then show ?case by simp
qed simp

lemma merge_files_included:
  "clean (merge_files sp fs r) \<Longrightarrow> set (an_files (merge_files sp fs r)) = set (an_files r) \<union> set fs"
  by (induction sp fs r rule: merge_files.induct) (auto split: if_splits)

lemma merge_nested_included:
  assumes ok: "analysis_ok nested" and clean: "clean (merge_nested isp sp nested r)"
  shows "nested_included isp nested (merge_nested isp sp nested r)"
proof -
  let ?files = "map (\<lambda>f. f\<lparr>fo_span := isp\<rparr>) (an_files nested)"
  let ?ds = "map (\<lambda>d. d\<lparr>do_span := isp\<rparr>) (an_descriptors nested)"
  let ?is = "map (\<lambda>i. i\<lparr>is_span := isp\<rparr>) (an_unresolved nested)"
  let ?r1 = "merge_files sp ?files r"
  let ?r2 = "if max_facts < length (an_descriptors ?r1) + length ?ds
    then add_issue (issue_of ResourceLimit ''nested descriptor operation limit'' sp) ?r1 else ?r1"
  let ?r3 = "?r2\<lparr>an_descriptors := an_descriptors ?r2 @ take (max_facts - length (an_descriptors ?r2)) ?ds\<rparr>"
  have eq: "merge_nested isp sp nested r = fold add_issue ?is ?r3"
    by (simp add: merge_nested_def Let_def)
  with clean have none: "?is = []" by (metis clean_fold_issues)
  with eq have r3: "merge_nested isp sp nested r = ?r3" by simp
  with clean have "clean ?r2" by (auto simp: clean_def)
  then have r1: "clean ?r1" "?r2 = ?r1" by (simp_all only: not_clean_issue split: if_split_asm) simp_all
  from merge_files_included [OF r1(1)] r1(2) r3
  have "set ?files \<subseteq> set (an_files (merge_nested isp sp nested r))" by simp
  moreover have "clean nested" using ok none by (auto simp: clean_def analysis_ok_def)
  ultimately show ?thesis by (auto simp: nested_included_def)
qed

lemma interpreter_options_out:
  "fst (interpreter_options name args r) = fst (interpreter_options name args r')"
proof (induction args arbitrary: r r')
  case (Cons a args)
  consider (code) "is_code_flag name (sw_value a)" | (stop) "\<not> is_code_flag name (sw_value a)" "sw_value a = ''--''"
    | (external) "\<not> is_code_flag name (sw_value a)" "sw_value a \<noteq> ''--''" "\<not> prefix ''-'' (sw_value a)"
    | (next_option) "\<not> is_code_flag name (sw_value a)" "sw_value a \<noteq> ''--''" "prefix ''-'' (sw_value a)"
    by blast
  then show ?case
  proof cases
    case code
    then show ?thesis by (cases args) simp_all
  next
    case next_option
    then obtain s s' where "interpreter_options name (a # args) r = interpreter_options name args s"
      "interpreter_options name (a # args) r' = interpreter_options name args s'"
      by (simp only: interpreter_options.simps if_False not_True_eq_False)
    with Cons.IH [of s s'] show ?thesis by simp
  qed simp_all
qed simp

text \<open>The program an interpreter runs: the argument of a code flag, or what is redirected to its input.\<close>

definition interpreter_input :: "string \<Rightarrow> shell_word list \<Rightarrow> redirect list \<Rightarrow> shell_word option" where
  "interpreter_input name args rds =
     (let (input, external) = fst (interpreter_options name args analysis_default)
      in if external then None else case input of Some w \<Rightarrow> Some w | None \<Rightarrow> stdin_input rds)"

lemma interpreter_included:
  assumes ok: "\<And>src sh. analysis_ok (nested src sh c)" and shell: "is_shell name"
    and clean: "clean (interpreter captures nested name args rds c sp r)"
  shows "\<exists>input. interpreter_input name args rds = Some input \<and> \<not> sw_dynamic input \<and>
    nested_included (sw_span input) (nested (sw_value input) name c) (interpreter captures nested name args rds c sp r)"
proof -
  obtain input ext s where opts: "interpreter_options name args r = ((input, ext), s)" by (metis surj_pair)
  with interpreter_options_out [of name args analysis_default r]
  have inp: "interpreter_input name args rds = (if ext then None else case input of Some w \<Rightarrow> Some w | None \<Rightarrow> stdin_input rds)"
    by (simp add: interpreter_input_def)
  let ?src = "case input of Some w \<Rightarrow> Some w | None \<Rightarrow> stdin_input rds"
  have eq: "interpreter captures nested name args rds c sp r =
    (if ext then unresolved ''external interpreter program is not statically available'' sp s
     else case ?src of
       None \<Rightarrow> unresolved ''interpreter consumes unverified input'' sp s
     | Some input \<Rightarrow>
         if sw_dynamic input then unresolved ''expanded interpreter program'' (sw_span input) s
         else if is_shell name then merge_nested (sw_span input) sp (nested (sw_value input) name c) s
         else program_effects captures name input c s)"
    by (simp add: interpreter_def opts)
  from clean eq have "\<not> ext" by auto
  with clean eq obtain w where w: "?src = Some w" by (cases ?src) auto
  with clean eq \<open>\<not> ext\<close> have "\<not> sw_dynamic w" by auto
  with eq w \<open>\<not> ext\<close> shell inp show ?thesis
    using merge_nested_included [OF ok] clean by auto
qed

section \<open>Every command is accounted for\<close>

definition state_names :: "string list" where
  "state_names = [''pushd'', ''popd'', ''source'', ''.'']"

definition program_accounted ::
  "captures \<Rightarrow> nat \<Rightarrow> redirect list \<Rightarrow> string \<Rightarrow> shell_word list \<Rightarrow> analysis \<Rightarrow> bool" where
  "program_accounted caps depth rds name args s \<longleftrightarrow>
     name \<notin> set compound_words \<and> name \<notin> set state_names \<and> name \<notin> set executable_names \<and>
     (\<forall>(p, operation) \<in> set (command_targets name args). target_recorded p operation s) \<and>
     (is_shell name \<longrightarrow>
        (\<exists>input c. interpreter_input name args rds = Some input \<and> \<not> sw_dynamic input \<and> cwd_ok c \<and>
           nested_included (sw_span input) (analyze_into caps depth (sw_value input) name c analysis_default) s))"

definition command_accounted ::
  "captures \<Rightarrow> nat \<Rightarrow> shell_word list \<Rightarrow> redirect list \<Rightarrow> analysis \<Rightarrow> bool" where
  "command_accounted caps depth ws rds s \<longleftrightarrow>
     (\<forall>w \<in> set ws. \<not> sw_executes w) \<and> (\<forall>rd \<in> set rds. redirect_accounted rd s) \<and>
     (case unwrap (dropWhile sw_assignment ws) of
        Unnamed keeps i \<Rightarrow> i = None
      | Named w args \<Rightarrow> program_accounted caps depth rds (basename (sw_value w)) args s)"

lemma program_accounted_extends:
  "program_accounted caps depth rds name args r \<Longrightarrow> extends r s \<Longrightarrow> program_accounted caps depth rds name args s"
  unfolding program_accounted_def by (blast intro: target_recorded_extends nested_included_extends)

lemma command_accounted_extends:
  "command_accounted caps depth ws rds r \<Longrightarrow> extends r s \<Longrightarrow> command_accounted caps depth ws rds s"
  unfolding command_accounted_def
  by (auto split: unwrapped.splits intro: redirect_accounted_extends program_accounted_extends)

lemma program_issues_clean:
  assumes "clean (program_issues name args sp r)" shows "name \<notin> set executable_names"
proof
  assume "name \<in> set executable_names"
  then have "name \<noteq> ''find''" "name \<noteq> ''tar''" "name \<noteq> ''unzip''" "name \<noteq> ''awk''"
    by (auto simp: executable_names_def)
  with assms \<open>name \<in> set executable_names\<close> show False by (simp add: program_issues_def)
qed

definition interpreter_names :: "string list" where
  "interpreter_names = [''bash'', ''sh'', ''zsh'', ''fish'', ''ksh'', ''python'', ''python3'', ''node'']"

lemma other_names:
  assumes "name = ''cd'' \<or> name \<in> set interpreter_names"
  shows "name \<notin> set executable_names" "command_targets name args = []"
  using assms by (auto simp: interpreter_names_def executable_names_def command_targets_def mutation_names_def)

lemma interpreter_names_iff: "is_shell name \<or> name \<in> {''python'', ''python3'', ''node''} \<longleftrightarrow> name \<in> set interpreter_names"
  by (auto simp: is_shell_def interpreter_names_def)

lemma visit_command_accounted:
  assumes c: "cwd_ok c" and clean: "clean (snd (visit_command caps (nested_at caps depth) shell words rds c r))"
  shows "command_accounted caps depth words rds (snd (visit_command caps (nested_at caps depth) shell words rds c r))"
proof -
  let ?n = "nested_at caps depth"
  let ?out = "snd (visit_command caps ?n shell words rds c r)"
  let ?r1 = "visit_redirects rds c shell r"
  let ?exec = "\<lambda>w r. if sw_executes w then unresolved ''executable argument expansion'' (sw_span w) r else r"
  let ?r2 = "fold ?exec words ?r1"
  let ?u = "unwrap (dropWhile sw_assignment words)"
  have ok: "analysis_ok (?n src sh c)" for src sh using analyze_into_ok [OF c] by simp
  have ext1: "extends ?r1 ?r2" by (rule kept.fold_steps) (simp add: kept.refl kept.unresolved_rel)
  have ext2: "extends ?r2 ?out"
    using c nested_absolute [of c caps depth] unfolding visit_command_def Let_def
    by (auto split: unwrapped.splits option.splits
        intro!: kept.after kept.trans [OF _ kept.known_command_rel] kept.trans [OF _ kept.program_issues_rel]
          kept.trans [OF _ kept.interpreter_rel] intro: kept.refl)
  have "\<forall>w \<in> set words. \<not> sw_executes w"
    if "clean (fold ?exec words r)" for r
    using that
  proof (induction words arbitrary: r)
    case (Cons w words)
    have "extends (?exec w r) (fold ?exec words (?exec w r))"
      by (rule kept.fold_steps) (simp add: kept.refl kept.unresolved_rel)
    with Cons.prems have "clean (?exec w r)" by (auto dest: cleanD)
    with Cons show ?case by (cases "sw_executes w") auto
  qed simp
  with cleanD [OF ext2 clean] have words: "\<forall>w \<in> set words. \<not> sw_executes w" by blast
  have reds: "\<forall>rd \<in> set rds. redirect_accounted rd ?out"
    using visit_redirects_accounted [OF c] ext1 ext2 clean
    by (meson cleanD redirect_accounted_extends)
  show ?thesis
  proof (cases ?u)
    case (Unnamed keeps i)
    with clean have "i = None"
      by (cases i) (auto simp: visit_command_def Let_def)
    with Unnamed words reds show ?thesis by (simp add: command_accounted_def)
  next
    case (Named w args)
    let ?name = "basename (sw_value w)"
    have out: "?out =
      (if ?name \<in> set compound_words
       then add_issue (issue_of Unsupported ''unsupported compound shell program'' (sw_span w)) ?r2
       else if ?name = ''cd'' then ?r2
       else if ?name \<in> set state_names then unresolved ''unresolved shell state change'' (sw_span w) ?r2
       else if ?name \<in> set interpreter_names then interpreter caps ?n ?name args rds c (sw_span w) ?r2
       else known_command ?name args c (sw_span w) (program_issues ?name args (sw_span w) ?r2))"
      using Named unfolding visit_command_def interpreter_names_iff [symmetric] state_names_def
      by (simp add: Let_def)
    with clean have compound: "?name \<notin> set compound_words" by auto
    have state: "?name \<notin> set state_names"
    proof
      assume state: "?name \<in> set state_names"
      then have "?name \<noteq> ''cd''" by (auto simp: state_names_def)
      with state out compound clean show False by simp
    qed
    have "program_accounted caps depth rds ?name args ?out"
    proof (cases "?name = ''cd''")
      case True
      with other_names(1) [of ?name] other_names(2) [of ?name args] compound state show ?thesis
        by (simp add: program_accounted_def is_shell_def)
    next
      case cd: False
      show ?thesis
      proof (cases "?name \<in> set interpreter_names")
        case True
        then have int: "?out = interpreter caps ?n ?name args rds c (sw_span w) ?r2"
          using out compound state cd by simp
        have "\<exists>input c. interpreter_input ?name args rds = Some input \<and> \<not> sw_dynamic input \<and> cwd_ok c \<and>
           nested_included (sw_span input) (?n (sw_value input) ?name c) ?out" if "is_shell ?name"
          using interpreter_included [where nested = ?n and c = c, OF ok that] clean c unfolding int by blast
        with True other_names(1) [of ?name] other_names(2) [of ?name args] compound state show ?thesis
          by (simp add: program_accounted_def)
      next
        case False
        let ?r3 = "program_issues ?name args (sw_span w) ?r2"
        have known: "?out = known_command ?name args c (sw_span w) ?r3"
          using out compound state cd False by simp
        have "clean ?r3" by (rule cleanD [OF kept.known_command_rel [OF c]]) (use clean known in simp)
        from program_issues_clean [OF this] have "?name \<notin> set executable_names" .
        moreover have "\<forall>(p, operation) \<in> set (command_targets ?name args). target_recorded p operation ?out"
          using known_command_recorded [OF c] clean unfolding known by blast
        moreover have "\<not> is_shell ?name" using False interpreter_names_iff by blast
        ultimately show ?thesis using compound state by (simp add: program_accounted_def)
      qed
    qed
    with Named words reds show ?thesis by (simp add: command_accounted_def)
  qed
qed

section \<open>Every part of a tree is accounted for\<close>

text \<open>The commands of a tree, and the redirections of its subshells.\<close>

fun ast_commands :: "ast \<Rightarrow> (shell_word list \<times> redirect list) list" where
  "ast_commands (Command ws rs) = [(ws, rs)]"
| "ast_commands (Group a rs) = ast_commands a"
| "ast_commands (And a b) = ast_commands a @ ast_commands b"
| "ast_commands (Or a b) = ast_commands a @ ast_commands b"
| "ast_commands (Pipe as) = concat (map ast_commands as)"
| "ast_commands (Sequence as) = concat (map ast_commands as)"

definition tree_accounted :: "captures \<Rightarrow> nat \<Rightarrow> ast \<Rightarrow> analysis \<Rightarrow> bool" where
  "tree_accounted caps depth a s \<longleftrightarrow>
     (\<forall>(ws, rds) \<in> set (ast_commands a). command_accounted caps depth ws rds s) \<and>
     (\<forall>rd \<in> set (ast_redirects a). redirect_accounted rd s) \<and> (\<forall>w \<in> set (ast_words a). \<not> sw_executes w)"

lemma tree_accounted_extends: "tree_accounted caps depth a r \<Longrightarrow> extends r s \<Longrightarrow> tree_accounted caps depth a s"
  unfolding tree_accounted_def by (blast intro: command_accounted_extends redirect_accounted_extends)

lemma tree_accounted_later:
  "clean t \<Longrightarrow> extends s t \<Longrightarrow> (clean s \<Longrightarrow> tree_accounted caps depth a s) \<Longrightarrow> tree_accounted caps depth a t"
  by (blast intro: tree_accounted_extends dest: cleanD)

lemma tree_accounted_simps:
  "tree_accounted caps depth (Command ws rds) s \<longleftrightarrow> command_accounted caps depth ws rds s"
  "tree_accounted caps depth (Group a rds) s \<longleftrightarrow>
     tree_accounted caps depth a s \<and> (\<forall>rd \<in> set rds. redirect_accounted rd s)"
  "tree_accounted caps depth (And a b) s \<longleftrightarrow> tree_accounted caps depth a s \<and> tree_accounted caps depth b s"
  "tree_accounted caps depth (Or a b) s \<longleftrightarrow> tree_accounted caps depth a s \<and> tree_accounted caps depth b s"
  "tree_accounted caps depth (Pipe as) s \<longleftrightarrow> (\<forall>a \<in> set as. tree_accounted caps depth a s)"
  "tree_accounted caps depth (Sequence as) s \<longleftrightarrow> (\<forall>a \<in> set as. tree_accounted caps depth a s)"
proof -
  show "tree_accounted caps depth (Command ws rds) s \<longleftrightarrow> command_accounted caps depth ws rds s"
    unfolding tree_accounted_def command_accounted_def by simp blast
qed (simp_all add: tree_accounted_def ball_Un, blast+)

lemma visit_accounted:
  "n = nested_at caps depth \<Longrightarrow> cwd_ok c \<Longrightarrow> clean (snd (visit caps n shell a c r)) \<Longrightarrow>
     tree_accounted caps depth a (snd (visit caps n shell a c r))"
  "n = nested_at caps depth \<Longrightarrow> flow_ok flow \<Longrightarrow> clean (snd (visit_list caps n shell as flow r)) \<Longrightarrow>
     \<forall>a \<in> set as. tree_accounted caps depth a (snd (visit_list caps n shell as flow r))"
  "n = nested_at caps depth \<Longrightarrow> cwd_ok c \<Longrightarrow> clean (visit_pipe caps n shell as c r) \<Longrightarrow>
     \<forall>a \<in> set as. tree_accounted caps depth a (visit_pipe caps n shell as c r)"
proof (induction caps n shell a c r and caps n shell as flow r and caps n shell as c r
    rule: visit_visit_list_visit_pipe.induct)
  case (1 caps n shell ws rds c r)
  then show ?case by (simp add: tree_accounted_simps visit_command_accounted)
next
  case (2 caps n shell a rds c r)
  let ?r1 = "visit_redirects rds c shell r"
  have ext: "extends ?r1 (snd (visit caps n shell a c ?r1))"
    unfolding 2(2) by (rule visit_extends(1)) (rule 2(3))
  with 2 show ?case
    by (auto simp: Let_def tree_accounted_simps
        intro: redirect_accounted_extends visit_redirects_accounted dest: cleanD)
next
  case (3 caps n shell as c r)
  then show ?case by (simp add: tree_accounted_simps)
next
  case (4 caps n shell a b c r)
  obtain left s where left: "visit caps n shell a c r = (left, s)" by fastforce
  obtain right t where right: "visit caps n shell b (fl_success left) s = (right, t)" by fastforce
  from left visit_flow_ok(1) [OF 4(4)] have ok: "cwd_ok (fl_success left)" by (metis fst_conv flow_ok_def)
  have "extends s t"
    using visit_extends(1) [OF ok, of s caps depth shell b] right 4(3) by simp
  with 4 left right ok show ?case
    by (auto simp: Let_def tree_accounted_simps intro: tree_accounted_later)
next
  case (5 caps n shell a b c r)
  obtain left s where left: "visit caps n shell a c r = (left, s)" by fastforce
  obtain right t where right: "visit caps n shell b (fl_failure left) s = (right, t)" by fastforce
  from left visit_flow_ok(1) [OF 5(4)] have ok: "cwd_ok (fl_failure left)" by (metis fst_conv flow_ok_def)
  have "extends s t"
    using visit_extends(1) [OF ok, of s caps depth shell b] right 5(3) by simp
  with 5 left right ok show ?case
    by (auto simp: Let_def tree_accounted_simps intro: tree_accounted_later)
next
  case (6 caps n shell as c r)
  then show ?case by (simp add: tree_accounted_simps)
next
  case (8 caps n shell a as flow r)
  obtain f s where f: "visit caps n shell a (flow_after flow) r = (f, s)" by fastforce
  from 8(4) have after: "cwd_ok (flow_after flow)" by (rule cwd_ok_after)
  with f visit_flow_ok(1) [OF after] have ok: "flow_ok f" by (metis fst_conv)
  have "extends s (snd (visit_list caps n shell as f s))"
    using visit_extends(2) [OF ok, of s caps depth shell as] 8(3) by simp
  with 8 f ok after show ?case
    by (auto intro: tree_accounted_later)
next
  case (10 caps n shell a as c r)
  let ?s = "snd (visit caps n shell a c r)"
  have "extends ?s (visit_pipe caps n shell as c ?s)"
    using visit_extends(3) [OF 10(4), of ?s caps depth shell as] 10(3) by simp
  with 10 show ?case
    by (auto intro: tree_accounted_later)
qed simp_all

lemma analyze_into_accounted:
  assumes "cwd_ok c" "clean (analyze_into caps depth source shell c r)"
  obtains ast where "parse_program depth source shell = Inr ast"
    "tree_accounted caps (depth + 1) ast (analyze_into caps depth source shell c r)"
proof (cases rule: analyze_into_cases [of caps depth source shell c r])
  case (issue i)
  with assms(2) show thesis by simp
next
  case (visited ast)
  with visit_accounted(1) [OF HOL.refl assms(1)] assms(2) that show thesis by simp
qed

section \<open>Evaluation\<close>

lemmas eval_lex = Let_def lex_def lex_loop.simps lex_step_def nl_def tab_def cr_def bslash_def squote_def dquote_def btick_def
  lex_operator_or_word_def lex_redirect_def redirect_operand_def lex_push_def lex_word_def word_loop.simps word_step_def
  word_tail_def ws_bump_def ws_push_def ws_substitution_def starts_def ascii_chars_def byte_len_def is_digit_def
  is_alpha_def is_whitespace_def utf8_whitespace_def redirect_ops_def control_ops_def heredocs_def max_nodes_def
  is_assignment_def span_of_def is_utf8_cont_def

lemmas eval_parse = parse_sequence.simps sequence_loop.simps parse_and_or.simps and_or_loop.simps
  parse_pipeline.simps pipeline_loop.simps parse_command.simps op_of_def max_depth_def

lemmas eval_analysis = analyze_def analyze_into.simps parse_program_def max_command_bytes_def analysis_default_def
  visit_command_def visit_redirects_def visit_redirect_def redirect_effect_def redirect_executes_def write_ops_def
  file_target_def max_facts_def join_path_def trim_end_char_def write_operation_def cwd_label_def flow_same_def
  flow_after_def cwd_union_def unwrap.simps(2) basename_def compound_words_def is_shell_def known_command_def
  program_issues_def executable_names_def mutation_names_def mutation_command_def all_targets_def flag_takes_value_def
  edit_command_def edits_in_place_def contains_def clean_def operand_flag_def sublist_code suffix_to_prefix
  interpreter_def is_code_flag_def merge_nested_def

text \<open>
  Effects the analysis does not flag: an extraction whose arguments hold a \<open>t\<close>, a \<open>find\<close> whose action is an
  expansion, and the \<open>w\<close> flag of a \<open>sed\<close> substitution all give a clean analysis with no file operation.
\<close>

lemma unflagged_effects:
  "clean (analyze captures ''tar --extract --file=/a.tar'' ''bash'' ''/w'')"
  "an_files (analyze captures ''tar --extract --file=/a.tar'' ''bash'' ''/w'') = []"
  "clean (analyze captures ''find / $X'' ''bash'' ''/w'')"
  "an_files (analyze captures ''find / $X'' ''bash'' ''/w'') = []"
  "clean (analyze captures (''sed '' @ squote @ ''s/x/y/w /a'' @ squote @ '' /b'') ''bash'' ''/w'')"
  "an_files (analyze captures (''sed '' @ squote @ ''s/x/y/w /a'' @ squote @ '' /b'') ''bash'' ''/w'') = []"
  by (simp_all add: eval_lex eval_parse eval_analysis)

lemma clean_sample: "clean (analyze captures ''rm /a >>b'' ''bash'' ''/w'')"
  by (simp add: eval_lex eval_parse eval_analysis)

lemma clean_nested_sample: "clean (analyze captures (''sh -c '' @ squote @ ''rm /a'' @ squote) ''bash'' ''/w'')"
  by (simp add: eval_lex eval_parse eval_analysis)

section \<open>Properties\<close>

lemma analyze_ok: "analysis_ok (analyze captures command shell_kind workdir)"
  unfolding analyze_def
  by (auto simp: analysis_ok_issue cwd_ok_def intro: analyze_into_ok)

lemma clean_analysis_tree:
  assumes "clean (analyze captures command shell_kind workdir)"
  shows "\<exists>ast tokens. parse_program 0 command shell_kind = Inr ast \<and> lex command = Inr tokens \<and>
    ast_words ast = token_words tokens \<and> ast_redirects ast = token_redirects tokens \<and>
    tree_accounted captures 1 ast (analyze captures command shell_kind workdir)"
proof -
  have dir: "prefix ''/'' workdir" using assms by (auto simp: analyze_def split: if_splits)
  let ?r = "analyze_into captures 0 command shell_kind (Some [workdir]) analysis_default"
  have eq: "analyze captures command shell_kind workdir = ?r" using dir by (simp add: analyze_def)
  from dir have "cwd_ok (Some [workdir])" by (simp add: cwd_ok_def)
  from analyze_into_accounted [OF this assms [unfolded eq]] obtain ast where
    ast: "parse_program 0 command shell_kind = Inr ast" "tree_accounted captures 1 ast ?r" by auto
  from parse_program_Inr [OF ast(1)] obtain tokens where
    tokens: "lex command = Inr tokens" "parse_sequence 0 tokens = Inr (ast, [])" by blast
  from parser_consumes(1) [OF tokens(2)] have "ast_words ast = token_words tokens" "ast_redirects ast = token_redirects tokens"
    by (auto simp: consumed_def)
  with ast tokens(1) eq show ?thesis by auto
qed





text \<open>
  C30. No failure is an empty success, and the facts are bounded: an analysis that is not \<open>Supported\<close> has an
  unresolved effect to report, at most 64 of them and 4096 facts of each kind are kept, and every path
  recorded is absolute.
\<close>

theorem analysis_is_bounded_and_never_silent:
  "analysis_ok (analyze captures command shell_kind workdir)"
  by (rule analyze_ok)

end
