(* ===== verification/Shell_Quoting.thy ===== *)
theory Shell_Quoting
  imports Shell_Analysis
begin

text \<open>
  The quoting of command arguments: \<open>services-integrations/src/remote_ssh/shell.rs\<close>, \<open>shell_quote_posix\<close> and
  \<open>build_remote_git_command\<close> of \<open>remote_ssh/remote_git.rs\<close>; and what the lexer of shell commands reads back
  from them.

  A Rust \<open>str\<close> is valid UTF-8, so it does not start inside a code point (\<open>valid_str\<close>).
\<close>

section \<open>Quoting\<close>

definition valid_str :: "string \<Rightarrow> bool" where
  "valid_str s \<longleftrightarrow> s = [] \<or> \<not> is_utf8_cont (hd s)"

definition quote_char :: "string \<Rightarrow> string" where
  "quote_char c = (if c = squote then squote @ bslash @ squote @ squote else c)"

definition quote_arg :: "string \<Rightarrow> string" where
  "quote_arg value = squote @ concat (map quote_char (utf8_chars value)) @ squote"

definition plain_terminal_char :: "(string \<Rightarrow> bool) \<Rightarrow> string \<Rightarrow> bool" where
  "plain_terminal_char is_alphanumeric c \<longleftrightarrow> is_alphanumeric c \<or> c \<in> set (ascii_chars ''/.-_'')"

definition escape_terminal_cwd :: "(string \<Rightarrow> bool) \<Rightarrow> string \<Rightarrow> string" where
  "escape_terminal_cwd is_alphanumeric value =
     (if list_all (plain_terminal_char is_alphanumeric) (utf8_chars value) then value else quote_arg value)"

definition escape_command_arg :: "string \<Rightarrow> string" where
  "escape_command_arg value =
     (if list_all (\<lambda>c. is_alpha c \<or> is_digit c \<or> c \<in> set (ascii_chars ''/.-_:='')) (utf8_chars value)
      then value else quote_arg value)"

definition cd_and :: "string \<Rightarrow> string \<Rightarrow> string" where
  "cd_and workspace_root command = ''cd '' @ quote_arg workspace_root @ '' && '' @ command"

definition remove_directory_script :: "string \<Rightarrow> string" where
  "remove_directory_script path =
     ''target='' @ quote_arg path @
     ''; if [ -L '' @ dquote @ ''$target'' @ dquote @ '' ] || [ -d '' @ dquote @ ''$target'' @ dquote @
     '' ]; then exec rm -rf -- '' @ dquote @ ''$target'' @ dquote @
     ''; elif [ -e '' @ dquote @ ''$target'' @ dquote @ '' ]; then printf '' @ squote @
     ''Remote path is not a directory: %s'' @ bslash @ ''n'' @ squote @ '' '' @ dquote @ ''$target'' @ dquote @
     '' >&2; else printf '' @ squote @ ''Remote directory does not exist or cannot be accessed: %s'' @ bslash @
     ''n'' @ squote @ '' '' @ dquote @ ''$target'' @ dquote @ '' >&2; fi; exit 1''"

definition remove_directory_command :: "string \<Rightarrow> string option" where
  "remove_directory_command path =
     (let path = trim_end_char (CHR ''/'') path
      in if \<not> prefix ''/'' path \<or> CHR 0x00 \<in> set path \<or> basename path \<in> {'''', ''.'', ''..''}
         then None
         else Some (''sh -c '' @ quote_arg (remove_directory_script path)))"

definition shell_quote_posix :: "string \<Rightarrow> string" where
  "shell_quote_posix value =
     (if value \<noteq> [] \<and>
         list_all (\<lambda>c. is_alpha c \<or> is_digit c \<or> c \<in> set (ascii_chars ''/.-_:=@'')) (utf8_chars value)
      then value
      else quote_arg value)"

fun join_args :: "string list \<Rightarrow> string" where
  "join_args [] = []"
| "join_args [a] = a"
| "join_args (a # as) = a @ '' '' @ join_args as"

definition build_remote_git_command :: "string \<Rightarrow> string list \<Rightarrow> string" where
  "build_remote_git_command repository_path args =
     join_args ([''LC_ALL=C'', ''git'', ''-C'', shell_quote_posix repository_path, ''--no-pager''] @ map shell_quote_posix args)"

section \<open>Characters of concatenations\<close>

definition good_char :: "string \<Rightarrow> bool" where
  "good_char c \<longleftrightarrow> (\<exists>b bs. c = b # bs \<and> \<not> is_utf8_cont b \<and> (\<forall>x \<in> set bs. is_utf8_cont x))"

lemma good_char_Nil [simp]: "\<not> good_char []"
  by (simp add: good_char_def)

lemma good_char_Cons: "good_char (b # bs) \<longleftrightarrow> \<not> is_utf8_cont b \<and> (\<forall>x \<in> set bs. is_utf8_cont x)"
  by (auto simp: good_char_def)

lemma utf8_chars_cont: "\<forall>x \<in> set bs. is_utf8_cont x \<Longrightarrow> \<forall>c \<in> set cs. good_char c \<Longrightarrow> utf8_chars (concat cs) = cs \<Longrightarrow>
   bs \<noteq> [] \<Longrightarrow> utf8_chars (bs @ concat cs) = bs # cs"
proof (induction bs)
  case (Cons b bs)
  show ?case
  proof (cases bs)
    case Nil
    with Cons.prems show ?thesis by (cases cs) (auto simp: good_char_def split: list.split)
  next
    case (Cons b' bs')
    with Cons.IH Cons.prems have "utf8_chars (bs @ concat cs) = bs # cs" by simp
    with Cons Cons.prems(1) show ?thesis by simp
  qed
qed simp

lemma utf8_chars_concat: "\<forall>c \<in> set cs. good_char c \<Longrightarrow> utf8_chars (concat cs) = cs"
proof (induction cs)
  case (Cons c cs)
  then obtain b bs where c: "c = b # bs" "\<not> is_utf8_cont b" "\<forall>x \<in> set bs. is_utf8_cont x"
    by (auto simp: good_char_def)
  from Cons have IH: "utf8_chars (concat cs) = cs" and good: "\<forall>c \<in> set cs. good_char c" by auto
  show ?case
  proof (cases "bs = []")
    case True
    with c IH good show ?thesis by (cases cs) (auto simp: good_char_def)
  next
    case False
    with c utf8_chars_cont [OF c(3) good IH] show ?thesis by (cases bs) auto
  qed
qed simp

lemma hd_utf8_chars: "s \<noteq> [] \<Longrightarrow> \<exists>c cs. utf8_chars s = c # cs \<and> c \<noteq> [] \<and> hd c = hd s"
  by (cases s) (auto split: list.splits)

lemma utf8_chars_tail:
  "utf8_chars s = c # cs \<Longrightarrow> (\<forall>d \<in> set cs. good_char d) \<and> (\<forall>x \<in> set (tl c). is_utf8_cont x)"
proof (induction s arbitrary: c cs)
  case (Cons b bs)
  show ?case
  proof (cases "utf8_chars bs")
    case (Cons d ds)
    with Cons.IH have IH: "\<forall>d \<in> set ds. good_char d" "\<forall>x \<in> set (tl d). is_utf8_cont x" by auto
    from Cons hd_utf8_chars [of bs] have "d \<noteq> []" by fastforce
    then obtain x xs where d: "d = x # xs" by (cases d) auto
    show ?thesis
    proof (cases "is_utf8_cont x")
      case True
      with Cons.prems Cons d IH show ?thesis by auto
    next
      case False
      with Cons.prems Cons d have "cs = (x # xs) # ds" "c = [b]" by auto
      with False d IH show ?thesis by (auto simp: good_char_Cons)
    qed
  qed (use Cons.prems in auto)
qed simp

lemma utf8_chars_good:
  assumes "valid_str s" "c \<in> set (utf8_chars s)" shows "good_char c"
proof -
  from assms(2) have "s \<noteq> []" by auto
  with hd_utf8_chars [OF this] obtain d ds where d: "utf8_chars s = d # ds" "d \<noteq> []" "hd d = hd s" by blast
  from d(2) obtain x xs where "d = x # xs" by (cases d) auto
  with d utf8_chars_tail [OF d(1)] assms \<open>s \<noteq> []\<close> show ?thesis
    by (auto simp: valid_str_def good_char_Cons)
qed

lemma utf8_chars_append:
  assumes "valid_str s" "valid_str t" shows "utf8_chars (s @ t) = utf8_chars s @ utf8_chars t"
proof -
  have "utf8_chars (concat (utf8_chars s @ utf8_chars t)) = utf8_chars s @ utf8_chars t"
    by (rule utf8_chars_concat) (use assms utf8_chars_good in auto)
  then show ?thesis by simp
qed

lemma good_ascii [simp]: "good_char squote" "good_char bslash" "good_char dquote" "good_char '' ''"
  by (simp_all add: good_char_Cons squote_def bslash_def dquote_def is_utf8_cont_def)

section \<open>Reading a quoted argument back\<close>

text \<open>The characters of a quoted argument.\<close>

definition quote_chars :: "string list \<Rightarrow> string list" where
  "quote_chars cs = concat (map (\<lambda>c. if c = squote then [squote, bslash, squote, squote] else [c]) cs)"

lemma concat_quote_chars: "concat (quote_chars cs) = concat (map quote_char cs)"
  by (induction cs) (auto simp: quote_chars_def quote_char_def)

lemma utf8_chars_quote_arg:
  assumes "valid_str value"
  shows "utf8_chars (quote_arg value) = squote # quote_chars (utf8_chars value) @ [squote]"
proof -
  have "utf8_chars (concat (squote # quote_chars (utf8_chars value) @ [squote])) =
    squote # quote_chars (utf8_chars value) @ [squote]"
    by (rule utf8_chars_concat) (use utf8_chars_good [OF assms] in \<open>auto simp: quote_chars_def\<close>)
  then show ?thesis by (simp add: quote_arg_def concat_quote_chars)
qed

lemma valid_quote_arg [simp]: "valid_str (quote_arg value)"
  by (simp add: valid_str_def quote_arg_def squote_def is_utf8_cont_def)

lemma char_constants [simp]: "squote \<noteq> bslash" "squote \<noteq> nl" "squote \<noteq> dquote" "squote \<noteq> btick"
  "bslash \<noteq> squote" "dquote \<noteq> squote" "nl \<noteq> squote" "btick \<noteq> squote"
  by (simp_all add: squote_def bslash_def nl_def dquote_def btick_def)

lemma word_loop_next: "word_step d start ws = WordNext ws' \<Longrightarrow> word_loop d start ws = word_loop d start ws'"
  by (subst word_loop.simps) simp

lemma word_loop_in_quotes:
  "ws_quote ws = Some squote \<Longrightarrow> ws_quoted ws \<Longrightarrow> ws_rest ws = quote_chars cs @ squote # tail \<Longrightarrow>
   word_loop d start ws =
     word_loop d start (ws\<lparr>ws_pos := ws_pos ws + byte_len (quote_chars cs) + 1, ws_rest := tail,
       ws_value := ws_value ws @ concat cs, ws_quote := None\<rparr>)"
proof (induction cs arbitrary: ws)
  case Nil
  then have "word_step d start ws =
    WordNext (ws\<lparr>ws_pos := ws_pos ws + 1, ws_rest := tail, ws_quote := None\<rparr>)"
    by (simp add: word_step_def ws_bump_def quote_chars_def) (simp add: squote_def)
  from word_loop_next [OF this] Nil show ?case
    by (simp add: quote_chars_def byte_len_def)
next
  case (Cons c cs)
  show ?case
  proof (cases "c = squote")
    case False
    let ?w = "ws\<lparr>ws_pos := ws_pos ws + length c, ws_rest := quote_chars cs @ squote # tail, ws_value := ws_value ws @ c\<rparr>"
    from False Cons.prems have "word_step d start ws = WordNext ?w"
      by (simp add: word_step_def ws_bump_def ws_push_def quote_chars_def)
    then have "word_loop d start ws = word_loop d start ?w" by (rule word_loop_next)
    also have "\<dots> = word_loop d start (?w\<lparr>ws_pos := ws_pos ?w + byte_len (quote_chars cs) + 1, ws_rest := tail,
       ws_value := ws_value ?w @ concat cs, ws_quote := None\<rparr>)"
      using Cons.prems by (intro Cons.IH) simp_all
    finally show ?thesis using False by (simp add: quote_chars_def byte_len_def add.assoc)
  next
    case True
    let ?rest = "quote_chars cs @ squote # tail"
    let ?w1 = "ws\<lparr>ws_pos := ws_pos ws + 1, ws_rest := bslash # squote # squote # ?rest, ws_quote := None\<rparr>"
    let ?w2 = "?w1\<lparr>ws_pos := ws_pos ws + 3, ws_rest := squote # ?rest, ws_value := ws_value ws @ squote\<rparr>"
    let ?w3 = "?w2\<lparr>ws_pos := ws_pos ws + 4, ws_rest := ?rest, ws_quote := Some squote\<rparr>"
    have 1: "word_step d start ws = WordNext ?w1"
      using Cons.prems True by (simp add: word_step_def ws_bump_def quote_chars_def) (simp add: squote_def)
    have 2: "word_step d start ?w1 = WordNext ?w2"
      using Cons.prems by (simp add: word_step_def ws_bump_def ws_push_def Let_def)
        (simp add: squote_def bslash_def)
    have 3: "word_step d start ?w2 = WordNext ?w3"
      using Cons.prems by (simp add: word_step_def ws_bump_def ws_push_def) (simp add: squote_def)
    have "word_loop d start ws = word_loop d start ?w3"
      using word_loop_next [OF 1] word_loop_next [OF 2] word_loop_next [OF 3] by simp
    also have "\<dots> = word_loop d start (?w3\<lparr>ws_pos := ws_pos ?w3 + byte_len (quote_chars cs) + 1, ws_rest := tail,
       ws_value := ws_value ?w3 @ concat cs, ws_quote := None\<rparr>)"
      using Cons.prems by (intro Cons.IH) simp_all
    finally have "word_loop d start ws = word_loop d start (ws\<lparr>ws_pos := ws_pos ws + (4 + byte_len (quote_chars cs)) + 1,
      ws_rest := tail, ws_value := ws_value ws @ squote @ concat cs, ws_quote := None\<rparr>)"
      by (simp add: add.assoc)
    moreover have "byte_len (quote_chars (c # cs)) = 4 + byte_len (quote_chars cs)"
      using True by (simp add: quote_chars_def byte_len_def) (simp add: squote_def bslash_def)
    ultimately show ?thesis using True by simp
  qed
qed

definition ends_word :: "string list \<Rightarrow> bool" where
  "ends_word tail \<longleftrightarrow> tail = [] \<or> hd tail = '' ''"

lemma starts_Cons: "starts (c # op) rest \<longleftrightarrow> (\<exists>tail. rest = [c] # tail \<and> starts op tail)"
  by (cases rest) (auto simp: starts_def ascii_chars_def)

lemma word_loop_ends:
  assumes "ends_word (ws_rest ws)" "ws_quote ws = None" shows "word_loop False start ws = Inr ws"
proof -
  have "word_step False start ws = WordBreak ws"
  proof (cases "ws_rest ws")
    case (Cons c rest)
    with assms have "c = '' ''" by (simp add: ends_word_def)
    with Cons assms show ?thesis
      by (simp add: word_step_def word_tail_def bslash_def squote_def dquote_def btick_def starts_Cons is_whitespace_def
          utf8_whitespace_def)
  qed (simp add: word_step_def)
  then show ?thesis by (subst word_loop.simps) simp
qed

definition literal :: "shell_word \<Rightarrow> string \<Rightarrow> bool" where
  "literal w v \<longleftrightarrow> sw_value w = v \<and> \<not> sw_dynamic w \<and> \<not> sw_executes w"

lemma squote_length: "length squote = 1"
  by (simp add: squote_def)

lemma lex_word_quoted:
  assumes "ends_word tail"
  shows "\<exists>w. lex_word False pos (squote # quote_chars cs @ squote # tail) =
      Inr (w, pos + byte_len (quote_chars cs) + 2, tail) \<and> literal w (concat cs)"
proof -
  let ?ws = "\<lparr>ws_pos = pos, ws_rest = squote # quote_chars cs @ squote # tail, ws_value = [], ws_quoted = False,
             ws_dynamic = False, ws_executes = False, ws_quote = None\<rparr>"
  let ?w1 = "?ws\<lparr>ws_pos := pos + 1, ws_rest := quote_chars cs @ squote # tail, ws_quoted := True, ws_quote := Some squote\<rparr>"
  let ?w2 = "?w1\<lparr>ws_pos := pos + 1 + byte_len (quote_chars cs) + 1, ws_rest := tail, ws_value := concat cs, ws_quote := None\<rparr>"
  have "word_step False pos ?ws = WordNext ?w1"
    by (simp add: word_step_def ws_bump_def) (simp add: squote_def)
  from word_loop_next [OF this] word_loop_in_quotes [of ?w1 cs tail False pos]
  have "word_loop False pos ?ws = word_loop False pos ?w2" by simp
  also have "\<dots> = Inr ?w2" using assms by (intro word_loop_ends) simp_all
  finally show ?thesis by (simp add: lex_word_def Let_def literal_def)
qed

text \<open>The characters that are left bare, and what none of them is.\<close>

definition plain_char :: "string \<Rightarrow> bool" where
  "plain_char c \<longleftrightarrow> is_alpha c \<or> is_digit c \<or> c \<in> set (ascii_chars ''/.-_:=@'')"

definition special_chars :: "string list" where
  "special_chars = [nl, tab, cr, bslash, squote, dquote, btick] @ ascii_chars '' #<>|&;()$*?[{}~'' @ utf8_whitespace"

lemma plain_not_special: "plain_char c \<Longrightarrow> c \<notin> set special_chars"
  by (auto simp: plain_char_def is_alpha_def is_digit_def ascii_chars_def special_chars_def nl_def tab_def cr_def
      bslash_def squote_def dquote_def btick_def utf8_whitespace_def)

lemma plain_good: "plain_char c \<Longrightarrow> good_char c"
  by (auto simp: plain_char_def is_alpha_def is_digit_def ascii_chars_def good_char_Cons is_utf8_cont_def)

lemma word_loop_plain:
  "\<forall>c \<in> set cs. plain_char c \<Longrightarrow> ws_quote ws = None \<Longrightarrow> ws_rest ws = cs @ tail \<Longrightarrow>
   word_loop False start ws = word_loop False start (ws\<lparr>ws_pos := ws_pos ws + byte_len cs, ws_rest := tail,
     ws_value := ws_value ws @ concat cs\<rparr>)"
proof (induction cs arbitrary: ws)
  case Nil
  then have "ws\<lparr>ws_pos := ws_pos ws + byte_len [], ws_rest := tail, ws_value := ws_value ws @ concat []\<rparr> = ws"
    by (simp add: byte_len_def)
  then show ?case by simp
next
  case (Cons c cs)
  let ?w = "ws\<lparr>ws_pos := ws_pos ws + length c, ws_rest := cs @ tail, ws_value := ws_value ws @ c\<rparr>"
  from Cons.prems plain_not_special [of c] have c: "c \<notin> set special_chars" by simp
  from c have 1: "c \<noteq> squote" "c \<noteq> bslash" "c \<noteq> dquote" "c \<noteq> btick" "c \<noteq> ''$''" "c \<noteq> ''<''" "c \<noteq> ''>''"
    "c \<noteq> ''~''" "\<not> is_whitespace c" "c \<notin> set (ascii_chars ''<>|&;()'')" "c \<notin> set (ascii_chars ''*?[{}'')"
    by (auto simp: special_chars_def is_whitespace_def ascii_chars_def)
  from 1 Cons.prems(2,3) have "word_step False start ws = WordNext ?w"
    by (simp add: word_step_def word_tail_def starts_Cons ws_bump_def ws_push_def)
  then have "word_loop False start ws = word_loop False start ?w" by (rule word_loop_next)
  also have "\<dots> = word_loop False start (?w\<lparr>ws_pos := ws_pos ?w + byte_len cs, ws_rest := tail,
     ws_value := ws_value ?w @ concat cs\<rparr>)"
    using Cons.prems by (intro Cons.IH) simp_all
  finally show ?case by (simp add: byte_len_def add.assoc)
qed

lemma lex_word_plain:
  assumes "\<forall>c \<in> set cs. plain_char c" "cs \<noteq> []" "ends_word tail"
  shows "\<exists>w. lex_word False pos (cs @ tail) = Inr (w, pos + byte_len cs, tail) \<and> literal w (concat cs)"
proof -
  let ?ws = "\<lparr>ws_pos = pos, ws_rest = cs @ tail, ws_value = [], ws_quoted = False,
             ws_dynamic = False, ws_executes = False, ws_quote = None\<rparr>"
  let ?w = "?ws\<lparr>ws_pos := pos + byte_len cs, ws_rest := tail, ws_value := concat cs\<rparr>"
  have "word_loop False pos ?ws = word_loop False pos ?w"
    using word_loop_plain [of cs ?ws tail pos] assms(1) by simp
  also have "\<dots> = Inr ?w" using assms(3) by (intro word_loop_ends) simp_all
  finally have loop: "word_loop False pos ?ws = Inr ?w" .
  from assms(1,2) plain_good have "0 < byte_len cs" by (cases cs) (auto simp: byte_len_def good_char_def)
  with loop show ?thesis by (simp add: lex_word_def Let_def literal_def)
qed

text \<open>An argument as the builders write it: bare, or quoted.\<close>

definition arg_chars :: "string \<Rightarrow> string list \<Rightarrow> bool" where
  "arg_chars v cs \<longleftrightarrow>
     (cs \<noteq> [] \<and> (\<forall>c \<in> set cs. plain_char c) \<and> concat cs = v) \<or>
     (\<exists>ds. cs = squote # quote_chars ds @ [squote] \<and> concat ds = v)"

lemma lex_word_arg:
  assumes "arg_chars v cs" "ends_word tail"
  shows "\<exists>w. lex_word False pos (cs @ tail) = Inr (w, pos + byte_len cs, tail) \<and> literal w v"
  using assms lex_word_plain [of cs tail pos] lex_word_quoted [of tail pos]
  by (auto simp: arg_chars_def squote_length)

lemma arg_chars_head:
  assumes "arg_chars v cs"
  obtains c cs' where "cs = c # cs'" "c = squote \<or> plain_char c"
  using assms by (cases cs) (auto simp: arg_chars_def)

lemma no_redirect_op: "rest = [] \<or> hd rest \<notin> set (ascii_chars ''&<>'') \<Longrightarrow> find (\<lambda>op. starts op rest) redirect_ops = None"
  by (cases rest) (auto simp: redirect_ops_def starts_def ascii_chars_def)

lemma no_control_op: "rest = [] \<or> hd rest \<notin> set (ascii_chars ''&|;()'') \<Longrightarrow> find (\<lambda>op. starts op rest) control_ops = None"
  by (cases rest) (auto simp: control_ops_def starts_def ascii_chars_def)

lemma after_digits:
  assumes "arg_chars v cs" "ends_word tail"
  shows "dropWhile is_digit (cs @ tail) = [] \<or> hd (dropWhile is_digit (cs @ tail)) \<notin> set (ascii_chars ''&<>'')"
proof (cases "\<forall>c \<in> set cs. is_digit c")
  case True
  with assms(2) show ?thesis
    by (cases tail) (auto simp: dropWhile_append ends_word_def is_digit_def ascii_chars_def)
next
  case False
  then have ne: "dropWhile is_digit cs \<noteq> []" by simp
  then have hd: "dropWhile is_digit (cs @ tail) \<noteq> []"
    "hd (dropWhile is_digit (cs @ tail)) = hd (dropWhile is_digit cs)" using False by (auto simp: dropWhile_append)
  have "hd (dropWhile is_digit cs) \<notin> set (ascii_chars ''&<>'')"
  proof (cases "\<forall>c \<in> set cs. plain_char c")
    case True
    from ne have "hd (dropWhile is_digit cs) \<in> set cs" by (meson hd_in_set set_dropWhileD)
    with True plain_not_special show ?thesis by (fastforce simp: special_chars_def ascii_chars_def)
  next
    case False
    with assms(1) obtain ds where "cs = squote # ds" by (auto simp: arg_chars_def)
    then show ?thesis by (simp add: squote_def is_digit_def ascii_chars_def)
  qed
  with hd show ?thesis by simp
qed

lemma lex_step_arg:
  assumes arg: "arg_chars v cs" and tail: "ends_word tail" and rest: "lx_rest lx = cs @ tail"
  shows "\<exists>w. lex_step lx = Inr (lex_push (TWord w) (lx_pos lx + byte_len cs) tail lx) \<and> literal w v"
proof -
  from arg obtain c cs' where c: "cs = c # cs'" "c = squote \<or> plain_char c" by (rule arg_chars_head)
  have c': "c \<notin> {'' '', tab, cr}" "c \<noteq> nl" "c \<noteq> ''#''" "c \<noteq> bslash" "c \<notin> set (ascii_chars ''&|;()'')"
    "c \<notin> set (ascii_chars ''&<>'')"
    using c(2) plain_not_special [of c]
    by (auto simp: special_chars_def ascii_chars_def) (auto simp: squote_def tab_def cr_def nl_def bslash_def)
  have "find (\<lambda>op. starts op (dropWhile is_digit (cs @ tail))) redirect_ops = None"
    by (rule no_redirect_op, rule after_digits [OF arg tail])
  moreover have "find (\<lambda>op. starts op (cs @ tail)) control_ops = None"
    by (rule no_control_op) (use c c' in simp)
  moreover obtain w where "lex_word False (lx_pos lx) (cs @ tail) = Inr (w, lx_pos lx + byte_len cs, tail)" "literal w v"
    using lex_word_arg [OF arg tail] by blast
  ultimately show ?thesis
    using c c' rest by (intro exI [of _ w]) (simp add: lex_step_def lex_operator_or_word_def Let_def)
qed

lemma lex_loop_next:
  "lx_rest lx \<noteq> [] \<Longrightarrow> length (lx_tokens lx) < max_nodes \<Longrightarrow> lex_step lx = Inr lx' \<Longrightarrow> lex_loop lx = lex_loop lx'"
  by (subst lex_loop.simps) simp

lemma lex_loop_done: "lx_rest lx = [] \<Longrightarrow> lx_pending lx = [] \<Longrightarrow> lex_loop lx = Inr (lx_tokens lx)"
  by (subst lex_loop.simps) simp

text \<open>Arguments joined by single blanks read back as one literal word each.\<close>

fun join_chars :: "string list list \<Rightarrow> string list" where
  "join_chars [] = []"
| "join_chars [a] = a"
| "join_chars (a # as) = a @ '' '' # join_chars as"

lemma lex_loop_args:
  "list_all2 arg_chars vs css \<Longrightarrow> lx_rest lx = join_chars css \<Longrightarrow> lx_pending lx = [] \<Longrightarrow>
   length (lx_tokens lx) + length css \<le> max_nodes \<Longrightarrow>
   \<exists>ws. lex_loop lx = Inr (lx_tokens lx @ map TWord ws) \<and> list_all2 literal ws vs"
proof (induction css arbitrary: vs lx rule: join_chars.induct)
  case 1
  then show ?case by (auto simp: lex_loop_done)
next
  case (2 cs)
  from "2.prems"(1) obtain v where v: "vs = [v]" "arg_chars v cs" by (auto simp: list_all2_Cons2)
  from lex_step_arg [OF v(2), of "[]" lx] "2.prems" obtain w where
    w: "lex_step lx = Inr (lex_push (TWord w) (lx_pos lx + byte_len cs) [] lx)" "literal w v"
    by (auto simp: ends_word_def)
  from v(2) have "cs \<noteq> []" by (auto simp: arg_chars_def)
  with "2.prems" lex_loop_next [OF _ _ w(1)] have
    "lex_loop lx = lex_loop (lex_push (TWord w) (lx_pos lx + byte_len cs) [] lx)" by simp
  also have "\<dots> = Inr (lx_tokens lx @ [TWord w])"
    using "2.prems" by (subst lex_loop_done) (simp_all add: lex_push_def)
  finally show ?case using v w by (intro exI [of _ "[w]"]) simp
next
  case (3 cs ds css)
  from "3.prems"(1) obtain v vs' where v: "vs = v # vs'" "arg_chars v cs" "list_all2 arg_chars vs' (ds # css)"
    by (auto simp: list_all2_Cons2)
  let ?tail = "'' '' # join_chars (ds # css)"
  from lex_step_arg [OF v(2), of ?tail lx] "3.prems" obtain w where
    w: "lex_step lx = Inr (lex_push (TWord w) (lx_pos lx + byte_len cs) ?tail lx)" "literal w v"
    by (auto simp: ends_word_def)
  let ?l1 = "lex_push (TWord w) (lx_pos lx + byte_len cs) ?tail lx"
  let ?l2 = "?l1\<lparr>lx_pos := lx_pos ?l1 + 1, lx_rest := join_chars (ds # css)\<rparr>"
  have "lex_loop lx = lex_loop ?l1"
    by (rule lex_loop_next [OF _ _ w(1)]) (use "3.prems" in simp_all)
  also have "\<dots> = lex_loop ?l2"
    by (rule lex_loop_next) (use "3.prems" in \<open>simp_all add: lex_push_def lex_step_def\<close>)
  finally have eq: "lex_loop lx = lex_loop ?l2" .
  obtain ws where "lex_loop ?l2 = Inr (lx_tokens ?l2 @ map TWord ws)" "list_all2 literal ws vs'"
    using "3.IH" [OF v(3), of ?l2] "3.prems" by (auto simp: lex_push_def)
  with eq show ?case using v w by (intro exI [of _ "w # ws"]) (simp add: lex_push_def)
qed

lemma arg_chars_posix: "valid_str v \<Longrightarrow> arg_chars v (utf8_chars (shell_quote_posix v))"
  by (auto simp: arg_chars_def shell_quote_posix_def utf8_chars_quote_arg plain_char_def list_all_iff)

lemma arg_chars_quote: "valid_str v \<Longrightarrow> arg_chars v (utf8_chars (quote_arg v))"
  by (auto simp: arg_chars_def utf8_chars_quote_arg)

lemma valid_posix: "valid_str v \<Longrightarrow> valid_str (shell_quote_posix v)"
  by (simp add: shell_quote_posix_def)

lemma valid_append: "valid_str s \<Longrightarrow> valid_str t \<Longrightarrow> valid_str (s @ t)"
  by (cases s) (auto simp: valid_str_def)

lemma valid_blank: "valid_str (CHR '' '' # s)"
  by (simp add: valid_str_def is_utf8_cont_def)

lemma utf8_chars_blank: "valid_str s \<Longrightarrow> utf8_chars (CHR '' '' # s) = '' '' # utf8_chars s"
  using utf8_chars_append [OF valid_blank [of "[]"], of s] by simp

lemma valid_join: "\<forall>a \<in> set as. valid_str a \<Longrightarrow> valid_str (join_args as)"
  by (induction "as" rule: join_args.induct)
    (auto simp del: utf8_chars.simps intro: valid_append valid_blank, simp add: valid_str_def)

lemma utf8_chars_join: "\<forall>a \<in> set as. valid_str a \<Longrightarrow> utf8_chars (join_args as) = join_chars (map utf8_chars as)"
  by (induction "as" rule: join_args.induct)
    (simp_all add: utf8_chars_append valid_blank utf8_chars_blank valid_join del: utf8_chars.simps(2))

lemma lex_args:
  assumes "\<forall>q \<in> set qs. valid_str q" "list_all2 arg_chars vs (map utf8_chars qs)" "length qs \<le> max_nodes"
  shows "\<exists>ws. lex (join_args qs) = Inr (map TWord ws) \<and> list_all2 literal ws vs"
  using lex_loop_args [OF assms(2), of "\<lparr>lx_pos = 0, lx_rest = utf8_chars (join_args qs), lx_tokens = [], lx_pending = []\<rparr>"]
    utf8_chars_join [OF assms(1)] assms(3)
  by (auto simp: lex_def)

section \<open>Properties\<close>

text \<open>
  C33. Quoting is inverted by lexing: whatever a value holds, blanks, quotes, operators, expansions or newlines,
  the lexer reads its quoted form back as one word, literal and with exactly that value.
\<close>

theorem quoted_argument_is_one_literal_word:
  assumes "valid_str value"
  shows "\<exists>w. lex (quote_arg value) = Inr [TWord w] \<and> literal w value"
  using lex_args [of "[quote_arg value]" "[value]"] arg_chars_quote [OF assms]
  by (auto simp: list_all2_Cons2 max_nodes_def)

theorem quoted_argument_is_one_literal_word_witness:
  "\<exists>w. lex (quote_arg (''a; rm -rf $(x) '' @ squote)) = Inr [TWord w] \<and> literal w (''a; rm -rf $(x) '' @ squote)"
  by (rule quoted_argument_is_one_literal_word) (simp add: valid_str_def is_utf8_cont_def)

text \<open>
  A remote git command cannot be broken up by its arguments: the line built for a repository and a list of
  arguments lexes to the fixed words, the path and the arguments, one literal word each and in order.
\<close>

theorem remote_git_command_keeps_arguments:
  assumes "valid_str path" "\<forall>a \<in> set args. valid_str a" "length args + 5 \<le> max_nodes"
  shows "\<exists>ws. lex (build_remote_git_command path args) = Inr (map TWord ws) \<and>
    list_all2 literal ws ([''LC_ALL=C'', ''git'', ''-C'', path, ''--no-pager''] @ args)"
proof -
  let ?qs = "[''LC_ALL=C'', ''git'', ''-C'', shell_quote_posix path, ''--no-pager''] @ map shell_quote_posix args"
  have fixed: "valid_str v \<and> arg_chars v (utf8_chars v)" if "v \<in> {''LC_ALL=C'', ''git'', ''-C'', ''--no-pager''}" for v
    using that by (auto simp: valid_str_def is_utf8_cont_def arg_chars_def plain_char_def is_alpha_def ascii_chars_def)
  have "list_all2 arg_chars ([''LC_ALL=C'', ''git'', ''-C'', path, ''--no-pager''] @ args) (map utf8_chars ?qs)"
    using fixed assms(1,2) by (auto simp: arg_chars_posix list.rel_map intro: list.rel_refl_strong simp del: utf8_chars.simps)
  moreover have "\<forall>q \<in> set ?qs. valid_str q" using fixed assms(1,2) by (auto simp: valid_posix)
  ultimately show ?thesis
    unfolding build_remote_git_command_def using assms(3) by (intro lex_args) simp_all
qed

theorem remote_git_command_keeps_arguments_witness:
  "\<exists>ws. lex (build_remote_git_command ''/srv/my repo'' [''log'', ''--format=%H; id'']) = Inr (map TWord ws) \<and>
    list_all2 literal ws ([''LC_ALL=C'', ''git'', ''-C'', ''/srv/my repo'', ''--no-pager''] @ [''log'', ''--format=%H; id''])"
  by (rule remote_git_command_keeps_arguments) (simp_all add: valid_str_def is_utf8_cont_def max_nodes_def)

end
