(* ===== verification/Edit_Constraints.thy ===== *)
theory Edit_Constraints
  imports Shell_Effects
begin

text \<open>
  The edit constraints of a session: \<open>assembly/core/src/agentic/execution/edit_constraint_guard/model.rs\<close>
  and the store operations of \<open>assembly/core/src/agentic/session/session_manager.rs\<close> that keep them.

  \<open>str::to_lowercase\<close> (Unicode tables) is the parameter \<open>lower\<close>; \<open>Path::file_name\<close> and
  \<open>Path::file_stem\<close> are written out on the components of a Unix path. The write of the state to
  the session metadata, whose failure is only logged, is left out: the store is what every check reads.
\<close>

section \<open>Constraints\<close>

datatype constraint_source = Deterministic | Model | Legacy

datatype operation_scope = ScopeAll | DeleteOnly

datatype constraint_matcher =
  TestFiles | PathContains "string list" | PathUnderDir "string list" | Extension "string list" | Unmatched

record extracted_constraint =
  ec_id :: string
  ec_description :: string
  ec_scope :: operation_scope
  ec_matcher :: constraint_matcher
  ec_source :: constraint_source
  ec_source_text :: "string option"

definition applies_to :: "operation_scope \<Rightarrow> string \<Rightarrow> bool" where
  "applies_to scope operation =
     (case scope of ScopeAll \<Rightarrow> True | DeleteOnly \<Rightarrow> operation \<in> {''delete'', ''recursive_delete''})"

definition to_slashes :: "string \<Rightarrow> string" where
  "to_slashes path = map (\<lambda>c. if [c] = bslash then CHR ''/'' else c) path"

definition path_components :: "string \<Rightarrow> string list" where
  "path_components path = filter (\<lambda>s. s \<noteq> [] \<and> s \<noteq> ''.'') (split_slash path)"

definition file_name :: "string \<Rightarrow> string option" where
  "file_name path =
     (let cs = path_components path
      in if cs = [] \<or> last cs = ''..'' then None else Some (last cs))"

definition file_stem :: "string \<Rightarrow> string" where
  "file_stem name =
     (let before = rev (tl (dropWhile (\<lambda>c. c \<noteq> CHR ''.'') (rev name)))
      in if before = [] then name else before)"

definition test_stem :: "string \<Rightarrow> bool" where
  "test_stem stem \<longleftrightarrow>
     prefix ''test_'' stem \<or> prefix ''test-'' stem \<or> suffix ''_test'' stem \<or> suffix ''-test'' stem \<or>
     suffix ''_tests'' stem \<or> suffix ''_spec'' stem \<or> suffix ''-spec'' stem"

definition test_segments :: "string list" where
  "test_segments = [''tests'', ''test'', ''__tests__'', ''spec'', ''specs'']"

definition is_test_file :: "(string \<Rightarrow> string) \<Rightarrow> string \<Rightarrow> bool" where
  "is_test_file lower path =
     (let lowercase = lower (to_slashes path);
          name = (case file_name lowercase of Some n \<Rightarrow> n | None \<Rightarrow> []);
          stem = (case file_name name of Some n \<Rightarrow> file_stem n | None \<Rightarrow> [])
      in test_stem stem \<or> contains name ''.test.'' \<or> contains name ''.spec.'' \<or>
         (\<exists>segment \<in> set (split_slash lowercase). segment \<in> set test_segments))"

definition trim_slashes :: "string \<Rightarrow> string" where
  "trim_slashes s = trim_end_char (CHR ''/'') (dropWhile (\<lambda>c. c = CHR ''/'') s)"

definition under_dir :: "string \<Rightarrow> string \<Rightarrow> bool" where
  "under_dir path dir =
     (let dir = trim_slashes dir
      in dir \<noteq> [] \<and> (path = dir \<or> prefix (dir @ ''/'') path \<or> contains path (''/'' @ dir @ ''/'')))"

definition matches :: "(string \<Rightarrow> string) \<Rightarrow> constraint_matcher \<Rightarrow> string \<Rightarrow> bool" where
  "matches lower m file_path =
     (let path = to_slashes file_path
      in case m of
           TestFiles \<Rightarrow> is_test_file lower path
         | PathContains values \<Rightarrow> (\<exists>v \<in> set values. v \<noteq> [] \<and> contains path v)
         | PathUnderDir dirs \<Rightarrow> (\<exists>dir \<in> set dirs. under_dir path dir)
         | Extension exts \<Rightarrow> (\<exists>e \<in> set exts. e \<noteq> [] \<and> suffix e path)
         | Unmatched \<Rightarrow> False)"

definition enforceable :: "constraint_matcher \<Rightarrow> bool" where
  "enforceable m = (m \<noteq> Unmatched)"

section \<open>Extractions and the state of a session\<close>

datatype extraction_status = Extracted | NoConstraints | ExtractionFailed

datatype model_status = NotRun | ModelParsed | ModelFailed

record revocation =
  rv_id :: string
  rv_description :: string

record extraction_failure =
  xf_stage :: string
  xf_reason :: string

record extraction =
  er_message :: string
  er_turn :: "string option"
  er_status :: extraction_status
  er_constraints :: "extracted_constraint list"
  er_deterministic_count :: nat
  er_model_attempts :: nat
  er_active_ids :: "string list"
  er_authorized :: bool
  er_model_status :: model_status
  er_model_constraints :: "extracted_constraint list"
  er_model_revocations :: "revocation list"
  er_revoked_ids :: "string list"
  er_unmatched_ids :: "string list"
  er_input_chars :: nat
  er_prompt_chars :: nat
  er_truncated :: bool
  er_latency_ms :: nat
  er_extracted_at_ms :: nat
  er_failure :: "extraction_failure option"
  er_excerpt :: "string option"

record created_path =
  cp_path :: string
  cp_turn :: string

record edit_state =
  es_schema_version :: nat
  es_inherited :: "extracted_constraint list"
  es_constraints :: "extracted_constraint list"
  es_extractions :: "extraction list"
  es_created :: "string list"
  es_inherited_created :: "string list"
  es_created_records :: "created_path list"

definition schema_version :: nat where
  "schema_version = 6"

definition edit_state_default :: edit_state where
  "edit_state_default = \<lparr>es_schema_version = schema_version, es_inherited = [], es_constraints = [],
     es_extractions = [], es_created = [], es_inherited_created = [], es_created_records = []\<rparr>"

definition mark_fork_baseline :: "edit_state \<Rightarrow> edit_state" where
  "mark_fork_baseline s = s\<lparr>es_schema_version := schema_version, es_inherited := es_constraints s,
     es_inherited_created := es_created s\<rparr>"

definition same_rule :: "extracted_constraint \<Rightarrow> extracted_constraint \<Rightarrow> bool" where
  "same_rule c d \<longleftrightarrow> ec_matcher c = ec_matcher d \<and> ec_scope c = ec_scope d"

definition add_constraint :: "extracted_constraint \<Rightarrow> extracted_constraint list \<Rightarrow> extracted_constraint list" where
  "add_constraint c cs = (if \<exists>d \<in> set cs. same_rule d c then cs else cs @ [c])"

definition merged_constraints :: "extraction \<Rightarrow> extracted_constraint list \<Rightarrow> extracted_constraint list" where
  "merged_constraints e cs =
     fold add_constraint (er_constraints e) (filter (\<lambda>c. ec_id c \<notin> set (er_revoked_ids e)) cs)"

definition merge_extraction :: "extraction \<Rightarrow> edit_state \<Rightarrow> edit_state" where
  "merge_extraction e s = s\<lparr>es_schema_version := schema_version,
     es_constraints := merged_constraints e (es_constraints s), es_extractions := es_extractions s @ [e]\<rparr>"

definition message_processed :: "string \<Rightarrow> string \<Rightarrow> edit_state \<Rightarrow> bool" where
  "message_processed turn message s \<longleftrightarrow>
     (\<exists>r \<in> set (es_extractions s). er_turn r = Some turn \<and> er_message r = message \<and> er_status r \<noteq> ExtractionFailed)"

definition latest_status :: "edit_state \<Rightarrow> extraction_status option" where
  "latest_status s = (if es_extractions s = [] then None else Some (er_status (last (es_extractions s))))"

definition has_enforceable_constraints :: "edit_state \<Rightarrow> bool" where
  "has_enforceable_constraints s \<longleftrightarrow> (\<exists>c \<in> set (es_constraints s). enforceable (ec_matcher c))"

definition tracks_created_test_paths :: "edit_state \<Rightarrow> bool" where
  "tracks_created_test_paths s \<longleftrightarrow>
     (\<exists>c \<in> set (es_constraints s). ec_matcher c = TestFiles \<and> ec_scope c = ScopeAll)"

definition has_created_paths :: "edit_state \<Rightarrow> bool" where
  "has_created_paths s \<longleftrightarrow> es_created s \<noteq> []"

definition push_new :: "'a \<Rightarrow> 'a list \<Rightarrow> 'a list" where
  "push_new x xs = (if x \<in> set xs then xs else xs @ [x])"

definition remember_path :: "string \<Rightarrow> string \<Rightarrow> edit_state \<Rightarrow> edit_state" where
  "remember_path turn path s =
     (let p = to_slashes path
      in s\<lparr>es_created := (if p = [] then es_created s else push_new p (es_created s)),
           es_created_records :=
             (if p = [] \<or> turn = [] then es_created_records s
              else push_new \<lparr>cp_path = p, cp_turn = turn\<rparr> (es_created_records s))\<rparr>)"

definition remember_created_paths :: "string list \<Rightarrow> string \<Rightarrow> edit_state \<Rightarrow> edit_state" where
  "remember_created_paths paths turn s = fold (remember_path turn) paths s"

definition at_or_under :: "string list \<Rightarrow> string \<Rightarrow> bool" where
  "at_or_under paths p \<longleftrightarrow>
     (\<exists>path \<in> set paths. let path = trim_end_char (CHR ''/'') path in p = path \<or> prefix (path @ ''/'') p)"

definition forget_created_paths_under :: "string list \<Rightarrow> edit_state \<Rightarrow> edit_state" where
  "forget_created_paths_under paths s =
     s\<lparr>es_created := filter (\<lambda>p. \<not> at_or_under paths p) (es_created s),
       es_created_records := filter (\<lambda>r. \<not> at_or_under paths (cp_path r)) (es_created_records s)\<rparr>"

definition is_created_path :: "string list \<Rightarrow> edit_state \<Rightarrow> bool" where
  "is_created_path paths s \<longleftrightarrow> (\<exists>p \<in> set paths. p \<in> set (es_created s))"

definition survives :: "string set \<Rightarrow> extraction \<Rightarrow> bool" where
  "survives turns e \<longleftrightarrow> (case er_turn e of Some t \<Rightarrow> t \<in> turns | None \<Rightarrow> False)"

definition rollback_to_surviving_turns :: "string set \<Rightarrow> edit_state \<Rightarrow> edit_state" where
  "rollback_to_surviving_turns turns s =
     (let retained = filter (survives turns) (es_extractions s);
          records = filter (\<lambda>r. cp_turn r \<in> turns) (es_created_records s);
          s1 = s\<lparr>es_schema_version := schema_version, es_constraints := es_inherited s, es_extractions := []\<rparr>
      in (fold merge_extraction retained s1)
           \<lparr>es_created := fold push_new (map cp_path records) (es_inherited_created s),
            es_created_records := records\<rparr>)"

section \<open>The store of all sessions\<close>

type_synonym constraint_store = "string \<rightharpoonup> edit_state"

definition state_or_default :: "constraint_store \<Rightarrow> string \<Rightarrow> edit_state" where
  "state_or_default store sid = (case store sid of Some s \<Rightarrow> s | None \<Rightarrow> edit_state_default)"

definition remember_extraction :: "string \<Rightarrow> extraction \<Rightarrow> constraint_store \<Rightarrow> constraint_store" where
  "remember_extraction sid e store = store(sid \<mapsto> merge_extraction e (state_or_default store sid))"

definition remember_session_paths :: "string \<Rightarrow> string list \<Rightarrow> string \<Rightarrow> constraint_store \<Rightarrow> constraint_store" where
  "remember_session_paths sid paths turn store =
     store(sid \<mapsto> remember_created_paths paths turn (state_or_default store sid))"

definition forget_session_paths :: "string \<Rightarrow> string list \<Rightarrow> constraint_store \<Rightarrow> constraint_store" where
  "forget_session_paths sid paths store =
     (case store sid of None \<Rightarrow> store | Some s \<Rightarrow> store(sid \<mapsto> forget_created_paths_under paths s))"

definition rollback_session :: "string \<Rightarrow> string set \<Rightarrow> constraint_store \<Rightarrow> constraint_store" where
  "rollback_session sid turns store =
     (case store sid of None \<Rightarrow> store | Some s \<Rightarrow> store(sid \<mapsto> rollback_to_surviving_turns turns s))"

definition seed_fork :: "string \<Rightarrow> string \<Rightarrow> constraint_store \<Rightarrow> constraint_store" where
  "seed_fork parent child store =
     (case store parent of None \<Rightarrow> store | Some s \<Rightarrow> store(child \<mapsto> mark_fork_baseline s))"

text \<open>
  Loading a session puts the state of its metadata, written by one of the operations above, back into the
  store; the cleanup of idle sessions takes it out.
\<close>

definition restore_session :: "string \<Rightarrow> edit_state option \<Rightarrow> constraint_store \<Rightarrow> constraint_store" where
  "restore_session sid metadata store =
     (case metadata of None \<Rightarrow> store | Some s \<Rightarrow> store(sid \<mapsto> s))"

definition expire_session :: "string \<Rightarrow> constraint_store \<Rightarrow> constraint_store" where
  "expire_session sid store = store(sid := None)"

section \<open>Rollback\<close>

lemma merge_all_fields:
  "es_constraints (fold merge_extraction es s) = fold merged_constraints es (es_constraints s)"
  "es_extractions (fold merge_extraction es s) = es_extractions s @ es"
  "es_inherited (fold merge_extraction es s) = es_inherited s"
  "es_inherited_created (fold merge_extraction es s) = es_inherited_created s"
  "es_created (fold merge_extraction es s) = es_created s"
  "es_created_records (fold merge_extraction es s) = es_created_records s"
  "es_schema_version s = schema_version \<Longrightarrow> es_schema_version (fold merge_extraction es s) = schema_version"
  by (induction es arbitrary: s) (auto simp: merge_extraction_def)

lemma rollback_eq:
  "rollback_to_surviving_turns turns s =
     s\<lparr>es_schema_version := schema_version,
       es_constraints := fold merged_constraints (filter (survives turns) (es_extractions s)) (es_inherited s),
       es_extractions := filter (survives turns) (es_extractions s),
       es_created := fold push_new (map cp_path (filter (\<lambda>r. cp_turn r \<in> turns) (es_created_records s)))
         (es_inherited_created s),
       es_created_records := filter (\<lambda>r. cp_turn r \<in> turns) (es_created_records s)\<rparr>"
  by (simp add: rollback_to_surviving_turns_def Let_def merge_all_fields)

lemma survives_Int: "survives A e \<and> survives B e \<longleftrightarrow> survives (A \<inter> B) e"
  by (auto simp: survives_def split: option.splits)

text \<open>
  What a session goes through between rollbacks, with the turn an operation belongs to (a deletion belongs to
  none), and the state a session starts from: empty, or the baseline of a fork, which still carries the evidence
  of its parent's turns.
\<close>

datatype edit_op = Merge extraction | Remember string "string list" | Forget "string list"

definition run_op :: "edit_op \<Rightarrow> edit_state \<Rightarrow> edit_state" where
  "run_op op s =
     (case op of
        Merge e \<Rightarrow> merge_extraction e s
      | Remember turn paths \<Rightarrow> remember_created_paths paths turn s
      | Forget paths \<Rightarrow> forget_created_paths_under paths s)"

definition run_ops :: "edit_op list \<Rightarrow> edit_state \<Rightarrow> edit_state" where
  "run_ops ops s = fold run_op ops s"

definition op_survives :: "string set \<Rightarrow> edit_op \<Rightarrow> bool" where
  "op_survives turns op \<longleftrightarrow>
     (case op of
        Merge e \<Rightarrow> survives turns e
      | Remember turn paths \<Rightarrow> turn \<in> turns \<and> turn \<noteq> []
      | Forget _ \<Rightarrow> True)"

definition forgotten :: "edit_op list \<Rightarrow> string \<Rightarrow> bool" where
  "forgotten ops p \<longleftrightarrow> (\<exists>paths. Forget paths \<in> set ops \<and> at_or_under paths p)"

definition is_baseline :: "string set \<Rightarrow> edit_state \<Rightarrow> bool" where
  "is_baseline turns s \<longleftrightarrow> es_schema_version s = schema_version \<and> es_constraints s = es_inherited s \<and>
     es_created s = es_inherited_created s \<and> (\<forall>e \<in> set (es_extractions s). \<not> survives turns e) \<and>
     (\<forall>r \<in> set (es_created_records s). cp_turn r \<notin> turns)"

definition without_history :: "edit_state \<Rightarrow> edit_state" where
  "without_history s = s\<lparr>es_extractions := [], es_created_records := []\<rparr>"

lemma remember_all_fields:
  "es_constraints (remember_created_paths paths turn s) = es_constraints s"
  "es_extractions (remember_created_paths paths turn s) = es_extractions s"
  "es_inherited (remember_created_paths paths turn s) = es_inherited s"
  "es_inherited_created (remember_created_paths paths turn s) = es_inherited_created s"
  "es_schema_version (remember_created_paths paths turn s) = es_schema_version s"
  unfolding remember_created_paths_def
  by (induction paths arbitrary: s) (auto simp: remember_path_def Let_def)

lemma forget_fields:
  "es_constraints (forget_created_paths_under paths s) = es_constraints s"
  "es_extractions (forget_created_paths_under paths s) = es_extractions s"
  "es_created_records (forget_created_paths_under paths s) =
     filter (\<lambda>r. \<not> at_or_under paths (cp_path r)) (es_created_records s)"
  by (simp_all add: forget_created_paths_under_def)

lemma push_new_known: "x \<in> set xs \<Longrightarrow> push_new x xs = xs"
  by (simp add: push_new_def)

lemma set_push_new [simp]: "set (push_new x xs) = insert x (set xs)"
  by (auto simp: push_new_def)

lemma set_fold_push_new [simp]: "set (fold push_new xs ys) = set xs \<union> set ys"
  by (induction xs arbitrary: ys) auto

text \<open>
  The paths in the state are those of the baseline that no deletion took, then those of the records.
\<close>

definition paths_recorded :: "string list \<Rightarrow> edit_state \<Rightarrow> bool" where
  "paths_recorded kept s \<longleftrightarrow> es_created s = fold push_new (map cp_path (es_created_records s)) kept"

lemma push_recorded:
  "fold push_new (map cp_path (push_new r rs)) cs = push_new (cp_path r) (fold push_new (map cp_path rs) cs)"
  by (auto simp: push_new_def)

lemma paths_recorded_remember:
  assumes "paths_recorded kept s" "turn \<noteq> []" shows "paths_recorded kept (remember_created_paths paths turn s)"
  using assms unfolding remember_created_paths_def
proof (induction paths arbitrary: s)
  case (Cons p paths)
  have "paths_recorded kept (remember_path turn p s)"
    using Cons.prems by (simp add: remember_path_def paths_recorded_def Let_def push_recorded)
  with Cons show ?case by simp
qed simp

lemma filter_fold_push_new: "filter P (fold push_new xs ys) = fold push_new (filter P xs) (filter P ys)"
  by (induction xs arbitrary: ys) (auto simp: push_new_def)

lemma paths_recorded_forget:
  assumes "paths_recorded kept s"
  shows "paths_recorded (filter (\<lambda>p. \<not> at_or_under paths p) kept) (forget_created_paths_under paths s)"
  using assms by (simp add: paths_recorded_def forget_created_paths_under_def filter_fold_push_new filter_map o_def)

lemma records_remember:
  "filter (\<lambda>r. cp_turn r \<in> turns) (es_created_records (remember_created_paths paths turn s)) =
     (if turn \<in> turns \<and> turn \<noteq> []
      then fold push_new (map (\<lambda>p. \<lparr>cp_path = to_slashes p, cp_turn = turn\<rparr>) (filter (\<lambda>p. p \<noteq> []) paths))
        (filter (\<lambda>r. cp_turn r \<in> turns) (es_created_records s))
      else filter (\<lambda>r. cp_turn r \<in> turns) (es_created_records s))"
  unfolding remember_created_paths_def
  by (induction paths arbitrary: s) (auto simp: remember_path_def Let_def push_new_def to_slashes_def)

lemma records_remember_all:
  "turn \<noteq> [] \<Longrightarrow> es_created_records (remember_created_paths paths turn s) =
     fold push_new (map (\<lambda>p. \<lparr>cp_path = to_slashes p, cp_turn = turn\<rparr>) (filter (\<lambda>p. p \<noteq> []) paths))
       (es_created_records s)"
  using records_remember [of UNIV paths turn s] by simp

text \<open>Running the surviving operations only, beside running all of them.\<close>

lemma run_ops_snoc: "run_ops (ops @ [op]) s = run_op op (run_ops ops s)"
  by (simp add: run_ops_def)

lemma run_op_frame:
  "es_inherited (run_op op s) = es_inherited s" "es_inherited_created (run_op op s) = es_inherited_created s"
  by (cases op; simp add: run_op_def remember_all_fields merge_extraction_def forget_created_paths_under_def)+

lemma run_ops_frame:
  "es_inherited (run_ops ops s) = es_inherited s" "es_inherited_created (run_ops ops s) = es_inherited_created s"
  unfolding run_ops_def by (induction ops arbitrary: s) (auto simp: run_op_frame)

lemma run_ops_schema:
  assumes "es_schema_version s = schema_version" shows "es_schema_version (run_ops ops s) = schema_version"
  using assms unfolding run_ops_def
  by (induction ops arbitrary: s)
    (auto simp: run_op_def remember_all_fields merge_extraction_def forget_created_paths_under_def
      split: edit_op.splits)

lemma survivors:
  assumes base: "is_baseline turns s"
  shows "es_extractions (run_ops (filter (op_survives turns) ops) (without_history s)) =
      filter (survives turns) (es_extractions (run_ops ops s)) \<and>
    es_created_records (run_ops (filter (op_survives turns) ops) (without_history s)) =
      filter (\<lambda>r. cp_turn r \<in> turns) (es_created_records (run_ops ops s)) \<and>
    es_constraints (run_ops (filter (op_survives turns) ops) (without_history s)) =
      fold merged_constraints (filter (survives turns) (es_extractions (run_ops ops s))) (es_inherited s) \<and>
    paths_recorded (filter (\<lambda>p. \<not> forgotten ops p) (es_inherited_created s))
      (run_ops (filter (op_survives turns) ops) (without_history s))"
proof (induction ops rule: rev_induct)
  case Nil
  with base show ?case
    by (auto simp: run_ops_def is_baseline_def paths_recorded_def without_history_def forgotten_def filter_empty_conv)
next
  case (snoc op ops)
  show ?case
  proof (cases op)
    case (Merge e)
    then have "forgotten (ops @ [op]) = forgotten ops" by (simp add: forgotten_def fun_eq_iff)
    with Merge snoc show ?thesis
      by (auto simp: run_ops_snoc run_op_def op_survives_def merge_extraction_def paths_recorded_def without_history_def)
  next
    case (Remember turn paths)
    then have f: "forgotten (ops @ [op]) = forgotten ops" by (simp add: forgotten_def fun_eq_iff)
    have op: "run_op op r = remember_created_paths paths turn r" for r using Remember by (simp add: run_op_def)
    show ?thesis
    proof (cases "turn \<in> turns \<and> turn \<noteq> []")
      case True
      then have "op_survives turns op" using Remember by (simp add: op_survives_def)
      then show ?thesis
        using True snoc paths_recorded_remember [of _ _ turn paths] records_remember_all [of turn paths]
          records_remember [of turns paths turn]
        by (simp add: run_ops_snoc remember_all_fields f op)
    next
      case False
      then have "\<not> op_survives turns op" using Remember by (auto simp: op_survives_def)
      then show ?thesis
        using False snoc records_remember [of turns paths turn "run_ops ops s"]
        by (auto simp: run_ops_snoc remember_all_fields f op)
    qed
  next
    case (Forget paths)
    then have op: "run_op op r = forget_created_paths_under paths r" "op_survives turns op" for r
      by (simp_all add: run_op_def op_survives_def)
    have "filter (\<lambda>p. \<not> forgotten (ops @ [op]) p) xs =
        filter (\<lambda>p. \<not> at_or_under paths p) (filter (\<lambda>p. \<not> forgotten ops p) xs)" for xs
      using Forget by (auto simp: forgotten_def intro!: filter_cong)
    then have "paths_recorded (filter (\<lambda>p. \<not> forgotten (ops @ [op]) p) (es_inherited_created s))
        (forget_created_paths_under paths (run_ops (filter (op_survives turns) ops) (without_history s)))"
      using snoc paths_recorded_forget [of _ _ paths] by metis
    with snoc show ?thesis
      by (simp add: run_ops_snoc op forget_fields conj_commute)
  qed
qed


text \<open>Without a deletion of an inherited file the rollback is the replay.\<close>

lemma rollback_is_replay:
  assumes "is_baseline turns s" and "\<forall>p \<in> set (es_inherited_created s). \<not> forgotten ops p"
  shows "rollback_to_surviving_turns turns (run_ops ops s) =
    run_ops (filter (op_survives turns) ops) (without_history s)"
proof -
  let ?r = "run_ops (filter (op_survives turns) ops) (without_history s)"
  have "filter (\<lambda>p. \<not> forgotten ops p) (es_inherited_created s) = es_inherited_created s"
    using assms(2) by (intro filter_True) simp
  moreover have "es_schema_version ?r = schema_version"
    using assms by (simp add: is_baseline_def run_ops_schema without_history_def)
  moreover have "es_inherited ?r = es_inherited s" "es_inherited_created ?r = es_inherited_created s"
    by (simp_all add: run_ops_frame without_history_def)
  moreover note survivors [OF assms(1), of ops]
  ultimately show ?thesis
    by (intro edit_state.equality) (simp_all add: rollback_eq run_ops_frame paths_recorded_def)
qed

text \<open>A fork starts from a baseline for the turns that are its own.\<close>

lemma fork_is_baseline:
  assumes "\<forall>e \<in> set (es_extractions s). \<not> survives turns e" "\<forall>r \<in> set (es_created_records s). cp_turn r \<notin> turns"
  shows "is_baseline turns (mark_fork_baseline s)"
  using assms by (simp add: is_baseline_def mark_fork_baseline_def)


text \<open>
  Rollbacks compose: rolling back to one set of turns and then to another is rolling back to the turns that
  are in both, from any state.
\<close>

theorem rollbacks_compose:
  "rollback_to_surviving_turns B (rollback_to_surviving_turns A s) = rollback_to_surviving_turns (A \<inter> B) s"
  by (auto simp: rollback_eq survives_Int conj_commute intro!: arg_cong2 [where f = "fold merged_constraints"]
      arg_cong2 [where f = "fold push_new"])

text \<open>A rollback restores the inherited exemptions, those of paths deleted in a surviving turn too.\<close>

lemma rollback_restores_forgotten_path:
  assumes "p \<in> set (es_inherited_created s)"
  shows "p \<in> set (es_created (rollback_to_surviving_turns UNIV (forget_created_paths_under [p] s)))"
  using assms by (simp add: rollback_eq forget_created_paths_under_def)

section \<open>The invariant of the store\<close>

definition distinct_rules :: "extracted_constraint list \<Rightarrow> bool" where
  "distinct_rules cs \<longleftrightarrow> sorted_wrt (\<lambda>c d. \<not> same_rule c d) cs"

definition edit_state_ok :: "edit_state \<Rightarrow> bool" where
  "edit_state_ok s \<longleftrightarrow> es_schema_version s = schema_version \<and>
     distinct_rules (es_constraints s) \<and> distinct_rules (es_inherited s) \<and>
     distinct (es_created s) \<and> distinct (es_inherited_created s) \<and> distinct (es_created_records s) \<and>
     cp_path ` set (es_created_records s) \<subseteq> set (es_created s)"

text \<open>
  The metadata a session is restored from holds a state that some session had in some earlier run of the
  program, its own or, when its metadata were copied, another one's. The same step covers a call that works
  on a state read before another call's insertion.
\<close>

inductive constraint_store_reachable :: "constraint_store \<Rightarrow> bool" where
  empty: "constraint_store_reachable (\<lambda>_. None)"
| extraction: "constraint_store_reachable st \<Longrightarrow> constraint_store_reachable (remember_extraction sid e st)"
| created: "constraint_store_reachable st \<Longrightarrow> constraint_store_reachable (remember_session_paths sid paths turn st)"
| deleted: "constraint_store_reachable st \<Longrightarrow> constraint_store_reachable (forget_session_paths sid paths st)"
| rollback: "constraint_store_reachable st \<Longrightarrow> constraint_store_reachable (rollback_session sid turns st)"
| fork: "constraint_store_reachable st \<Longrightarrow> constraint_store_reachable (seed_fork parent child st)"
| restored: "constraint_store_reachable st \<Longrightarrow> constraint_store_reachable earlier \<Longrightarrow>
    constraint_store_reachable (restore_session sid (earlier saved) st)"
| expired: "constraint_store_reachable st \<Longrightarrow> constraint_store_reachable (expire_session sid st)"

lemma distinct_rules_add: "distinct_rules cs \<Longrightarrow> distinct_rules (add_constraint c cs)"
  by (auto simp: distinct_rules_def add_constraint_def sorted_wrt_append)

lemma distinct_rules_merged:
  assumes "distinct_rules cs" shows "distinct_rules (merged_constraints e cs)"
proof -
  have "distinct_rules ds \<Longrightarrow> distinct_rules (fold add_constraint xs ds)" for xs ds
    by (induction xs arbitrary: ds) (auto simp: distinct_rules_add)
  moreover have "distinct_rules (filter P cs)" for P using assms by (simp add: distinct_rules_def sorted_wrt_filter)
  ultimately show ?thesis by (simp add: merged_constraints_def)
qed

lemma distinct_push_new: "distinct xs \<Longrightarrow> distinct (push_new x xs)"
  by (simp add: push_new_def)

lemma distinct_fold_push_new: "distinct ys \<Longrightarrow> distinct (fold push_new xs ys)"
  by (induction xs arbitrary: ys) (auto simp: distinct_push_new)

lemma edit_state_ok_default: "edit_state_ok edit_state_default"
  by (simp add: edit_state_ok_def edit_state_default_def distinct_rules_def)

lemma edit_state_ok_merge: "edit_state_ok s \<Longrightarrow> edit_state_ok (merge_extraction e s)"
  by (simp add: edit_state_ok_def merge_extraction_def distinct_rules_merged)

lemma edit_state_ok_remember: "edit_state_ok s \<Longrightarrow> edit_state_ok (remember_created_paths paths turn s)"
  unfolding remember_created_paths_def
proof (induction paths arbitrary: s)
  case (Cons p paths)
  have "edit_state_ok (remember_path turn p s)"
    using Cons.prems by (auto simp: edit_state_ok_def remember_path_def Let_def distinct_push_new)
  with Cons.IH show ?case by simp
qed simp

lemma edit_state_ok_forget: "edit_state_ok s \<Longrightarrow> edit_state_ok (forget_created_paths_under paths s)"
  by (auto simp: edit_state_ok_def forget_created_paths_under_def)

lemma edit_state_ok_rollback:
  assumes "edit_state_ok s" shows "edit_state_ok (rollback_to_surviving_turns turns s)"
proof -
  have "distinct_rules ds \<Longrightarrow> distinct_rules (fold merged_constraints es ds)" for es ds
    by (induction es arbitrary: ds) (auto simp: distinct_rules_merged)
  with assms show ?thesis by (auto simp: edit_state_ok_def rollback_eq distinct_fold_push_new)
qed

lemma edit_state_ok_fork: "edit_state_ok s \<Longrightarrow> edit_state_ok (mark_fork_baseline s)"
  by (simp add: edit_state_ok_def mark_fork_baseline_def)

lemmas edit_state_ok_ops = edit_state_ok_default edit_state_ok_merge edit_state_ok_remember edit_state_ok_forget
  edit_state_ok_rollback edit_state_ok_fork

lemmas store_ops = remember_extraction_def remember_session_paths_def forget_session_paths_def
  rollback_session_def seed_fork_def restore_session_def expire_session_def state_or_default_def

text \<open>
  C40. The store stays well formed through any sequence of messages, file creations, deletions, rollbacks,
  forks, restores and expiries of any sessions: no rule is active twice, no exemption is recorded twice, and every recorded creation
  is in effect.
\<close>

theorem constraint_store_invariant:
  assumes "constraint_store_reachable st" shows "\<forall>s \<in> ran st. edit_state_ok s"
proof -
  have "edit_state_ok s" if "st sid = Some s" for sid s
    using assms that
    by (induction arbitrary: sid s)
      (fastforce simp: store_ops intro: edit_state_ok_ops split: if_splits option.splits)+
  then show ?thesis by (auto simp: ran_def)
qed

theorem constraint_store_invariant_witness:
  "edit_state_ok (the (seed_fork ''a'' ''b'' (remember_session_paths ''a'' [''x'', ''y'', ''x''] ''t'' (\<lambda>_. None)) ''b''))"
proof -
  let ?st = "seed_fork ''a'' ''b'' (remember_session_paths ''a'' [''x'', ''y'', ''x''] ''t'' (\<lambda>_. None))"
  have "constraint_store_reachable ?st" by (intro constraint_store_reachable.intros)
  moreover have "?st ''b'' = Some (the (?st ''b''))" by (simp add: store_ops)
  then have "the (?st ''b'') \<in> ran ?st" by (rule ranI)
  ultimately show ?thesis using constraint_store_invariant by blast
qed

end
