(* ===== verification/Edit_Extraction.thy ===== *)
theory Edit_Extraction
  imports Edit_Constraints
begin

text \<open>
  How a user message changes the edit constraints: the extraction of
  \<open>assembly/core/src/agentic/execution/edit_constraint_guard.rs\<close> and its call in
  \<open>assembly/core/src/agentic/execution/execution_engine.rs\<close>.

  The environment of an extraction is a record: \<open>str::to_lowercase\<close>, the two families of compiled regular
  expressions (\<open>regex\<close> crate), the digest (\<open>sha2\<close>), the outcome of obtaining a client, the reply to each
  attempt, the JSON finder (\<open>util::json_extract\<close>), \<open>serde_json\<close> on the reply, and the clock. What is sent
  to the model is not modelled: any reply is possible.
\<close>

section \<open>Signals in a message\<close>

definition prohibition_signals :: "string list" where
  "prohibition_signals =
     [''do not'',
      ''don'' @ [CHR 0x27] @ ''t'',
      ''dont'',
      ''must not'',
      ''should not'',
      ''never modify'',
      ''never change'',
      ''do not delete'',
      ''don'' @ [CHR 0x27] @ ''t delete'',
      ''must not delete'',
      ''not allowed to modify'',
      ''avoid modifying'',
      ''keep '',
      ''leave '',
      ''off limits'',
      ''read-only'',
      ''must remain unchanged'',
      ''must remain untouched'',
      ''without modifying'',
      ''without changing'',
      ''only modify'',
      ''only change'',
      ''non-test files only'',
      [CHR 0xE4, CHR 0xB8, CHR 0x8D, CHR 0xE5, CHR 0xBE, CHR 0x97],
      [CHR 0xE4, CHR 0xB8, CHR 0x8D, CHR 0xE8, CHR 0x83, CHR 0xBD, CHR 0xE4, CHR 0xBF, CHR 0xAE, CHR 0xE6, CHR 0x94, CHR 0xB9],
      [CHR 0xE4, CHR 0xB8, CHR 0x8D, CHR 0xE8, CHR 0x83, CHR 0xBD, CHR 0xE5, CHR 0x88, CHR 0xA0, CHR 0xE9, CHR 0x99, CHR 0xA4],
      [CHR 0xE7, CHR 0xA6, CHR 0x81, CHR 0xE6, CHR 0xAD, CHR 0xA2, CHR 0xE4, CHR 0xBF, CHR 0xAE, CHR 0xE6, CHR 0x94, CHR 0xB9],
      [CHR 0xE7, CHR 0xA6, CHR 0x81, CHR 0xE6, CHR 0xAD, CHR 0xA2, CHR 0xE5, CHR 0x88, CHR 0xA0, CHR 0xE9, CHR 0x99, CHR 0xA4],
      [CHR 0xE4, CHR 0xB8, CHR 0x8D, CHR 0xE8, CHR 0xA6, CHR 0x81, CHR 0xE4, CHR 0xBF, CHR 0xAE, CHR 0xE6, CHR 0x94, CHR 0xB9],
      [CHR 0xE4, CHR 0xB8, CHR 0x8D, CHR 0xE8, CHR 0xA6, CHR 0x81, CHR 0xE6, CHR 0x9B, CHR 0xB4, CHR 0xE6, CHR 0x94, CHR 0xB9],
      [CHR 0xE4, CHR 0xB8, CHR 0x8D, CHR 0xE8, CHR 0xA6, CHR 0x81, CHR 0xE5, CHR 0x88, CHR 0xA0, CHR 0xE9, CHR 0x99, CHR 0xA4],
      [CHR 0xE6, CHR 0xB5, CHR 0x8B, CHR 0xE8, CHR 0xAF, CHR 0x95, CHR 0xE6, CHR 0x96, CHR 0x87, CHR 0xE4, CHR 0xBB, CHR 0xB6, CHR 0xE4, CHR 0xBF, CHR 0x9D, CHR 0xE6, CHR 0x8C, CHR 0x81, CHR 0xE4, CHR 0xB8, CHR 0x8D, CHR 0xE5, CHR 0x8F, CHR 0x98],
      [CHR 0xE4, CHR 0xBB, CHR 0x85, CHR 0xE4, CHR 0xBF, CHR 0xAE, CHR 0xE6, CHR 0x94, CHR 0xB9, CHR 0xE9, CHR 0x9D, CHR 0x9E, CHR 0xE6, CHR 0xB5, CHR 0x8B, CHR 0xE8, CHR 0xAF, CHR 0x95]]"

definition relaxation_signals :: "string list" where
  "relaxation_signals =
     [''may modify'',
      ''can modify'',
      ''may change'',
      ''can change'',
      ''may edit'',
      ''can edit'',
      ''allowed to modify'',
      ''allowed to change'',
      ''allowed to edit'',
      ''feel free to modify'',
      ''feel free to change'',
      ''feel free to edit'',
      ''restriction is lifted'',
      ''restriction no longer applies'',
      ''no longer off limits'',
      ''forget that restriction'',
      ''remove that restriction'',
      [CHR 0xE5, CHR 0x8F, CHR 0xAF, CHR 0xE4, CHR 0xBB, CHR 0xA5, CHR 0xE4, CHR 0xBF, CHR 0xAE, CHR 0xE6, CHR 0x94, CHR 0xB9],
      [CHR 0xE5, CHR 0x8F, CHR 0xAF, CHR 0xE4, CHR 0xBB, CHR 0xA5, CHR 0xE6, CHR 0x94, CHR 0xB9],
      [CHR 0xE5, CHR 0x85, CHR 0x81, CHR 0xE8, CHR 0xAE, CHR 0xB8, CHR 0xE4, CHR 0xBF, CHR 0xAE, CHR 0xE6, CHR 0x94, CHR 0xB9],
      [CHR 0xE4, CHR 0xB8, CHR 0x8D, CHR 0xE5, CHR 0x86, CHR 0x8D, CHR 0xE7, CHR 0xA6, CHR 0x81, CHR 0xE6, CHR 0xAD, CHR 0xA2],
      [CHR 0xE5, CHR 0x8F, CHR 0x96, CHR 0xE6, CHR 0xB6, CHR 0x88, CHR 0xE9, CHR 0x99, CHR 0x90, CHR 0xE5, CHR 0x88, CHR 0xB6],
      [CHR 0xE8, CHR 0xA7, CHR 0xA3, CHR 0xE9, CHR 0x99, CHR 0xA4, CHR 0xE9, CHR 0x99, CHR 0x90, CHR 0xE5, CHR 0x88, CHR 0xB6]]"

definition test_relaxations :: "string list" where
  "test_relaxations =
     [''may modify tests'',
      ''may modify test files'',
      ''can modify tests'',
      ''can modify test files'',
      ''allowed to modify tests'',
      ''allowed to modify test files'',
      ''tests are no longer off limits'',
      ''test files are no longer off limits'',
      ''test restriction is lifted'',
      ''test-file restriction is lifted'',
      [CHR 0xE5, CHR 0x8F, CHR 0xAF, CHR 0xE4, CHR 0xBB, CHR 0xA5, CHR 0xE4, CHR 0xBF, CHR 0xAE, CHR 0xE6, CHR 0x94, CHR 0xB9, CHR 0xE6, CHR 0xB5, CHR 0x8B, CHR 0xE8, CHR 0xAF, CHR 0x95],
      [CHR 0xE5, CHR 0x8F, CHR 0xAF, CHR 0xE4, CHR 0xBB, CHR 0xA5, CHR 0xE6, CHR 0x94, CHR 0xB9, CHR 0xE6, CHR 0xB5, CHR 0x8B, CHR 0xE8, CHR 0xAF, CHR 0x95],
      [CHR 0xE5, CHR 0x85, CHR 0x81, CHR 0xE8, CHR 0xAE, CHR 0xB8, CHR 0xE4, CHR 0xBF, CHR 0xAE, CHR 0xE6, CHR 0x94, CHR 0xB9, CHR 0xE6, CHR 0xB5, CHR 0x8B, CHR 0xE8, CHR 0xAF, CHR 0x95],
      [CHR 0xE6, CHR 0xB5, CHR 0x8B, CHR 0xE8, CHR 0xAF, CHR 0x95, CHR 0xE6, CHR 0x96, CHR 0x87, CHR 0xE4, CHR 0xBB, CHR 0xB6, CHR 0xE5, CHR 0x8F, CHR 0xAF, CHR 0xE4, CHR 0xBB, CHR 0xA5, CHR 0xE4, CHR 0xBF, CHR 0xAE, CHR 0xE6, CHR 0x94, CHR 0xB9],
      [CHR 0xE6, CHR 0xB5, CHR 0x8B, CHR 0xE8, CHR 0xAF, CHR 0x95, CHR 0xE5, CHR 0x8F, CHR 0xAF, CHR 0xE4, CHR 0xBB, CHR 0xA5, CHR 0xE4, CHR 0xBF, CHR 0xAE, CHR 0xE6, CHR 0x94, CHR 0xB9],
      [CHR 0xE4, CHR 0xB8, CHR 0x8D, CHR 0xE5, CHR 0x86, CHR 0x8D, CHR 0xE7, CHR 0xA6, CHR 0x81, CHR 0xE6, CHR 0xAD, CHR 0xA2, CHR 0xE4, CHR 0xBF, CHR 0xAE, CHR 0xE6, CHR 0x94, CHR 0xB9, CHR 0xE6, CHR 0xB5, CHR 0x8B, CHR 0xE8, CHR 0xAF, CHR 0x95]]"

definition has_signal :: "(string \<Rightarrow> string) \<Rightarrow> string list \<Rightarrow> string \<Rightarrow> bool" where
  "has_signal lower signals message = (\<exists>signal \<in> set signals. contains (lower message) signal)"

definition has_prohibition_signal :: "(string \<Rightarrow> string) \<Rightarrow> string \<Rightarrow> bool" where
  "has_prohibition_signal lower message = has_signal lower prohibition_signals message"

definition has_relaxation_signal :: "(string \<Rightarrow> string) \<Rightarrow> string \<Rightarrow> bool" where
  "has_relaxation_signal lower message = has_signal lower relaxation_signals message"

definition sentence_ends :: "string list" where
  "sentence_ends = [''.'', ''!'', ''?'', nl, [CHR 0xE3, CHR 0x80, CHR 0x82], [CHR 0xEF, CHR 0xBC, CHR 0x81],
     [CHR 0xEF, CHR 0xBC, CHR 0x9F]]"

fun split_sentences :: "string list \<Rightarrow> string list \<Rightarrow> string list" where
  "split_sentences cur [] = (if cur = [] then [] else [concat cur])"
| "split_sentences cur (c # cs) =
     (if c \<in> set sentence_ends then concat (cur @ [c]) # split_sentences [] cs
      else split_sentences (cur @ [c]) cs)"

definition relevant_sentences :: "string \<Rightarrow> string list" where
  "relevant_sentences message =
     filter (\<lambda>s. s \<noteq> []) (map trim (split_sentences [] (utf8_chars message)))"

datatype test_patterns = MutationPatterns | DeletionPatterns

fun find_map :: "('a \<Rightarrow> 'b option) \<Rightarrow> 'a list \<Rightarrow> 'b option" where
  "find_map f [] = None"
| "find_map f (x # xs) = (case f x of Some y \<Rightarrow> Some y | None \<Rightarrow> find_map f xs)"

definition sentence_constraint ::
  "(string \<Rightarrow> string) \<Rightarrow> (test_patterns \<Rightarrow> string \<Rightarrow> bool) \<Rightarrow> string \<Rightarrow> extracted_constraint option" where
  "sentence_constraint lower patterns sentence =
     (let low = lower sentence;
          mutation = patterns MutationPatterns low;
          deletion = patterns DeletionPatterns low;
          delete_only = (deletion \<and> \<not> mutation)
      in if \<exists>signal \<in> set test_relaxations. contains low signal then None
         else if mutation \<or> deletion then
           Some \<lparr>ec_id = (if delete_only then ''deterministic:test_files:delete_only'' else ''deterministic:test_files''),
             ec_description =
               (if delete_only then ''The task explicitly says not to delete test files or testing logic''
                else ''The task explicitly says not to modify test files or testing logic''),
             ec_scope = (if delete_only then DeleteOnly else ScopeAll), ec_matcher = TestFiles,
             ec_source = Deterministic, ec_source_text = Some (concat (take 500 (utf8_chars sentence)))\<rparr>
         else None)"

definition deterministic_test_constraint ::
  "(string \<Rightarrow> string) \<Rightarrow> (test_patterns \<Rightarrow> string \<Rightarrow> bool) \<Rightarrow> string \<Rightarrow> extracted_constraint option" where
  "deterministic_test_constraint lower patterns message =
     find_map (sentence_constraint lower patterns) (relevant_sentences message)"

section \<open>The model's part\<close>

definition max_prompt_chars :: nat where "max_prompt_chars = 8000"
definition max_response_chars :: nat where "max_response_chars = 4000"
definition max_model_attempts :: nat where "max_model_attempts = 2"

definition truncate_for_extraction :: "string \<Rightarrow> string \<times> bool" where
  "truncate_for_extraction message =
     (let cs = utf8_chars message
      in if length cs \<le> max_prompt_chars then (message, False)
         else
           (let side = max_prompt_chars div 2
            in (concat (take side cs) @ nl @ ''...[middle of task omitted for constraint extraction]...'' @ nl @
                concat (drop (length cs - side) cs), True)))"

definition response_excerpt :: "string \<Rightarrow> string" where
  "response_excerpt response = concat (take max_response_chars (utf8_chars response))"

record extraction_response =
  xr_additions :: "extracted_constraint list"
  xr_revocations :: "revocation list"

record extraction_env =
  xe_lower :: "string \<Rightarrow> string"
  xe_patterns :: "test_patterns \<Rightarrow> string \<Rightarrow> bool"
  xe_sha256 :: "string \<Rightarrow> string"
  xe_factory_error :: "string option"
  xe_client_error :: "string option"
  xe_reply :: "nat \<Rightarrow> string + string"
  xe_json :: "string \<Rightarrow> string option"
  xe_parse :: "string \<Rightarrow> string + extraction_response"
  xe_now :: nat
  xe_elapsed :: nat
  xe_decimal :: "nat \<Rightarrow> string"

definition normalize_model_constraints ::
  "(nat \<Rightarrow> string) \<Rightarrow> string \<Rightarrow> extracted_constraint list \<Rightarrow> extracted_constraint list" where
  "normalize_model_constraints to_decimal sha256 cs =
     (let prefix = concat (take 12 (utf8_chars sha256))
      in map (\<lambda>(i, c). c\<lparr>ec_id := ''model:'' @ prefix @ '':'' @ to_decimal i, ec_source := Model\<rparr>) (enumerate 0 cs))"

definition validate_revocation ::
  "extracted_constraint list \<Rightarrow> revocation \<Rightarrow> string list \<times> string list \<Rightarrow> string list \<times> string list" where
  "validate_revocation active rv acc =
     (let (revoked, unmatched) = acc; i = trim (rv_id rv)
      in if \<exists>c \<in> set active. ec_id c = i then (push_new i revoked, unmatched)
         else (revoked, push_new i unmatched))"

definition validated_revocation_ids ::
  "revocation list \<Rightarrow> extracted_constraint list \<Rightarrow> bool \<Rightarrow> string list \<times> string list" where
  "validated_revocation_ids revocations active authorized =
     (if \<not> authorized then ([], []) else fold (validate_revocation active) revocations ([], []))"

definition add_model_constraint :: "extracted_constraint \<Rightarrow> extracted_constraint list \<Rightarrow> extracted_constraint list" where
  "add_model_constraint c cs = (if \<exists>d \<in> set cs. ec_matcher d = ec_matcher c then cs else cs @ [c])"

text \<open>The locals of the attempt loop.\<close>

record attempts =
  at_attempts :: nat
  at_constraints :: "extracted_constraint list"
  at_status :: model_status
  at_model_constraints :: "extracted_constraint list"
  at_revocations :: "revocation list"
  at_revoked :: "string list"
  at_unmatched :: "string list"
  at_failure :: "extraction_failure option"
  at_excerpt :: "string option"

definition attempt_failed :: "string \<Rightarrow> string \<Rightarrow> attempts \<Rightarrow> attempts" where
  "attempt_failed stage reason a = a\<lparr>at_failure := Some \<lparr>xf_stage = stage, xf_reason = reason\<rparr>\<rparr>"

definition attempt_parsed ::
  "extraction_env \<Rightarrow> string \<Rightarrow> extracted_constraint list \<Rightarrow> bool \<Rightarrow> extraction_response \<Rightarrow> attempts \<Rightarrow> attempts" where
  "attempt_parsed env sha256 active authorized parsed a =
     (let additions = normalize_model_constraints (xe_decimal env) sha256 (xr_additions parsed);
          (revoked, unmatched) = validated_revocation_ids (xr_revocations parsed) active authorized
      in a\<lparr>at_model_constraints := additions, at_revocations := xr_revocations parsed,
           at_revoked := revoked, at_unmatched := unmatched,
           at_constraints := fold add_model_constraint additions (at_constraints a),
           at_status := ModelParsed, at_failure := None\<rparr>)"

text \<open>One attempt: \<open>True\<close> when it ends the loop.\<close>

definition model_attempt ::
  "extraction_env \<Rightarrow> string \<Rightarrow> extracted_constraint list \<Rightarrow> bool \<Rightarrow> nat \<Rightarrow> attempts \<Rightarrow> attempts \<times> bool" where
  "model_attempt env sha256 active authorized n a =
     (let a = a\<lparr>at_attempts := n\<rparr>
      in case xe_reply env n of
           Inl err \<Rightarrow> (attempt_failed ''model_request'' err a, False)
         | Inr reply \<Rightarrow>
             (let a = a\<lparr>at_excerpt := Some (response_excerpt reply)\<rparr>
              in if trim reply = []
                 then (attempt_failed ''empty_response'' ''The extraction model returned no text'' a, False)
                 else case xe_json env reply of
                        None \<Rightarrow> (attempt_failed ''json_extraction''
                          ''No JSON object was found in the extraction response'' a, False)
                      | Some json \<Rightarrow>
                          (case xe_parse env json of
                             Inl err \<Rightarrow> (attempt_failed ''schema_validation'' err a, False)
                           | Inr parsed \<Rightarrow> (attempt_parsed env sha256 active authorized parsed a, True))))"

fun model_attempts ::
  "extraction_env \<Rightarrow> string \<Rightarrow> extracted_constraint list \<Rightarrow> bool \<Rightarrow> nat list \<Rightarrow> attempts \<Rightarrow> attempts" where
  "model_attempts env sha256 active authorized [] a = a"
| "model_attempts env sha256 active authorized (n # ns) a =
     (let (a, stop) = model_attempt env sha256 active authorized n a
      in if stop then a else model_attempts env sha256 active authorized ns a)"

section \<open>Extraction\<close>

text \<open>The record of a return before the model ran, and of a missing client.\<close>

definition local_record ::
  "extraction_env \<Rightarrow> string \<Rightarrow> extracted_constraint list \<Rightarrow> bool \<Rightarrow> extracted_constraint list \<Rightarrow> nat \<Rightarrow> nat \<Rightarrow> bool \<Rightarrow> extraction" where
  "local_record env message active authorized cs elapsed prompt_chars truncated =
     \<lparr>er_message = xe_sha256 env message, er_turn = None,
      er_status = (if cs = [] then NoConstraints else Extracted), er_constraints = cs,
      er_deterministic_count = length cs, er_model_attempts = 0, er_active_ids = map ec_id active,
      er_authorized = authorized, er_model_status = NotRun, er_model_constraints = [], er_model_revocations = [],
      er_revoked_ids = [], er_unmatched_ids = [], er_input_chars = length (utf8_chars message),
      er_prompt_chars = prompt_chars, er_truncated = truncated, er_latency_ms = elapsed,
      er_extracted_at_ms = xe_now env, er_failure = None, er_excerpt = None\<rparr>"

definition extraction_with_failure ::
  "extraction_env \<Rightarrow> string \<Rightarrow> extracted_constraint list \<Rightarrow> bool \<Rightarrow> extracted_constraint list \<Rightarrow> nat \<Rightarrow> bool \<Rightarrow> string \<Rightarrow> string \<Rightarrow> extraction" where
  "extraction_with_failure env message active authorized cs prompt_chars truncated stage reason =
     (local_record env message active authorized cs (xe_elapsed env) prompt_chars truncated)
       \<lparr>er_status := (if cs = [] then ExtractionFailed else Extracted), er_model_status := ModelFailed,
        er_failure := Some \<lparr>xf_stage = stage, xf_reason = reason\<rparr>\<rparr>"

definition run_attempts ::
  "extraction_env \<Rightarrow> string \<Rightarrow> extracted_constraint list \<Rightarrow> bool \<Rightarrow> extracted_constraint list \<Rightarrow> attempts" where
  "run_attempts env sha256 active authorized cs =
     model_attempts env sha256 active authorized [1..<max_model_attempts + 1]
       \<lparr>at_attempts = 0, at_constraints = cs, at_status = ModelFailed, at_model_constraints = [],
        at_revocations = [], at_revoked = [], at_unmatched = [], at_failure = None, at_excerpt = None\<rparr>"

definition model_record ::
  "extraction_env \<Rightarrow> string \<Rightarrow> extracted_constraint list \<Rightarrow> bool \<Rightarrow> extracted_constraint list \<Rightarrow> nat \<Rightarrow> bool \<Rightarrow> extraction" where
  "model_record env message active authorized cs prompt_chars truncated =
     (let a = run_attempts env (xe_sha256 env message) active authorized cs
      in \<lparr>er_message = xe_sha256 env message, er_turn = None,
          er_status = (if at_constraints a \<noteq> [] \<or> at_revoked a \<noteq> [] then Extracted
            else if at_failure a \<noteq> None then ExtractionFailed else NoConstraints),
          er_constraints = at_constraints a, er_deterministic_count = length cs,
          er_model_attempts = at_attempts a, er_active_ids = map ec_id active, er_authorized = authorized,
          er_model_status = at_status a, er_model_constraints = at_model_constraints a,
          er_model_revocations = at_revocations a, er_revoked_ids = at_revoked a,
          er_unmatched_ids = at_unmatched a, er_input_chars = length (utf8_chars message),
          er_prompt_chars = prompt_chars, er_truncated = truncated, er_latency_ms = xe_elapsed env,
          er_extracted_at_ms = xe_now env, er_failure = at_failure a, er_excerpt = at_excerpt a\<rparr>)"

definition extract_instruction ::
  "extraction_env \<Rightarrow> string \<Rightarrow> extracted_constraint list \<Rightarrow> bool \<Rightarrow> extraction" where
  "extract_instruction env message active authorized =
     (if trim message = [] then local_record env message active authorized [] 0 0 False
      else
        (let cs = (case deterministic_test_constraint (xe_lower env) (xe_patterns env) message of
                     None \<Rightarrow> [] | Some c \<Rightarrow> [c]);
             (truncated, cut) = truncate_for_extraction message;
             prompt_chars = length (utf8_chars truncated)
         in if \<not> has_prohibition_signal (xe_lower env) message \<and> \<not> has_relaxation_signal (xe_lower env) message
            then local_record env message active authorized cs (xe_elapsed env) prompt_chars cut
            else case xe_factory_error env of
                   Some err \<Rightarrow>
                     extraction_with_failure env message active authorized cs prompt_chars cut ''client_factory'' err
                 | None \<Rightarrow>
                     (case xe_client_error env of
                        Some err \<Rightarrow>
                          extraction_with_failure env message active authorized cs prompt_chars cut
                            ''client_resolution'' err
                      | None \<Rightarrow> model_record env message active authorized cs prompt_chars cut)))"

definition extract_authorized ::
  "extraction_env \<Rightarrow> bool \<Rightarrow> string \<Rightarrow> extracted_constraint list \<Rightarrow> bool \<Rightarrow> extraction" where
  "extract_authorized env enabled message active authorized =
     extract_instruction env (if enabled then message else []) active authorized"

definition requires_session_state :: "extraction \<Rightarrow> bool" where
  "requires_session_state e \<longleftrightarrow> er_status e \<noteq> NoConstraints \<or> 0 < er_model_attempts e"

definition constraints_of :: "constraint_store \<Rightarrow> string \<Rightarrow> extracted_constraint list" where
  "constraints_of st sid = (case st sid of None \<Rightarrow> [] | Some s \<Rightarrow> es_constraints s)"

definition already_processed :: "constraint_store \<Rightarrow> string \<Rightarrow> string \<Rightarrow> string \<Rightarrow> bool" where
  "already_processed st sid turn digest = (case st sid of None \<Rightarrow> False | Some s \<Rightarrow> message_processed turn digest s)"

text \<open>
  The step of the execution engine at the start of a turn. The extraction reads the store before the model is
  asked; the result is merged into the store as it is then.
\<close>

definition instruction_extraction ::
  "extraction_env \<Rightarrow> bool \<Rightarrow> string \<Rightarrow> string \<Rightarrow> string \<Rightarrow> bool \<Rightarrow> constraint_store \<Rightarrow> extraction option" where
  "instruction_extraction env enabled sid turn message authorized st =
     (if \<not> enabled \<or> trim message = [] then None
      else if already_processed st sid turn (xe_sha256 env message) then None
      else
        (let e = (extract_authorized env enabled message (constraints_of st sid) authorized)\<lparr>er_turn := Some turn\<rparr>
         in if requires_session_state e then Some e else None))"

definition process_instruction ::
  "extraction_env \<Rightarrow> bool \<Rightarrow> string \<Rightarrow> string \<Rightarrow> string \<Rightarrow> bool \<Rightarrow> constraint_store \<Rightarrow> constraint_store \<Rightarrow> constraint_store" where
  "process_instruction env enabled sid turn message authorized before st =
     (case instruction_extraction env enabled sid turn message authorized before of
        None \<Rightarrow> st | Some e \<Rightarrow> remember_extraction sid e st)"

section \<open>What an extraction can hold\<close>

lemma set_add_model: "set cs \<subseteq> set (fold add_model_constraint xs cs)"
  by (induction xs arbitrary: cs) (auto simp: add_model_constraint_def subset_iff split: if_splits)

lemma validated_ids:
  assumes "i \<in> set (fst (validated_revocation_ids rvs active authorized))"
  shows "authorized \<and> (\<exists>rv \<in> set rvs. trim (rv_id rv) = i)"
proof -
  have "i \<in> set (fst (fold (validate_revocation active) rvs acc)) \<Longrightarrow>
      i \<in> set (fst acc) \<or> (\<exists>rv \<in> set rvs. trim (rv_id rv) = i)" for acc
    by (induction rvs arbitrary: acc)
      (fastforce simp: validate_revocation_def Let_def split: prod.splits if_splits)+
  from this [of "([], [])"] assms show ?thesis
    by (auto simp: validated_revocation_ids_def split: if_splits)
qed

text \<open>A revocation the model asked for in a reply that was parsed.\<close>

definition model_revokes :: "extraction_env \<Rightarrow> string \<Rightarrow> bool" where
  "model_revokes env i \<longleftrightarrow>
     (\<exists>n reply json parsed. 1 \<le> n \<and> n \<le> max_model_attempts \<and> xe_reply env n = Inr reply \<and>
        xe_json env reply = Some json \<and> xe_parse env json = Inr parsed \<and>
        (\<exists>rv \<in> set (xr_revocations parsed). trim (rv_id rv) = i))"

definition attempts_ok :: "extraction_env \<Rightarrow> bool \<Rightarrow> extracted_constraint list \<Rightarrow> attempts \<Rightarrow> bool" where
  "attempts_ok env authorized cs a \<longleftrightarrow>
     set cs \<subseteq> set (at_constraints a) \<and> (\<forall>i \<in> set (at_revoked a). authorized \<and> model_revokes env i)"

lemma model_attempt_ok:
  assumes "attempts_ok env authorized cs a" "1 \<le> n" "n \<le> max_model_attempts"
  shows "attempts_ok env authorized cs (fst (model_attempt env sha active authorized n a))"
proof -
  have "attempts_ok env authorized cs (attempt_parsed env sha active authorized parsed b)"
    if "xe_reply env n = Inr reply" "xe_json env reply = Some json" "xe_parse env json = Inr parsed"
      "attempts_ok env authorized cs b" for reply json parsed b
  proof -
    obtain r u where v: "validated_revocation_ids (xr_revocations parsed) active authorized = (r, u)" by fastforce
    have "model_revokes env i" if "rv \<in> set (xr_revocations parsed)" "trim (rv_id rv) = i" for i rv
      unfolding model_revokes_def using assms(2,3) \<open>xe_reply env n = _\<close> \<open>xe_json env reply = _\<close>
        \<open>xe_parse env json = _\<close> that by blast
    moreover have "set cs \<subseteq> set (fold add_model_constraint xs (at_constraints b))" for xs
      using set_add_model [of "at_constraints b" xs] that(4) by (auto simp: attempts_ok_def)
    ultimately show ?thesis
      using validated_ids [of _ "xr_revocations parsed" active authorized] v
      by (fastforce simp: attempts_ok_def attempt_parsed_def Let_def)
  qed
  moreover have "attempts_ok env authorized cs (attempt_failed stage reason b) = attempts_ok env authorized cs b"
    for stage reason b
    by (simp add: attempts_ok_def attempt_failed_def)
  moreover have "attempts_ok env authorized cs (b\<lparr>at_attempts := k\<rparr>) = attempts_ok env authorized cs b"
    "attempts_ok env authorized cs (b\<lparr>at_excerpt := x\<rparr>) = attempts_ok env authorized cs b" for b k x
    by (simp_all add: attempts_ok_def)
  ultimately show ?thesis
    using assms(1) by (simp add: model_attempt_def Let_def split: sum.splits option.splits)
qed

lemma model_attempts_ok:
  assumes "\<forall>n \<in> set ns. 1 \<le> n \<and> n \<le> max_model_attempts" "attempts_ok env authorized cs a"
  shows "attempts_ok env authorized cs (model_attempts env sha active authorized ns a)"
  using assms
proof (induction ns arbitrary: a)
  case (Cons n ns)
  obtain b stop where b: "model_attempt env sha active authorized n a = (b, stop)" by fastforce
  with model_attempt_ok [of env authorized cs a n sha active] Cons.prems have "attempts_ok env authorized cs b" by simp
  with Cons b show ?case by simp
qed simp

lemma run_attempts_ok: "attempts_ok env authorized cs (run_attempts env sha active authorized cs)"
  unfolding run_attempts_def by (rule model_attempts_ok) (auto simp: attempts_ok_def max_model_attempts_def)

text \<open>Whatever the model does, the constraint the text states is in the record and a revocation has its reason.\<close>

lemma extract_instruction_ok:
  assumes "trim message \<noteq> []" "e = extract_instruction env message active authorized"
  shows "deterministic_test_constraint (xe_lower env) (xe_patterns env) message = Some c \<Longrightarrow>
      c \<in> set (er_constraints e) \<and> er_status e = Extracted"
    and "i \<in> set (er_revoked_ids e) \<Longrightarrow> authorized \<and> model_revokes env i"
proof -
  define cs where "cs = (case deterministic_test_constraint (xe_lower env) (xe_patterns env) message of
    None \<Rightarrow> [] | Some c \<Rightarrow> [c])"
  have "(set cs \<subseteq> set (er_constraints e) \<and> (cs \<noteq> [] \<longrightarrow> er_status e = Extracted)) \<and>
      (\<forall>i \<in> set (er_revoked_ids e). authorized \<and> model_revokes env i)"
    using assms(1) run_attempts_ok [of env authorized cs "xe_sha256 env message" active]
    unfolding assms(2) extract_instruction_def Let_def cs_def [symmetric]
    by (auto simp: local_record_def extraction_with_failure_def model_record_def attempts_ok_def Let_def
        split: prod.splits option.splits)
  then show "deterministic_test_constraint (xe_lower env) (xe_patterns env) message = Some c \<Longrightarrow>
      c \<in> set (er_constraints e) \<and> er_status e = Extracted"
    and "i \<in> set (er_revoked_ids e) \<Longrightarrow> authorized \<and> model_revokes env i"
    by (auto simp: cs_def)
qed

lemma add_all_keeps: "set cs \<subseteq> set (fold add_constraint xs cs)"
  by (induction xs arbitrary: cs) (auto simp: add_constraint_def subset_iff split: if_splits)

lemma add_all_has_rule:
  "(\<exists>d \<in> set cs. same_rule d c) \<or> c \<in> set xs \<Longrightarrow> \<exists>d \<in> set (fold add_constraint xs cs). same_rule d c"
proof (induction xs arbitrary: cs)
  case (Cons x xs)
  have "same_rule x x" by (simp add: same_rule_def)
  with Cons.prems have "(\<exists>d \<in> set (add_constraint x cs). same_rule d c) \<or> c \<in> set xs"
    by (auto simp: add_constraint_def)
  with Cons.IH show ?case by simp
qed simp

lemma merged_has_rule:
  "c \<in> set (er_constraints e) \<Longrightarrow> \<exists>d \<in> set (merged_constraints e cs). same_rule d c"
  unfolding merged_constraints_def by (rule add_all_has_rule) simp

lemma merged_keeps:
  "c \<in> set cs \<Longrightarrow> c \<notin> set (merged_constraints e cs) \<Longrightarrow> ec_id c \<in> set (er_revoked_ids e)"
  using add_all_keeps [of "filter (\<lambda>c. ec_id c \<notin> set (er_revoked_ids e)) cs" "er_constraints e"]
  unfolding merged_constraints_def by auto

lemma constraints_of_remember:
  "constraints_of (remember_extraction sid e st) sid' =
     (if sid' = sid then merged_constraints e (constraints_of st sid) else constraints_of st sid')"
  by (simp add: constraints_of_def remember_extraction_def state_or_default_def merge_extraction_def
      edit_state_default_def split: option.splits)

text \<open>
  C38. Only the user relaxes a constraint: whatever a message says and whatever the model answers, a constraint
  leaves the state only when the message is authorized to revoke and a parsed answer of the model names the
  identifier of that constraint; and no other session changes.
\<close>

theorem only_authorized_revocations_relax:
  assumes "c \<in> set (constraints_of st sid')"
    and "c \<notin> set (constraints_of (process_instruction env enabled sid turn message authorized before st) sid')"
  shows "sid' = sid \<and> authorized \<and> model_revokes env (ec_id c)"
proof -
  from assms obtain e where e: "instruction_extraction env enabled sid turn message authorized before = Some e"
    by (auto simp: process_instruction_def split: option.splits)
  then have "trim message \<noteq> []" "er_revoked_ids e =
      er_revoked_ids (extract_instruction env message (constraints_of before sid) authorized)"
    by (auto simp: instruction_extraction_def extract_authorized_def Let_def split: if_splits)
  with extract_instruction_ok(2) [OF _ HOL.refl] have "\<forall>i \<in> set (er_revoked_ids e). authorized \<and> model_revokes env i" by metis
  then show ?thesis
    using assms e merged_keeps [of c "constraints_of st sid" e]
    by (auto simp: process_instruction_def constraints_of_remember split: if_splits)
qed

text \<open>A model that answers every attempt with the given response.\<close>

definition answering :: "extraction_response \<Rightarrow> (test_patterns \<Rightarrow> string \<Rightarrow> bool) \<Rightarrow> extraction_env" where
  "answering response patterns = \<lparr>xe_lower = (\<lambda>s. s), xe_patterns = patterns, xe_sha256 = (\<lambda>s. s),
     xe_factory_error = None, xe_client_error = None, xe_reply = (\<lambda>_. Inr ''r''), xe_json = (\<lambda>_. Some ''j''),
     xe_parse = (\<lambda>_. Inr response), xe_now = 0, xe_elapsed = 0, xe_decimal = (\<lambda>_. ''0'')\<rparr>"

definition test_rule :: "operation_scope \<Rightarrow> extracted_constraint" where
  "test_rule scope = \<lparr>ec_id = ''k'', ec_description = [], ec_scope = scope, ec_matcher = TestFiles,
     ec_source = Model, ec_source_text = None\<rparr>"

lemma chars_of_trimmed [simp]: "trim ''r'' = ''r''" "trim ''k'' = ''k''"
  by (simp_all add: trim_def utf8_whitespace_def is_utf8_cont_def)

lemma attempt_numbers: "[Suc 0..<max_model_attempts] @ [max_model_attempts] = [1, 2]"
  "Suc 0 \<le> max_model_attempts"
  by (simp_all add: max_model_attempts_def upt_rec)

lemmas eval_extraction = answering_def extract_instruction_def extract_authorized_def instruction_extraction_def
  process_instruction_def model_record_def run_attempts_def model_attempt_def attempt_parsed_def
  normalize_model_constraints_def validated_revocation_ids_def validate_revocation_def push_new_def
  attempt_numbers Let_def

lemma may_edit_message:
  "trim ''may edit'' = ''may edit''" "has_relaxation_signal (\<lambda>s. s) ''may edit''"
  "relevant_sentences ''may edit'' = [''may edit'']" "truncate_for_extraction ''may edit'' = (''may edit'', False)"
  by (simp_all add: trim_def utf8_whitespace_def is_utf8_cont_def has_relaxation_signal_def has_signal_def
      relaxation_signals_def contains_def relevant_sentences_def sentence_ends_def nl_def truncate_for_extraction_def
      max_prompt_chars_def Let_def)

definition revoking_env :: extraction_env where
  "revoking_env = answering \<lparr>xr_additions = [], xr_revocations = [\<lparr>rv_id = ''k'', rv_description = []\<rparr>]\<rparr> (\<lambda>_ _. False)"

definition test_rule_store :: constraint_store where
  "test_rule_store = [''s'' \<mapsto> edit_state_default\<lparr>es_constraints := [test_rule ScopeAll]\<rparr>]"

lemma no_stated_restriction: "deterministic_test_constraint (\<lambda>s. s) (\<lambda>_ _. False) ''may edit'' = None"
  by (simp add: deterministic_test_constraint_def may_edit_message sentence_constraint_def)

lemma revoking_extraction:
  "constraints_of test_rule_store ''s'' = [test_rule ScopeAll]"
  "constraints_of (process_instruction revoking_env True ''s'' ''t'' ''may edit'' True test_rule_store test_rule_store) ''s'' = []"
  by (simp_all add: revoking_env_def test_rule_store_def constraints_of_def eval_extraction may_edit_message
      no_stated_restriction test_rule_def already_processed_def message_processed_def edit_state_default_def requires_session_state_def
      remember_extraction_def state_or_default_def merge_extraction_def merged_constraints_def)

theorem only_authorized_revocations_relax_witness: "model_revokes revoking_env ''k''"
  using only_authorized_revocations_relax [of "test_rule ScopeAll" test_rule_store "''s''" revoking_env True "''s''"
      "''t''" "''may edit''" True test_rule_store]
  by (simp add: revoking_extraction) (simp add: test_rule_def)

text \<open>
  A stated restriction on deletion shadows a broader rule of the model with the same matcher: the extraction
  compares matchers only, while the state distinguishes rules by matcher and scope.
\<close>

lemma broader_model_rule_is_dropped:
  "map ec_scope (er_constraints (extract_instruction
     (answering \<lparr>xr_additions = [test_rule ScopeAll], xr_revocations = []\<rparr> (\<lambda>p _. p = DeletionPatterns))
     ''may edit'' [] True)) = [DeleteOnly]"
proof -
  have "\<not> (\<exists>signal \<in> set test_relaxations. contains ''may edit'' signal)"
    by (auto simp: test_relaxations_def contains_def dest: sublist_length_le)
  then show ?thesis
    by (simp add: eval_extraction may_edit_message deterministic_test_constraint_def sentence_constraint_def
        test_rule_def add_model_constraint_def)
qed

end
