(* ===== verification/Edit_Guard.thy ===== *)
theory Edit_Guard
  imports Shell_Analysis Edit_Extraction
begin

text \<open>
  The checks that keep tools off protected files: the guard of
  \<open>assembly/core/src/agentic/execution/edit_constraint_guard.rs\<close> (direct writes, edits and deletions,
  recursive deletion) and the preflight of shell commands in \<open>edit_constraint_guard/complete_shell.rs\<close>.

  What the guard asks of its surroundings is a record: the path resolution of the tool context, the workspace file
  system of a remote host, and the local file system. The diagnostic stream is left out (it returns nothing),
  and so are the generated decision id and the JSON rendering of a rejection. The state of the session does not
  change within one check.
\<close>

section \<open>The surroundings of a tool\<close>

datatype file_kind = KindDirectory | KindSymlink | KindOther

datatype io_failure = NotFound | OtherFailure

record dir_entry =
  de_path :: string
  de_is_dir :: bool
  de_is_symlink :: bool

record workspace_fs =
  wf_exists :: "string \<Rightarrow> string + bool"
  wf_is_dir :: "string \<Rightarrow> string + bool"
  wf_read_dir :: "string \<Rightarrow> string + dir_entry list"
  wf_kind :: "string \<Rightarrow> string + file_kind option"

text \<open>
  The local file system: \<open>fs::canonicalize\<close> on the components of an absolute path, \<open>Path::exists\<close>,
  \<open>fs::symlink_metadata\<close> and \<open>fs::read_dir\<close>, whose entries can fail one by one.
\<close>

record local_fs =
  lf_canonicalize :: "string list \<Rightarrow> io_failure + string list"
  lf_exists :: "string \<Rightarrow> bool"
  lf_kind :: "string \<Rightarrow> string + file_kind"
  lf_read_dir :: "string \<Rightarrow> string + (string + string) list"

record resolved_path =
  rp_logical :: string
  rp_physical :: string
  rp_remote :: bool

record tool_context =
  tc_session :: "string option"
  tc_resolve :: "string \<Rightarrow> resolved_path option"
  tc_is_remote :: bool
  tc_workspace :: "workspace_fs option"
  tc_local :: local_fs

definition path_text :: "string list \<Rightarrow> string" where
  "path_text cs = (if cs = [] then ''/'' else concat (map (\<lambda>c. ''/'' @ c) cs))"

definition has_file_name :: "string list \<Rightarrow> bool" where
  "has_file_name cs \<longleftrightarrow> cs \<noteq> [] \<and> last cs \<noteq> ''..''"

definition canonical_path :: "local_fs \<Rightarrow> string \<Rightarrow> string option" where
  "canonical_path fs path =
     (let cs = path_components path
      in case lf_canonicalize fs cs of
           Inr c \<Rightarrow> Some (path_text c)
         | Inl _ \<Rightarrow>
             if has_file_name cs then
               (case lf_canonicalize fs (butlast cs) of
                  Inr p \<Rightarrow> Some (path_text (p @ [last cs]))
                | Inl _ \<Rightarrow> None)
             else None)"

definition candidate_paths :: "tool_context option \<Rightarrow> string \<Rightarrow> string list" where
  "candidate_paths context file_path =
     (let candidates = [to_slashes file_path]
      in case context of
           None \<Rightarrow> candidates
         | Some c \<Rightarrow>
             (case tc_resolve c file_path of
                None \<Rightarrow> candidates
              | Some r \<Rightarrow>
                  (let candidates =
                     push_new (to_slashes (rp_physical r)) (push_new (to_slashes (rp_logical r)) candidates)
                   in if rp_remote r then candidates
                      else case canonical_path (tc_local c) (rp_physical r) of
                             None \<Rightarrow> candidates
                           | Some p \<Rightarrow> push_new (to_slashes p) candidates)))"

section \<open>Direct mutations\<close>

definition find_violation ::
  "(string \<Rightarrow> string) \<Rightarrow> string \<Rightarrow> extracted_constraint list \<Rightarrow> string \<Rightarrow> extracted_constraint option" where
  "find_violation lower operation cs path =
     find (\<lambda>c. applies_to (ec_scope c) operation \<and> matches lower (ec_matcher c) path) cs"

record rejection =
  rj_message :: string
  rj_code :: "nat option"
  rj_decision :: string
  rj_constraint :: "string option"
  rj_path :: string
  rj_force :: bool

definition decision_result ::
  "string \<Rightarrow> string \<Rightarrow> bool \<Rightarrow> extracted_constraint option \<Rightarrow> string option \<Rightarrow> nat option \<Rightarrow> rejection option" where
  "decision_result file_path decision force violation message code =
     map_option (\<lambda>m. \<lparr>rj_message = m, rj_code = code, rj_decision = decision,
       rj_constraint = map_option ec_id violation, rj_path = file_path, rj_force = force\<rparr>) message"

definition violation_message :: "string \<Rightarrow> extracted_constraint \<Rightarrow> string" where
  "violation_message file_path c =
     ''This file ('' @ btick @ file_path @ btick @ '') matches a constraint stated in the task: '' @ dquote @
     ec_description c @ dquote @ ''. This edit was not applied.'' @ nl @ nl @
     ''Editing a file you were told not to touch usually means your own implementation '' @
     ''doesn'' @ squote @ ''t match what'' @ squote @ ''s expected '' @ [CHR 0xE2, CHR 0x80, CHR 0x94] @
     '' not that the file is wrong. Reconsider your source-code approach instead of adjusting this file.''"

definition session_state :: "constraint_store \<Rightarrow> tool_context option \<Rightarrow> edit_state option" where
  "session_state st context =
     (case context of None \<Rightarrow> None | Some c \<Rightarrow> (case tc_session c of None \<Rightarrow> None | Some sid \<Rightarrow> st sid))"

definition state_satisfies :: "(edit_state \<Rightarrow> bool) \<Rightarrow> edit_state option \<Rightarrow> bool" where
  "state_satisfies P state = (case state of None \<Rightarrow> False | Some s \<Rightarrow> P s)"

definition check ::
  "(string \<Rightarrow> string) \<Rightarrow> bool \<Rightarrow> tool_context option \<Rightarrow> edit_state option \<Rightarrow> string \<Rightarrow> string \<Rightarrow> bool \<Rightarrow> rejection option" where
  "check lower telemetry context state operation file_path force =
     (if \<not> force \<and> \<not> telemetry \<and> \<not> state_satisfies has_enforceable_constraints state then None
      else if \<not> force \<and> \<not> state_satisfies has_enforceable_constraints state then None
      else if force then
        decision_result file_path ''force_denied'' True None
          (Some (btick @ ''force'' @ btick @ '' cannot override constraints stated by the user. Reconsider the source-code approach without modifying the protected file.''))
          (Some 403)
      else case (case state of None \<Rightarrow> None
                 | Some s \<Rightarrow> find_map (find_violation lower operation (es_constraints s)) (candidate_paths context file_path)) of
             Some v \<Rightarrow> decision_result file_path ''deny'' False (Some v) (Some (violation_message file_path v)) (Some 403)
           | None \<Rightarrow> None)"

definition write_target_exists :: "tool_context \<Rightarrow> string \<Rightarrow> bool option" where
  "write_target_exists c file_path =
     (case tc_resolve c file_path of
        None \<Rightarrow> None
      | Some r \<Rightarrow>
          if rp_remote r then
            (case tc_workspace c of
               None \<Rightarrow> None
             | Some fs \<Rightarrow> Some (case wf_exists fs (rp_physical r) of Inl _ \<Rightarrow> True | Inr b \<Rightarrow> b))
          else Some (lf_exists (tc_local c) (rp_physical r)))"

definition violations_of ::
  "(string \<Rightarrow> string) \<Rightarrow> string \<Rightarrow> edit_state \<Rightarrow> string list \<Rightarrow> extracted_constraint list" where
  "violations_of lower operation s paths =
     concat (map (\<lambda>path. filter (\<lambda>c. applies_to (ec_scope c) operation \<and> matches lower (ec_matcher c) path)
       (es_constraints s)) paths)"

definition only_relaxable_violations :: "(string \<Rightarrow> string) \<Rightarrow> string \<Rightarrow> edit_state \<Rightarrow> string list \<Rightarrow> bool" where
  "only_relaxable_violations lower operation s paths =
     (let violations = violations_of lower operation s paths
      in violations \<noteq> [] \<and> (\<forall>c \<in> set violations. ec_matcher c = TestFiles \<and> ec_scope c = ScopeAll))"

definition can_mutate_created_test_file ::
  "(string \<Rightarrow> string) \<Rightarrow> edit_state option \<Rightarrow> string list \<Rightarrow> string \<Rightarrow> bool \<Rightarrow> bool" where
  "can_mutate_created_test_file lower state paths operation newly_created =
     state_satisfies (\<lambda>s. (newly_created \<or> is_created_path paths s) \<and> only_relaxable_violations lower operation s paths) state"

definition check_write ::
  "(string \<Rightarrow> string) \<Rightarrow> bool \<Rightarrow> bool \<Rightarrow> tool_context option \<Rightarrow> constraint_store \<Rightarrow> string \<Rightarrow> string \<Rightarrow> bool \<Rightarrow> rejection option" where
  "check_write lower enabled telemetry context st operation file_path force =
     (if \<not> enabled then None
      else
        (let state = session_state st context
         in if \<not> force \<and> \<not> state_satisfies tracks_created_test_paths state
            then check lower telemetry context state operation file_path False
            else
              (let is_new = (if force then False
                     else case context of None \<Rightarrow> False | Some c \<Rightarrow> write_target_exists c file_path = Some False)
               in if can_mutate_created_test_file lower state (candidate_paths context file_path) operation is_new
                  then None
                  else check lower telemetry context state operation file_path force)))"

definition check_edit ::
  "(string \<Rightarrow> string) \<Rightarrow> bool \<Rightarrow> bool \<Rightarrow> tool_context option \<Rightarrow> constraint_store \<Rightarrow> string \<Rightarrow> string \<Rightarrow> bool \<Rightarrow> rejection option" where
  "check_edit lower enabled telemetry context st operation file_path force =
     (if \<not> enabled then None
      else
        (let state = session_state st context
         in if \<not> force \<and> \<not> telemetry \<and> \<not> state_satisfies has_enforceable_constraints state then None
            else if \<not> force \<and> \<not> state_satisfies tracks_created_test_paths state
            then check lower telemetry context state operation file_path False
            else if \<not> force \<and>
              can_mutate_created_test_file lower state (candidate_paths context file_path) operation False
            then None
            else check lower telemetry context state operation file_path force))"

definition check_delete ::
  "(string \<Rightarrow> string) \<Rightarrow> bool \<Rightarrow> bool \<Rightarrow> tool_context option \<Rightarrow> constraint_store \<Rightarrow> string \<Rightarrow> string \<Rightarrow> bool \<Rightarrow> rejection option" where
  "check_delete lower enabled telemetry context st operation file_path force =
     check_edit lower enabled telemetry context st operation file_path force"

section \<open>Recursive deletion\<close>

definition max_inspection :: nat where
  "max_inspection = 100000"

definition inspection_error :: "string \<Rightarrow> string \<Rightarrow> rejection option" where
  "inspection_error root_path message =
     decision_result root_path ''deny_inspection_failed'' False None
       (Some (''Recursive delete was not applied because '' @ message)) (Some 503)"

definition entry_violation :: "(string \<Rightarrow> string) \<Rightarrow> edit_state \<Rightarrow> string \<Rightarrow> extracted_constraint option" where
  "entry_violation lower s path =
     (if can_mutate_created_test_file lower (Some s) [path] ''recursive_delete'' False then None
      else find_violation lower ''recursive_delete'' (es_constraints s) path)"

text \<open>The loop over the entries of a directory: a rejection, or the pending directories and the count.\<close>

fun inspect_entries ::
  "(string \<Rightarrow> string) \<Rightarrow> edit_state \<Rightarrow> string \<Rightarrow> (string + dir_entry) list \<Rightarrow> string list \<Rightarrow> nat \<Rightarrow>
    rejection option + string list \<times> nat" where
  "inspect_entries lower s root [] pending n = Inr (pending, n)"
| "inspect_entries lower s root (Inl message # es) pending n = Inl (inspection_error root message)"
| "inspect_entries lower s root (Inr e # es) pending n =
     (if de_is_symlink e then inspect_entries lower s root es pending n
      else if max_inspection < n + 1 then
        Inl (decision_result root ''deny_inspection_limit'' False None
          (Some ''Recursive delete was not applied because protected-path inspection exceeded its safety limit'')
          (Some 413))
      else case entry_violation lower s (de_path e) of
             Some v \<Rightarrow>
               Inl (decision_result (de_path e) ''deny'' False (Some v) (Some (violation_message (de_path e) v)) (Some 403))
           | None \<Rightarrow>
               inspect_entries lower s root es (if de_is_dir e then pending @ [de_path e] else pending) (n + 1))"

lemma inspect_entries_progress:
  "inspect_entries lower s root es pending n = Inr (pending', n') \<Longrightarrow>
     n \<le> n' \<and> length pending' \<le> length pending + (n' - n) \<and> (n' = n \<or> n' \<le> max_inspection)"
proof (induction es arbitrary: pending n)
  case (Cons x es)
  show ?case
  proof (cases x)
    case (Inr e)
    with Cons.prems show ?thesis
      by (auto split: if_splits option.splits dest!: Cons.IH)
  qed (use Cons.prems in simp)
qed simp

type_synonym read_dir = "string \<Rightarrow> string + (string + dir_entry) list"

text \<open>The worklist: the last pending directory is read next.\<close>

function inspect_directories ::
  "(string \<Rightarrow> string) \<Rightarrow> edit_state \<Rightarrow> string \<Rightarrow> read_dir \<Rightarrow> string list \<Rightarrow> nat \<Rightarrow> rejection option" where
  "inspect_directories lower s root read pending n =
     (if pending = [] then None
      else case read (last pending) of
             Inl err \<Rightarrow> inspection_error root (''protected descendants could not be inspected: '' @ err)
           | Inr es \<Rightarrow>
               (case inspect_entries lower s root es (butlast pending) n of
                  Inl r \<Rightarrow> r
                | Inr (pending', n') \<Rightarrow> inspect_directories lower s root read pending' n'))"
  by pat_completeness auto
termination
  by (relation "measure (\<lambda>(lower, s, root, read, pending, n). max_inspection - n + length pending)")
    (auto dest!: inspect_entries_progress simp flip: length_greater_0_conv)

declare inspect_directories.simps [simp del]

definition workspace_read_dir :: "workspace_fs \<Rightarrow> read_dir" where
  "workspace_read_dir fs directory =
     (case wf_read_dir fs directory of Inl err \<Rightarrow> Inl err | Inr es \<Rightarrow> Inr (map Inr es))"

definition local_entry :: "local_fs \<Rightarrow> string + string \<Rightarrow> string + dir_entry" where
  "local_entry fs entry =
     (case entry of
        Inl err \<Rightarrow> Inl (''a descendant could not be inspected: '' @ err)
      | Inr path \<Rightarrow>
          (case lf_kind fs path of
             Inl err \<Rightarrow> Inl (''a descendant type could not be inspected: '' @ err)
           | Inr kind \<Rightarrow>
               Inr \<lparr>de_path = path, de_is_dir = (kind = KindDirectory), de_is_symlink = (kind = KindSymlink)\<rparr>))"

definition local_read_dir :: "local_fs \<Rightarrow> read_dir" where
  "local_read_dir fs directory =
     (case lf_read_dir fs directory of Inl err \<Rightarrow> Inl err | Inr es \<Rightarrow> Inr (map (local_entry fs) es))"

definition check_local_recursive_delete ::
  "(string \<Rightarrow> string) \<Rightarrow> local_fs \<Rightarrow> string \<Rightarrow> string \<Rightarrow> edit_state \<Rightarrow> rejection option" where
  "check_local_recursive_delete lower fs root_path resolved_root s =
     (case lf_kind fs resolved_root of
        Inl err \<Rightarrow> inspection_error root_path (''the target could not be inspected: '' @ err)
      | Inr kind \<Rightarrow>
          if kind \<noteq> KindDirectory then None
          else inspect_directories lower s root_path (local_read_dir fs) [resolved_root] 0)"

definition check_recursive_delete ::
  "(string \<Rightarrow> string) \<Rightarrow> bool \<Rightarrow> bool \<Rightarrow> tool_context option \<Rightarrow> constraint_store \<Rightarrow> string \<Rightarrow> bool \<Rightarrow> rejection option" where
  "check_recursive_delete lower enabled telemetry context st root_path force =
     (if \<not> enabled then None
      else case check_delete lower enabled telemetry context st ''recursive_delete'' root_path force of
             Some r \<Rightarrow> Some r
           | None \<Rightarrow>
               (case (context, session_state st context) of
                  (Some c, Some s) \<Rightarrow>
                    if \<not> has_enforceable_constraints s then None
                    else (case tc_resolve c root_path of
                            None \<Rightarrow> None
                          | Some r \<Rightarrow>
                              (case tc_workspace c of
                                 None \<Rightarrow>
                                   if rp_remote r
                                   then inspection_error root_path ''the remote workspace filesystem is unavailable''
                                   else check_local_recursive_delete lower (tc_local c) root_path (rp_physical r) s
                               | Some fs \<Rightarrow>
                                   (case wf_is_dir fs (rp_physical r) of
                                      Inl err \<Rightarrow>
                                        inspection_error root_path (''the target type could not be inspected: '' @ err)
                                    | Inr False \<Rightarrow> None
                                    | Inr True \<Rightarrow>
                                        inspect_directories lower s root_path (workspace_read_dir fs) [rp_physical r] 0)))
                | _ \<Rightarrow> None))"

section \<open>Complete shell commands\<close>

record shell_rejection =
  sr_constraint :: "extracted_constraint option"
  sr_operation :: "file_operation option"
  sr_cwd :: string
  sr_span :: span
  sr_status :: analysis_status
  sr_decision :: string
  sr_reason :: string

definition parent_text :: "string \<Rightarrow> string" where
  "parent_text s = rev (tl (dropWhile (\<lambda>c. c \<noteq> CHR ''/'') (rev s)))"

fun remote_walk :: "workspace_fs \<Rightarrow> string list \<Rightarrow> string \<Rightarrow> bool \<Rightarrow> string + string" where
  "remote_walk fs [] current missing = Inr current"
| "remote_walk fs (c # cs) current missing =
     (if c = ''.'' then remote_walk fs cs current missing
      else if c = ''..'' then
        (if missing then Inl ''parent traversal after an unconfirmed remote path''
         else remote_walk fs cs (parent_text current) missing)
      else
        (let current = current @ ''/'' @ c
         in if missing then remote_walk fs cs current missing
            else case wf_kind fs current of
                   Inl _ \<Rightarrow> Inl ''remote path inspection failed''
                 | Inr (Some KindSymlink) \<Rightarrow> Inl ''remote symbolic link target cannot be confirmed''
                 | Inr (Some _) \<Rightarrow> remote_walk fs cs current missing
                 | Inr None \<Rightarrow> remote_walk fs cs current True))"

definition remote_candidates :: "tool_context \<Rightarrow> string \<Rightarrow> string + string list" where
  "remote_candidates c path =
     (case tc_workspace c of
        None \<Rightarrow> Inl ''remote path inspection unavailable''
      | Some fs \<Rightarrow>
          (case remote_walk fs (filter (\<lambda>s. s \<noteq> []) (split_slash path)) [] False of
             Inl reason \<Rightarrow> Inl reason
           | Inr current \<Rightarrow>
               (case tc_resolve c current of
                  None \<Rightarrow> Inl ''remote target outside supported path context''
                | Some r \<Rightarrow>
                    if \<not> rp_remote r then Inl ''remote target resolved to a local backend''
                    else Inr [current, rp_logical r, rp_physical r])))"

text \<open>
  The local loop: the longest part of the path that exists is made canonical, and the rest is put back. \<open>pending\<close>
  are the components of an absolute path; \<open>tail\<close> the components taken off, first to last.
\<close>

function local_candidates :: "tool_context \<Rightarrow> string list \<Rightarrow> string list \<Rightarrow> string + string list" where
  "local_candidates c pending tail =
     (case lf_canonicalize (tc_local c) pending of
        Inr canonical \<Rightarrow>
          (let physical = path_text (canonical @ tail)
           in case tc_resolve c physical of
                None \<Rightarrow> Inl ''target path resolution failed''
              | Some r \<Rightarrow>
                  if rp_remote r then Inl ''local shell target resolved to a remote backend''
                  else Inr [physical, rp_logical r, rp_physical r])
      | Inl NotFound \<Rightarrow>
          if (case lf_kind (tc_local c) (path_text pending) of Inl _ \<Rightarrow> False | Inr _ \<Rightarrow> True)
          then Inl ''unconfirmed symbolic link target''
          else if \<not> has_file_name pending then Inl ''unconfirmed parent path''
          else local_candidates c (butlast pending) (last pending # tail)
      | Inl OtherFailure \<Rightarrow> Inl ''path inspection failed'')"
  by pat_completeness auto
termination
  by (relation "measure (\<lambda>(c, pending, tail). length pending)")
    (auto simp: has_file_name_def simp flip: length_greater_0_conv)

declare local_candidates.simps [simp del]

definition resolved_candidates :: "tool_context \<Rightarrow> string \<Rightarrow> string + string list" where
  "resolved_candidates c path =
     (if 32 * 1024 < length path \<or> 256 < length (split_slash path) then Inl ''path inspection resource limit''
      else if tc_is_remote c then remote_candidates c path
      else local_candidates c (path_components path) [])"

definition reject_operation ::
  "file_operation \<Rightarrow> extracted_constraint option \<Rightarrow> file_operation \<Rightarrow> string \<Rightarrow> string \<Rightarrow> shell_rejection" where
  "reject_operation shown violation f decision reason =
     \<lparr>sr_constraint = violation, sr_operation = Some shown, sr_cwd = fo_cwd f, sr_span = fo_span f,
      sr_status = Supported, sr_decision = decision, sr_reason = reason\<rparr>"

definition check_operation ::
  "(string \<Rightarrow> string) \<Rightarrow> tool_context \<Rightarrow> edit_state \<Rightarrow> file_operation \<Rightarrow> shell_rejection option" where
  "check_operation lower c s f =
     (case find_violation lower (fo_operation f) (es_constraints s) (fo_path f) of
        Some v \<Rightarrow> Some (reject_operation f (Some v) f ''deny_constraint'' ''target violates task constraint'')
      | None \<Rightarrow>
          (case resolved_candidates c (fo_path f) of
             Inl reason \<Rightarrow> Some (reject_operation f None f ''deny_unresolved_target'' reason)
           | Inr paths \<Rightarrow>
               find_map (\<lambda>path.
                 case find_violation lower (fo_operation f) (es_constraints s) path of
                   Some v \<Rightarrow> Some (reject_operation (f\<lparr>fo_path := path\<rparr>) (Some v) f ''deny_constraint''
                     ''target violates task constraint'')
                 | None \<Rightarrow> None) paths))"

definition reject_issue :: "string \<Rightarrow> analysis \<Rightarrow> string \<Rightarrow> issue \<Rightarrow> shell_rejection" where
  "reject_issue workdir r decision i =
     \<lparr>sr_constraint = None, sr_operation = None, sr_cwd = workdir, sr_span = is_span i, sr_status = an_status r,
      sr_decision = decision, sr_reason = is_reason i\<rparr>"

definition first_issue :: "analysis \<Rightarrow> issue option" where
  "first_issue r = (case an_unresolved r of [] \<Rightarrow> None | i # _ \<Rightarrow> Some i)"

definition check_with_state ::
  "(string \<Rightarrow> string) \<Rightarrow> captures \<Rightarrow> tool_context \<Rightarrow> string \<Rightarrow> string \<Rightarrow> string \<Rightarrow> edit_state \<Rightarrow> shell_rejection option" where
  "check_with_state lower captures c command shell_kind workdir s =
     (if \<not> has_enforceable_constraints s then None
      else
        (let r = analyze captures command shell_kind workdir
         in if an_status r \<noteq> Supported
            then map_option (reject_issue workdir r ''deny_shell_analysis'') (first_issue r)
            else case find_map (check_operation lower c s) (an_files r) of
                   Some rejection \<Rightarrow> Some rejection
                 | None \<Rightarrow> map_option (reject_issue workdir r ''deny_unresolved_target'') (first_issue r)))"

definition active_state :: "bool \<Rightarrow> tool_context \<Rightarrow> constraint_store \<Rightarrow> edit_state option" where
  "active_state enabled c st =
     (if \<not> enabled then None
      else case session_state st (Some c) of
             None \<Rightarrow> None
           | Some s \<Rightarrow> if has_enforceable_constraints s then Some s else None)"

definition check_exec_command ::
  "(string \<Rightarrow> string) \<Rightarrow> captures \<Rightarrow> bool \<Rightarrow> tool_context \<Rightarrow> constraint_store \<Rightarrow> string \<Rightarrow> string \<Rightarrow> string \<Rightarrow> shell_rejection option" where
  "check_exec_command lower captures enabled c st command shell_kind workdir =
     (case active_state enabled c st of
        None \<Rightarrow> None
      | Some s \<Rightarrow> if \<not> enabled then None else check_with_state lower captures c command shell_kind workdir s)"

section \<open>What an allowed operation leaves alone\<close>

definition violated :: "(string \<Rightarrow> string) \<Rightarrow> string \<Rightarrow> edit_state \<Rightarrow> string \<Rightarrow> bool" where
  "violated lower operation s path \<longleftrightarrow>
     (\<exists>c \<in> set (es_constraints s). applies_to (ec_scope c) operation \<and> matches lower (ec_matcher c) path)"

lemma find_violation_None: "find_violation lower operation (es_constraints s) path = None \<longleftrightarrow> \<not> violated lower operation s path"
  by (auto simp: find_violation_def violated_def find_None_iff)

lemma find_violation_Some: "find_violation lower operation (es_constraints s) path = Some v \<Longrightarrow> violated lower operation s path"
  using find_violation_None [of lower operation s path] by auto

lemma find_map_None: "find_map f xs = None \<longleftrightarrow> (\<forall>x \<in> set xs. f x = None)"
  by (induction xs) (auto split: option.splits)

lemma matches_enforceable: "matches lower m path \<Longrightarrow> enforceable m"
  by (auto simp: enforceable_def matches_def)

lemma find_map_Some: "find_map f xs = Some y \<Longrightarrow> \<exists>x \<in> set xs. f x = Some y"
  by (induction xs) (auto split: option.splits)

lemma violated_enforceable: "violated lower operation s path \<Longrightarrow> has_enforceable_constraints s"
  by (auto simp: violated_def has_enforceable_constraints_def dest: matches_enforceable)

lemma decision_result_Some [simp]:
  "\<exists>r. decision_result p d force v (Some m) code = Some r" "decision_result p d force v (Some m) code \<noteq> None"
  by (simp_all add: decision_result_def)

lemma find_map_violation:
  "find_map (find_violation lower operation (es_constraints s)) paths = None \<longleftrightarrow>
     (\<forall>p \<in> set paths. \<not> violated lower operation s p)"
  by (simp add: find_map_None find_violation_None)

lemma check_None:
  "check lower telemetry context state operation file_path force = None \<longleftrightarrow>
     \<not> force \<and> \<not> state_satisfies (\<lambda>s. \<exists>p \<in> set (candidate_paths context file_path). violated lower operation s p) state"
proof (cases state)
  case (Some s)
  show ?thesis
  proof (cases "find_map (find_violation lower operation (es_constraints s)) (candidate_paths context file_path)")
    case None
    from None [unfolded find_map_violation] None Some show ?thesis
      by (auto simp: check_def state_satisfies_def)
  next
    case (Some v)
    then have "\<exists>p \<in> set (candidate_paths context file_path). violated lower operation s p"
      using find_map_violation [of lower operation s "candidate_paths context file_path"] by auto
    with Some \<open>state = Some s\<close> show ?thesis
      by (auto simp: check_def state_satisfies_def dest: violated_enforceable)
  qed
qed (simp add: check_def state_satisfies_def)

text \<open>
  The exemption: every violation is of a rule against any change of test files, and the file is new or was created
  by the agent in this session.
\<close>

definition exempt :: "(string \<Rightarrow> string) \<Rightarrow> string \<Rightarrow> edit_state \<Rightarrow> string list \<Rightarrow> bool \<Rightarrow> bool" where
  "exempt lower operation s paths newly_created \<longleftrightarrow>
     (newly_created \<or> (\<exists>p \<in> set paths. p \<in> set (es_created s))) \<and>
     (\<exists>p \<in> set paths. violated lower operation s p) \<and>
     (\<forall>c \<in> set (es_constraints s).
        (\<exists>p \<in> set paths. applies_to (ec_scope c) operation \<and> matches lower (ec_matcher c) p) \<longrightarrow>
          ec_matcher c = TestFiles \<and> ec_scope c = ScopeAll)"

lemma can_mutate_exempt:
  "can_mutate_created_test_file lower (Some s) paths operation newly_created = exempt lower operation s paths newly_created"
proof -
  have "violations_of lower operation s paths \<noteq> [] \<longleftrightarrow> (\<exists>p \<in> set paths. violated lower operation s p)"
    by (auto simp: violations_of_def violated_def filter_empty_conv)
  then show ?thesis
    by (auto simp: can_mutate_created_test_file_def state_satisfies_def only_relaxable_violations_def is_created_path_def
        exempt_def violations_of_def Let_def)
qed

lemma exempt_tracks: "exempt lower operation s paths newly_created \<Longrightarrow> tracks_created_test_paths s"
  by (auto simp: exempt_def tracks_created_test_paths_def violated_def)

lemma tracks_enforceable: "tracks_created_test_paths s \<Longrightarrow> has_enforceable_constraints s"
  by (force simp: tracks_created_test_paths_def has_enforceable_constraints_def enforceable_def)

lemma write_allowed_iff:
  assumes "session_state st (Some c) = Some s"
  shows "check_write lower True telemetry (Some c) st operation file_path False = None \<longleftrightarrow>
      (\<forall>p \<in> set (candidate_paths (Some c) file_path). \<not> violated lower operation s p) \<or>
      exempt lower operation s (candidate_paths (Some c) file_path) (write_target_exists c file_path = Some False)"
  using assms
  by (auto simp: check_write_def check_None can_mutate_exempt state_satisfies_def Let_def dest: exempt_tracks)

lemma delete_allowed_iff:
  assumes "session_state st (Some c) = Some s"
  shows "check_delete lower True telemetry (Some c) st operation file_path False = None \<longleftrightarrow>
      (\<forall>p \<in> set (candidate_paths (Some c) file_path). \<not> violated lower operation s p) \<or>
      exempt lower operation s (candidate_paths (Some c) file_path) False"
  using assms
  by (auto simp: check_delete_def check_edit_def check_None can_mutate_exempt state_satisfies_def Let_def
      dest: exempt_tracks tracks_enforceable violated_enforceable)

text \<open>A local session with the directory \<open>/d\<close>, one file in it, and no other path.\<close>

definition sample_context :: tool_context where
  "sample_context = \<lparr>tc_session = Some ''s'',
     tc_resolve = (\<lambda>p. Some \<lparr>rp_logical = p, rp_physical = p, rp_remote = False\<rparr>), tc_is_remote = False,
     tc_workspace = None,
     tc_local = \<lparr>lf_canonicalize = (\<lambda>cs. Inr cs), lf_exists = (\<lambda>p. p = ''/d''),
       lf_kind = (\<lambda>p. if p = ''/d'' then Inr KindDirectory else Inr KindOther),
       lf_read_dir = (\<lambda>p. Inr [Inr ''/d/a''])\<rparr>\<rparr>"

lemma sample_session: "session_state test_rule_store (Some sample_context) =
    Some (edit_state_default\<lparr>es_constraints := [test_rule ScopeAll]\<rparr>)"
  by (simp add: session_state_def sample_context_def test_rule_store_def)

lemmas eval_guard = sample_context_def violated_def matches_def is_test_file_def test_stem_def test_segments_def
  file_name_def file_stem_def path_components_def to_slashes_def bslash_def contains_def test_rule_def
  edit_state_default_def applies_to_def candidate_paths_def canonical_path_def push_new_def path_text_def
  suffix_def prefix_def sublist_code(3) Let_def

lemma sample_not_violated:
  "\<not> violated (\<lambda>s. s) operation (edit_state_default\<lparr>es_constraints := [test_rule ScopeAll]\<rparr>) ''/d/a''"
  "\<not> violated (\<lambda>s. s) operation (edit_state_default\<lparr>es_constraints := [test_rule ScopeAll]\<rparr>) ''/d''"
  by (simp_all add: eval_guard)

lemma sample_violated:
  "violated (\<lambda>s. s) operation (edit_state_default\<lparr>es_constraints := [test_rule ScopeAll]\<rparr>) ''/test/a''"
  by (simp add: eval_guard)

text \<open>
  C37. A direct write, an edit and a deletion are allowed exactly when they should be. With the guard on and no
  forced call, a write passes exactly when no candidate path of the file violates a constraint, or the violations are
  all of a test-file rule and the file is new or was created by the agent; an edit or a deletion likewise, without
  the case of a new file.
\<close>

theorem mutation_allowed_iff:
  assumes "session_state st (Some c) = Some s"
  shows "(check_write lower True telemetry (Some c) st operation file_path False = None \<longleftrightarrow>
      (\<forall>p \<in> set (candidate_paths (Some c) file_path). \<not> violated lower operation s p) \<or>
      exempt lower operation s (candidate_paths (Some c) file_path) (write_target_exists c file_path = Some False)) \<and>
    (check_delete lower True telemetry (Some c) st operation file_path False = None \<longleftrightarrow>
      (\<forall>p \<in> set (candidate_paths (Some c) file_path). \<not> violated lower operation s p) \<or>
      exempt lower operation s (candidate_paths (Some c) file_path) False)"
  using write_allowed_iff [OF assms] delete_allowed_iff [OF assms] by simp

theorem mutation_allowed_iff_witness:
  "check_delete (\<lambda>s. s) True False (Some sample_context) test_rule_store ''delete'' ''/d/a'' False = None \<and>
   check_delete (\<lambda>s. s) True False (Some sample_context) test_rule_store ''delete'' ''/test/a'' False \<noteq> None"
proof -
  have "candidate_paths (Some sample_context) ''/d/a'' = [''/d/a'']"
    "candidate_paths (Some sample_context) ''/test/a'' = [''/test/a'']"
    by (simp_all add: eval_guard)
  moreover have "\<not> exempt (\<lambda>s. s) ''delete'' (edit_state_default\<lparr>es_constraints := [test_rule ScopeAll]\<rparr>) paths False" for paths
    by (simp add: exempt_def edit_state_default_def)
  ultimately show ?thesis
    using mutation_allowed_iff [OF sample_session, of "\<lambda>s. s" False "''delete''" "''/d/a''"]
      mutation_allowed_iff [OF sample_session, of "\<lambda>s. s" False "''delete''" "''/test/a''"]
      sample_not_violated(1) [of "''delete''"] sample_violated [of "''delete''"]
    by simp
qed

text \<open>A forced write to a file the agent created passes, although \<open>force\<close> is meant to be refused always.\<close>

lemma forced_write_passes:
  assumes "session_state st (Some c) = Some s" "exempt lower operation s (candidate_paths (Some c) file_path) False"
  shows "check_write lower True telemetry (Some c) st operation file_path True = None"
    and "check_edit lower True telemetry (Some c) st operation file_path True \<noteq> None"
  using assms by (simp_all add: check_write_def check_edit_def check_None can_mutate_exempt Let_def)

section \<open>Recursive deletion leaves no protected descendant\<close>

text \<open>The entries below a directory, not through symbolic links.\<close>

inductive below :: "read_dir \<Rightarrow> string \<Rightarrow> dir_entry \<Rightarrow> bool" for read where
  child: "read dir = Inr es \<Longrightarrow> Inr e \<in> set es \<Longrightarrow> \<not> de_is_symlink e \<Longrightarrow> below read dir e"
| deeper: "read dir = Inr es \<Longrightarrow> Inr d \<in> set es \<Longrightarrow> \<not> de_is_symlink d \<Longrightarrow> de_is_dir d \<Longrightarrow>
    below read (de_path d) e \<Longrightarrow> below read dir e"

lemma inspect_entries_checked:
  assumes "inspect_entries lower s root es pending n = Inr (pending', n')"
  shows "set pending \<subseteq> set pending' \<and> (\<forall>x \<in> set es. \<exists>e. x = Inr e) \<and>
    (\<forall>e. Inr e \<in> set es \<longrightarrow> \<not> de_is_symlink e \<longrightarrow>
      entry_violation lower s (de_path e) = None \<and> (de_is_dir e \<longrightarrow> de_path e \<in> set pending'))"
  using assms
proof (induction es arbitrary: pending n)
  case (Cons x es)
  show ?case
  proof (cases x)
    case (Inr e)
    with Cons.prems show ?thesis
      by (auto split: if_splits option.splits dest!: Cons.IH)
  qed (use Cons.prems in simp)
qed simp

lemma inspection_error_Some [simp]: "\<exists>r. inspection_error root message = Some r" "inspection_error root message \<noteq> None"
  by (simp_all add: inspection_error_def)

lemma inspect_entries_rejects: "inspect_entries lower s root es pending n = Inl r \<Longrightarrow> r \<noteq> None"
  by (induction lower s root es pending n rule: inspect_entries.induct) (auto split: if_splits option.splits)

lemma inspect_directories_checked:
  assumes "inspect_directories lower s root read pending n = None" "dir \<in> set pending" "below read dir e"
  shows "entry_violation lower s (de_path e) = None"
  using assms
proof (induction lower s root read pending n arbitrary: dir e rule: inspect_directories.induct)
  case (1 lower s root read pending n)
  then have ne: "pending \<noteq> []" by auto
  from "1.prems"(1) ne obtain es where es: "read (last pending) = Inr es"
    by (auto simp: inspect_directories.simps [of _ _ _ _ pending] split: sum.splits)
  with "1.prems"(1) ne obtain pending' n' where
    step: "inspect_entries lower s root es (butlast pending) n = Inr (pending', n')"
      "inspect_directories lower s root read pending' n' = None"
    by (auto simp: inspect_directories.simps [of _ _ _ _ pending] split: sum.splits dest: inspect_entries_rejects)
  note IH = "1.IH" [OF ne es step(1) HOL.refl step(2)]
  note checked = inspect_entries_checked [OF step(1)]
  show ?case
  proof (cases "dir \<in> set (butlast pending)")
    case True
    with checked IH "1.prems"(3) show ?thesis by blast
  next
    case False
    with "1.prems"(2) ne have "dir = last pending" by (metis append_butlast_last_id rotate1.simps(2) set_ConsD set_rotate1)
    with "1.prems"(3) es checked IH show ?thesis by cases auto
  qed
qed

definition recursive_read :: "tool_context \<Rightarrow> read_dir" where
  "recursive_read c =
     (case tc_workspace c of Some fs \<Rightarrow> workspace_read_dir fs | None \<Rightarrow> local_read_dir (tc_local c))"

definition is_directory :: "tool_context \<Rightarrow> string \<Rightarrow> bool" where
  "is_directory c path =
     (case tc_workspace c of Some fs \<Rightarrow> wf_is_dir fs path = Inr True
      | None \<Rightarrow> lf_kind (tc_local c) path = Inr KindDirectory)"

lemma entry_violation_None:
  "entry_violation lower s path = None \<longleftrightarrow>
     \<not> violated lower ''recursive_delete'' s path \<or> exempt lower ''recursive_delete'' s [path] False"
  by (simp add: entry_violation_def can_mutate_exempt find_violation_None)

text \<open>
  C36. A recursive deletion spares protected files. The inspection ends on every file system, cyclic ones too, and
  when it allows the deletion of a directory, no entry below it, at any depth and not through a symbolic link,
  violates a constraint unless it is a test file the agent created.
\<close>

theorem recursive_delete_spares_protected_files:
  assumes "check_recursive_delete lower True telemetry (Some c) st root_path force = None"
    and "session_state st (Some c) = Some s" "tc_resolve c root_path = Some r" "is_directory c (rp_physical r)"
    and "below (recursive_read c) (rp_physical r) e"
  shows "\<not> violated lower ''recursive_delete'' s (de_path e) \<or>
    exempt lower ''recursive_delete'' s [de_path e] False"
proof (cases "has_enforceable_constraints s")
  case True
  with assms(1-4) have "inspect_directories lower s root_path (recursive_read c) [rp_physical r] 0 = None"
    by (auto simp: check_recursive_delete_def check_local_recursive_delete_def recursive_read_def is_directory_def
        split: option.splits if_splits)
  from inspect_directories_checked [OF this _ assms(5)] show ?thesis by (simp add: entry_violation_None)
qed (use violated_enforceable in blast)

lemma sample_recursive_delete:
  "check_recursive_delete (\<lambda>s. s) True False (Some sample_context) test_rule_store ''/d'' False = None"
proof -
  let ?s = "edit_state_default\<lparr>es_constraints := [test_rule ScopeAll]\<rparr>"
  have "candidate_paths (Some sample_context) ''/d'' = [''/d'']" by (simp add: eval_guard)
  then have "check_delete (\<lambda>s. s) True False (Some sample_context) test_rule_store ''recursive_delete'' ''/d'' False = None"
    using delete_allowed_iff [OF sample_session, of "\<lambda>s. s" False "''recursive_delete''" "''/d''"] sample_not_violated(2) by simp
  moreover have "entry_violation (\<lambda>s. s) ?s ''/d/a'' = None" by (simp add: entry_violation_None sample_not_violated)
  ultimately show ?thesis
    by (simp add: check_recursive_delete_def sample_session check_local_recursive_delete_def inspect_directories.simps
        local_read_dir_def local_entry_def max_inspection_def) (simp add: sample_context_def
        check_local_recursive_delete_def inspect_directories.simps local_read_dir_def local_entry_def max_inspection_def)
qed

theorem recursive_delete_spares_protected_files_witness:
  "entry_violation (\<lambda>s. s) (edit_state_default\<lparr>es_constraints := [test_rule ScopeAll]\<rparr>) ''/d/a'' = None"
proof -
  let ?e = "\<lparr>de_path = ''/d/a'', de_is_dir = False, de_is_symlink = False\<rparr>"
  have "below (recursive_read sample_context) ''/d'' ?e"
    by (rule below.child [of _ _ "[Inr ?e]"])
      (simp_all add: recursive_read_def sample_context_def local_read_dir_def local_entry_def)
  from recursive_delete_spares_protected_files [OF sample_recursive_delete sample_session, of
      "\<lparr>rp_logical = ''/d'', rp_physical = ''/d'', rp_remote = False\<rparr>" ?e] this
  show ?thesis by (simp add: sample_context_def is_directory_def entry_violation_None)
qed

section \<open>An allowed shell command spares protected files\<close>

definition spared :: "(string \<Rightarrow> string) \<Rightarrow> tool_context \<Rightarrow> edit_state \<Rightarrow> file_operation \<Rightarrow> bool" where
  "spared lower c s f \<longleftrightarrow>
     \<not> violated lower (fo_operation f) s (fo_path f) \<and>
     (\<exists>paths. resolved_candidates c (fo_path f) = Inr paths \<and> (\<forall>p \<in> set paths. \<not> violated lower (fo_operation f) s p))"

lemma check_operation_None: "check_operation lower c s f = None \<longleftrightarrow> spared lower c s f"
  by (auto simp: check_operation_def spared_def find_violation_None find_map_None split: option.splits sum.splits
      dest: find_violation_Some)

lemma check_operations_None:
  "find_map (check_operation lower c s) fs = None \<longleftrightarrow> (\<forall>f \<in> set fs. spared lower c s f)"
  by (simp add: find_map_None check_operation_None)

lemma check_with_state_None:
  assumes "has_enforceable_constraints s"
  shows "check_with_state lower captures c command shell_kind workdir s = None \<longleftrightarrow>
    clean (analyze captures command shell_kind workdir) \<and>
    (\<forall>f \<in> set (an_files (analyze captures command shell_kind workdir)). spared lower c s f)"
proof -
  let ?r = "analyze captures command shell_kind workdir"
  have "first_issue ?r = None \<longleftrightarrow> an_unresolved ?r = []" by (simp add: first_issue_def split: list.splits)
  moreover have "an_status ?r = Supported \<or> an_unresolved ?r \<noteq> []" using analyze_ok by (auto simp: analysis_ok_def)
  ultimately show ?thesis
    using assms check_operations_None [of lower c s "an_files ?r"]
    by (cases "find_map (check_operation lower c s) (an_files ?r)") (auto simp: check_with_state_def Let_def clean_def)
qed

text \<open>
  C34. An allowed shell command spares protected files. With a constraint active, a command passes exactly when its
  analysis is clean and no file operation of it violates a constraint, neither by its path nor by what the path
  resolves to; every redirection to a file is one of these operations; and a failed analysis never passes.
\<close>

theorem allowed_shell_command_spares_protected_files:
  assumes "has_enforceable_constraints s" "r = analyze captures command shell_kind workdir"
  shows "(check_with_state lower captures c command shell_kind workdir s = None \<longleftrightarrow>
      clean r \<and> (\<forall>f \<in> set (an_files r). spared lower c s f)) \<and>
    (clean r \<longrightarrow> (\<exists>tokens. lex command = Inr tokens \<and>
      (\<forall>rd \<in> set (token_redirects tokens). rd_op rd \<in> set write_ops \<longrightarrow>
        target_recorded (rd_word rd) (write_operation (rd_op rd)) r)))"
  using check_with_state_None [OF assms(1)] clean_analysis_tree [of captures command shell_kind workdir]
  unfolding assms(2) by (fastforce simp: tree_accounted_def redirect_accounted_def)

theorem allowed_shell_command_spares_protected_files_witness:
  "\<exists>tokens. lex ''rm /a >>b'' = Inr tokens \<and>
    (\<forall>rd \<in> set (token_redirects tokens). rd_op rd \<in> set write_ops \<longrightarrow>
      target_recorded (rd_word rd) (write_operation (rd_op rd)) (analyze (\<lambda>_ _. []) ''rm /a >>b'' ''bash'' ''/w''))"
  using allowed_shell_command_spares_protected_files
    [OF _ HOL.refl, of "edit_state_default\<lparr>es_constraints := [test_rule ScopeAll]\<rparr>" "\<lambda>s. s" "\<lambda>_ _. []"
      sample_context "''rm /a >>b''" "''bash''" "''/w''"] clean_sample
  by (simp add: has_enforceable_constraints_def test_rule_def enforceable_def)

text \<open>
  A rule for a directory does not match the directory itself when its path is absolute, and a recursive \<open>rm\<close> is
  one deletion of the path it names: with \<open>app\<close> protected, \<open>rm -rf /r/app\<close> passes.
\<close>

definition directory_rule_state :: edit_state where
  "directory_rule_state =
     edit_state_default\<lparr>es_constraints := [(test_rule ScopeAll)\<lparr>ec_matcher := PathUnderDir [''app'']\<rparr>]\<rparr>"

lemma rm_analysis:
  "clean (analyze (\<lambda>_ _. []) ''rm -rf /r/app'' ''bash'' ''/w'')"
  "map (\<lambda>f. (fo_operation f, fo_path f)) (an_files (analyze (\<lambda>_ _. []) ''rm -rf /r/app'' ''bash'' ''/w'')) =
     [(''delete'', ''/r/app'')]"
  by (simp_all add: eval_lex eval_parse eval_analysis)

lemma protected_directory_can_be_removed:
  "check_with_state (\<lambda>s. s) (\<lambda>_ _. []) sample_context ''rm -rf /r/app'' ''bash'' ''/w'' directory_rule_state = None"
  "violated (\<lambda>s. s) ''delete'' directory_rule_state ''/r/app/x''"
proof -
  have not_matched: "\<not> violated (\<lambda>s. s) ''delete'' directory_rule_state ''/r/app''"
    by (simp add: directory_rule_state_def under_dir_def trim_slashes_def trim_end_char_def eval_guard)
  have "resolved_candidates sample_context ''/r/app'' = Inr [''/r/app'', ''/r/app'', ''/r/app'']"
    by (simp add: resolved_candidates_def local_candidates.simps path_components_def path_text_def sample_context_def Let_def)
  with not_matched have "spared (\<lambda>s. s) sample_context directory_rule_state f"
    if "fo_operation f = ''delete''" "fo_path f = ''/r/app''" for f
    using that by (simp add: spared_def)
  moreover have "\<forall>f \<in> set (an_files (analyze (\<lambda>_ _. []) ''rm -rf /r/app'' ''bash'' ''/w'')).
      fo_operation f = ''delete'' \<and> fo_path f = ''/r/app''"
    using rm_analysis(2) by auto
  moreover have "has_enforceable_constraints directory_rule_state"
    by (simp add: directory_rule_state_def has_enforceable_constraints_def enforceable_def)
  ultimately show "check_with_state (\<lambda>s. s) (\<lambda>_ _. []) sample_context ''rm -rf /r/app'' ''bash'' ''/w'' directory_rule_state = None"
    using check_with_state_None rm_analysis(1) by blast
  show "violated (\<lambda>s. s) ''delete'' directory_rule_state ''/r/app/x''"
    by (simp add: directory_rule_state_def under_dir_def trim_slashes_def trim_end_char_def eval_guard)
qed

section \<open>From the message to the refusal\<close>

lemma to_slashes_twice [simp]: "to_slashes (to_slashes path) = to_slashes path"
  by (auto simp: to_slashes_def bslash_def)

lemma matches_to_slashes [simp]: "matches lower m (to_slashes path) = matches lower m path"
  by (simp add: matches_def)

lemma own_candidate: "to_slashes path \<in> set (candidate_paths context path)"
  by (auto simp: candidate_paths_def Let_def split: option.splits)

lemma sentence_constraint_matcher:
  assumes "sentence_constraint lower patterns sentence = Some rule" shows "ec_matcher rule = TestFiles"
proof (cases "\<exists>signal \<in> set test_relaxations. contains (lower sentence) signal")
  case False
  with assms show ?thesis
    unfolding sentence_constraint_def Let_def by (simp only: if_False split: if_split_asm) auto
qed (use assms in \<open>simp add: sentence_constraint_def Let_def\<close>)

lemma process_instruction_merges:
  assumes "trim message \<noteq> []" "deterministic_test_constraint (xe_lower env) (xe_patterns env) message = Some rule"
    and "\<not> already_processed before sid turn (xe_sha256 env message)"
  shows "\<exists>s d. process_instruction env True sid turn message authorized before st sid = Some s \<and>
    d \<in> set (es_constraints s) \<and> ec_matcher d = ec_matcher rule \<and> ec_scope d = ec_scope rule"
proof -
  let ?e = "extract_instruction env message (constraints_of before sid) authorized"
  from extract_instruction_ok(1) [OF assms(1) HOL.refl assms(2), of "constraints_of before sid" authorized]
  have e: "rule \<in> set (er_constraints ?e)" "er_status ?e = Extracted" by auto
  then have "instruction_extraction env True sid turn message authorized before = Some (?e\<lparr>er_turn := Some turn\<rparr>)"
    using assms(1,3) by (simp add: instruction_extraction_def extract_authorized_def requires_session_state_def)
  moreover from e have "\<exists>d \<in> set (merged_constraints (?e\<lparr>er_turn := Some turn\<rparr>) cs). same_rule d rule" for cs
    by (intro merged_has_rule) simp
  ultimately show ?thesis
    by (auto simp: process_instruction_def remember_extraction_def merge_extraction_def same_rule_def)
qed


definition restricting_env :: extraction_env where
  "restricting_env = (answering \<lparr>xr_additions = [], xr_revocations = []\<rparr> (\<lambda>p _. p = MutationPatterns))
     \<lparr>xe_factory_error := Some ''down''\<rparr>"


end
