(* ===== verification/Ai_Errors.thy ===== *)
theory Ai_Errors
  imports Prelude Agentic_Events
begin

text \<open>
  The classification of failures of a model provider, \<open>contracts/core-types/src/errors.rs\<close>: from the
  text of the message, the code the provider gave and the HTTP status to one of thirteen categories,
  and from the category to what a user is told (\<open>AiErrorDetail\<close>).  Everything that recovers from a
  failure (the model pool, the routing of accounts) looks only at the category.

  Strings are UTF-8 byte lists.  \<open>str::to_lowercase\<close> is the parameter \<open>lower\<close>: the Unicode tables it
  reads are not in the repository, and the lemmas hold whatever it does.
\<close>

section \<open>Looking for text\<close>

definition contains_any :: "string \<Rightarrow> string list \<Rightarrow> bool" where
  "contains_any s needles \<longleftrightarrow> list_ex (contains s) needles"

definition is_ascii_digit :: "char \<Rightarrow> bool" where
  "is_ascii_digit c \<longleftrightarrow> (48::nat) \<le> of_char c \<and> of_char c \<le> (57::nat)"

text \<open>
  \<open>match_indices\<close>: what follows each of the non-overlapping matches of a non-empty marker, from left to
  right; the second argument counts the bytes of the last match that are still to be passed over.
\<close>

fun match_rests :: "string \<Rightarrow> nat \<Rightarrow> string \<Rightarrow> string list" where
  "match_rests marker n [] = []"
| "match_rests marker (Suc n) (c # cs) = match_rests marker n cs"
| "match_rests marker 0 (c # cs) =
     (if prefix marker (c # cs)
      then drop (length marker) (c # cs) # match_rests marker (length marker - 1) cs
      else match_rests marker 0 cs)"

definition contains_numeric_marker :: "string \<Rightarrow> string \<Rightarrow> bool" where
  "contains_numeric_marker message marker \<longleftrightarrow>
     list_ex (\<lambda>rest. rest = [] \<or> \<not> is_ascii_digit (hd rest)) (match_rests marker 0 message)"

definition provider_code_markers :: "string \<Rightarrow> string list" where
  "provider_code_markers code =
     [''code='' @ code, ''code: '' @ code,
      [CHR 0x22] @ ''code'' @ [CHR 0x22] @ '':'' @ [CHR 0x22] @ code,
      [CHR 0x22] @ ''code'' @ [CHR 0x22] @ '':'' @ code]"

definition contains_provider_code :: "string \<Rightarrow> string \<Rightarrow> bool" where
  "contains_provider_code message code \<longleftrightarrow>
     (if trim message = code then True
      else list_ex (contains_numeric_marker message) (provider_code_markers code))"

text \<open>The statuses the code asks for are the literals 401 and 429; the argument is their decimal form.\<close>

definition http_status_markers :: "string \<Rightarrow> string list" where
  "http_status_markers status =
     [''http '' @ status, ''error '' @ status, ''status '' @ status, status @ '' status code'']"

definition contains_http_status :: "string \<Rightarrow> string \<Rightarrow> bool" where
  "contains_http_status message status \<longleftrightarrow>
     prefix (status @ '' '') (trim_start message)
     \<or> list_ex (contains_numeric_marker message) (http_status_markers status)"

section \<open>Categories from the text of a message\<close>

definition is_context_overflow_message :: "string \<Rightarrow> bool" where
  "is_context_overflow_message m \<longleftrightarrow>
     (if contains_any m
        [''finish_reason=max_tokens'', ''max_output_tokens'', ''maximum output token'',
         ''output token limit'', ''completion token limit'', ''response truncated by model'']
      then False
      else contains_any m
        [''context_length_exceeded'', ''model_context_window_exceeded'',
         ''context window exceeded'', ''context window exceeds limit'',
         ''context length exceeded'', ''context length is only'', ''maximum context length'',
         ''maximum prompt length is'', ''maximum allowed input length'',
         ''exceeds the context window'', ''exceeds the available context size'',
         ''greater than the context length'', ''prompt is too long'',
         ''prompt too long; exceeded'', ''request_too_large'',
         ''input is too long for requested model'',
         ''tokens in request more than max tokens allowed'',
         ''reduce the length of the messages'', ''request entity too large'']
      \<or> ((contains m ''input'' \<or> contains m ''prompt'') \<and> contains m ''token''
           \<and> contains_any m [''exceed'', ''too long'', ''maximum'', ''limit''])
      \<or> (contains m ''input length'' \<and> contains m ''context length'')
      \<or> (contains m ''prompt has'' \<and> contains m ''configured context size''))"

definition quota_wording :: "string list" where
  "quota_wording =
     [''code=1113'',
      [CHR 0x22] @ ''code'' @ [CHR 0x22] @ '':'' @ [CHR 0x22] @ ''1113'' @ [CHR 0x22],
      ''insufficient_quota'', ''insufficient quota'', ''insufficient balance'',
      ''not_enough_balance'', ''not enough balance'', ''exceeded_current_quota_error'',
      ''exceeded current quota'', ''you exceeded your current quota'',
      ''no available resource package'',
      [CHR 0xE6, CHR 0x97, CHR 0xA0, CHR 0xE5, CHR 0x8F, CHR 0xAF, CHR 0xE7, CHR 0x94, CHR 0xA8, CHR 0xE8, CHR 0xB5, CHR 0x84, CHR 0xE6, CHR 0xBA, CHR 0x90, CHR 0xE5, CHR 0x8C, CHR 0x85],
      [CHR 0xE4, CHR 0xBD, CHR 0x99, CHR 0xE9, CHR 0xA2, CHR 0x9D, CHR 0xE4, CHR 0xB8, CHR 0x8D, CHR 0xE8, CHR 0xB6, CHR 0xB3],
      [CHR 0xE8, CHR 0xB4, CHR 0xA6, CHR 0xE6, CHR 0x88, CHR 0xB7, CHR 0xE5, CHR 0xB7, CHR 0xB2, CHR 0xE6, CHR 0xAC, CHR 0xA0, CHR 0xE8, CHR 0xB4, CHR 0xB9],
      ''account has exceeded'', ''http 402'', ''error 402'', ''402 - insufficient balance'']"

definition billing_wording :: "string list" where
  "billing_wording =
     [''billing'', ''membership expired'', ''subscription expired'', ''plan expired'',
      [CHR 0xE5, CHR 0xA5, CHR 0x97, CHR 0xE9, CHR 0xA4, CHR 0x90, CHR 0xE5, CHR 0xB7, CHR 0xB2, CHR 0xE5, CHR 0x88, CHR 0xB0, CHR 0xE6, CHR 0x9C, CHR 0x9F]]"

definition unavailable_wording :: "string list" where
  "unavailable_wording =
     [''overloaded_error'', ''server overloaded'', ''temporarily overloaded'',
      ''provider unavailable'', ''service unavailable'', ''http 503'', ''error 503'',
      ''http 529'', ''error 529'']"

definition policy_wording :: "string list" where
  "policy_wording =
     [''content policy'', ''policy blocked'', ''safety'', ''sensitive'', ''content_filter'',
      ''api '' @ [CHR 0xE8, CHR 0xB0, CHR 0x83, CHR 0xE7, CHR 0x94, CHR 0xA8, CHR 0xE8, CHR 0xA2, CHR 0xAB, CHR 0xE7, CHR 0xAD, CHR 0x96, CHR 0xE7, CHR 0x95, CHR 0xA5, CHR 0xE9, CHR 0x98, CHR 0xBB, CHR 0xE6, CHR 0xAD, CHR 0xA2]]"

definition permission_wording :: "string list" where
  "permission_wording =
     [''permission_error'', ''permission denied'', ''forbidden'', ''not authorized'',
      ''no permission'',
      [CHR 0xE6, CHR 0x97, CHR 0xA0, CHR 0xE6, CHR 0x9D, CHR 0x83, CHR 0xE8, CHR 0xAE, CHR 0xBF, CHR 0xE9, CHR 0x97, CHR 0xAE]]"

definition invalid_wording :: "string list" where
  "invalid_wording =
     [''invalid_request_error'', ''invalid request'', ''bad request'', ''invalid format'',
      ''invalid parameter'', ''model not found'', ''unsupported model'',
      ''request too large'', ''http 400'', ''error 400'', ''http 413'', ''error 413'',
      ''http 422'', ''error 422'']"

definition mentions_rate_limit :: "string \<Rightarrow> bool" where
  "mentions_rate_limit m \<longleftrightarrow>
     contains m ''rate limit'' \<or> contains_http_status m ''429'' \<or> contains m ''too many requests''
     \<or> contains_provider_code m ''1302'' \<or> contains m ''concurrency''
     \<or> contains m [CHR 0xE8, CHR 0xAF, CHR 0xB7, CHR 0xE6, CHR 0xB1, CHR 0x82, CHR 0xE5, CHR 0xB9, CHR 0xB6, CHR 0xE5, CHR 0x8F, CHR 0x91, CHR 0xE8, CHR 0xB6, CHR 0x85, CHR 0xE9, CHR 0xA2, CHR 0x9D]"

definition mentions_auth :: "string \<Rightarrow> bool" where
  "mentions_auth m \<longleftrightarrow>
     contains m ''authentication'' \<or> contains_http_status m ''401'' \<or> contains m ''invalid api key''
     \<or> contains m ''incorrect api key'' \<or> contains m ''unauthorized''
     \<or> contains_provider_code m ''1000'' \<or> contains_provider_code m ''1002''"

definition classify_ai_error_message :: "(string \<Rightarrow> string) \<Rightarrow> string \<Rightarrow> error_category" where
  "classify_ai_error_message lower msg =
     (let m = lower msg in
      if contains_any m quota_wording then CatProviderQuota
      else if contains_any m billing_wording \<or> contains_provider_code m ''1309'' then CatProviderBilling
      else if contains_any m unavailable_wording \<or> contains_provider_code m ''1305''
        then CatProviderUnavailable
      else if contains_any m policy_wording \<or> contains_provider_code m ''1301'' then CatContentPolicy
      else if mentions_rate_limit m then CatRateLimit
      else if mentions_auth m then CatAuth
      else if contains_any m permission_wording \<or> contains_provider_code m ''1220'' then CatPermission
      else if is_context_overflow_message m then CatContextOverflow
      else if contains_any m invalid_wording \<or> contains_provider_code m ''1210''
          \<or> contains_provider_code m ''1211'' \<or> contains_provider_code m ''435''
        then CatInvalidRequest
      else if contains m ''timeout'' \<or> contains m ''timed out'' then CatTimeout
      else if contains m ''stream closed'' \<or> contains m ''sse error'' \<or> contains m ''connection reset''
          \<or> contains m ''broken pipe''
        then CatNetwork
      else CatModelError)"

section \<open>Categories from structured facts\<close>

definition normalized_code :: "string option \<Rightarrow> string" where
  "normalized_code code = ascii_lowercase (trim (case code of Some c \<Rightarrow> c | None \<Rightarrow> []))"

definition allowance_wording :: "string list" where
  "allowance_wording =
     [''insufficient_quota'', ''usage_limit_reached'', ''insufficient balance'',
      ''not_enough_balance'', ''not enough balance'', ''no available resource package'',
      [CHR 0xE6, CHR 0x97, CHR 0xA0, CHR 0xE5, CHR 0x8F, CHR 0xAF, CHR 0xE7, CHR 0x94, CHR 0xA8, CHR 0xE8, CHR 0xB5, CHR 0x84, CHR 0xE6, CHR 0xBA, CHR 0x90, CHR 0xE5, CHR 0x8C, CHR 0x85],
      [CHR 0xE4, CHR 0xBD, CHR 0x99, CHR 0xE9, CHR 0xA2, CHR 0x9D, CHR 0xE4, CHR 0xB8, CHR 0x8D, CHR 0xE8, CHR 0xB6, CHR 0xB3],
      [CHR 0xE8, CHR 0xB4, CHR 0xA6, CHR 0xE6, CHR 0x88, CHR 0xB7, CHR 0xE5, CHR 0xB7, CHR 0xB2, CHR 0xE6, CHR 0xAC, CHR 0xA0, CHR 0xE8, CHR 0xB4, CHR 0xB9],
      [CHR 0xE9, CHR 0xA2, CHR 0x9D, CHR 0xE5, CHR 0xBA, CHR 0xA6, CHR 0xE5, CHR 0xB7, CHR 0xB2, CHR 0xE7, CHR 0x94, CHR 0xA8, CHR 0xE5, CHR 0xAE, CHR 0x8C],
      [CHR 0xE9, CHR 0xA2, CHR 0x9D, CHR 0xE5, CHR 0xBA, CHR 0xA6, CHR 0xE4, CHR 0xB8, CHR 0x8D, CHR 0xE8, CHR 0xB6, CHR 0xB3]]"

definition classify_too_many_requests ::
  "(string \<Rightarrow> string) \<Rightarrow> string \<Rightarrow> string option \<Rightarrow> error_category" where
  "classify_too_many_requests lower message provider_code =
     (let code = normalized_code provider_code in
      if code \<in> {''insufficient_quota'', ''usage_limit_reached'', ''quota_exceeded''} then CatProviderQuota
      else if code = ''usage_not_included'' then CatProviderBilling
      else
        (let m = lower message in
         if contains_any m allowance_wording \<or> contains_provider_code m ''1113'' then CatProviderQuota
         else CatRateLimit))"

text \<open>The second match on the code: \<open>None\<close> when it says nothing.\<close>

definition category_of_code :: "string \<Rightarrow> error_category option" where
  "category_of_code code =
     (if code \<in> {''context_length_exceeded'', ''model_context_window_exceeded'', ''context_window_exceeded''}
      then Some CatContextOverflow
      else if code \<in> {''insufficient_quota'', ''quota_exceeded'', ''usage_limit_reached''}
      then Some CatProviderQuota
      else if code = ''usage_not_included'' then Some CatProviderBilling
      else if code \<in> {''rate_limit_exceeded'', ''throttling_error''} then Some CatRateLimit
      else if code \<in> {''overloaded_error'', ''server_is_overloaded'', ''server_error''}
      then Some CatProviderUnavailable
      else if code \<in> {''authentication_error'', ''invalid_api_key''} then Some CatAuth
      else if code = ''permission_error'' then Some CatPermission
      else if code \<in> {''content_filter'', ''safety''} then Some CatContentPolicy
      else None)"

definition classify_ai_error_parts ::
  "(string \<Rightarrow> string) \<Rightarrow> string \<Rightarrow> string option \<Rightarrow> nat option \<Rightarrow> error_category" where
  "classify_ai_error_parts lower message provider_code http_status =
     (if http_status = Some 401 then CatAuth
      else if http_status = Some 402 then CatProviderQuota
      else if http_status = Some 403 then CatPermission
      else if http_status = Some 429 then classify_too_many_requests lower message provider_code
      else if (case http_status of Some n \<Rightarrow> 500 \<le> n \<and> n \<le> 599 | None \<Rightarrow> False) then CatProviderUnavailable
      else
        (let code = normalized_code provider_code in
         case category_of_code code of
           Some cat \<Rightarrow> cat
         | None \<Rightarrow>
             (let category = classify_ai_error_message lower message in
              if category \<noteq> CatModelError then category
              else if code \<in> {''invalid_request_error'', ''invalid_prompt''} then CatInvalidRequest
              else if http_status \<in> Some ` {400, 404, 409, 413, 422} then CatInvalidRequest
              else category)))"

section \<open>Details for the user\<close>

definition is_retryable_category :: "error_category \<Rightarrow> bool" where
  "is_retryable_category cat \<longleftrightarrow> cat \<in> {CatNetwork, CatRateLimit, CatTimeout, CatProviderUnavailable}"

fun action_hints_for_category :: "error_category \<Rightarrow> string list" where
  "action_hints_for_category CatProviderQuota = [''open_model_settings'', ''switch_model'', ''copy_diagnostics'']"
| "action_hints_for_category CatProviderBilling = [''open_model_settings'', ''switch_model'', ''copy_diagnostics'']"
| "action_hints_for_category CatAuth = [''open_model_settings'', ''copy_diagnostics'']"
| "action_hints_for_category CatPermission = [''open_model_settings'', ''copy_diagnostics'']"
| "action_hints_for_category CatRateLimit = [''wait_and_retry'', ''switch_model'', ''copy_diagnostics'']"
| "action_hints_for_category CatProviderUnavailable = [''wait_and_retry'', ''switch_model'', ''copy_diagnostics'']"
| "action_hints_for_category CatContextOverflow = [''compress_context'', ''start_new_chat'']"
| "action_hints_for_category CatNetwork = [''retry'', ''switch_model'', ''copy_diagnostics'']"
| "action_hints_for_category CatTimeout = [''retry'', ''switch_model'', ''copy_diagnostics'']"
| "action_hints_for_category CatContentPolicy = [''copy_diagnostics'']"
| "action_hints_for_category CatInvalidRequest = [''copy_diagnostics'']"
| "action_hints_for_category CatModelError = [''retry'', ''switch_model'', ''copy_diagnostics'']"
| "action_hints_for_category CatUnknown = [''retry'', ''switch_model'', ''copy_diagnostics'']"

text \<open>\<open>find\<close> with a string: what follows its first occurrence.\<close>

fun after_first :: "string \<Rightarrow> string \<Rightarrow> string option" where
  "after_first needle [] = (if needle = [] then Some [] else None)"
| "after_first needle (c # cs) =
     (if prefix needle (c # cs) then Some (drop (length needle) (c # cs)) else after_first needle cs)"

definition trim_start_quotes :: "string \<Rightarrow> string" where
  "trim_start_quotes s = dropWhile (\<lambda>c. c = CHR 0x22) s"

definition trim_quotes :: "string \<Rightarrow> string" where
  "trim_quotes s = rev (trim_start_quotes (rev (trim_start_quotes s)))"

definition assigned_value :: "string \<Rightarrow> string" where
  "assigned_value s = trim_quotes (trim (takeWhile (\<lambda>c. c \<noteq> CHR '','' \<and> c \<noteq> CHR '';'') s))"

definition json_value :: "string \<Rightarrow> string" where
  "json_value s =
     trim (takeWhile (\<lambda>c. c \<noteq> CHR 0x22 \<and> c \<noteq> CHR '','' \<and> c \<noteq> CHR ''}'') (trim_start_quotes (trim_start s)))"

definition extract_json_field :: "string \<Rightarrow> string \<Rightarrow> string option" where
  "extract_json_field message field =
     (case after_first ([CHR 0x22] @ field @ [CHR 0x22]) message of
        None \<Rightarrow> None
      | Some after_key \<Rightarrow>
          (case after_first '':'' after_key of
             None \<Rightarrow> None
           | Some v \<Rightarrow> if json_value v \<noteq> [] then Some (json_value v) else None))"

definition extract_error_field :: "string \<Rightarrow> string \<Rightarrow> string option" where
  "extract_error_field message field =
     (case after_first (field @ ''='') message of
        Some rest \<Rightarrow>
          if assigned_value rest \<noteq> [] then Some (assigned_value rest)
          else extract_json_field message field
      | None \<Rightarrow> extract_json_field message field)"

definition digit_value :: "char \<Rightarrow> nat" where
  "digit_value c = of_char c - 48"

definition digits_value :: "string \<Rightarrow> nat" where
  "digits_value ds = foldl (\<lambda>n c. 10 * n + digit_value c) 0 ds"

text \<open>\<open>parse::<u16>\<close> of a string of ASCII digits: an error when it is empty or too large.\<close>

definition parse_u16_digits :: "string \<Rightarrow> nat option" where
  "parse_u16_digits ds = (if ds = [] then None else if digits_value ds \<le> 65535 then Some (digits_value ds) else None)"

fun first_status :: "string list \<Rightarrow> string \<Rightarrow> nat option" where
  "first_status [] m = None"
| "first_status (marker # markers) m =
     (case after_first marker m of
        None \<Rightarrow> first_status markers m
      | Some rest \<Rightarrow>
          (case parse_u16_digits (takeWhile is_ascii_digit rest) of
             Some n \<Rightarrow> Some n
           | None \<Rightarrow> first_status markers m))"

definition extract_http_status :: "(string \<Rightarrow> string) \<Rightarrow> string \<Rightarrow> nat option" where
  "extract_http_status lower message = first_status [''http '', ''error '', ''status ''] (lower message)"

definition ai_error_detail_from_message ::
  "(string \<Rightarrow> string) \<Rightarrow> string \<Rightarrow> error_category \<Rightarrow> ai_error_detail" where
  "ai_error_detail_from_message lower message cat =
     \<lparr>aed_category = cat,
      aed_provider = extract_error_field message ''provider'',
      aed_provider_code = extract_error_field message ''code'',
      aed_provider_message = extract_error_field message ''message'',
      aed_request_id = extract_error_field message ''request_id'',
      aed_http_status = map_option word_of_nat (extract_http_status lower message),
      aed_retryable = Some (is_retryable_category cat),
      aed_action_hints = action_hints_for_category cat,
      aed_recovery_constraint = None\<rparr>"

section \<open>The normalised failure\<close>

record ai_provider_error =
  ape_message :: string
  ape_category :: error_category
  ape_provider :: "string option"
  ape_provider_code :: "string option"
  ape_http_status :: "16 word option"
  ape_retry_after_ms :: "nat option"

definition provider_error_from_parts ::
  "(string \<Rightarrow> string) \<Rightarrow> string \<Rightarrow> string option \<Rightarrow> string option \<Rightarrow> 16 word option \<Rightarrow> ai_provider_error" where
  "provider_error_from_parts lower message provider code status =
     \<lparr>ape_message = message,
      ape_category = classify_ai_error_parts lower message code (map_option unat status),
      ape_provider = provider, ape_provider_code = code, ape_http_status = status,
      ape_retry_after_ms = None\<rparr>"

definition provider_error_classified :: "string \<Rightarrow> error_category \<Rightarrow> ai_provider_error" where
  "provider_error_classified message cat =
     \<lparr>ape_message = message, ape_category = cat, ape_provider = None, ape_provider_code = None,
      ape_http_status = None, ape_retry_after_ms = None\<rparr>"

definition with_retry_after_ms :: "nat option \<Rightarrow> ai_provider_error \<Rightarrow> ai_provider_error" where
  "with_retry_after_ms d e = e\<lparr>ape_retry_after_ms := d\<rparr>"

definition provider_error_detail :: "ai_provider_error \<Rightarrow> ai_error_detail" where
  "provider_error_detail e =
     \<lparr>aed_category = ape_category e,
      aed_provider = ape_provider e,
      aed_provider_code = ape_provider_code e,
      aed_provider_message = Some (ape_message e),
      aed_request_id = extract_error_field (ape_message e) ''request_id'',
      aed_http_status = ape_http_status e,
      aed_retryable = Some (is_retryable_category (ape_category e)),
      aed_action_hints = action_hints_for_category (ape_category e),
      aed_recovery_constraint = None\<rparr>"

section \<open>Markers\<close>

text \<open>A marker no proper end of which is also its beginning cannot overlap itself.\<close>

definition borderless :: "string \<Rightarrow> bool" where
  "borderless w \<longleftrightarrow> w \<noteq> [] \<and> list_all (\<lambda>k. take k w \<noteq> drop (length w - k) w) [1..<length w]"

lemma borderless_no_overlap:
  assumes "borderless w" and "w @ x = pre @ w @ post" and "pre \<noteq> []"
  shows "length w \<le> length pre"
proof (rule ccontr)
  assume short: "\<not> length w \<le> length pre"
  let ?k = "length w - length pre"
  have k: "?k \<in> set [1..<length w]"
    using short assms(3) by (cases pre; cases w) auto
  have "drop (length pre) w @ x = w @ post"
    using assms(2) short by (metis append_eq_conv_conj drop_append diff_is_0_eq drop0 nat_le_linear append_assoc)
  then have "take ?k w = take ?k (drop (length pre) w @ x)"
    by simp
  then have "take ?k w = drop (length pre) w"
    by simp
  moreover have "length w - ?k = length pre"
    using short by simp
  ultimately have "take ?k w = drop (length w - ?k) w"
    by simp
  moreover have "take ?k w \<noteq> drop (length w - ?k) w"
  proof -
    have "\<forall>k \<in> set [1..<length w]. take k w \<noteq> drop (length w - k) w"
      using assms(1) unfolding borderless_def list_all_iff by blast
    from bspec [OF this k] show ?thesis .
  qed
  ultimately show False
    by simp
qed

lemma match_rests_iff:
  assumes "borderless marker"
  shows "post \<in> set (match_rests marker n s) \<longleftrightarrow> (\<exists>pre. drop n s = pre @ marker @ post)"
  using assms
proof (induction marker n s rule: match_rests.induct)
  case (1 marker n)
  then show ?case
    by (auto simp: borderless_def)
next
  case (3 marker c cs)
  have ne: "marker \<noteq> []"
    using 3(3) by (simp add: borderless_def)
  show ?case
  proof (cases "prefix marker (c # cs)")
    case True
    then obtain x where x: "c # cs = marker @ x"
      by (auto simp: prefix_def)
    have tail: "drop (length marker - 1) cs = x"
      using x ne by (cases marker) auto
    have "(\<exists>pre. marker @ x = pre @ marker @ post) \<longleftrightarrow> post = x \<or> (\<exists>pre. x = pre @ marker @ post)"
    proof
      assume "\<exists>pre. marker @ x = pre @ marker @ post"
      then obtain pre where pre: "marker @ x = pre @ marker @ post"
        by blast
      show "post = x \<or> (\<exists>pre. x = pre @ marker @ post)"
      proof (cases "pre = []")
        case False
        then have "length marker \<le> length pre"
          using borderless_no_overlap [OF 3(3) pre] by simp
        then show ?thesis
          using pre by (auto simp: append_eq_append_conv_if)
      qed (use pre in simp)
    next
      assume "post = x \<or> (\<exists>pre. x = pre @ marker @ post)"
      then show "\<exists>pre. marker @ x = pre @ marker @ post"
        by (metis append.assoc append_Nil)
    qed
    moreover have "post \<in> set (match_rests marker 0 (c # cs)) \<longleftrightarrow> post = x \<or> (\<exists>pre. x = pre @ marker @ post)"
    proof -
      have dx: "drop (length marker) (c # cs) = x"
        using x by simp
      have "match_rests marker 0 (c # cs) = x # match_rests marker (length marker - 1) cs"
        using True by (simp only: match_rests.simps if_True dx)
      then show ?thesis
        using 3(1) [OF True 3(3)] tail by (simp only: list.set insert_iff)
    qed
    ultimately show ?thesis
      using x by simp
  next
    case False
    have "(\<exists>pre. c # cs = pre @ marker @ post) \<longleftrightarrow> (\<exists>pre. cs = pre @ marker @ post)"
    proof
      assume "\<exists>pre. c # cs = pre @ marker @ post"
      then obtain pre where pre: "c # cs = pre @ marker @ post"
        by blast
      with False have "pre \<noteq> []"
        by (auto simp: prefix_def)
      with pre show "\<exists>pre. cs = pre @ marker @ post"
        by (cases pre) auto
    next
      assume "\<exists>pre. cs = pre @ marker @ post"
      then show "\<exists>pre. c # cs = pre @ marker @ post"
        by (metis append_Cons)
    qed
    then show ?thesis
      using 3(2) [OF False 3(3)] False by simp
  qed
qed simp

text \<open>The codes the classification asks for.\<close>

definition known_provider_codes :: "string list" where
  "known_provider_codes =
     [''1113'', ''1309'', ''1305'', ''1301'', ''1302'', ''1000'', ''1002'', ''1220'', ''1210'', ''1211'', ''435'']"

lemma provider_code_markers_borderless:
  "list_all (\<lambda>code. list_all borderless (provider_code_markers code)) known_provider_codes"
  "list_all (\<lambda>s. list_all borderless (http_status_markers s)) [''401'', ''429'']"
  by code_simp+

text \<open>
  The scan for a numeric marker finds it exactly where the marker stands in the message and is not
  followed by another digit.
\<close>

lemma contains_numeric_marker_iff:
  assumes "borderless marker"
  shows "contains_numeric_marker message marker \<longleftrightarrow>
    (\<exists>pre post. message = pre @ marker @ post \<and> (post = [] \<or> \<not> is_ascii_digit (hd post)))"
  unfolding contains_numeric_marker_def list_ex_iff Bex_def match_rests_iff [OF assms, of _ 0 message, simplified]
  by blast

section \<open>Classification\<close>

lemma too_many_requests_cases:
  "classify_too_many_requests lower m code \<in> {CatProviderQuota, CatProviderBilling, CatRateLimit}"
  "classify_too_many_requests lower m code = CatProviderBilling \<longleftrightarrow> normalized_code code = ''usage_not_included''"
  by (auto simp: classify_too_many_requests_def Let_def)

lemma retryable_wire: "is_retryable_category cat \<longleftrightarrow> aed_retryable (ai_error_detail_from_message lower m cat) = Some True"
  by (simp add: ai_error_detail_from_message_def)

lemma digits_value_Nil [simp]: "digits_value [] = 0"
  by (simp add: digits_value_def)

lemma first_status_u16: "first_status markers m = Some n \<Longrightarrow> n \<le> 65535"
  by (induction markers) (auto simp: parse_u16_digits_def split: option.splits if_splits)

lemma after_first_split: "after_first needle s = Some rest \<Longrightarrow> \<exists>pre. s = pre @ needle @ rest"
proof (induction needle s rule: after_first.induct)
  case (2 needle c cs)
  show ?case
  proof (cases "prefix needle (c # cs)")
    case True
    then show ?thesis
      using 2(2) by (auto simp: prefix_def)
  next
    case False
    then obtain pre where "cs = pre @ needle @ rest"
      using 2 by auto
    then show ?thesis
      by (intro exI [of _ "c # pre"]) simp
  qed
qed (auto split: if_splits)

section \<open>Properties\<close>

text \<open>
  For every provider code the classification asks for, the scan of the message finds it exactly
  when the whole message is the code or one of the four ways of writing it occurs with no further digit
  after it: a longer code that begins with a known one is never taken for it.
\<close>

theorem provider_code_found_exactly:
  assumes "code \<in> set known_provider_codes"
  shows "contains_provider_code message code \<longleftrightarrow>
    trim message = code \<or>
    (\<exists>marker pre post. marker \<in> set (provider_code_markers code) \<and> message = pre @ marker @ post
       \<and> (post = [] \<or> \<not> is_ascii_digit (hd post)))"
proof -
  have "list_all borderless (provider_code_markers code)"
    using assms provider_code_markers_borderless(1) unfolding list_all_iff [of _ known_provider_codes] by blast
  then have "contains_numeric_marker message marker \<longleftrightarrow>
      (\<exists>pre post. message = pre @ marker @ post \<and> (post = [] \<or> \<not> is_ascii_digit (hd post)))"
    if "marker \<in> set (provider_code_markers code)" for marker
    using that by (simp add: contains_numeric_marker_iff list_all_iff)
  then show ?thesis
    unfolding contains_provider_code_def list_ex_iff by auto
qed

theorem provider_code_found_exactly_witness:
  "contains_provider_code ''glm error, code=1302; retry later'' ''1302''
   \<and> \<not> contains_provider_code ''glm error, code=13025'' ''1302''"
proof -
  have known: "''1302'' \<in> set known_provider_codes"
    by (simp add: known_provider_codes_def)
  have "contains_provider_code ''glm error, code=1302; retry later'' ''1302''"
    by (rule iffD2 [OF provider_code_found_exactly [OF known]], rule disjI2,
      rule exI [of _ "''code=1302''"], rule exI [of _ "''glm error, ''"], rule exI [of _ "''; retry later''"])
      (simp add: provider_code_markers_def is_ascii_digit_def)
  moreover have "\<not> contains_provider_code ''glm error, code=13025'' ''1302''"
    by code_simp
  ultimately show ?thesis
    by simp
qed

end
