(* ===== verification/Model_Pool.thy ===== *)
theory Model_Pool
  imports Prelude Json Ai_Errors
begin

text \<open>
  The model pool of \<open>execution/agent-runtime/src/model_pool.rs\<close>: which member of a pool of models a
  request is sent to.  The router keeps, for every session, the member it is bound to (affinity), for
  every model the latest evidence of its health, for every pool a cursor of the balanced strategy, and
  the reservations of the requests in flight, each with a generation of its own and a lease that the
  host renews.  A reservation is published (accepted, or its failure recorded) only while the router
  still holds it.

  The ordered maps of the code are partial functions where they are only looked up; the reservations,
  whose values the code walks, are a keyed list.  Times, delays and generations are the \<open>u64\<close> of the
  code, with their saturating addition.  The serialised form of the router leaves the reservations
  out; \<open>restarted\<close> is the router read back from it.

  The lemmas show what a reservation selects on every branch, that a reservation ended in any way
  publishes nothing afterwards, that evidence about a model is never replaced by older evidence, that
  at most one session probes a member that cools down, and that the balanced strategy gives every
  member its turn.
\<close>

section \<open>Data\<close>

datatype pool_strategy = StrategyOrdered | StrategyBalanced | StrategyUnsupported

datatype pool_health_status =
    HealthUnverified | HealthAvailable | HealthCoolingDown | HealthProbing | HealthNeedsAttention
  | HealthDisabled | HealthMissing

record pool_context_budget =
  pcb_context_window :: "32 word"
  pcb_input_limit :: "32 word"

record pool_member_status =
  pms_model_id :: string
  pms_status :: pool_health_status
  pms_reason :: "string option"
  pms_retry_at :: "nat option"
  pms_context_budget :: "pool_context_budget option"

record pool_binding =
  pb_pool_id :: string
  pb_model_id :: string
  pb_fingerprint :: string
  pb_generation :: nat

record pool_candidate =
  cd_model_id :: string
  cd_fingerprint :: string
  cd_eligible :: bool

record pool_health =
  ph_generation :: nat
  ph_fingerprint :: string
  ph_status :: pool_health_status
  ph_reason :: "string option"
  ph_retry_at :: "nat option"

record pool_cursor =
  pc_next_id :: string
  pc_order :: "string list"

record pool_reservation =
  rv_session_id :: string
  rv_binding :: pool_binding
  rv_expires_at :: nat

datatype selection_error =
    UnsupportedStrategy
  | RequestInProgress
  | PoolUnavailable "nat option"

record pool_router =
  bindings :: "string \<rightharpoonup> pool_binding"
  healths :: "string \<rightharpoonup> pool_health"
  cursors :: "string \<rightharpoonup> pool_cursor"
  router_generation :: nat
  reservations :: "(string, pool_reservation) kv"

definition empty_router :: pool_router where
  "empty_router = \<lparr>bindings = (\<lambda>_. None), healths = (\<lambda>_. None), cursors = (\<lambda>_. None),
     router_generation = 0, reservations = []\<rparr>"

text \<open>\<open>#[serde(skip)]\<close> on the reservations: reading the written router back gives it without them.\<close>

definition restarted :: "pool_router \<Rightarrow> pool_router" where
  "restarted R = R\<lparr>reservations := []\<rparr>"

text \<open>The \<open>snake_case\<close> form of a category, which is what its JSON value holds.\<close>

fun category_text :: "error_category \<Rightarrow> string" where
  "category_text CatNetwork = ''network''"
| "category_text CatAuth = ''auth''"
| "category_text CatRateLimit = ''rate_limit''"
| "category_text CatContextOverflow = ''context_overflow''"
| "category_text CatTimeout = ''timeout''"
| "category_text CatProviderQuota = ''provider_quota''"
| "category_text CatProviderBilling = ''provider_billing''"
| "category_text CatProviderUnavailable = ''provider_unavailable''"
| "category_text CatPermission = ''permission''"
| "category_text CatInvalidRequest = ''invalid_request''"
| "category_text CatContentPolicy = ''content_policy''"
| "category_text CatModelError = ''model_error''"
| "category_text CatUnknown = ''unknown''"

section \<open>Pool definitions\<close>

record pool_definition =
  pd_id :: string
  pd_name :: string
  pd_strategy :: string
  pd_members :: "string list"
  pd_extensions :: "(string, json) kv"

definition strategy_kind :: "pool_definition \<Rightarrow> pool_strategy" where
  "strategy_kind d =
     (if pd_strategy d = ''ordered'' then StrategyOrdered
      else if pd_strategy d = ''balanced'' then StrategyBalanced
      else StrategyUnsupported)"

text \<open>The loop over the members with the set of the ids seen so far.\<close>

fun validate_members :: "string set \<Rightarrow> string list \<Rightarrow> string + unit" where
  "validate_members seen [] = Inr ()"
| "validate_members seen (i # is) =
     (if trim i = [] \<or> i \<in> {''primary'', ''fast'', ''auto'', ''default''}
      then Inl ''Pool members must reference concrete model configurations''
      else if i \<in> seen then Inl ''A model configuration cannot appear twice in a pool''
      else validate_members (insert i seen) is)"

definition validate_definition :: "pool_definition \<Rightarrow> string + unit" where
  "validate_definition d =
     (if trim (pd_id d) = [] \<or> trim (pd_name d) = [] then Inl ''Model pool ID and name are required''
      else if strategy_kind d = StrategyUnsupported then Inl ''Unsupported model pool strategy''
      else validate_members {} (pd_members d))"

section \<open>Sessions, members and readiness\<close>

definition release_session_reservation :: "string \<Rightarrow> pool_router \<Rightarrow> pool_router" where
  "release_session_reservation s R = R\<lparr>reservations := kv_del s (reservations R)\<rparr>"

definition retry_member :: "string \<Rightarrow> pool_router \<Rightarrow> pool_router" where
  "retry_member m R =
     (let g = sat_add_u64 (router_generation R) 1;
          R1 = R\<lparr>router_generation := g\<rparr>
      in case healths R1 m of
           None \<Rightarrow> R1
         | Some h \<Rightarrow> R1\<lparr>healths := (healths R1)(m \<mapsto>
             h\<lparr>ph_generation := g, ph_status := HealthUnverified, ph_reason := None,
               ph_retry_at := None\<rparr>)\<rparr>)"

definition binding_of :: "pool_router \<Rightarrow> string \<Rightarrow> pool_binding option" where
  "binding_of R s = bindings R s"

definition restore_binding :: "string \<Rightarrow> pool_binding \<Rightarrow> pool_router \<Rightarrow> pool_router" where
  "restore_binding s b R =
     R\<lparr>router_generation := max (router_generation R) (pb_generation b),
       bindings := (bindings R)(s \<mapsto>
         (case bindings R s of
            Some old \<Rightarrow> if pb_generation b > pb_generation old then b else old
          | None \<Rightarrow> b))\<rparr>"

definition clear_pool_session :: "string \<Rightarrow> pool_router \<Rightarrow> pool_router" where
  "clear_pool_session s R =
     R\<lparr>bindings := (bindings R)(s := None), reservations := kv_del s (reservations R)\<rparr>"

text \<open>\<open>health.get(model_id).filter(fingerprint)\<close>: evidence counts only for the configuration it is about.\<close>

definition current_health :: "pool_router \<Rightarrow> pool_candidate \<Rightarrow> pool_health option" where
  "current_health R c =
     (case healths R (cd_model_id c) of
        Some h \<Rightarrow> if ph_fingerprint h = cd_fingerprint c then Some h else None
      | None \<Rightarrow> None)"

definition in_flight :: "pool_router \<Rightarrow> pool_candidate \<Rightarrow> nat \<Rightarrow> bool" where
  "in_flight R c now \<longleftrightarrow>
     list_ex (\<lambda>(_, r). rv_expires_at r > now \<and> pb_model_id (rv_binding r) = cd_model_id c
       \<and> pb_fingerprint (rv_binding r) = cd_fingerprint c) (reservations R)"

definition cooled_off :: "nat option \<Rightarrow> nat \<Rightarrow> bool" where
  "cooled_off retry_at now \<longleftrightarrow> (case retry_at of Some until \<Rightarrow> until \<le> now | None \<Rightarrow> False)"

definition member_status :: "pool_router \<Rightarrow> pool_candidate \<Rightarrow> nat \<Rightarrow> pool_member_status" where
  "member_status R c now =
     (let probing = in_flight R c now;
          (status, reason, retry_at) =
            (case current_health R c of
               Some h \<Rightarrow>
                 (if ph_status h = HealthCoolingDown \<and> cooled_off (ph_retry_at h) now \<and> probing
                  then HealthProbing else ph_status h, ph_reason h, ph_retry_at h)
             | None \<Rightarrow> (HealthUnverified, None, None))
      in \<lparr>pms_model_id = cd_model_id c, pms_status = status, pms_reason = reason,
          pms_retry_at = retry_at, pms_context_budget = None\<rparr>)"

definition member_ready :: "pool_router \<Rightarrow> pool_candidate \<Rightarrow> nat \<Rightarrow> bool" where
  "member_ready R c now =
     (if \<not> cd_eligible c then False
      else case current_health R c of
             None \<Rightarrow> True
           | Some h \<Rightarrow>
               (case ph_status h of
                  HealthNeedsAttention \<Rightarrow> False
                | HealthCoolingDown \<Rightarrow> cooled_off (ph_retry_at h) now \<and> \<not> in_flight R c now
                | _ \<Rightarrow> True))"

definition has_available_alternative ::
  "string \<Rightarrow> pool_candidate list \<Rightarrow> string set \<Rightarrow> nat \<Rightarrow> pool_router \<Rightarrow> bool" where
  "has_available_alternative current cs excluded now R \<longleftrightarrow>
     list_ex (\<lambda>c. cd_model_id c \<noteq> current \<and> cd_model_id c \<notin> excluded \<and> member_ready R c now) cs"

section \<open>Reserving a member\<close>

text \<open>\<open>iter().cycle().skip(k).take(len)\<close>: one round through the list from position \<open>k\<close> on.\<close>

definition cycle_from :: "nat \<Rightarrow> 'a list \<Rightarrow> 'a list" where
  "cycle_from k xs = drop (k mod length xs) xs @ take (k mod length xs) xs"

fun find_position :: "(string \<Rightarrow> nat option) \<Rightarrow> string list \<Rightarrow> nat option" where
  "find_position f [] = None"
| "find_position f (x # xs) = (case f x of Some i \<Rightarrow> Some i | None \<Rightarrow> find_position f xs)"

definition member_position :: "pool_candidate list \<Rightarrow> string \<Rightarrow> nat option" where
  "member_position cs m = position (\<lambda>c. cd_model_id c = m) cs"

definition cursor_start :: "pool_cursor \<Rightarrow> pool_candidate list \<Rightarrow> nat option" where
  "cursor_start cur cs =
     (case member_position cs (pc_next_id cur) of
        Some i \<Rightarrow> Some i
      | None \<Rightarrow>
          (let old_start = (case position (\<lambda>i. i = pc_next_id cur) (pc_order cur) of
                              Some i \<Rightarrow> i | None \<Rightarrow> 0)
           in find_position (member_position cs) (cycle_from old_start (pc_order cur))))"

definition rotation_start :: "pool_router \<Rightarrow> string \<Rightarrow> pool_strategy \<Rightarrow> pool_candidate list \<Rightarrow> nat" where
  "rotation_start R pool strategy cs =
     (if strategy = StrategyBalanced
      then case cursors R pool of
             None \<Rightarrow> 0
           | Some cur \<Rightarrow> (case cursor_start cur cs of Some i \<Rightarrow> i | None \<Rightarrow> 0)
      else 0)"

definition selectable :: "pool_router \<Rightarrow> string set \<Rightarrow> nat \<Rightarrow> pool_candidate \<Rightarrow> bool" where
  "selectable R excluded now c \<longleftrightarrow> cd_model_id c \<notin> excluded \<and> member_ready R c now"

definition sticky_candidate ::
  "pool_router \<Rightarrow> string \<Rightarrow> string \<Rightarrow> pool_candidate list \<Rightarrow> string set \<Rightarrow> nat \<Rightarrow> pool_candidate option" where
  "sticky_candidate R s pool cs excluded now =
     (case bindings R s of
        None \<Rightarrow> None
      | Some b \<Rightarrow>
          if pb_pool_id b = pool
          then find (\<lambda>c. cd_model_id c = pb_model_id b \<and> cd_fingerprint c = pb_fingerprint b)
                 (filter (selectable R excluded now) cs)
          else None)"

definition selected_candidate ::
  "pool_router \<Rightarrow> string \<Rightarrow> string \<Rightarrow> pool_strategy \<Rightarrow> pool_candidate list \<Rightarrow> string set \<Rightarrow> nat
   \<Rightarrow> pool_candidate option" where
  "selected_candidate R s pool strategy cs excluded now =
     (case sticky_candidate R s pool cs excluded now of
        Some c \<Rightarrow> Some c
      | None \<Rightarrow> find (selectable R excluded now) (cycle_from (rotation_start R pool strategy cs) cs))"

definition min_option :: "nat list \<Rightarrow> nat option" where
  "min_option xs = (if xs = [] then None else Some (Min (set xs)))"

definition earliest_retry :: "pool_router \<Rightarrow> pool_candidate list \<Rightarrow> nat \<Rightarrow> nat option" where
  "earliest_retry R cs now =
     min_option (filter (\<lambda>until. until > now)
       (List.map_filter
         (\<lambda>c. case current_health R c of Some h \<Rightarrow> ph_retry_at h | None \<Rightarrow> None)
         (filter cd_eligible cs)))"

definition advanced_cursor :: "pool_candidate list \<Rightarrow> string \<Rightarrow> pool_cursor" where
  "advanced_cursor cs m =
     (let i = (case member_position cs m of Some i \<Rightarrow> i | None \<Rightarrow> 0)
      in \<lparr>pc_next_id = cd_model_id (cs ! (Suc i mod length cs)), pc_order = map cd_model_id cs\<rparr>)"

definition retain_live :: "nat \<Rightarrow> pool_router \<Rightarrow> pool_router" where
  "retain_live now R = R\<lparr>reservations := kv_retain (\<lambda>_ r. rv_expires_at r > now) (reservations R)\<rparr>"

definition lease_end :: "nat \<Rightarrow> nat \<Rightarrow> nat" where
  "lease_end now lease = sat_add_u64 now (max lease 1)"

definition reserve ::
  "string \<Rightarrow> string \<Rightarrow> pool_strategy \<Rightarrow> pool_candidate list \<Rightarrow> string set \<Rightarrow> nat \<Rightarrow> nat \<Rightarrow> pool_router
   \<Rightarrow> (selection_error + pool_reservation) \<times> pool_router" where
  "reserve s pool strategy cs excluded now lease R0 =
     (let R = retain_live now R0 in
      if strategy = StrategyUnsupported then (Inl UnsupportedStrategy, R)
      else if map_of (reservations R) s \<noteq> None then (Inl RequestInProgress, R)
      else
        case selected_candidate R s pool strategy cs excluded now of
          None \<Rightarrow> (Inl (PoolUnavailable (earliest_retry R cs now)), R)
        | Some c \<Rightarrow>
            (let R1 = (if sticky_candidate R s pool cs excluded now = None \<and> strategy = StrategyBalanced
                       then R\<lparr>cursors := (cursors R)(pool \<mapsto> advanced_cursor cs (cd_model_id c))\<rparr>
                       else R);
                 g = sat_add_u64 (router_generation R1) 1;
                 r = \<lparr>rv_session_id = s,
                      rv_binding = \<lparr>pb_pool_id = pool, pb_model_id = cd_model_id c,
                                    pb_fingerprint = cd_fingerprint c, pb_generation = g\<rparr>,
                      rv_expires_at = lease_end now lease\<rparr>
             in (Inr r, R1\<lparr>router_generation := g, reservations := kv_put s r (reservations R1)\<rparr>)))"

section \<open>Settling a reservation\<close>

definition holds_reservation :: "pool_router \<Rightarrow> pool_reservation \<Rightarrow> bool" where
  "holds_reservation R r \<longleftrightarrow>
     (case map_of (reservations R) (rv_session_id r) of
        Some active \<Rightarrow> pb_generation (rv_binding active) = pb_generation (rv_binding r)
      | None \<Rightarrow> False)"

definition release :: "pool_reservation \<Rightarrow> pool_router \<Rightarrow> bool \<times> pool_router" where
  "release r R =
     (if holds_reservation R r
      then (True, R\<lparr>reservations := kv_del (rv_session_id r) (reservations R)\<rparr>)
      else (False, R))"

definition renew :: "pool_reservation \<Rightarrow> nat \<Rightarrow> nat \<Rightarrow> pool_router \<Rightarrow> pool_router" where
  "renew r now lease R =
     (case map_of (reservations R) (rv_session_id r) of
        Some active \<Rightarrow>
          if pb_generation (rv_binding active) = pb_generation (rv_binding r)
          then R\<lparr>reservations := kv_put (rv_session_id r)
                   (active\<lparr>rv_expires_at := lease_end now lease\<rparr>) (reservations R)\<rparr>
          else R
      | None \<Rightarrow> R)"

definition cancel_reservation :: "pool_reservation \<Rightarrow> pool_router \<Rightarrow> pool_router" where
  "cancel_reservation r R = snd (release r R)"

definition put_health :: "string \<Rightarrow> pool_health \<Rightarrow> pool_router \<Rightarrow> pool_router" where
  "put_health m h R = R\<lparr>healths := (healths R)(m \<mapsto> h)\<rparr>"

text \<open>Whether the router already has evidence at least as new as the given generation.\<close>

definition newer_evidence :: "pool_router \<Rightarrow> string \<Rightarrow> nat \<Rightarrow> bool" where
  "newer_evidence R m g \<longleftrightarrow> (case healths R m of Some h \<Rightarrow> ph_generation h \<ge> g | None \<Rightarrow> False)"

definition reservation_health ::
  "pool_reservation \<Rightarrow> pool_health_status \<Rightarrow> string option \<Rightarrow> nat option \<Rightarrow> pool_health" where
  "reservation_health r status reason retry_at =
     \<lparr>ph_generation = pb_generation (rv_binding r), ph_fingerprint = pb_fingerprint (rv_binding r),
      ph_status = status, ph_reason = reason, ph_retry_at = retry_at\<rparr>"

definition accept :: "pool_reservation \<Rightarrow> pool_router \<Rightarrow> bool \<times> pool_router" where
  "accept r R =
     (case release r R of
        (False, R1) \<Rightarrow> (False, R1)
      | (True, R1) \<Rightarrow>
          (let m = pb_model_id (rv_binding r);
               is_current = (case healths R1 m of
                               None \<Rightarrow> True
                             | Some h \<Rightarrow> ph_generation h < pb_generation (rv_binding r));
               R2 = (if is_current
                     then put_health m (reservation_health r HealthAvailable None None) R1 else R1)
           in (True, R2\<lparr>bindings := (bindings R2)(rv_session_id r \<mapsto> rv_binding r)\<rparr>)))"

definition configuration_failed :: "pool_reservation \<Rightarrow> pool_router \<Rightarrow> pool_router" where
  "configuration_failed r R =
     (case release r R of
        (False, R1) \<Rightarrow> R1
      | (True, R1) \<Rightarrow>
          (let m = pb_model_id (rv_binding r) in
           if newer_evidence R1 m (pb_generation (rv_binding r)) then R1
           else put_health m (reservation_health r HealthNeedsAttention (Some ''configuration'') None) R1))"

text \<open>
  The match on the category in \<open>fail\<close>: \<open>Inr\<close> is the health the failure is evidence of, \<open>Inl\<close> the
  answer of an early return.
\<close>

definition failure_status :: "error_category \<Rightarrow> bool + pool_health_status" where
  "failure_status cat =
     (case cat of
        CatAuth \<Rightarrow> Inr HealthNeedsAttention
      | CatPermission \<Rightarrow> Inr HealthNeedsAttention
      | CatProviderBilling \<Rightarrow> Inr HealthNeedsAttention
      | CatNetwork \<Rightarrow> Inr HealthCoolingDown
      | CatTimeout \<Rightarrow> Inr HealthCoolingDown
      | CatRateLimit \<Rightarrow> Inr HealthCoolingDown
      | CatProviderQuota \<Rightarrow> Inr HealthCoolingDown
      | CatProviderUnavailable \<Rightarrow> Inr HealthCoolingDown
      | CatModelError \<Rightarrow> Inl True
      | CatUnknown \<Rightarrow> Inl True
      | _ \<Rightarrow> Inl False)"

definition failure_retry_at :: "pool_health_status \<Rightarrow> ai_provider_error \<Rightarrow> nat \<Rightarrow> nat \<Rightarrow> nat option" where
  "failure_retry_at status e now retry_delay =
     (if status = HealthCoolingDown
      then Some (sat_add_u64 now
             (max (case ape_retry_after_ms e of Some d \<Rightarrow> d | None \<Rightarrow> retry_delay) 1))
      else None)"

definition fail_reservation ::
  "pool_reservation \<Rightarrow> ai_provider_error \<Rightarrow> nat \<Rightarrow> nat \<Rightarrow> pool_router \<Rightarrow> bool \<times> pool_router" where
  "fail_reservation r e now retry_delay R =
     (case release r R of
        (False, R1) \<Rightarrow> (False, R1)
      | (True, R1) \<Rightarrow>
          (case failure_status (ape_category e) of
             Inl answer \<Rightarrow> (answer, R1)
           | Inr status \<Rightarrow>
               (let m = pb_model_id (rv_binding r) in
                if newer_evidence R1 m (pb_generation (rv_binding r)) then (True, R1)
                else (True, put_health m
                       (reservation_health r status (Some (category_text (ape_category e)))
                          (failure_retry_at status e now retry_delay)) R1))))"

section \<open>Sequences of operations\<close>

text \<open>
  What the clients of one router do to it, in the order in which they take its lock.
\<close>

datatype pool_event =
    EvReserve string string pool_strategy "pool_candidate list" "string set" nat nat
  | EvRenew pool_reservation nat nat
  | EvCancel pool_reservation
  | EvAccept pool_reservation
  | EvConfigurationFailed pool_reservation
  | EvFail pool_reservation ai_provider_error nat nat
  | EvRetryMember string
  | EvRestoreBinding string pool_binding
  | EvClearSession string
  | EvReleaseSession string
  | EvRestart

fun pool_step :: "pool_event \<Rightarrow> pool_router \<Rightarrow> pool_router" where
  "pool_step (EvReserve s p st cs ex now lease) R = snd (reserve s p st cs ex now lease R)"
| "pool_step (EvRenew r now lease) R = renew r now lease R"
| "pool_step (EvCancel r) R = cancel_reservation r R"
| "pool_step (EvAccept r) R = snd (accept r R)"
| "pool_step (EvConfigurationFailed r) R = configuration_failed r R"
| "pool_step (EvFail r e now delay) R = snd (fail_reservation r e now delay R)"
| "pool_step (EvRetryMember m) R = retry_member m R"
| "pool_step (EvRestoreBinding s b) R = restore_binding s b R"
| "pool_step (EvClearSession s) R = clear_pool_session s R"
| "pool_step (EvReleaseSession s) R = release_session_reservation s R"
| "pool_step EvRestart R = restarted R"

definition pool_run :: "pool_event list \<Rightarrow> pool_router \<Rightarrow> pool_router" where
  "pool_run es R = fold pool_step es R"

section \<open>What the clients may do\<close>

text \<open>Generations are \<open>u64\<close>; the only one that comes from outside is that of a restored binding.\<close>

fun event_ok :: "pool_event \<Rightarrow> bool" where
  "event_ok (EvRestoreBinding s b) \<longleftrightarrow> pb_generation b \<le> u64_max"
| "event_ok _ \<longleftrightarrow> True"

section \<open>Runs that keep an invariant and only move forward\<close>

text \<open>
  The contract of a state that versions its contents: every admissible step keeps the invariant and
  leads to a state that is not behind in the given order.  Runs then do the same.
\<close>

locale forward_steps =
  fixes step :: "'e \<Rightarrow> 's \<Rightarrow> 's"
    and admissible :: "'e \<Rightarrow> bool"
    and ok :: "'s \<Rightarrow> bool"
    and upto :: "'s \<Rightarrow> 's \<Rightarrow> bool"
  assumes ok_step: "ok s \<Longrightarrow> admissible e \<Longrightarrow> ok (step e s)"
    and upto_refl: "upto s s"
    and upto_trans: "upto s t \<Longrightarrow> upto t u \<Longrightarrow> upto s u"
    and upto_step: "ok s \<Longrightarrow> admissible e \<Longrightarrow> upto s (step e s)"
begin

lemma ok_run: "ok s \<Longrightarrow> list_all admissible es \<Longrightarrow> ok (fold step es s)"
  by (induction es arbitrary: s) (simp_all add: ok_step)

lemma upto_run: "ok s \<Longrightarrow> list_all admissible es \<Longrightarrow> upto s (fold step es s)"
proof (induction es arbitrary: s)
  case (Cons e es)
  then have "upto s (step e s)" "upto (step e s) (fold step es (step e s))"
    by (simp_all add: ok_step upto_step)
  then show ?case
    by (simp add: upto_trans)
qed (simp add: upto_refl)

end

section \<open>The invariant of the router\<close>

abbreviation rv_generation :: "pool_reservation \<Rightarrow> nat" where
  "rv_generation r \<equiv> pb_generation (rv_binding r)"

definition reservations_ok :: "nat \<Rightarrow> (string, pool_reservation) kv \<Rightarrow> bool" where
  "reservations_ok g m \<longleftrightarrow> kv_ok m
     \<and> (\<forall>s r. map_of m s = Some r \<longrightarrow> rv_session_id r = s \<and> rv_generation r \<le> g)
     \<and> (\<forall>s r s' r'. map_of m s = Some r \<longrightarrow> map_of m s' = Some r'
          \<longrightarrow> rv_generation r = rv_generation r' \<longrightarrow> rv_generation r < u64_max \<longrightarrow> s = s')"

definition pool_ok :: "pool_router \<Rightarrow> bool" where
  "pool_ok R \<longleftrightarrow> router_generation R \<le> u64_max
     \<and> reservations_ok (router_generation R) (reservations R)
     \<and> (\<forall>s b. bindings R s = Some b \<longrightarrow> pb_generation b \<le> router_generation R)
     \<and> (\<forall>m h. healths R m = Some h \<longrightarrow> ph_generation h \<le> router_generation R)"

lemma sat_step: "g \<le> u64_max \<Longrightarrow> g \<le> sat_add_u64 g 1"
  by (simp add: sat_add_u64_def)

lemma sat_step_Suc: "g \<le> u64_max \<Longrightarrow> g \<le> sat_add_u64 g (Suc 0)"
  by (simp add: sat_add_u64_def)

lemma sat_step_less: "g' < u64_max \<Longrightarrow> g' \<le> g \<Longrightarrow> g' < sat_add_u64 g 1"
  by (simp add: sat_add_u64_def)

lemma reservations_ok_mono: "reservations_ok g m \<Longrightarrow> g \<le> g' \<Longrightarrow> reservations_ok g' m"
  unfolding reservations_ok_def by (meson le_trans)

lemma reservations_ok_del: "reservations_ok g m \<Longrightarrow> reservations_ok g (kv_del s m)"
  unfolding reservations_ok_def by (auto split: if_splits)

lemma reservations_ok_retain: "reservations_ok g m \<Longrightarrow> reservations_ok g (kv_retain P m)"
  unfolding reservations_ok_def by (auto simp: kv_get_retain split: option.splits if_splits)

lemma reservations_ok_fresh:
  assumes "reservations_ok g m" and "g \<le> u64_max"
    and "rv_session_id r = s" and "rv_generation r = sat_add_u64 g 1"
  shows "reservations_ok (sat_add_u64 g 1) (kv_put s r m)"
proof -
  have old: "rv_generation r' \<le> g" if "map_of m s' = Some r'" for s' r'
    using assms(1) that by (simp add: reservations_ok_def)
  have other: "rv_generation r' \<noteq> rv_generation r"
    if "map_of m s' = Some r'" "rv_generation r' < u64_max" for s' r'
    using old [OF that(1)] sat_step_less [OF that(2)] assms(4) by fastforce
  have mono: "reservations_ok (sat_add_u64 g 1) m"
    by (rule reservations_ok_mono [OF assms(1) sat_step [OF assms(2)]])
  show ?thesis
    unfolding reservations_ok_def
  proof (intro conjI allI impI)
    show "kv_ok (kv_put s r m)"
      using mono by (simp add: reservations_ok_def)
  next
    fix s' r' assume "map_of (kv_put s r m) s' = Some r'"
    then show "rv_session_id r' = s'" and "rv_generation r' \<le> sat_add_u64 g 1"
      using mono assms(3,4) by (auto simp: reservations_ok_def split: if_splits)
  next
    fix s1 r1 s2 r2
    assume l: "map_of (kv_put s r m) s1 = Some r1" "map_of (kv_put s r m) s2 = Some r2"
      and e: "rv_generation r1 = rv_generation r2" "rv_generation r1 < u64_max"
    show "s1 = s2"
    proof (cases "s1 = s"; cases "s2 = s")
      assume "s1 \<noteq> s" "s2 \<noteq> s"
      then show ?thesis
        using l e mono unfolding reservations_ok_def by simp
    next
      assume "s1 = s" "s2 \<noteq> s"
      then show ?thesis
        using l e other [of s2 r2] by simp
    next
      assume "s1 \<noteq> s" "s2 = s"
      then show ?thesis
        using l e other [of s1 r1] by simp
    qed simp
  qed
qed

lemma reservations_ok_renew:
  assumes "reservations_ok g m" and "map_of m s = Some r"
  shows "reservations_ok g (kv_put s (r\<lparr>rv_expires_at := t\<rparr>) m)"
  using assms unfolding reservations_ok_def by (auto split: if_splits)

lemma reservations_ok_key:
  "reservations_ok g m \<Longrightarrow> map_of m s = Some r \<Longrightarrow> rv_session_id r = s \<and> rv_generation r \<le> g"
  by (simp add: reservations_ok_def)

lemma pool_ok_empty [inv_intros]: "pool_ok empty_router"
  by (simp add: pool_ok_def empty_router_def reservations_ok_def)

lemma pool_ok_retain [inv_intros]: "pool_ok R \<Longrightarrow> pool_ok (retain_live now R)"
  by (simp add: pool_ok_def retain_live_def reservations_ok_retain)

lemma release_cases:
  obtains "holds_reservation R r"
      "release r R = (True, R\<lparr>reservations := kv_del (rv_session_id r) (reservations R)\<rparr>)"
  | "\<not> holds_reservation R r" "release r R = (False, R)"
  by (cases "holds_reservation R r") (auto simp: release_def)

lemma holds_SomeD:
  assumes "holds_reservation R r"
  obtains active where "map_of (reservations R) (rv_session_id r) = Some active"
    "rv_generation active = rv_generation r"
  using assms by (auto simp: holds_reservation_def split: option.splits)

lemma holds_generation:
  assumes "pool_ok R" and "holds_reservation R r"
  shows "rv_generation r \<le> router_generation R"
  using assms(2)
proof (rule holds_SomeD)
  fix active
  assume "map_of (reservations R) (rv_session_id r) = Some active" "rv_generation active = rv_generation r"
  moreover have "reservations_ok (router_generation R) (reservations R)"
    using assms(1) by (simp add: pool_ok_def)
  ultimately show ?thesis
    by (metis reservations_ok_key)
qed

lemma pool_ok_del: "pool_ok R \<Longrightarrow> pool_ok (R\<lparr>reservations := kv_del s (reservations R)\<rparr>)"
  by (simp add: pool_ok_def reservations_ok_del)

lemma pool_ok_put_health:
  "pool_ok R \<Longrightarrow> ph_generation h \<le> router_generation R \<Longrightarrow> pool_ok (put_health m h R)"
  by (simp add: pool_ok_def put_health_def)

lemma pool_ok_bind:
  "pool_ok R \<Longrightarrow> pb_generation b \<le> router_generation R \<Longrightarrow> f = bindings R
   \<Longrightarrow> pool_ok (R\<lparr>bindings := f(s \<mapsto> b)\<rparr>)"
  by (simp add: pool_ok_def)

lemma pool_ok_raise:
  assumes "pool_ok R" and "router_generation R \<le> g" and "g \<le> u64_max"
  shows "pool_ok (R\<lparr>router_generation := g\<rparr>)"
  using assms reservations_ok_mono [of "router_generation R" "reservations R" g]
  unfolding pool_ok_def by (auto dest: order_trans) (meson order_trans)+

lemma pool_ok_reserved:
  assumes "pool_ok R" and "rv_session_id r = s" and "rv_generation r = sat_add_u64 (router_generation R) 1"
  shows "pool_ok (R\<lparr>router_generation := sat_add_u64 (router_generation R) 1,
    reservations := kv_put s r (reservations R)\<rparr>)"
proof -
  have "pool_ok (R\<lparr>router_generation := sat_add_u64 (router_generation R) 1\<rparr>)"
    using assms(1) by (intro pool_ok_raise) (simp_all add: pool_ok_def sat_step_Suc)
  moreover have "reservations_ok (sat_add_u64 (router_generation R) 1) (kv_put s r (reservations R))"
    using assms by (intro reservations_ok_fresh) (simp_all add: pool_ok_def)
  ultimately show ?thesis
    by (simp add: pool_ok_def)
qed

lemma release_ok:
  "pool_ok R \<Longrightarrow> release r R = (b, R1) \<Longrightarrow>
   pool_ok R1 \<and> router_generation R1 = router_generation R \<and> healths R1 = healths R
   \<and> bindings R1 = bindings R \<and> (b \<longrightarrow> rv_generation r \<le> router_generation R)"
  by (cases rule: release_cases [of R r]) (auto simp: pool_ok_del dest: holds_generation)

lemma reserve_result:
  obtains (refused) e where "reserve s pool strategy cs excluded now lease R = (Inl e, retain_live now R)"
  | (selected) c R1 r where
      "selected_candidate (retain_live now R) s pool strategy cs excluded now = Some c"
      "R1 = (retain_live now R)\<lparr>cursors := cursors R1\<rparr>"
      "r = \<lparr>rv_session_id = s, rv_binding = \<lparr>pb_pool_id = pool, pb_model_id = cd_model_id c,
              pb_fingerprint = cd_fingerprint c, pb_generation = sat_add_u64 (router_generation R) 1\<rparr>,
            rv_expires_at = lease_end now lease\<rparr>"
      "reserve s pool strategy cs excluded now lease R
       = (Inr r, R1\<lparr>router_generation := sat_add_u64 (router_generation R) 1,
            reservations := kv_put s r (reservations R1)\<rparr>)"
      "strategy \<noteq> StrategyUnsupported" "map_of (reservations (retain_live now R)) s = None"
proof (cases "strategy = StrategyUnsupported \<or> map_of (reservations (retain_live now R)) s \<noteq> None
    \<or> selected_candidate (retain_live now R) s pool strategy cs excluded now = None")
  case True
  then have "\<exists>e. reserve s pool strategy cs excluded now lease R = (Inl e, retain_live now R)"
    by (auto simp: reserve_def Let_def)
  then show ?thesis
    using that(1) by blast
next
  case False
  then obtain c where c: "selected_candidate (retain_live now R) s pool strategy cs excluded now = Some c"
    by auto
  define R1 where "R1 = (if sticky_candidate (retain_live now R) s pool cs excluded now = None
      \<and> strategy = StrategyBalanced
    then (retain_live now R)\<lparr>cursors :=
           (cursors (retain_live now R))(pool \<mapsto> advanced_cursor cs (cd_model_id c))\<rparr>
    else retain_live now R)"
  have g: "router_generation R1 = router_generation R" and c1: "R1 = (retain_live now R)\<lparr>cursors := cursors R1\<rparr>"
    by (simp_all add: R1_def retain_live_def)
  show ?thesis
    using False c by (intro that(2) [OF c c1 HOL.refl])
      (simp_all add: reserve_def Let_def R1_def [symmetric] g)
qed

lemma pool_ok_reserve [inv_intros]:
  assumes "pool_ok R"
  shows "pool_ok (snd (reserve s pool strategy cs excluded now lease R))"
proof (cases rule: reserve_result [of s pool strategy cs excluded now lease R])
  case (refused e)
  then show ?thesis
    using assms by (simp add: pool_ok_retain)
next
  case (selected c R1 r)
  have "pool_ok R1" and "router_generation R1 = router_generation R"
    using pool_ok_retain [OF assms, of now] selected(2)
    by (metis (no_types, lifting) pool_ok_def pool_router.select_convs(1,2,4,5)
        pool_router.simps(8) pool_router.surjective pool_router.update_convs(3),
      metis pool_router.select_convs(4) pool_router.surjective pool_router.update_convs(3,5)
        retain_live_def)
  then show ?thesis
    using pool_ok_reserved [of R1 r s] selected(3,4) by simp
qed

lemma generation_retain [simp]: "router_generation (retain_live now R) = router_generation R"
  and healths_retain [simp]: "healths (retain_live now R) = healths R"
  and bindings_retain [simp]: "bindings (retain_live now R) = bindings R"
  by (simp_all add: retain_live_def)

lemma router_eqI:
  assumes "R1 = R\<lparr>cursors := c\<rparr>"
  shows "router_generation R1 = router_generation R" and "healths R1 = healths R"
    and "bindings R1 = bindings R" and "reservations R1 = reservations R"
  using assms by simp_all

lemma put_health_fields [simp]:
  "router_generation (put_health m h R) = router_generation R"
  "reservations (put_health m h R) = reservations R"
  "bindings (put_health m h R) = bindings R"
  "healths (put_health m h R) = (healths R)(m \<mapsto> h)"
  by (simp_all add: put_health_def)

lemma pool_ok_accept [inv_intros]: "pool_ok R \<Longrightarrow> pool_ok (snd (accept r R))"
  unfolding accept_def
  by (cases "release r R")
    (auto simp: Let_def reservation_health_def dest: release_ok
      intro!: pool_ok_bind pool_ok_put_health split: bool.splits)

lemma pool_ok_configuration_failed [inv_intros]: "pool_ok R \<Longrightarrow> pool_ok (configuration_failed r R)"
  unfolding configuration_failed_def
  by (cases "release r R")
    (auto simp: Let_def reservation_health_def dest: release_ok intro!: pool_ok_put_health split: bool.splits)

lemma pool_ok_fail [inv_intros]: "pool_ok R \<Longrightarrow> pool_ok (snd (fail_reservation r e now delay R))"
  unfolding fail_reservation_def
  by (cases "release r R"; cases "failure_status (ape_category e)")
    (auto simp: Let_def reservation_health_def dest: release_ok intro!: pool_ok_put_health split: bool.splits)

lemma pool_ok_renew [inv_intros]: "pool_ok R \<Longrightarrow> pool_ok (renew r now lease R)"
  unfolding renew_def by (auto simp: pool_ok_def reservations_ok_renew split: option.splits)

lemma pool_ok_cancel [inv_intros]: "pool_ok R \<Longrightarrow> pool_ok (cancel_reservation r R)"
  unfolding cancel_reservation_def by (cases "release r R") (auto dest: release_ok)

lemma pool_ok_retry [inv_intros]:
  assumes "pool_ok R"
  shows "pool_ok (retry_member m R)"
proof -
  have "pool_ok (R\<lparr>router_generation := sat_add_u64 (router_generation R) 1\<rparr>)"
    using assms by (intro pool_ok_raise) (simp_all add: pool_ok_def sat_step_Suc)
  then show ?thesis
    unfolding retry_member_def pool_ok_def by (auto simp: Let_def split: option.splits)
qed

lemma pool_ok_restore [inv_intros]:
  assumes "pool_ok R" and "pb_generation b \<le> u64_max"
  shows "pool_ok (restore_binding s b R)"
proof -
  have "pool_ok (R\<lparr>router_generation := max (router_generation R) (pb_generation b)\<rparr>)"
    using assms by (intro pool_ok_raise) (simp_all add: pool_ok_def)
  then show ?thesis
    unfolding restore_binding_def pool_ok_def by (auto split: option.splits)
qed

lemma pool_ok_clear [inv_intros]: "pool_ok R \<Longrightarrow> pool_ok (clear_pool_session s R)"
  by (simp add: pool_ok_def clear_pool_session_def reservations_ok_del)

lemma pool_ok_release_session [inv_intros]: "pool_ok R \<Longrightarrow> pool_ok (release_session_reservation s R)"
  by (simp add: release_session_reservation_def pool_ok_del)

lemma pool_ok_restarted [inv_intros]: "pool_ok R \<Longrightarrow> pool_ok (restarted R)"
  by (simp add: pool_ok_def restarted_def reservations_ok_def)

lemma pool_ok_step: "pool_ok R \<Longrightarrow> event_ok e \<Longrightarrow> pool_ok (pool_step e R)"
  by (cases e) (simp_all add: inv_intros)

section \<open>Evidence only gets newer\<close>

definition evidence_upto :: "pool_router \<Rightarrow> pool_router \<Rightarrow> bool" where
  "evidence_upto R R' \<longleftrightarrow> router_generation R \<le> router_generation R'
     \<and> (\<forall>m h. healths R m = Some h \<longrightarrow>
          (\<exists>h'. healths R' m = Some h' \<and> ph_generation h \<le> ph_generation h'
            \<and> (h' = h \<or> ph_generation h < ph_generation h' \<or> ph_generation h = u64_max)))"

lemma evidence_upto_refl: "evidence_upto R R"
  by (simp add: evidence_upto_def)

lemma evidence_upto_trans:
  assumes "evidence_upto R S" and "evidence_upto S T"
  shows "evidence_upto R T"
  unfolding evidence_upto_def
proof (intro conjI allI impI)
  show "router_generation R \<le> router_generation T"
    using assms unfolding evidence_upto_def by linarith
next
  fix m h assume "healths R m = Some h"
  then obtain h1 where h1: "healths S m = Some h1" "ph_generation h \<le> ph_generation h1"
      "h1 = h \<or> ph_generation h < ph_generation h1 \<or> ph_generation h = u64_max"
    using assms(1) unfolding evidence_upto_def by blast
  then obtain h2 where h2: "healths T m = Some h2" "ph_generation h1 \<le> ph_generation h2"
      "h2 = h1 \<or> ph_generation h1 < ph_generation h2 \<or> ph_generation h1 = u64_max"
    using assms(2) unfolding evidence_upto_def by blast
  have "h2 = h \<or> ph_generation h < ph_generation h2 \<or> ph_generation h = u64_max"
    using h1(3) h2(2,3) by auto
  then show "\<exists>h'. healths T m = Some h' \<and> ph_generation h \<le> ph_generation h'
      \<and> (h' = h \<or> ph_generation h < ph_generation h' \<or> ph_generation h = u64_max)"
    using h1(2) h2(1,2) by auto
qed

lemma evidence_upto_same:
  "healths R' = healths R \<Longrightarrow> router_generation R \<le> router_generation R' \<Longrightarrow> evidence_upto R R'"
  by (simp add: evidence_upto_def)

lemma evidence_upto_put:
  assumes "healths R' = (healths R)(m \<mapsto> h')" and "router_generation R' = router_generation R"
    and "\<And>h. healths R m = Some h \<Longrightarrow> ph_generation h < ph_generation h'"
  shows "evidence_upto R R'"
  using assms by (auto simp: evidence_upto_def less_imp_le)

lemma release_same:
  "release r R = (b, R1) \<Longrightarrow>
   healths R1 = healths R \<and> router_generation R1 = router_generation R \<and> bindings R1 = bindings R"
  by (cases rule: release_cases [of R r]) auto

lemma not_newer: "\<not> newer_evidence R m g \<Longrightarrow> healths R m = Some h \<Longrightarrow> ph_generation h < g"
  by (simp add: newer_evidence_def)

lemma evidence_accept: "evidence_upto R (snd (accept r R))"
proof (cases "release r R")
  case (Pair b R1)
  note same = release_same [OF Pair]
  show ?thesis
  proof (cases "b \<and> (case healths R1 (pb_model_id (rv_binding r)) of None \<Rightarrow> True
      | Some h \<Rightarrow> ph_generation h < rv_generation r)")
    case True
    then show ?thesis
      using same Pair
      by (intro evidence_upto_put [where m = "pb_model_id (rv_binding r)"
            and h' = "reservation_health r HealthAvailable None None"])
        (auto simp: accept_def Let_def put_health_def reservation_health_def)
  next
    case False
    then show ?thesis
      using same Pair by (intro evidence_upto_same) (auto simp: accept_def Let_def split: bool.splits)
  qed
qed

lemma evidence_configuration_failed: "evidence_upto R (configuration_failed r R)"
proof (cases "release r R")
  case (Pair b R1)
  note same = release_same [OF Pair]
  show ?thesis
  proof (cases "b \<and> \<not> newer_evidence R1 (pb_model_id (rv_binding r)) (rv_generation r)")
    case True
    then show ?thesis
      using same Pair not_newer [of R1 "pb_model_id (rv_binding r)" "rv_generation r"]
      by (intro evidence_upto_put [where m = "pb_model_id (rv_binding r)"
            and h' = "reservation_health r HealthNeedsAttention (Some ''configuration'') None"])
        (auto simp: configuration_failed_def Let_def put_health_def reservation_health_def)
  next
    case False
    then show ?thesis
      using same Pair
      by (intro evidence_upto_same) (auto simp: configuration_failed_def Let_def split: bool.splits)
  qed
qed

lemma evidence_fail: "evidence_upto R (snd (fail_reservation r e now delay R))"
proof (cases "release r R")
  case (Pair b R1)
  note same = release_same [OF Pair]
  show ?thesis
  proof (cases "failure_status (ape_category e)")
    case (Inl a)
    then show ?thesis
      using same Pair by (intro evidence_upto_same) (auto simp: fail_reservation_def split: bool.splits)
  next
    case (Inr st)
    show ?thesis
    proof (cases "b \<and> \<not> newer_evidence R1 (pb_model_id (rv_binding r)) (rv_generation r)")
      case True
      then show ?thesis
        using same Pair Inr not_newer [of R1 "pb_model_id (rv_binding r)" "rv_generation r"]
        by (intro evidence_upto_put [where m = "pb_model_id (rv_binding r)" and h' = "reservation_health r st
              (Some (category_text (ape_category e))) (failure_retry_at st e now delay)"])
          (auto simp: fail_reservation_def Let_def put_health_def reservation_health_def)
    next
      case False
      then show ?thesis
        using same Pair Inr
        by (intro evidence_upto_same) (auto simp: fail_reservation_def Let_def split: bool.splits)
    qed
  qed
qed

lemma evidence_retry:
  assumes "pool_ok R"
  shows "evidence_upto R (retry_member m R)"
proof -
  have g: "router_generation R \<le> sat_add_u64 (router_generation R) (Suc 0)"
    using assms by (simp add: pool_ok_def sat_step_Suc)
  have le: "ph_generation h \<le> router_generation R" if "healths R m' = Some h" for m' h
    using assms that by (simp add: pool_ok_def)
  have "ph_generation h < sat_add_u64 (router_generation R) (Suc 0) \<or> ph_generation h = u64_max"
    if "healths R m' = Some h" for m' h
    using le [OF that] assms by (auto simp: sat_add_u64_def pool_ok_def)
  then show ?thesis
    using g le by (fastforce simp: evidence_upto_def retry_member_def Let_def split: option.splits)
qed

lemma evidence_reserve:
  assumes "pool_ok R"
  shows "evidence_upto R (snd (reserve s pool strategy cs excluded now lease R))"
proof (cases rule: reserve_result [of s pool strategy cs excluded now lease R])
  case (selected c R1 r)
  then show ?thesis
    using assms router_eqI [OF selected(2)]
    by (intro evidence_upto_same) (simp_all add: pool_ok_def sat_step_Suc)
qed (simp add: evidence_upto_same)

lemma evidence_step: "pool_ok R \<Longrightarrow> event_ok e \<Longrightarrow> evidence_upto R (pool_step e R)"
  by (cases e)
    (auto simp: evidence_accept evidence_configuration_failed evidence_fail evidence_retry evidence_reserve
      renew_def cancel_reservation_def restore_binding_def clear_pool_session_def restarted_def
      release_session_reservation_def release_def intro!: evidence_upto_same split: option.splits)

interpretation evidence: forward_steps pool_step event_ok pool_ok evidence_upto
  by unfold_locales (simp_all add: pool_ok_step evidence_step evidence_upto_refl, rule evidence_upto_trans)

section \<open>A reservation that ended stays ended\<close>

definition gone_upto :: "pool_reservation \<Rightarrow> pool_router \<Rightarrow> pool_router \<Rightarrow> bool" where
  "gone_upto r R R' \<longleftrightarrow> router_generation R \<le> router_generation R'
     \<and> (holds_reservation R' r \<longrightarrow> rv_generation r \<le> router_generation R \<longrightarrow> rv_generation r < u64_max
        \<longrightarrow> holds_reservation R r)"

lemma gone_upto_trans:
  "gone_upto r R S \<Longrightarrow> gone_upto r S T \<Longrightarrow> gone_upto r R T"
  by (auto simp: gone_upto_def)

text \<open>Operations that add no reservation.\<close>

lemma gone_uptoI:
  assumes "router_generation R \<le> router_generation R'"
    and "\<And>s a. map_of (reservations R') s = Some a
           \<Longrightarrow> \<exists>b. map_of (reservations R) s = Some b \<and> rv_generation b = rv_generation a"
  shows "gone_upto r R R'"
  using assms(1) assms(2) [of "rv_session_id r"]
  unfolding gone_upto_def holds_reservation_def by (auto split: option.splits)

lemma gone_release: "release r' R = (b, R1) \<Longrightarrow> gone_upto r R R1"
  by (cases rule: release_cases [of R r']) (auto intro!: gone_uptoI split: if_splits)

lemma gone_after:
  assumes "gone_upto r R R1" and "router_generation R2 = router_generation R1"
    and "reservations R2 = reservations R1"
  shows "gone_upto r R R2"
  using assms by (simp add: gone_upto_def holds_reservation_def)

lemma gone_accept: "gone_upto r R (snd (accept r' R))"
  by (cases "release r' R")
    (auto simp: accept_def Let_def split: bool.splits intro: gone_after [OF gone_release])

lemma gone_configuration_failed: "gone_upto r R (configuration_failed r' R)"
  by (cases "release r' R")
    (auto simp: configuration_failed_def Let_def split: bool.splits intro: gone_after [OF gone_release])

lemma gone_fail: "gone_upto r R (snd (fail_reservation r' e now delay R))"
  by (cases "release r' R")
    (auto simp: fail_reservation_def Let_def split: bool.splits sum.splits
      intro: gone_after [OF gone_release])

lemma gone_retain: "pool_ok R \<Longrightarrow> gone_upto r R (retain_live now R)"
  by (intro gone_uptoI)
    (auto simp: retain_live_def pool_ok_def reservations_ok_def kv_get_retain split: option.splits if_splits)

lemma gone_reserve:
  assumes "pool_ok R"
  shows "gone_upto r R (snd (reserve s pool strategy cs excluded now lease R))"
proof (cases rule: reserve_result [of s pool strategy cs excluded now lease R])
  case (refused e)
  then show ?thesis
    by (simp add: gone_retain [OF assms])
next
  case (selected c R1 r0)
  note eqs = router_eqI [OF selected(2)]
  have le: "router_generation R \<le> sat_add_u64 (router_generation R) (Suc 0)"
    using assms by (simp add: pool_ok_def sat_step_Suc)
  have "rv_generation r \<noteq> rv_generation r0"
    if "rv_generation r \<le> router_generation R" "rv_generation r < u64_max"
    using sat_step_less [OF that(2,1)] selected(3) by simp
  then show ?thesis
    using gone_retain [OF assms, of r now] selected(4) eqs le
    by (auto simp: gone_upto_def holds_reservation_def split: if_splits)
qed

lemma gone_step: "pool_ok R \<Longrightarrow> event_ok e \<Longrightarrow> gone_upto r R (pool_step e R)"
proof (cases e)
  case (EvRetryMember m)
  assume "pool_ok R"
  then have "router_generation R \<le> sat_add_u64 (router_generation R) (Suc 0)"
    by (simp add: pool_ok_def sat_step_Suc)
  then show ?thesis
    by (auto simp: EvRetryMember retry_member_def Let_def intro!: gone_uptoI split: option.splits)
next
  case (EvRenew r' now lease)
  show ?thesis
    by (auto simp: EvRenew renew_def intro!: gone_uptoI split: option.splits if_splits)
next
  case (EvCancel r')
  then show ?thesis
    by (cases "release r' R") (auto simp: cancel_reservation_def dest: gone_release)
qed (auto simp: gone_reserve gone_accept gone_configuration_failed gone_fail restore_binding_def
  clear_pool_session_def release_session_reservation_def restarted_def intro!: gone_uptoI split: if_splits)

interpretation gone: forward_steps pool_step event_ok pool_ok "gone_upto r" for r
  by unfold_locales (simp_all add: pool_ok_step gone_step, simp add: gone_upto_def, rule gone_upto_trans)

text \<open>The events that end a reservation; the lease runs out when the next selection sees it expired.\<close>

fun ends_reservation :: "pool_router \<Rightarrow> pool_reservation \<Rightarrow> pool_event \<Rightarrow> bool" where
  "ends_reservation R r (EvReserve s p st cs ex now lease) \<longleftrightarrow>
     (case map_of (reservations R) (rv_session_id r) of
        Some a \<Rightarrow> rv_expires_at a \<le> now | None \<Rightarrow> True)"
| "ends_reservation R r (EvCancel r') \<longleftrightarrow> r' = r"
| "ends_reservation R r (EvAccept r') \<longleftrightarrow> r' = r"
| "ends_reservation R r (EvConfigurationFailed r') \<longleftrightarrow> r' = r"
| "ends_reservation R r (EvFail r' e now delay) \<longleftrightarrow> r' = r"
| "ends_reservation R r (EvClearSession s) \<longleftrightarrow> s = rv_session_id r"
| "ends_reservation R r (EvReleaseSession s) \<longleftrightarrow> s = rv_session_id r"
| "ends_reservation R r EvRestart \<longleftrightarrow> True"
| "ends_reservation R r _ \<longleftrightarrow> False"

lemma released_not_held: "release r R = (b, R1) \<Longrightarrow> \<not> holds_reservation R1 r"
  by (cases rule: release_cases [of R r]) (auto simp: holds_reservation_def)

lemma holds_cong:
  "reservations R2 = reservations R1 \<Longrightarrow> holds_reservation R2 r = holds_reservation R1 r"
  by (simp add: holds_reservation_def)

lemma accept_reservations: "reservations (snd (accept r R)) = reservations (snd (release r R))"
  by (cases "release r R") (auto simp: accept_def Let_def split: bool.splits)

lemma configuration_failed_reservations:
  "reservations (configuration_failed r R) = reservations (snd (release r R))"
  by (cases "release r R") (auto simp: configuration_failed_def Let_def split: bool.splits)

lemma fail_reservations:
  "reservations (snd (fail_reservation r e now delay R)) = reservations (snd (release r R))"
  by (cases "release r R") (auto simp: fail_reservation_def Let_def split: bool.splits sum.splits)

lemma reserve_ends_expired:
  assumes "pool_ok R" and "rv_generation r \<le> router_generation R" and "rv_generation r < u64_max"
    and expired: "case map_of (reservations R) (rv_session_id r) of Some a \<Rightarrow> rv_expires_at a \<le> now | None \<Rightarrow> True"
  shows "\<not> holds_reservation (snd (reserve s p st cs ex now lease R)) r"
proof -
  have kv: "kv_ok (reservations R)"
    using assms(1) by (simp add: pool_ok_def reservations_ok_def)
  have gone: "map_of (reservations (retain_live now R)) (rv_session_id r) = None"
    using expired by (auto simp: retain_live_def kv_get_retain [OF kv] split: option.splits)
  show ?thesis
  proof (cases rule: reserve_result [of s p st cs ex now lease R])
    case (refused e)
    then show ?thesis
      using gone by (simp add: holds_reservation_def)
  next
    case (selected c R1 r0)
    have "rv_generation r \<noteq> rv_generation r0"
      using sat_step_less [OF assms(3,2)] selected(3) by simp
    then show ?thesis
      using gone selected(4) router_eqI(4) [OF selected(2)] by (auto simp: holds_reservation_def)
  qed
qed

lemma ended_not_held:
  assumes "pool_ok R" and "rv_generation r \<le> router_generation R" and "rv_generation r < u64_max"
    and "ends_reservation R r e"
  shows "\<not> holds_reservation (pool_step e R) r"
proof -
  have rel: "\<not> holds_reservation (snd (release r R)) r"
    by (cases "release r R") (simp add: released_not_held)
  show ?thesis
  proof (cases e)
    case (EvReserve s p st cs ex now lease)
    then show ?thesis
      using assms by (simp add: reserve_ends_expired)
  next
    case (EvAccept r')
    then show ?thesis
      using assms(4) rel holds_cong [OF accept_reservations, of r R r] by simp
  next
    case (EvConfigurationFailed r')
    then show ?thesis
      using assms(4) rel holds_cong [OF configuration_failed_reservations, of r R r] by simp
  next
    case (EvFail r' err now delay)
    then show ?thesis
      using assms(4) rel holds_cong [OF fail_reservations, of r err now delay R r] by simp
  qed (use assms(4) rel in \<open>auto simp: cancel_reservation_def holds_reservation_def clear_pool_session_def
        release_session_reservation_def restarted_def\<close>)
qed

lemma not_held_publishes_nothing:
  assumes "\<not> holds_reservation R r"
  shows "accept r R = (False, R)" and "fail_reservation r e now delay R = (False, R)"
    and "configuration_failed r R = R" and "renew r now lease R = R" and "cancel_reservation r R = R"
  using assms
  by (auto simp: accept_def fail_reservation_def configuration_failed_def release_def cancel_reservation_def
      renew_def holds_reservation_def split: option.splits)

lemma ended_stays_ended:
  assumes "pool_ok R" and "rv_generation r \<le> router_generation R" and "rv_generation r < u64_max"
    and "list_all event_ok (es1 @ e # es2)" and "ends_reservation (pool_run es1 R) r e"
  shows "\<not> holds_reservation (pool_run (es1 @ e # es2) R) r"
proof -
  let ?R1 = "pool_run es1 R"
  have ok1: "pool_ok ?R1"
    using assms(1,4) evidence.ok_run [of R es1] by (simp add: pool_run_def)
  have g1: "rv_generation r \<le> router_generation ?R1"
    using gone.upto_run [of R es1 r] assms(1,2,4) by (simp add: pool_run_def gone_upto_def)
  let ?R2 = "pool_step e ?R1"
  have ok2: "pool_ok ?R2"
    using ok1 assms(4) by (simp add: pool_ok_step)
  have g2: "rv_generation r \<le> router_generation ?R2"
    using gone_step [OF ok1, of e r] g1 assms(4) by (simp add: gone_upto_def)
  have "gone_upto r ?R2 (fold pool_step es2 ?R2)"
    using gone.upto_run [OF ok2] assms(4) by simp
  then show ?thesis
    using ended_not_held [OF ok1 g1 assms(3,5)] g2 assms(3) by (auto simp: pool_run_def gone_upto_def)
qed

section \<open>What a selection picks\<close>

lemma current_health_retain [simp]: "current_health (retain_live now R) = current_health R"
  by (simp add: current_health_def fun_eq_iff)

lemma in_flight_retain [simp]: "in_flight (retain_live now R) c now = in_flight R c now"
  by (auto simp: in_flight_def retain_live_def kv_retain_def list_ex_iff)

lemma member_ready_retain [simp]: "member_ready (retain_live now R) c now = member_ready R c now"
  by (simp add: member_ready_def cong: option.case_cong pool_health_status.case_cong)

lemma selectable_retain [simp]: "selectable (retain_live now R) excluded now = selectable R excluded now"
  by (simp add: selectable_def fun_eq_iff)

lemma sticky_retain [simp]:
  "sticky_candidate (retain_live now R) s pool cs excluded now = sticky_candidate R s pool cs excluded now"
  by (simp add: sticky_candidate_def split: option.split)

lemma rotation_retain [simp]:
  "rotation_start (retain_live now R) pool strategy cs = rotation_start R pool strategy cs"
  by (simp add: rotation_start_def retain_live_def)

lemma selected_retain [simp]:
  "selected_candidate (retain_live now R) s pool strategy cs excluded now
   = selected_candidate R s pool strategy cs excluded now"
  by (simp add: selected_candidate_def split: option.split)

lemma earliest_retry_retain [simp]: "earliest_retry (retain_live now R) cs now = earliest_retry R cs now"
  by (simp add: earliest_retry_def)

lemma live_lookup:
  assumes "pool_ok R"
  shows "map_of (reservations (retain_live now R)) s =
    (case map_of (reservations R) s of Some r \<Rightarrow> if now < rv_expires_at r then Some r else None | None \<Rightarrow> None)"
  using assms by (simp add: retain_live_def pool_ok_def reservations_ok_def kv_get_retain)

lemma set_cycle_from [simp]: "set (cycle_from k xs) = set xs"
  by (metis append_take_drop_id cycle_from_def set_append Un_commute)

lemma mset_cycle_from [simp]: "mset (cycle_from k xs) = mset xs"
  by (metis append_take_drop_id cycle_from_def mset_append add.commute)

lemma cycle_from_0 [simp]: "cycle_from 0 xs = xs"
  by (simp add: cycle_from_def)

lemma find_SomeD: "find P xs = Some x \<Longrightarrow> x \<in> set xs \<and> P x"
  by (auto simp: find_Some_iff)

lemma find_split:
  "find P xs = Some x \<Longrightarrow> \<exists>skipped rest. xs = skipped @ x # rest \<and> (\<forall>y \<in> set skipped. \<not> P y)"
proof (induction xs)
  case (Cons y ys)
  show ?case
  proof (cases "P y")
    case True
    then show ?thesis
      using Cons.prems by (intro exI [of _ "[]"] exI [of _ ys]) simp
  next
    case False
    then obtain skipped rest where "ys = skipped @ x # rest \<and> (\<forall>y \<in> set skipped. \<not> P y)"
      using Cons by auto
    then show ?thesis
      using False by (intro exI [of _ "y # skipped"] exI [of _ rest]) simp
  qed
qed simp

lemma sticky_SomeD:
  assumes "sticky_candidate R s pool cs excluded now = Some c"
  obtains b where "bindings R s = Some b" "pb_pool_id b = pool" "c \<in> set cs"
    "selectable R excluded now c" "cd_model_id c = pb_model_id b" "cd_fingerprint c = pb_fingerprint b"
proof -
  obtain b where b: "bindings R s = Some b" "pb_pool_id b = pool"
      "find (\<lambda>c. cd_model_id c = pb_model_id b \<and> cd_fingerprint c = pb_fingerprint b)
         (filter (selectable R excluded now) cs) = Some c"
    using assms by (auto simp: sticky_candidate_def split: option.splits if_splits)
  then have "c \<in> set (filter (selectable R excluded now) cs)
      \<and> cd_model_id c = pb_model_id b \<and> cd_fingerprint c = pb_fingerprint b"
    using find_SomeD [OF b(3)] by simp
  then show ?thesis
    using that b(1,2) by auto
qed

lemma sticky_None_iff:
  "sticky_candidate R s pool cs excluded now = None \<longleftrightarrow>
   \<not> (\<exists>b. bindings R s = Some b \<and> pb_pool_id b = pool \<and> (\<exists>c \<in> set cs. selectable R excluded now c
        \<and> cd_model_id c = pb_model_id b \<and> cd_fingerprint c = pb_fingerprint b))"
  by (auto simp: sticky_candidate_def find_None_iff split: option.splits)

lemma selected_SomeD:
  assumes "selected_candidate R s pool strategy cs excluded now = Some c"
  shows "c \<in> set cs \<and> selectable R excluded now c"
proof (cases "sticky_candidate R s pool cs excluded now")
  case None
  then have "find (selectable R excluded now) (cycle_from (rotation_start R pool strategy cs) cs) = Some c"
    using assms by (simp add: selected_candidate_def)
  from find_SomeD [OF this] show ?thesis
    by simp
next
  case (Some c')
  then show ?thesis
    using assms by (auto simp: selected_candidate_def elim: sticky_SomeD)
qed

lemma selected_None_iff:
  "selected_candidate R s pool strategy cs excluded now = None \<longleftrightarrow>
   \<not> (\<exists>c \<in> set cs. selectable R excluded now c)"
proof (cases "sticky_candidate R s pool cs excluded now")
  case None
  then show ?thesis
    by (auto simp: selected_candidate_def find_None_iff)
next
  case (Some c')
  then have "c' \<in> set cs \<and> selectable R excluded now c'"
    by (auto elim: sticky_SomeD)
  then show ?thesis
    using Some by (auto simp: selected_candidate_def)
qed

lemma reserve_Inr:
  assumes "reserve s pool strategy cs excluded now lease R = (Inr r, R')"
  obtains c where "selected_candidate R s pool strategy cs excluded now = Some c"
    "rv_session_id r = s" "rv_binding r = \<lparr>pb_pool_id = pool, pb_model_id = cd_model_id c,
       pb_fingerprint = cd_fingerprint c, pb_generation = sat_add_u64 (router_generation R) 1\<rparr>"
    "rv_expires_at r = lease_end now lease" "strategy \<noteq> StrategyUnsupported"
    "map_of (reservations (retain_live now R)) s = None"
    "reservations R' = kv_put s r (reservations (retain_live now R))"
    "router_generation R' = sat_add_u64 (router_generation R) 1" "healths R' = healths R"
    "bindings R' = bindings R"
proof (cases rule: reserve_result [of s pool strategy cs excluded now lease R])
  case (refused e)
  then show ?thesis
    using assms by simp
next
  case (selected c R1 r0)
  then have r: "r = r0" and R': "R' = R1\<lparr>router_generation := sat_add_u64 (router_generation R) 1,
      reservations := kv_put s r (reservations R1)\<rparr>"
    using assms by auto
  then show ?thesis
    using that [of c] selected router_eqI [OF selected(2)] by simp
qed

lemma reserve_error_iff:
  assumes "pool_ok R" and "reserve s pool strategy cs excluded now lease R = (res, R')"
  shows "res = Inl UnsupportedStrategy \<longleftrightarrow> strategy = StrategyUnsupported"
    and "res = Inl RequestInProgress \<longleftrightarrow> strategy \<noteq> StrategyUnsupported
      \<and> (\<exists>r. map_of (reservations R) s = Some r \<and> now < rv_expires_at r)"
    and "res = Inl (PoolUnavailable t) \<longleftrightarrow> strategy \<noteq> StrategyUnsupported
      \<and> \<not> (\<exists>r. map_of (reservations R) s = Some r \<and> now < rv_expires_at r)
      \<and> \<not> (\<exists>c \<in> set cs. selectable R excluded now c) \<and> t = earliest_retry R cs now"
  using assms(2)
  by (auto simp: reserve_def Let_def live_lookup [OF assms(1)] selected_None_iff
      split: if_splits option.splits dest: selected_SomeD)

text \<open>The member chosen when the session has none it keeps: the first ready one in rotation order.\<close>

lemma selected_rotation:
  assumes "selected_candidate R s pool strategy cs excluded now = Some c"
    and "sticky_candidate R s pool cs excluded now = None"
  shows "\<exists>skipped rest. cycle_from (rotation_start R pool strategy cs) cs = skipped @ c # rest
    \<and> (\<forall>x \<in> set skipped. \<not> selectable R excluded now x)"
proof -
  have "find (selectable R excluded now) (cycle_from (rotation_start R pool strategy cs) cs) = Some c"
    using assms by (simp add: selected_candidate_def)
  then show ?thesis
    by (rule find_split)
qed

lemma in_flight_lookup:
  assumes "map_of (reservations R) s = Some r" and "now < rv_expires_at r"
    and "pb_model_id (rv_binding r) = cd_model_id c" and "pb_fingerprint (rv_binding r) = cd_fingerprint c"
  shows "in_flight R c now"
  using map_of_SomeD [OF assms(1)] assms(2-) by (auto simp: in_flight_def list_ex_iff)

section \<open>The balanced rotation\<close>

definition healthy :: "pool_router \<Rightarrow> pool_candidate \<Rightarrow> bool" where
  "healthy R c \<longleftrightarrow> cd_eligible c
     \<and> (case current_health R c of
          None \<Rightarrow> True
        | Some h \<Rightarrow> ph_status h \<noteq> HealthNeedsAttention \<and> ph_status h \<noteq> HealthCoolingDown)"

lemma healthy_ready: "healthy R c \<Longrightarrow> member_ready R c now"
  by (auto simp: healthy_def member_ready_def split: option.splits pool_health_status.splits)

lemma member_position_nth:
  "distinct (map cd_model_id cs) \<Longrightarrow> i < length cs \<Longrightarrow> member_position cs (cd_model_id (cs ! i)) = Some i"
  unfolding member_position_def
proof (induction cs arbitrary: i)
  case (Cons c cs)
  then show ?case
    by (cases i) (auto simp: nth_Cons image_iff)
qed simp

lemma member_position_less: "member_position cs m = Some i \<Longrightarrow> i < length cs"
  unfolding member_position_def by (simp add: position_SomeD)

lemma find_position_less: "find_position (member_position cs) xs = Some i \<Longrightarrow> i < length cs"
  by (induction xs) (auto simp: member_position_less split: option.splits)

lemma rotation_start_less: "cs \<noteq> [] \<Longrightarrow> rotation_start R pool strategy cs < length cs"
  unfolding rotation_start_def cursor_start_def
  by (auto simp: Let_def split: option.splits dest: member_position_less find_position_less)

lemma cycle_from_head: "k < length xs \<Longrightarrow> \<exists>rest. cycle_from k xs = xs ! k # rest"
  by (simp add: cycle_from_def Cons_nth_drop_Suc [symmetric])

lemma rotation_advanced:
  assumes "distinct (map cd_model_id cs)" and "k < length cs"
    and "cursors R pool = Some (advanced_cursor cs (cd_model_id (cs ! k)))"
  shows "rotation_start R pool StrategyBalanced cs = Suc k mod length cs"
proof -
  have "Suc k mod length cs < length cs"
    using assms(2) by (intro mod_less_divisor) linarith
  then have "member_position cs (cd_model_id (cs ! (Suc k mod length cs))) = Some (Suc k mod length cs)"
    by (rule member_position_nth [OF assms(1)])
  then show ?thesis
    using member_position_nth [OF assms(1,2)] assms(3)
    by (simp add: rotation_start_def cursor_start_def advanced_cursor_def)
qed

text \<open>A session the router knows nothing of.\<close>

definition fresh_session :: "pool_router \<Rightarrow> string \<Rightarrow> bool" where
  "fresh_session R s \<longleftrightarrow> bindings R s = None \<and> map_of (reservations R) s = None"

lemma balanced_reserve:
  fixes pool s :: string and now lease :: nat
  assumes "pool_ok R" and "distinct (map cd_model_id cs)" and "cs \<noteq> []"
    and "list_all (healthy R) cs" and "fresh_session R s"
  defines "k \<equiv> rotation_start R pool StrategyBalanced cs"
  obtains r R1 where "reserve s pool StrategyBalanced cs {} now lease R = (Inr r, R1)"
    "rv_session_id r = s" "pb_model_id (rv_binding r) = cd_model_id (cs ! k)"
    "rotation_start R1 pool StrategyBalanced cs = Suc k mod length cs"
    "healths R1 = healths R" "bindings R1 = bindings R"
    "\<forall>s'. s' \<noteq> s \<longrightarrow> map_of (reservations R) s' = None \<longrightarrow> map_of (reservations R1) s' = None"
proof -
  have k: "k < length cs"
    unfolding k_def by (rule rotation_start_less [OF assms(3)])
  have sticky: "sticky_candidate R s pool cs {} now = None"
    using assms(5) by (simp add: sticky_candidate_def fresh_session_def)
  have "selectable R {} now (cs ! k)"
    using assms(4) k by (simp add: selectable_def healthy_ready list_all_length)
  then have sel: "selected_candidate R s pool StrategyBalanced cs {} now = Some (cs ! k)"
    using cycle_from_head [OF k] sticky by (auto simp: selected_candidate_def k_def)
  have free: "map_of (reservations (retain_live now R)) s = None"
    using assms(5) by (simp add: live_lookup [OF assms(1)] fresh_session_def)
  have others: "map_of (reservations (retain_live now R)) s' = None"
    if "map_of (reservations R) s' = None" for s'
    using that by (simp add: live_lookup [OF assms(1)])
  let ?R1 = "snd (reserve s pool StrategyBalanced cs {} now lease R)"
  have cur: "cursors ?R1 pool = Some (advanced_cursor cs (cd_model_id (cs ! k)))"
    using sel sticky free by (simp add: reserve_def Let_def)
  obtain r where r: "reserve s pool StrategyBalanced cs {} now lease R = (Inr r, ?R1)"
    using sel sticky free by (simp add: reserve_def Let_def)
  from r obtain c where c: "selected_candidate R s pool StrategyBalanced cs {} now = Some c"
      "rv_session_id r = s" "pb_model_id (rv_binding r) = cd_model_id c"
      "reservations ?R1 = kv_put s r (reservations (retain_live now R))"
      "healths ?R1 = healths R" "bindings ?R1 = bindings R"
    by (rule reserve_Inr) auto
  show ?thesis
    using c sel others by (intro that [OF r]) (simp_all add: rotation_advanced [OF assms(2) k cur])
qed

text \<open>
  New sessions arriving one after the other; each is given a time, and whether its first response is
  accepted before the next session arrives.
\<close>

fun assign_fresh ::
  "string \<Rightarrow> pool_candidate list \<Rightarrow> nat \<Rightarrow> (string \<times> nat \<times> bool) list \<Rightarrow> pool_router
   \<Rightarrow> string list \<times> pool_router" where
  "assign_fresh pool cs lease [] R = ([], R)"
| "assign_fresh pool cs lease ((s, now, taken) # ss) R =
     (case reserve s pool StrategyBalanced cs {} now lease R of
        (Inl _, R1) \<Rightarrow> assign_fresh pool cs lease ss R1
      | (Inr r, R1) \<Rightarrow>
          (case assign_fresh pool cs lease ss (if taken then snd (accept r R1) else R1) of
             (ms, R2) \<Rightarrow> (pb_model_id (rv_binding r) # ms, R2)))"

lemma accept_keeps:
  "cursors (snd (accept r R)) = cursors R"
  "s \<noteq> rv_session_id r \<Longrightarrow> fresh_session R s \<Longrightarrow> fresh_session (snd (accept r R)) s"
  by (cases rule: release_cases [of R r];
      simp add: accept_def Let_def fresh_session_def put_health_def)+

lemma accept_healthy: "healthy R c \<Longrightarrow> healthy (snd (accept r R)) c"
  by (cases rule: release_cases [of R r])
    (auto simp: accept_def Let_def healthy_def current_health_def reservation_health_def
      split: option.splits if_splits)

lemma assign_fresh_turns:
  assumes "pool_ok R" and "distinct (map cd_model_id cs)" and "cs \<noteq> []"
    and "list_all (healthy R) cs" and "list_all (\<lambda>(s, _). fresh_session R s) ss" and "distinct (map fst ss)"
  shows "fst (assign_fresh pool cs lease ss R)
    = map (\<lambda>i. cd_model_id (cs ! ((rotation_start R pool StrategyBalanced cs + i) mod length cs))) [0..<length ss]"
  using assms(1,4-6)
proof (induction ss arbitrary: R)
  case (Cons x ss)
  obtain s now acc where x: "x = (s, now, acc)"
    by (cases x)
  let ?k = "rotation_start R pool StrategyBalanced cs"
  have fresh: "fresh_session R s"
    using Cons.prems x by simp
  obtain r R1 where r: "reserve s pool StrategyBalanced cs {} now lease R = (Inr r, R1)"
    "rv_session_id r = s" "pb_model_id (rv_binding r) = cd_model_id (cs ! ?k)"
    "rotation_start R1 pool StrategyBalanced cs = Suc ?k mod length cs"
    "healths R1 = healths R" "bindings R1 = bindings R"
    "\<forall>s'. s' \<noteq> s \<longrightarrow> map_of (reservations R) s' = None \<longrightarrow> map_of (reservations R1) s' = None"
    by (rule balanced_reserve [OF Cons.prems(1) assms(2,3) Cons.prems(2) fresh,
          where pool = pool and now = now and lease = lease])
  let ?R2 = "if acc then snd (accept r R1) else R1"
  have ok1: "pool_ok R1"
    using pool_ok_reserve [OF Cons.prems(1), of s pool StrategyBalanced cs "{}" now lease] r(1) by simp
  have h1: "list_all (healthy R1) cs"
  proof -
    have "healthy R1 = healthy R"
      using r(5) by (simp add: fun_eq_iff healthy_def current_health_def)
    then show ?thesis
      using Cons.prems(2) by simp
  qed
  have f1: "fresh_session R1 s'" if "s' \<noteq> s" "fresh_session R s'" for s'
    using that r(6,7) by (simp add: fresh_session_def)
  have ok2: "pool_ok ?R2" and h2: "list_all (healthy ?R2) cs"
    using ok1 h1 by (auto simp: pool_ok_accept list_all_iff accept_healthy)
  have k2: "rotation_start ?R2 pool StrategyBalanced cs = Suc ?k mod length cs"
    using r(4) by (simp add: rotation_start_def accept_keeps)
  have f2: "list_all (\<lambda>(s, _). fresh_session ?R2 s) ss"
    unfolding list_all_iff
  proof clarify
    fix s' n b assume m: "(s', n, b) \<in> set ss"
    then have "s' \<noteq> s"
      using Cons.prems(4) x by (auto simp: rev_image_eqI)
    moreover have "fresh_session R s'"
      using m Cons.prems(3) by (auto simp: list_all_iff)
    ultimately show "fresh_session ?R2 s'"
      using f1 r(2) by (simp add: accept_keeps(2))
  qed
  have IH: "fst (assign_fresh pool cs lease ss ?R2)
      = map (\<lambda>i. cd_model_id (cs ! ((Suc ?k mod length cs + i) mod length cs))) [0..<length ss]"
    using Cons.IH [OF ok2 h2 f2] Cons.prems(4) k2 by simp
  let ?f = "\<lambda>i. cd_model_id (cs ! ((?k + i) mod length cs))"
  have first: "fst (assign_fresh pool cs lease (x # ss) R)
      = pb_model_id (rv_binding r) # fst (assign_fresh pool cs lease ss ?R2)"
    using r(1) x by (simp split: prod.split)
  have rest: "map (\<lambda>i. cd_model_id (cs ! ((Suc ?k mod length cs + i) mod length cs))) [0..<length ss]
      = map (\<lambda>i. ?f (Suc i)) [0..<length ss]"
    by (simp add: mod_add_left_eq)
  have split: "map ?f [0..<length (x # ss)] = ?f 0 # map (\<lambda>i. ?f (Suc i)) [0..<length ss]"
    by (subst upt_conv_Cons) (simp_all add: map_Suc_upt [symmetric] comp_def del: upt_Suc)
  have "?f 0 = pb_model_id (rv_binding r)"
    using rotation_start_less [OF assms(3)] r(3) by simp
  then show ?case
    unfolding first IH rest split by simp
qed simp

section \<open>Valid pool definitions have distinct members\<close>

lemma validate_members_distinct:
  "validate_members seen is = Inr () \<Longrightarrow> distinct is \<and> set is \<inter> seen = {} \<and> list_all (\<lambda>i. trim i \<noteq> []) is"
  by (induction seen "is" rule: validate_members.induct) (auto split: if_splits)

lemma valid_definition_members:
  "validate_definition d = Inr () \<Longrightarrow> distinct (pd_members d) \<and> strategy_kind d \<noteq> StrategyUnsupported"
  by (auto simp: validate_definition_def dest: validate_members_distinct split: if_splits)

section \<open>Properties\<close>

definition example_members :: "pool_candidate list" where
  "example_members =
     [\<lparr>cd_model_id = ''a'', cd_fingerprint = ''a1'', cd_eligible = True\<rparr>,
      \<lparr>cd_model_id = ''b'', cd_fingerprint = ''b1'', cd_eligible = True\<rparr>]"

definition example_reservation :: pool_reservation where
  "example_reservation =
     \<lparr>rv_session_id = ''s'', rv_binding = \<lparr>pb_pool_id = ''p'', pb_model_id = ''a'', pb_fingerprint = ''a1'',
        pb_generation = 1\<rparr>, rv_expires_at = 100\<rparr>"

lemmas pool_eval = reserve_def retain_live_def kv_retain_def selected_candidate_def sticky_candidate_def
  selectable_def member_ready_def current_health_def in_flight_def cooled_off_def rotation_start_def
  cycle_from_def lease_end_def empty_router_def example_members_def example_reservation_def Let_def
  sat_add_u64_def u64_max_def advanced_cursor_def member_position_def cursor_start_def

lemma example_reserved:
  "reserve ''s'' ''p'' StrategyOrdered example_members {} 0 100 empty_router
   = (Inr example_reservation, empty_router\<lparr>router_generation := 1, reservations := [(''s'', example_reservation)]\<rparr>)"
  by (simp add: pool_eval)

text \<open>
  C5. What a selection answers is determined by the router as it is: an unsupported strategy, a live
  reservation of the session, and no ready member outside the excluded ones are the three errors and
  occur exactly then; otherwise the reservation names a ready member, the one the session is bound to
  in this pool when that one is ready and otherwise the first ready one in rotation order, carries a
  new generation and is held by the router.
\<close>

theorem reserve_outcome:
  assumes "pool_ok R" and "reserve s pool strategy cs excluded now lease R = (res, R')"
  shows "case res of
      Inl UnsupportedStrategy \<Rightarrow> strategy = StrategyUnsupported
    | Inl RequestInProgress \<Rightarrow> strategy \<noteq> StrategyUnsupported
        \<and> (\<exists>r. map_of (reservations R) s = Some r \<and> now < rv_expires_at r)
    | Inl (PoolUnavailable t) \<Rightarrow> strategy \<noteq> StrategyUnsupported
        \<and> (\<nexists>r. map_of (reservations R) s = Some r \<and> now < rv_expires_at r)
        \<and> (\<nexists>c. c \<in> set cs \<and> selectable R excluded now c) \<and> t = earliest_retry R cs now
    | Inr r \<Rightarrow> strategy \<noteq> StrategyUnsupported
        \<and> (\<nexists>r. map_of (reservations R) s = Some r \<and> now < rv_expires_at r)
        \<and> holds_reservation R' r
        \<and> (\<exists>c. c \<in> set cs \<and> selectable R excluded now c
            \<and> r = \<lparr>rv_session_id = s, rv_binding = \<lparr>pb_pool_id = pool, pb_model_id = cd_model_id c,
                     pb_fingerprint = cd_fingerprint c,
                     pb_generation = sat_add_u64 (router_generation R) 1\<rparr>,
                   rv_expires_at = lease_end now lease\<rparr>
            \<and> (if \<exists>b x. bindings R s = Some b \<and> pb_pool_id b = pool \<and> x \<in> set cs
                   \<and> selectable R excluded now x \<and> cd_model_id x = pb_model_id b
                   \<and> cd_fingerprint x = pb_fingerprint b
               then \<exists>b. bindings R s = Some b \<and> cd_model_id c = pb_model_id b
                   \<and> cd_fingerprint c = pb_fingerprint b
               else \<exists>skipped rest. cycle_from (rotation_start R pool strategy cs) cs = skipped @ c # rest
                   \<and> list_all (\<lambda>x. \<not> selectable R excluded now x) skipped))"
proof (cases res)
  case (Inl e)
  then show ?thesis
    using reserve_error_iff [OF assms(1), of s pool strategy cs excluded now lease res R'] assms(2) Inl
    by (cases e) auto
next
  case (Inr r)
  then have res: "reserve s pool strategy cs excluded now lease R = (Inr r, R')"
    using assms(2) by simp
  then obtain c where c: "selected_candidate R s pool strategy cs excluded now = Some c"
    "rv_session_id r = s" "rv_binding r = \<lparr>pb_pool_id = pool, pb_model_id = cd_model_id c,
       pb_fingerprint = cd_fingerprint c, pb_generation = sat_add_u64 (router_generation R) 1\<rparr>"
    "rv_expires_at r = lease_end now lease" "strategy \<noteq> StrategyUnsupported"
    "map_of (reservations (retain_live now R)) s = None"
    "reservations R' = kv_put s r (reservations (retain_live now R))"
    by (rule reserve_Inr) blast
  have free: "\<nexists>r. map_of (reservations R) s = Some r \<and> now < rv_expires_at r"
    using c(6) by (auto simp: live_lookup [OF assms(1)])
  have bound: "sticky_candidate R s pool cs excluded now \<noteq> None \<longleftrightarrow>
      (\<exists>b x. bindings R s = Some b \<and> pb_pool_id b = pool \<and> x \<in> set cs \<and> selectable R excluded now x
         \<and> cd_model_id x = pb_model_id b \<and> cd_fingerprint x = pb_fingerprint b)"
    unfolding sticky_None_iff by blast
  have choice: "if sticky_candidate R s pool cs excluded now \<noteq> None
     then \<exists>b. bindings R s = Some b \<and> cd_model_id c = pb_model_id b \<and> cd_fingerprint c = pb_fingerprint b
     else \<exists>skipped rest. cycle_from (rotation_start R pool strategy cs) cs = skipped @ c # rest
        \<and> list_all (\<lambda>x. \<not> selectable R excluded now x) skipped"
  proof (cases "sticky_candidate R s pool cs excluded now")
    case None
    then show ?thesis
      using selected_rotation [OF c(1) None] by (auto simp: list_all_iff)
  next
    case (Some k)
    then have "k = c"
      using c(1) by (simp add: selected_candidate_def)
    then show ?thesis
      using Some by (auto elim: sticky_SomeD)
  qed
  have "holds_reservation R' r"
    using c(2,7) by (simp add: holds_reservation_def)
  moreover have "r = \<lparr>rv_session_id = s, rv_binding = rv_binding r, rv_expires_at = lease_end now lease\<rparr>"
    using c(2,4) by simp
  ultimately show ?thesis
    unfolding Inr sum.case
    using c(3,5) free choice [unfolded bound] selected_SomeD [OF c(1)]
    by (intro conjI exI [of _ c]) simp_all
qed

theorem reserve_outcome_witness:
  "pool_ok empty_router
   \<and> (\<exists>c. c \<in> set example_members \<and> selectable empty_router {} 0 c
        \<and> pb_model_id (rv_binding example_reservation) = cd_model_id c)"
proof -
  from reserve_outcome [OF pool_ok_empty example_reserved, unfolded sum.case]
  obtain c where "c \<in> set example_members" "selectable empty_router {} 0 c"
    "example_reservation = \<lparr>rv_session_id = ''s'',
       rv_binding = \<lparr>pb_pool_id = ''p'', pb_model_id = cd_model_id c, pb_fingerprint = cd_fingerprint c,
         pb_generation = sat_add_u64 (router_generation empty_router) 1\<rparr>,
       rv_expires_at = lease_end 0 100\<rparr>"
    by (elim conjE exE) (rule that)
  then show ?thesis
    using pool_ok_empty
    by (intro conjI exI [of _ c]) (assumption+, metis pool_reservation.select_convs(2) pool_binding.select_convs(2))
qed

text \<open>
  C4. A reservation ends at most once: from the moment it is accepted, cancelled or failed, its
  session is cleared, its lease is found expired or the host restarts, and whatever happens after
  that, presenting it again changes nothing: no binding, no evidence, no other reservation.
\<close>

theorem ended_reservation_publishes_nothing:
  assumes "list_all event_ok (es0 @ es1 @ e # es2)"
    and "reserve s pool strategy cs excluded now lease (pool_run es0 empty_router) = (Inr r, R)"
    and "rv_generation r < u64_max"
    and "ends_reservation (pool_run es1 R) r e"
    and "R' = pool_run (es1 @ e # es2) R"
  shows "accept r R' = (False, R') \<and> fail_reservation r err at delay R' = (False, R')
    \<and> configuration_failed r R' = R' \<and> renew r at lease' R' = R' \<and> cancel_reservation r R' = R'"
proof -
  have "pool_ok (pool_run es0 empty_router)"
    using evidence.ok_run [OF pool_ok_empty] assms(1) by (simp add: pool_run_def)
  then have "pool_ok R"
    using pool_ok_reserve [of "pool_run es0 empty_router" s pool strategy cs excluded now lease] assms(2)
    by simp
  moreover have "rv_generation r \<le> router_generation R"
    using assms(2) by (auto elim!: reserve_Inr)
  ultimately have "\<not> holds_reservation R' r"
    unfolding assms(5) using assms(1,3,4) by (intro ended_stays_ended) simp_all
  then show ?thesis
    by (simp add: not_held_publishes_nothing)
qed

theorem ended_reservation_publishes_nothing_witness:
  "let R = empty_router\<lparr>router_generation := 1, reservations := [(''s'', example_reservation)]\<rparr>;
       R' = pool_run [EvClearSession ''s'',
              EvReserve ''s'' ''p'' StrategyOrdered example_members {} 1 100] R
   in map_of (reservations R') ''s'' \<noteq> None \<and> accept example_reservation R' = (False, R')"
proof -
  let ?R = "empty_router\<lparr>router_generation := 1, reservations := [(''s'', example_reservation)]\<rparr>"
  have "accept example_reservation (pool_run ([] @ EvClearSession ''s''
      # [EvReserve ''s'' ''p'' StrategyOrdered example_members {} 1 100]) ?R)
    = (False, pool_run ([] @ EvClearSession ''s''
      # [EvReserve ''s'' ''p'' StrategyOrdered example_members {} 1 100]) ?R)"
    using ended_reservation_publishes_nothing [where ?es0.0 = "[]" and ?es1.0 = "[]" and e = "EvClearSession ''s''"
        and ?es2.0 = "[EvReserve ''s'' ''p'' StrategyOrdered example_members {} 1 100]" and r = example_reservation
        and R = ?R and s = "''s''" and pool = "''p''" and strategy = StrategyOrdered and cs = example_members
        and excluded = "{}" and now = 0 and lease = 100, OF _ _ _ _ HOL.refl] example_reserved
    by (simp add: pool_run_def example_reservation_def u64_max_def)
  moreover have "map_of (reservations (pool_run [EvClearSession ''s'',
      EvReserve ''s'' ''p'' StrategyOrdered example_members {} 1 100] ?R)) ''s'' \<noteq> None"
    by (simp add: pool_run_def clear_pool_session_def pool_eval)
  ultimately show ?thesis
    by (simp add: Let_def)
qed

text \<open>
  C7. Whatever the clients do, in whatever order, the router stays well formed (one reservation per
  session, filed under its session, no two with the same generation, no generation ahead of the
  router's), and what it knows of the health of a model is only ever replaced by newer evidence.
\<close>

theorem pool_evidence_invariant:
  assumes "list_all event_ok (es1 @ es2)"
  shows "pool_ok (pool_run es1 empty_router)
    \<and> evidence_upto (pool_run es1 empty_router) (pool_run (es1 @ es2) empty_router)"
proof -
  have "pool_ok (pool_run es1 empty_router)"
    using evidence.ok_run [OF pool_ok_empty] assms by (simp add: pool_run_def)
  then show ?thesis
    using evidence.upto_run [of "pool_run es1 empty_router" es2] assms by (simp add: pool_run_def)
qed

definition example_error :: ai_provider_error where
  "example_error = \<lparr>ape_message = ''overloaded'', ape_category = CatProviderUnavailable, ape_provider = None,
     ape_provider_code = None, ape_http_status = None, ape_retry_after_ms = Some 20\<rparr>"

theorem pool_evidence_invariant_witness:
  "pool_ok (pool_run [EvReserve ''s'' ''p'' StrategyOrdered example_members {} 0 100] empty_router)
   \<and> evidence_upto (pool_run [EvReserve ''s'' ''p'' StrategyOrdered example_members {} 0 100] empty_router)
       (pool_run ([EvReserve ''s'' ''p'' StrategyOrdered example_members {} 0 100]
         @ [EvFail example_reservation example_error 5 10, EvRetryMember ''a'']) empty_router)"
  using pool_evidence_invariant [of "[EvReserve ''s'' ''p'' StrategyOrdered example_members {} 0 100]"
      "[EvFail example_reservation example_error 5 10, EvRetryMember ''a'']"]
  by simp

text \<open>
  A member that cools down is probed by one session at a time: while the router holds an unexpired
  reservation of it, no selection of any session picks that member again.
\<close>

theorem single_probe:
  assumes "pool_ok R" and "map_of (reservations R) s = Some r" and "now < rv_expires_at r"
    and "healths R (pb_model_id (rv_binding r)) = Some h"
    and "ph_fingerprint h = pb_fingerprint (rv_binding r)" and "ph_status h = HealthCoolingDown"
    and "reserve s' pool strategy cs excluded now lease R = (Inr r', R')"
  shows "pb_model_id (rv_binding r') \<noteq> pb_model_id (rv_binding r)
    \<or> pb_fingerprint (rv_binding r') \<noteq> pb_fingerprint (rv_binding r)"
proof (rule ccontr)
  assume same: "\<not> ?thesis"
  from assms(7) obtain c where c: "selected_candidate R s' pool strategy cs excluded now = Some c"
    "pb_model_id (rv_binding r') = cd_model_id c" "pb_fingerprint (rv_binding r') = cd_fingerprint c"
    by (rule reserve_Inr) simp
  have "in_flight R c now"
    using in_flight_lookup [OF assms(2,3)] c(2,3) same by simp
  moreover have "current_health R c = Some h"
    using assms(4,5) c(2,3) same by (simp add: current_health_def)
  moreover have "member_ready R c now"
    using selected_SomeD [OF c(1)] by (simp add: selectable_def)
  ultimately show False
    using assms(6) by (simp add: member_ready_def split: if_splits)
qed

text \<open>
  C6. The balanced strategy gives every member its turn: while all members of a pool are healthy,
  sessions without a binding are assigned to the members one after the other in the order of the pool,
  from where the cursor stands and around, whether or not earlier sessions have finished their first
  request.
\<close>

theorem balanced_takes_turns:
  assumes "list_all event_ok es" and "R = pool_run es empty_router"
    and "distinct (map cd_model_id cs)" and "cs \<noteq> []" and "list_all (healthy R) cs"
    and "list_all (\<lambda>(s, _). fresh_session R s) ss" and "distinct (map fst ss)"
  shows "fst (assign_fresh pool cs lease ss R)
    = map (\<lambda>i. cd_model_id (cs ! ((rotation_start R pool StrategyBalanced cs + i) mod length cs))) [0..<length ss]"
proof -
  have "pool_ok R"
    unfolding assms(2) using evidence.ok_run [OF pool_ok_empty assms(1)] by (simp add: pool_run_def)
  then show ?thesis
    by (rule assign_fresh_turns [OF _ assms(3-7)])
qed

theorem balanced_takes_turns_witness:
  "fst (assign_fresh ''p'' example_members 100 [(''x'', 0, True), (''y'', 1, False), (''z'', 2, True)] empty_router)
   = [''a'', ''b'', ''a'']"
proof -
  have "list_all (healthy empty_router) example_members"
    by (simp add: example_members_def healthy_def current_health_def empty_router_def)
  then show ?thesis
    using balanced_takes_turns [where es = "[]" and R = empty_router and cs = example_members
        and ss = "[(''x'', 0, True), (''y'', 1, False), (''z'', 2, True)]" and pool = "''p''" and lease = 100]
    by (simp add: pool_run_def fresh_session_def empty_router_def example_members_def rotation_start_def
        upt_rec [of 0] upt_rec [of "Suc 0"] upt_rec [of "Suc (Suc 0)"])
qed

end
