(* ===== verification/Account_Routing.thy ===== *)
theory Account_Routing
  imports Model_Pool
begin

text \<open>
  The choice of an account for one model request, \<open>execution/agent-runtime/src/account_routing.rs\<close>:
  which of the declared accounts may be used now, which one is, whether a failed request may be moved to
  another account, and until when a failed account rests.

  Times in \<open>i64\<close> seconds are integers with the bound of the checked addition written out; delays in
  \<open>u64\<close> milliseconds are natural numbers.

  The lemmas show which account is selected on every branch, that an account rests for at least the
  delay its failure asked for and is not selected before, and that the recovery of a failure by the
  model pool, by another account and by the user interface agree.
\<close>

section \<open>Data\<close>

datatype account_policy = PolicyFixed string | PolicyOrdered "string list"

datatype unknown_quota_policy = QuotaProbe | QuotaRequireKnown

record route_scope =
  rs_execution_host :: string
  rs_provider :: string
  rs_model_config_id :: string
  rs_policy_revision :: nat
  rs_cache_lineage :: string

record account_affinity =
  aff_scope :: route_scope
  aff_account_id :: string
  aff_credential_revision :: nat

datatype model_quota_eligibility =
    QuotaAttemptable
  | QuotaTemporarilyUnavailable "int option"
  | QuotaEligibilityUnknown

record model_quota_observation =
  mq_account_id :: string
  mq_provider :: string
  mq_model :: string
  mq_credential_revision :: nat
  mq_observed_at :: "int option"
  mq_valid_until :: "int option"
  mq_eligibility :: model_quota_eligibility

record account_candidate =
  ac_account_id :: string
  ac_provider :: string
  ac_request_model :: string
  ac_credential_revision :: nat
  ac_enabled :: bool
  ac_connected :: bool
  ac_supports_model :: bool
  ac_user_limit_exhausted :: bool
  ac_cooldown_until :: "int option"
  ac_at_capacity :: bool
  ac_quota :: "model_quota_observation option"

datatype account_rejection =
    AccountMissing | AccountDisabled | AuthorizationUnavailable | WrongProvider | ModelUnavailable
  | UserLimit | AccountCooldown | AccountCapacity | QuotaUnknown | QuotaExhausted

record rejected_account =
  rj_account_id :: string
  rj_reason :: account_rejection
  rj_recovery_at :: "int option"

datatype selection_reason = SelectedFixed | SelectedOrdered | SelectedAffinity

datatype account_selection =
    AccountSelected string selection_reason
  | AccountsUnavailable "rejected_account list"
  | InvalidPolicy

section \<open>One account\<close>

definition quota_applies :: "account_candidate \<Rightarrow> int \<Rightarrow> model_quota_observation \<Rightarrow> bool" where
  "quota_applies c now q \<longleftrightarrow>
     mq_account_id q = ac_account_id c \<and> mq_provider q = ac_provider c
     \<and> mq_credential_revision q = ac_credential_revision c \<and> mq_model q = ac_request_model c
     \<and> (case mq_observed_at q of Some observed \<Rightarrow> observed \<le> now | None \<Rightarrow> False)
     \<and> (case mq_valid_until q of Some deadline \<Rightarrow> deadline > now | None \<Rightarrow> False)"

definition unknown_quota :: "unknown_quota_policy \<Rightarrow> (account_rejection \<times> int option) option" where
  "unknown_quota unknown = (if unknown = QuotaRequireKnown then Some (QuotaUnknown, None) else None)"

definition current_quota :: "account_candidate \<Rightarrow> int \<Rightarrow> model_quota_observation option" where
  "current_quota c now =
     (case ac_quota c of None \<Rightarrow> None | Some q \<Rightarrow> if quota_applies c now q then Some q else None)"

definition reject ::
  "account_candidate \<Rightarrow> route_scope \<Rightarrow> unknown_quota_policy \<Rightarrow> int \<Rightarrow> (account_rejection \<times> int option) option" where
  "reject c scope unknown now =
     (if ac_provider c \<noteq> rs_provider scope then Some (WrongProvider, None)
      else if \<not> ac_enabled c then Some (AccountDisabled, None)
      else if \<not> ac_connected c then Some (AuthorizationUnavailable, None)
      else if \<not> ac_supports_model c then Some (ModelUnavailable, None)
      else if ac_user_limit_exhausted c then Some (UserLimit, None)
      else if (case ac_cooldown_until c of Some until \<Rightarrow> until > now | None \<Rightarrow> False)
        then Some (AccountCooldown, ac_cooldown_until c)
      else if ac_at_capacity c then Some (AccountCapacity, None)
      else case current_quota c now of
             None \<Rightarrow> unknown_quota unknown
           | Some q \<Rightarrow>
               (case mq_eligibility q of
                  QuotaAttemptable \<Rightarrow> None
                | QuotaTemporarilyUnavailable recovery \<Rightarrow> Some (QuotaExhausted, recovery)
                | QuotaEligibilityUnknown \<Rightarrow> unknown_quota unknown))"

section \<open>Selecting an account\<close>

fun policy_members :: "account_policy \<Rightarrow> string list" where
  "policy_members (PolicyFixed i) = [i]"
| "policy_members (PolicyOrdered is) = is"

text \<open>\<open>members.iter().any(|id| id.is_empty() || !unique.insert(id))\<close>, with the set filled so far.\<close>

fun invalid_members :: "string set \<Rightarrow> string list \<Rightarrow> bool" where
  "invalid_members unique [] \<longleftrightarrow> False"
| "invalid_members unique (i # is) \<longleftrightarrow> i = [] \<or> i \<in> unique \<or> invalid_members (insert i unique) is"

text \<open>
  The loop over the members; \<open>None\<close> is the early return with an invalid policy when two candidates have
  the same id.
\<close>

fun sort_members ::
  "account_candidate list \<Rightarrow> route_scope \<Rightarrow> unknown_quota_policy \<Rightarrow> int \<Rightarrow> string list
   \<Rightarrow> (account_candidate list \<times> rejected_account list)
   \<Rightarrow> (account_candidate list \<times> rejected_account list) option" where
  "sort_members cs scope unknown now [] (available, rejected) = Some (available, rejected)"
| "sort_members cs scope unknown now (i # is) (available, rejected) =
     (case filter (\<lambda>c. ac_account_id c = i) cs of
        [] \<Rightarrow> sort_members cs scope unknown now is
                (available, rejected @ [\<lparr>rj_account_id = i, rj_reason = AccountMissing, rj_recovery_at = None\<rparr>])
      | [c] \<Rightarrow>
          (case reject c scope unknown now of
             Some (reason, recovery_at) \<Rightarrow> sort_members cs scope unknown now is
               (available, rejected @ [\<lparr>rj_account_id = i, rj_reason = reason, rj_recovery_at = recovery_at\<rparr>])
           | None \<Rightarrow> sort_members cs scope unknown now is (available @ [c], rejected))
      | _ \<Rightarrow> None)"

fun is_ordered :: "account_policy \<Rightarrow> bool" where
  "is_ordered (PolicyFixed _) = False"
| "is_ordered (PolicyOrdered _) = True"

definition affine_account ::
  "account_policy \<Rightarrow> route_scope \<Rightarrow> account_affinity option \<Rightarrow> account_candidate list \<Rightarrow> account_candidate option" where
  "affine_account policy scope affinity available =
     (if is_ordered policy
      then case affinity of
             None \<Rightarrow> None
           | Some b \<Rightarrow>
               if aff_scope b = scope
               then find (\<lambda>c. ac_account_id c = aff_account_id b
                      \<and> ac_credential_revision c = aff_credential_revision b) available
               else None
      else None)"

definition select_account ::
  "account_policy \<Rightarrow> route_scope \<Rightarrow> account_candidate list \<Rightarrow> account_affinity option \<Rightarrow> unknown_quota_policy
   \<Rightarrow> int \<Rightarrow> account_selection" where
  "select_account policy scope cs affinity unknown now =
     (let members = policy_members policy in
      if members = [] \<or> invalid_members {} members then InvalidPolicy
      else case sort_members cs scope unknown now members ([], []) of
             None \<Rightarrow> InvalidPolicy
           | Some (available, rejected) \<Rightarrow>
               (case affine_account policy scope affinity available of
                  Some c \<Rightarrow> AccountSelected (ac_account_id c) SelectedAffinity
                | None \<Rightarrow>
                    (case available of
                       c # _ \<Rightarrow> AccountSelected (ac_account_id c)
                         (if is_ordered policy then SelectedOrdered else SelectedFixed)
                     | [] \<Rightarrow> AccountsUnavailable rejected)))"

section \<open>Moving a request to another account\<close>

datatype switch_rejection =
    SwitchFixedAccount | SwitchCancelled | SwitchAttemptBudget | SwitchEffectiveOutput
  | SwitchToolSideEffect | SwitchIncompatibleReplay | SwitchAuthenticationRecoveryPending
  | SwitchDeterministicFailure | SwitchUnclassifiedFailure

record switch_boundary =
  sb_cancelled :: bool
  sb_remaining_attempts :: nat
  sb_effective_output :: bool
  sb_tool_side_effect_committed :: bool
  sb_replay_compatible :: bool
  sb_authentication_recovery_exhausted :: bool

definition admit_category :: "error_category \<Rightarrow> bool \<Rightarrow> switch_rejection + unit" where
  "admit_category cat recovery_exhausted =
     (if cat = CatAuth \<and> \<not> recovery_exhausted then Inl SwitchAuthenticationRecoveryPending
      else if cat \<in> {CatAuth, CatProviderQuota, CatProviderBilling, CatRateLimit, CatNetwork, CatTimeout,
                     CatProviderUnavailable}
      then Inr ()
      else if cat \<in> {CatContextOverflow, CatPermission, CatInvalidRequest, CatContentPolicy}
      then Inl SwitchDeterministicFailure
      else Inl SwitchUnclassifiedFailure)"

definition admit_account_switch ::
  "account_policy \<Rightarrow> error_category \<Rightarrow> switch_boundary \<Rightarrow> switch_rejection + unit" where
  "admit_account_switch policy cat b =
     (if \<not> is_ordered policy then Inl SwitchFixedAccount
      else if sb_cancelled b then Inl SwitchCancelled
      else if sb_remaining_attempts b = 0 then Inl SwitchAttemptBudget
      else if sb_effective_output b then Inl SwitchEffectiveOutput
      else if sb_tool_side_effect_committed b then Inl SwitchToolSideEffect
      else if \<not> sb_replay_compatible b then Inl SwitchIncompatibleReplay
      else admit_category cat (sb_authentication_recovery_exhausted b))"

section \<open>How long an account rests\<close>

definition i64_limit :: nat where
  "i64_limit = 9223372036854775807"

definition i64_ok :: "int \<Rightarrow> bool" where
  "i64_ok t \<longleftrightarrow> - int i64_limit - 1 \<le> t \<and> t \<le> int i64_limit"

definition checked_add_i64 :: "int \<Rightarrow> int \<Rightarrow> int option" where
  "checked_add_i64 a b = (if i64_ok (a + b) then Some (a + b) else None)"

definition quota_cooldown_without_hint_ms :: nat where
  "quota_cooldown_without_hint_ms = 15 * 60 * 1000"

definition billing_cooldown_without_hint_ms :: nat where
  "billing_cooldown_without_hint_ms = 30 * 60 * 1000"

definition fallback_cooldown_ms :: "error_category \<Rightarrow> nat \<Rightarrow> nat" where
  "fallback_cooldown_ms cat fallback =
     (case cat of
        CatProviderQuota \<Rightarrow> max fallback quota_cooldown_without_hint_ms
      | CatProviderBilling \<Rightarrow> max fallback billing_cooldown_without_hint_ms
      | _ \<Rightarrow> fallback)"

definition cooldown_delay_ms :: "error_category \<Rightarrow> nat option \<Rightarrow> nat \<Rightarrow> nat" where
  "cooldown_delay_ms cat retry_after fallback =
     (case retry_after of
        Some hint \<Rightarrow> if hint > 0 then hint else fallback_cooldown_ms cat fallback
      | None \<Rightarrow> fallback_cooldown_ms cat fallback)"

definition cooling_categories :: "error_category set" where
  "cooling_categories =
     {CatProviderQuota, CatProviderBilling, CatRateLimit, CatNetwork, CatTimeout, CatProviderUnavailable}"

definition cooldown_deadline :: "error_category \<Rightarrow> int \<Rightarrow> nat option \<Rightarrow> nat \<Rightarrow> int option" where
  "cooldown_deadline cat now retry_after fallback =
     (if cat \<notin> cooling_categories then None
      else
        (let seconds = div_ceil (cooldown_delay_ms cat retry_after fallback) 1000 in
         if seconds > i64_limit then None
         else if seconds > 0 then checked_add_i64 now (int seconds) else None))"

section \<open>What a selection answers\<close>

lemma invalid_members_iff: "invalid_members u is \<longleftrightarrow> [] \<in> set is \<or> \<not> distinct is \<or> set is \<inter> u \<noteq> {}"
  by (induction u "is" rule: invalid_members.induct) auto

text \<open>The accounts that may be used, in the order of the policy, and why the others may not.\<close>

definition usable :: "account_candidate list \<Rightarrow> route_scope \<Rightarrow> unknown_quota_policy \<Rightarrow> int \<Rightarrow> string
    \<Rightarrow> account_candidate option" where
  "usable cs scope unknown now i =
     (case find (\<lambda>c. ac_account_id c = i) cs of
        None \<Rightarrow> None
      | Some c \<Rightarrow> if reject c scope unknown now = None then Some c else None)"

definition refusal :: "account_candidate list \<Rightarrow> route_scope \<Rightarrow> unknown_quota_policy \<Rightarrow> int \<Rightarrow> string
    \<Rightarrow> rejected_account option" where
  "refusal cs scope unknown now i =
     (case find (\<lambda>c. ac_account_id c = i) cs of
        None \<Rightarrow> Some \<lparr>rj_account_id = i, rj_reason = AccountMissing, rj_recovery_at = None\<rparr>
      | Some c \<Rightarrow>
          (case reject c scope unknown now of
             None \<Rightarrow> None
           | Some (reason, at) \<Rightarrow> Some \<lparr>rj_account_id = i, rj_reason = reason, rj_recovery_at = at\<rparr>))"

definition unambiguous :: "account_candidate list \<Rightarrow> string \<Rightarrow> bool" where
  "unambiguous cs i \<longleftrightarrow> length (filter (\<lambda>c. ac_account_id c = i) cs) \<le> 1"

lemma div_ceil_lower:
  assumes "0 < b"
  shows "div_ceil a b * b < a + b"
proof (cases "a mod b = 0")
  case True
  then have "a div b * b = a"
    using div_mult_mod_eq [of a b] by simp
  with True assms show ?thesis
    by (simp add: div_ceil_def)
next
  case False
  have "a div b * b + a mod b = a"
    by (rule div_mult_mod_eq)
  with False have "a div b * b < a"
    by linarith
  with False show ?thesis
    by (simp add: div_ceil_def)
qed

lemma find_filter: "find P xs = (case filter P xs of [] \<Rightarrow> None | x # _ \<Rightarrow> Some x)"
  by (induction xs) auto

lemma usable_eqs:
  "filter (\<lambda>c. ac_account_id c = i) cs = [] \<Longrightarrow>
     usable cs scope unknown now i = None
     \<and> refusal cs scope unknown now i
       = Some \<lparr>rj_account_id = i, rj_reason = AccountMissing, rj_recovery_at = None\<rparr>"
  "filter (\<lambda>c. ac_account_id c = i) cs = [c] \<Longrightarrow> reject c scope unknown now = None \<Longrightarrow>
     usable cs scope unknown now i = Some c \<and> refusal cs scope unknown now i = None"
  "filter (\<lambda>c. ac_account_id c = i) cs = [c] \<Longrightarrow> reject c scope unknown now = Some (reason, at) \<Longrightarrow>
     usable cs scope unknown now i = None
     \<and> refusal cs scope unknown now i = Some \<lparr>rj_account_id = i, rj_reason = reason, rj_recovery_at = at\<rparr>"
  by (simp_all add: usable_def refusal_def find_filter)

lemma sort_members_spec:
  "sort_members cs scope unknown now is (av, rj) =
     (if list_all (unambiguous cs) is
      then Some (av @ List.map_filter (usable cs scope unknown now) is,
                 rj @ List.map_filter (refusal cs scope unknown now) is)
      else None)"
proof (induction "is" arbitrary: av rj)
  case (Cons i "is")
  show ?case
  proof (cases "filter (\<lambda>c. ac_account_id c = i) cs")
    case Nil
    moreover have "unambiguous cs i"
      using Nil by (simp add: unambiguous_def)
    ultimately show ?thesis
      using Cons.IH usable_eqs(1) [OF Nil] by (simp add: map_filter_simps)
  next
    case one: (Cons c rest)
    show ?thesis
    proof (cases rest)
      case Nil
      then have f: "filter (\<lambda>c. ac_account_id c = i) cs = [c]" and u: "unambiguous cs i"
        using one by (simp_all add: unambiguous_def)
      show ?thesis
      proof (cases "reject c scope unknown now")
        case None
        then show ?thesis
          using Cons.IH f u usable_eqs(2) [OF f None] by (simp add: map_filter_simps)
      next
        case (Some x)
        obtain reason at where x: "x = (reason, at)"
          by (cases x)
        then show ?thesis
          using Cons.IH f u Some usable_eqs(3) [OF f, of scope unknown now reason at]
          by (simp add: map_filter_simps)
      qed
    next
      case more: (Cons c' rest')
      have "\<not> unambiguous cs i"
        using one more by (simp add: unambiguous_def)
      then show ?thesis
        using one more by simp
    qed
  qed
qed (simp add: map_filter_simps)

lemma usable_SomeD:
  "usable cs scope unknown now i = Some c \<Longrightarrow>
   c \<in> set cs \<and> ac_account_id c = i \<and> reject c scope unknown now = None"
  by (auto simp: usable_def find_Some_iff split: option.splits if_splits)

lemma refusal_None_iff: "refusal cs scope unknown now i = None \<longleftrightarrow> usable cs scope unknown now i \<noteq> None"
  by (auto simp: usable_def refusal_def split: option.splits)

lemma map_filter_Nil_iff: "List.map_filter f xs = [] \<longleftrightarrow> (\<forall>x \<in> set xs. f x = None)"
  by (induction xs) (auto simp: map_filter_simps split: option.splits)

lemma set_map_filter_iff: "y \<in> set (List.map_filter f xs) \<longleftrightarrow> (\<exists>x \<in> set xs. f x = Some y)"
  by (induction xs) (auto simp: map_filter_simps split: option.splits)

lemma map_filter_ConsD:
  "List.map_filter f xs = y # ys \<Longrightarrow>
   \<exists>pre x post. xs = pre @ x # post \<and> f x = Some y \<and> list_all (\<lambda>z. f z = None) pre"
proof (induction xs)
  case (Cons x xs)
  show ?case
  proof (cases "f x")
    case None
    then have "List.map_filter f xs = y # ys"
      using Cons.prems by (simp add: map_filter_simps)
    then obtain pre z post where "xs = pre @ z # post" "f z = Some y" "list_all (\<lambda>z. f z = None) pre"
      using Cons.IH by blast
    then show ?thesis
      using None by (intro exI [of _ "x # pre"] exI [of _ z] exI [of _ post]) simp
  next
    case (Some w)
    then show ?thesis
      using Cons.prems by (intro exI [of _ "[]"] exI [of _ x] exI [of _ xs]) (simp add: map_filter_simps)
  qed
qed (simp add: map_filter_simps)

lemma map_filter_total: "\<forall>x \<in> set xs. f x \<noteq> None \<Longrightarrow> length (List.map_filter f xs) = length xs"
  by (induction xs) (auto simp: map_filter_simps)

definition valid_policy :: "account_policy \<Rightarrow> account_candidate list \<Rightarrow> bool" where
  "valid_policy policy cs \<longleftrightarrow>
     policy_members policy \<noteq> [] \<and> [] \<notin> set (policy_members policy) \<and> distinct (policy_members policy)
     \<and> list_all (unambiguous cs) (policy_members policy)"

text \<open>The account the session is attached to, when it is a usable member with the same credentials.\<close>

definition attached_to ::
  "account_policy \<Rightarrow> route_scope \<Rightarrow> account_candidate list \<Rightarrow> account_affinity option \<Rightarrow> unknown_quota_policy
   \<Rightarrow> int \<Rightarrow> string \<Rightarrow> bool" where
  "attached_to policy scope cs affinity unknown now i \<longleftrightarrow>
     is_ordered policy \<and> i \<in> set (policy_members policy)
     \<and> (\<exists>b c. affinity = Some b \<and> aff_scope b = scope \<and> aff_account_id b = i
          \<and> usable cs scope unknown now i = Some c \<and> ac_credential_revision c = aff_credential_revision b)"

lemma affine_SomeD:
  assumes "affine_account policy scope affinity
      (List.map_filter (usable cs scope unknown now) (policy_members policy)) = Some c"
  shows "attached_to policy scope cs affinity unknown now (ac_account_id c)"
proof -
  let ?av = "List.map_filter (usable cs scope unknown now) (policy_members policy)"
  obtain b where b: "is_ordered policy" "affinity = Some b" "aff_scope b = scope"
      "find (\<lambda>c. ac_account_id c = aff_account_id b
         \<and> ac_credential_revision c = aff_credential_revision b) ?av = Some c"
    using assms by (auto simp: affine_account_def split: option.splits if_splits)
  have c: "c \<in> set ?av" "ac_account_id c = aff_account_id b"
      "ac_credential_revision c = aff_credential_revision b"
    using find_SomeD [OF b(4)] by simp_all
  then obtain i where i: "i \<in> set (policy_members policy)" "usable cs scope unknown now i = Some c"
    by (auto simp: set_map_filter_iff)
  then show ?thesis
    using b c usable_SomeD [OF i(2)] by (auto simp: attached_to_def)
qed

lemma affine_NoneD:
  assumes "affine_account policy scope affinity
      (List.map_filter (usable cs scope unknown now) (policy_members policy)) = None"
  shows "\<not> attached_to policy scope cs affinity unknown now i"
proof
  assume "attached_to policy scope cs affinity unknown now i"
  then obtain b c where b: "is_ordered policy" "i \<in> set (policy_members policy)" "affinity = Some b"
      "aff_scope b = scope" "aff_account_id b = i" "usable cs scope unknown now i = Some c"
      "ac_credential_revision c = aff_credential_revision b"
    by (auto simp: attached_to_def)
  then have "c \<in> set (List.map_filter (usable cs scope unknown now) (policy_members policy))"
    by (auto simp: set_map_filter_iff)
  then show False
    using assms b usable_SomeD [OF b(6)] by (auto simp: affine_account_def find_None_iff)
qed

lemma select_account_invalid:
  "\<not> valid_policy policy cs \<Longrightarrow> select_account policy scope cs affinity unknown now = InvalidPolicy"
  by (auto simp: select_account_def Let_def valid_policy_def invalid_members_iff sort_members_spec)

lemma select_account_valid:
  "valid_policy policy cs \<Longrightarrow> select_account policy scope cs affinity unknown now =
     (let av = List.map_filter (usable cs scope unknown now) (policy_members policy) in
      case affine_account policy scope affinity av of
        Some c \<Rightarrow> AccountSelected (ac_account_id c) SelectedAffinity
      | None \<Rightarrow> (case av of
           c # _ \<Rightarrow> AccountSelected (ac_account_id c) (if is_ordered policy then SelectedOrdered else SelectedFixed)
         | [] \<Rightarrow> AccountsUnavailable (List.map_filter (refusal cs scope unknown now) (policy_members policy))))"
  by (simp add: select_account_def Let_def valid_policy_def invalid_members_iff sort_members_spec)

lemma account_selected_usable:
  assumes "select_account policy scope cs affinity unknown now = AccountSelected i reason"
  shows "valid_policy policy cs" and "i \<in> set (policy_members policy)" and "usable cs scope unknown now i \<noteq> None"
proof -
  let ?av = "List.map_filter (usable cs scope unknown now) (policy_members policy)"
  show v: "valid_policy policy cs"
    using assms select_account_invalid by fastforce
  have "i \<in> set (policy_members policy) \<and> usable cs scope unknown now i \<noteq> None"
  proof (cases "affine_account policy scope affinity ?av")
    case (Some c)
    then show ?thesis
      using assms affine_SomeD [OF Some] by (auto simp: select_account_valid [OF v] Let_def attached_to_def)
  next
    case None
    then obtain c rest where c: "?av = c # rest" "ac_account_id c = i"
      using assms by (cases ?av) (auto simp: select_account_valid [OF v] Let_def)
    from map_filter_ConsD [OF c(1)] obtain pre k post where "policy_members policy = pre @ k # post"
        "usable cs scope unknown now k = Some c"
      by blast
    then show ?thesis
      using usable_SomeD [of cs scope unknown now k c] c(2) by auto
  qed
  then show "i \<in> set (policy_members policy)" and "usable cs scope unknown now i \<noteq> None"
    by simp_all
qed

section \<open>Properties\<close>

text \<open>
  C8. The account a request is sent to is determined by the declared members alone: a policy without
  members, with an empty or a repeated id, or with an ambiguous member is invalid; otherwise the account
  the session is attached to is kept while it is usable with the same credentials, else the first usable
  member in the order of the policy is taken, and when none is usable every member is reported with the
  reason.
\<close>

theorem select_account_outcome:
  "case select_account policy scope cs affinity unknown now of
     InvalidPolicy \<Rightarrow> \<not> valid_policy policy cs
   | AccountsUnavailable rejected \<Rightarrow> valid_policy policy cs
       \<and> (\<nexists>i. i \<in> set (policy_members policy) \<and> usable cs scope unknown now i \<noteq> None)
       \<and> rejected = List.map_filter (refusal cs scope unknown now) (policy_members policy)
       \<and> length rejected = length (policy_members policy)
   | AccountSelected i reason \<Rightarrow> valid_policy policy cs \<and> i \<in> set (policy_members policy)
       \<and> usable cs scope unknown now i \<noteq> None
       \<and> (if \<exists>k. attached_to policy scope cs affinity unknown now k
          then attached_to policy scope cs affinity unknown now i \<and> reason = SelectedAffinity
          else reason = (if is_ordered policy then SelectedOrdered else SelectedFixed)
            \<and> (\<exists>pre post. policy_members policy = pre @ i # post
                 \<and> list_all (\<lambda>k. usable cs scope unknown now k = None) pre))"
proof (cases "valid_policy policy cs")
  case False
  then show ?thesis
    by (simp add: select_account_invalid)
next
  case True
  let ?ms = "policy_members policy"
  let ?av = "List.map_filter (usable cs scope unknown now) ?ms"
  have start: "select_account policy scope cs affinity unknown now =
      (case affine_account policy scope affinity ?av of
         Some c \<Rightarrow> AccountSelected (ac_account_id c) SelectedAffinity
       | None \<Rightarrow> (case ?av of
            c # _ \<Rightarrow> AccountSelected (ac_account_id c) (if is_ordered policy then SelectedOrdered else SelectedFixed)
          | [] \<Rightarrow> AccountsUnavailable (List.map_filter (refusal cs scope unknown now) ?ms)))"
    using True by (simp add: select_account_valid Let_def)
  show ?thesis
  proof (cases "affine_account policy scope affinity ?av")
    case (Some c)
    have a: "attached_to policy scope cs affinity unknown now (ac_account_id c)"
      by (rule affine_SomeD [OF Some])
    then have "ac_account_id c \<in> set ?ms" "usable cs scope unknown now (ac_account_id c) \<noteq> None"
      by (auto simp: attached_to_def)
    then show ?thesis
      using start Some True a by auto
  next
    case None
    have none: "\<nexists>k. attached_to policy scope cs affinity unknown now k"
      using affine_NoneD [OF None] by blast
    show ?thesis
    proof (cases ?av)
      case Nil
      then have nu: "\<forall>i \<in> set ?ms. usable cs scope unknown now i = None"
        by (simp add: map_filter_Nil_iff)
      then have "\<forall>i \<in> set ?ms. refusal cs scope unknown now i \<noteq> None"
        by (metis refusal_None_iff)
      then have "length (List.map_filter (refusal cs scope unknown now) ?ms) = length ?ms"
        by (rule map_filter_total)
      then show ?thesis
        using start None Nil True nu by auto
    next
      case (Cons c rest)
      from map_filter_ConsD [OF this] obtain pre i post where i: "?ms = pre @ i # post"
          "usable cs scope unknown now i = Some c" "list_all (\<lambda>k. usable cs scope unknown now k = None) pre"
        by blast
      have id: "ac_account_id c = i"
        using usable_SomeD [OF i(2)] by simp
      have sel: "select_account policy scope cs affinity unknown now
          = AccountSelected i (if is_ordered policy then SelectedOrdered else SelectedFixed)"
        using start None Cons id by simp
      have mem: "i \<in> set ?ms"
        using i(1) by simp
      show ?thesis
        unfolding sel account_selection.case using True mem i none by auto
    qed
  qed
qed

lemma cooldown_deadline_bounds:
  assumes "cooldown_deadline cat now retry_after fallback = Some u"
  shows "int (cooldown_delay_ms cat retry_after fallback) \<le> 1000 * (u - now)"
    and "1000 * (u - now) < int (cooldown_delay_ms cat retry_after fallback) + 1000"
proof -
  let ?d = "cooldown_delay_ms cat retry_after fallback"
  have u: "u - now = int (div_ceil ?d 1000)"
    using assms by (auto simp: cooldown_deadline_def Let_def checked_add_i64_def split: if_splits)
  have "?d \<le> div_ceil ?d 1000 * 1000"
    by (rule div_ceil_upper) simp
  moreover have "div_ceil ?d 1000 * 1000 < ?d + 1000"
    by (rule div_ceil_lower) simp
  ultimately have "int ?d \<le> 1000 * int (div_ceil ?d 1000) \<and> 1000 * int (div_ceil ?d 1000) < int ?d + 1000"
    by linarith
  then show "int ?d \<le> 1000 * (u - now)" and "1000 * (u - now) < int ?d + 1000"
    unfolding u by simp_all
qed

lemma cooldown_deadline_given:
  assumes "cat \<in> cooling_categories" and "0 < cooldown_delay_ms cat retry_after fallback"
    and "0 \<le> now" and "now + int (cooldown_delay_ms cat retry_after fallback) \<le> int i64_limit"
  obtains u where "cooldown_deadline cat now retry_after fallback = Some u"
proof -
  let ?d = "cooldown_delay_ms cat retry_after fallback"
  have "div_ceil ?d 1000 * 1000 < ?d + 1000"
    by (rule div_ceil_lower) simp
  with assms(2) have "div_ceil ?d 1000 \<le> ?d" by linarith
  moreover have "?d \<le> div_ceil ?d 1000 * 1000"
    by (rule div_ceil_upper) simp
  with assms(2) have "0 < div_ceil ?d 1000" by simp
  ultimately have "cooldown_deadline cat now retry_after fallback = Some (now + int (div_ceil ?d 1000))"
    using assms by (simp add: cooldown_deadline_def Let_def checked_add_i64_def i64_ok_def)
  then show thesis by (rule that)
qed

text \<open>What a failure asks for: the provider's hint, or else the floor of its kind of failure.\<close>

lemma cooldown_delay_ms_hint:
  "cooldown_delay_ms cat retry_after fallback =
     (case retry_after of
        Some (Suc h) \<Rightarrow> Suc h
      | _ \<Rightarrow> max fallback (if cat = CatProviderQuota then 900000
                          else if cat = CatProviderBilling then 1800000 else 0))"
  by (cases cat)
    (auto simp: cooldown_delay_ms_def fallback_cooldown_ms_def quota_cooldown_without_hint_ms_def
      billing_cooldown_without_hint_ms_def split: option.split nat.split)

lemma unusable_account_not_selected:
  assumes "c \<in> set cs" and "reject c scope unknown now \<noteq> None"
  shows "select_account policy scope cs affinity unknown now \<noteq> AccountSelected (ac_account_id c) reason"
proof
  assume sel: "select_account policy scope cs affinity unknown now = AccountSelected (ac_account_id c) reason"
  let ?i = "ac_account_id c"
  note i = account_selected_usable [OF sel]
  from i(3) obtain c' where c': "usable cs scope unknown now ?i = Some c'"
    by blast
  have "unambiguous cs ?i"
    using i(1,2) by (simp add: valid_policy_def list_all_iff)
  moreover have "c \<in> set (filter (\<lambda>x. ac_account_id x = ?i) cs)" "c' \<in> set (filter (\<lambda>x. ac_account_id x = ?i) cs)"
    using assms(1) usable_SomeD [OF c'] by auto
  ultimately have "c' = c"
    unfolding unambiguous_def
    by (cases "filter (\<lambda>x. ac_account_id x = ?i) cs") (simp_all del: set_filter filter_set)
  then have "reject c scope unknown now = None"
    using usable_SomeD [OF c'] by simp
  then show False
    using assms(2) by contradiction
qed

text \<open>
  C9. A failure that makes an account rest gives it a deadline: the delay in the provider's hint, or
  without one the caller's fallback, at least fifteen minutes for a quota and thirty for a bill,
  rounded up to a second. Until that delay has passed no selection under any policy takes the account.
\<close>

theorem resting_account_not_selected:
  assumes cat: "cat \<in> {CatProviderQuota, CatProviderBilling, CatRateLimit, CatNetwork, CatTimeout, CatProviderUnavailable}"
    and d: "d = (case retry_after of
        Some (Suc hint) \<Rightarrow> Suc hint
      | _ \<Rightarrow> max fallback (if cat = CatProviderQuota then 15 * 60 * 1000
                          else if cat = CatProviderBilling then 30 * 60 * 1000 else 0))"
    and range: "0 < d" "0 \<le> now" "now + int d \<le> 9223372036854775807"
    and c: "c \<in> set cs" "ac_cooldown_until c = cooldown_deadline cat now retry_after fallback"
    and t: "1000 * (t - now) < int d"
  shows "select_account policy scope cs affinity unknown t \<noteq> AccountSelected (ac_account_id c) reason
    \<and> (\<exists>u. cooldown_deadline cat now retry_after fallback = Some u
         \<and> int d \<le> 1000 * (u - now) \<and> 1000 * (u - now) < int d + 1000)"
proof -
  have delay: "cooldown_delay_ms cat retry_after fallback = d"
    unfolding cooldown_delay_ms_hint d by (simp cong: option.case_cong nat.case_cong)
  have "cat \<in> cooling_categories"
    using cat by (simp add: cooling_categories_def)
  then obtain u where u: "cooldown_deadline cat now retry_after fallback = Some u"
    using cooldown_deadline_given [of cat retry_after fallback now] range delay
    by (auto simp: i64_limit_def)
  note bounds = cooldown_deadline_bounds [OF u, unfolded delay]
  have "1000 * (t - now) < 1000 * (u - now)"
    using t bounds(1) by (rule less_le_trans)
  then have "t < u" by simp
  then have "reject c scope unknown t \<noteq> None"
    using c(2) u by (simp add: reject_def)
  then show ?thesis
    using unusable_account_not_selected [OF c(1)] u bounds by blast
qed

definition example_account :: account_candidate where
  "example_account =
     \<lparr>ac_account_id = ''acc'', ac_provider = ''p'', ac_request_model = ''m'', ac_credential_revision = 1,
      ac_enabled = True, ac_connected = True, ac_supports_model = True, ac_user_limit_exhausted = False,
      ac_cooldown_until = Some 1900, ac_at_capacity = False, ac_quota = None\<rparr>"

definition example_scope :: route_scope where
  "example_scope =
     \<lparr>rs_execution_host = ''h'', rs_provider = ''p'', rs_model_config_id = ''m'', rs_policy_revision = 1,
      rs_cache_lineage = []\<rparr>"

definition hinted_account :: account_candidate where
  "hinted_account = example_account\<lparr>ac_cooldown_until := Some 1031\<rparr>"

theorem resting_account_not_selected_witness:
  "cooldown_deadline CatRateLimit 1000 (Some 30500) 60000 = Some 1031
   \<and> select_account (PolicyOrdered [''acc'']) example_scope [hinted_account] None QuotaProbe 1030
     \<noteq> AccountSelected ''acc'' SelectedOrdered
   \<and> select_account (PolicyOrdered [''acc'']) example_scope [hinted_account] None QuotaProbe 1031
     = AccountSelected ''acc'' SelectedOrdered
   \<and> cooldown_deadline CatProviderQuota 1000 None 500 = Some 1900
   \<and> select_account (PolicyOrdered [''acc'']) example_scope [example_account] None QuotaProbe 1899
     \<noteq> AccountSelected ''acc'' SelectedOrdered"
proof -
  have d: "cooldown_deadline CatProviderQuota 1000 None 500 = Some 1900"
    "cooldown_deadline CatRateLimit 1000 (Some 30500) 60000 = Some 1031"
    by (simp_all add: cooldown_deadline_def cooling_categories_def cooldown_delay_ms_def fallback_cooldown_ms_def
        quota_cooldown_without_hint_ms_def div_ceil_def checked_add_i64_def i64_ok_def i64_limit_def)
  have "select_account (PolicyOrdered [''acc'']) example_scope [example_account] None QuotaProbe 1899
      \<noteq> AccountSelected (ac_account_id example_account) SelectedOrdered"
    using resting_account_not_selected [of CatProviderQuota 900000 500 None 1000 example_account
        "[example_account]" 1899 "PolicyOrdered [''acc'']" example_scope None QuotaProbe SelectedOrdered]
    by (simp add: d example_account_def)
  moreover have "select_account (PolicyOrdered [''acc'']) example_scope [hinted_account] None QuotaProbe 1030
      \<noteq> AccountSelected (ac_account_id hinted_account) SelectedOrdered"
    using resting_account_not_selected [of CatRateLimit 30500 60000 "Some 30500" 1000 hinted_account
        "[hinted_account]" 1030 "PolicyOrdered [''acc'']" example_scope None QuotaProbe SelectedOrdered]
    by (simp add: d hinted_account_def)
  moreover have "select_account (PolicyOrdered [''acc'']) example_scope [hinted_account] None QuotaProbe 1031
      = AccountSelected ''acc'' SelectedOrdered"
    by (simp add: select_account_def hinted_account_def example_account_def example_scope_def reject_def
        current_quota_def unknown_quota_def affine_account_def)
  ultimately show ?thesis
    using d by (simp add: example_account_def hinted_account_def)
qed

section \<open>The recoveries of one failure\<close>

text \<open>What admits a request to another account also lets the model pool try another member.\<close>

lemma account_switch_implies_failover:
  assumes "admit_account_switch policy (ape_category e) b = Inr ()" and "holds_reservation R r"
  shows "fst (fail_reservation r e now delay R)"
  using assms
  by (cases "ape_category e")
    (auto simp: admit_account_switch_def admit_category_def fail_reservation_def release_def
      failure_status_def Let_def split: if_splits)

text \<open>
  A failure shown to the user as worth retrying makes the pool rest the member and the routing rest the
  account, and may be moved to another account when nothing else forbids it.
\<close>

lemma retryable_failures_rest:
  assumes "is_retryable_category cat"
  shows "failure_status cat = Inr HealthCoolingDown" and "cat \<in> cooling_categories"
    and "admit_category cat exhausted = Inr ()"
  using assms by (auto simp: is_retryable_category_def failure_status_def cooling_categories_def admit_category_def)

text \<open>
  A billing failure is where the two differ: the pool takes the member out of use until the user asks for
  it again, the routing of accounts tries the account again after half an hour.
\<close>

lemma billing_failure_differs:
  "failure_status CatProviderBilling = Inr HealthNeedsAttention"
  "admit_category CatProviderBilling exhausted = Inr ()"
  "1800000 \<le> cooldown_delay_ms CatProviderBilling None fallback"
  by (simp_all add: failure_status_def admit_category_def cooldown_delay_ms_def fallback_cooldown_ms_def
      billing_cooldown_without_hint_ms_def)

text \<open>A status 429 never takes a member out of use, unless the provider says that the plan does not include it.\<close>

lemma too_many_requests_rests:
  "failure_status (classify_ai_error_parts lower m code (Some 429)) = Inr HealthCoolingDown
   \<longleftrightarrow> normalized_code code \<noteq> ''usage_not_included''"
proof -
  have cls: "classify_ai_error_parts lower m code (Some 429) = classify_too_many_requests lower m code"
    by (simp add: classify_ai_error_parts_def)
  show ?thesis
    unfolding cls too_many_requests_cases(2) [of lower m code, symmetric]
    using too_many_requests_cases(1) [of lower m code] by (auto simp: failure_status_def)
qed

end
