(* ===== verification/User_Questions.thy ===== *)
theory User_Questions
  imports Prelude Json
begin

text \<open>
  The mailbox of questions a running turn puts to the user,
  \<open>execution/agent-runtime/src/user_questions.rs\<close>: the pending questions under one lock, the guard that
  ties each to the tool that waits for the answer, the race between an answer, the first sign of
  attention and the deadline, and the text that goes back to the model.

  The mutex-protected \<open>UserInputState\<close> is \<open>mailbox\<close>; every function that locks it once is one operation.
  The one-shot channel of a registration is named by its registration sequence.  \<open>send_answer\<close> takes the
  entry out under the lock and sends after it, so it is two steps of the relation \<open>uq_step\<close>; the
  waiting tool is a record of that relation, with the three branches of its \<open>select!\<close> as steps.
  Wall-clock readings are arguments.

  The lemmas show that a question somebody attended to never times out, that an answer once taken
  reaches the tool that waits for it, that a question whose tool is gone is not offered any more, and
  that counts and snapshots show the same questions.
\<close>

section \<open>Contracts\<close>

record question_option =
  qo_label :: string
  qo_description :: string

record question =
  qu_question :: string
  qu_header :: string
  qu_options :: "question_option list"
  qu_multi_select :: bool

record user_question_tool_result =
  ur_data :: json
  ur_result_for_assistant :: string

record pending_user_question =
  pq_tool_id :: string
  pq_session_id :: string
  pq_dialog_turn_id :: "string option"
  pq_model_round_id :: "string option"
  pq_questions :: json
  pq_registered_at_ms :: nat
  pq_interaction_started :: bool

definition new_pending_question ::
  "string \<Rightarrow> string \<Rightarrow> string option \<Rightarrow> string option \<Rightarrow> json \<Rightarrow> nat \<Rightarrow> pending_user_question" where
  "new_pending_question tool session turn model_round qs now_ms =
     \<lparr>pq_tool_id = tool, pq_session_id = session, pq_dialog_turn_id = turn, pq_model_round_id = model_round,
      pq_questions = qs, pq_registered_at_ms = min now_ms u64_max, pq_interaction_started = False\<rparr>"

record question_snapshot =
  qs_revision :: nat
  qs_questions :: "pending_user_question list"

datatype send_error = MissingChannel string | ChannelClosed string

record question_controller =
  qc_session_id :: string
  qc_dialog_turn_id :: "string option"

section \<open>The mailbox\<close>

text \<open>
  A pending entry; its sender is the one-shot channel of its registration sequence, and \<open>pi_started\<close> is
  the value of its \<open>interaction_started\<close> watch channel.
\<close>

record pending_input =
  pi_question :: "pending_user_question option"
  pi_controllers :: "question_controller list"
  pi_sequence :: nat
  pi_started :: bool

definition controlled_by :: "pending_input \<Rightarrow> string \<Rightarrow> bool" where
  "controlled_by p s \<longleftrightarrow>
     (case pi_question p of Some q \<Rightarrow> pq_session_id q = s | None \<Rightarrow> False)
     \<or> list_ex (\<lambda>c. qc_session_id c = s) (pi_controllers p)"

record mailbox =
  mb_pending :: "(string, pending_input) kv"
  mb_next_sequence :: nat
  mb_revision :: nat
  mb_changes :: nat

definition empty_mailbox :: mailbox where
  "empty_mailbox = \<lparr>mb_pending = [], mb_next_sequence = 0, mb_revision = 0, mb_changes = 0\<rparr>"

definition bump_mailbox :: "mailbox \<Rightarrow> mailbox" where
  "bump_mailbox m =
     (let r = sat_add_u64 (mb_revision m) 1 in m\<lparr>mb_revision := r, mb_changes := r\<rparr>)"

definition remove_pending :: "string \<Rightarrow> mailbox \<Rightarrow> mailbox" where
  "remove_pending t m = bump_mailbox (m\<lparr>mb_pending := kv_del t (mb_pending m)\<rparr>)"

definition insert_pending ::
  "string \<Rightarrow> pending_user_question option \<Rightarrow> question_controller list \<Rightarrow> mailbox \<Rightarrow> nat \<times> mailbox" where
  "insert_pending t q cs m =
     (let n = mb_next_sequence m in
      (n, bump_mailbox (m\<lparr>mb_next_sequence := sat_add_u64 n 1,
            mb_pending := kv_put t \<lparr>pi_question = q, pi_controllers = cs, pi_sequence = n, pi_started = False\<rparr>
              (mb_pending m)\<rparr>)))"

definition register_channel :: "string \<Rightarrow> mailbox \<Rightarrow> nat \<times> mailbox" where
  "register_channel t m = insert_pending t None [] m"

definition register_question ::
  "pending_user_question \<Rightarrow> question_controller list \<Rightarrow> mailbox \<Rightarrow> nat \<times> mailbox" where
  "register_question q cs m = insert_pending (pq_tool_id q) (Some q) cs m"

text \<open>What an acknowledged interaction does to the question that is shown.\<close>

definition attended_question :: "pending_user_question \<Rightarrow> pending_user_question" where
  "attended_question q =
     q\<lparr>pq_interaction_started := True,
       pq_questions := (case pq_questions q of
           JObject payload \<Rightarrow> JObject (kv_put ''responseDeadlineMs'' JNull payload)
         | v \<Rightarrow> v)\<rparr>"

definition start_interaction :: "string \<Rightarrow> string \<Rightarrow> mailbox \<Rightarrow> (send_error + unit) \<times> mailbox" where
  "start_interaction s t m =
     (case map_of (mb_pending m) t of
        None \<Rightarrow> (Inl (MissingChannel t), m)
      | Some p \<Rightarrow>
          if \<not> controlled_by p s then (Inl (MissingChannel t), m)
          else if pi_started p then (Inr (), m)
          else (Inr (), bump_mailbox (m\<lparr>mb_pending := kv_put t
                 (p\<lparr>pi_started := True, pi_question := map_option attended_question (pi_question p)\<rparr>)
                 (mb_pending m)\<rparr>)))"

text \<open>The locked section of \<open>send_answer\<close>: the entry taken out, if there is one.\<close>

definition take_pending :: "string \<Rightarrow> mailbox \<Rightarrow> pending_input option \<times> mailbox" where
  "take_pending t m =
     (case map_of (mb_pending m) t of
        None \<Rightarrow> (None, m)
      | Some p \<Rightarrow> (Some p, remove_pending t m))"

definition cancel_for_session :: "string \<Rightarrow> string \<Rightarrow> mailbox \<Rightarrow> (send_error + unit) \<times> mailbox" where
  "cancel_for_session s t m =
     (case map_of (mb_pending m) t of
        None \<Rightarrow> (Inl (MissingChannel t), m)
      | Some p \<Rightarrow>
          if \<not> controlled_by p s then (Inl (MissingChannel t), m)
          else (Inr (), remove_pending t m))"

definition cancel_question :: "string \<Rightarrow> mailbox \<Rightarrow> bool \<times> mailbox" where
  "cancel_question t m =
     (case map_of (mb_pending m) t of None \<Rightarrow> (False, m) | Some _ \<Rightarrow> (True, remove_pending t m))"

definition expire_if_unstarted :: "string \<Rightarrow> nat \<Rightarrow> mailbox \<Rightarrow> bool \<times> mailbox" where
  "expire_if_unstarted t n m =
     (case map_of (mb_pending m) t of
        Some p \<Rightarrow> if pi_sequence p = n \<and> \<not> pi_started p then (True, remove_pending t m) else (False, m)
      | None \<Rightarrow> (False, m))"

definition drop_registration :: "string \<Rightarrow> nat \<Rightarrow> mailbox \<Rightarrow> mailbox" where
  "drop_registration t n m =
     (case map_of (mb_pending m) t of
        Some p \<Rightarrow> if pi_sequence p = n then remove_pending t m else m
      | None \<Rightarrow> m)"

definition has_pending :: "string \<Rightarrow> mailbox \<Rightarrow> bool" where
  "has_pending t m \<longleftrightarrow> map_of (mb_pending m) t \<noteq> None"

section \<open>Reading the mailbox\<close>

definition pending_tool_ids :: "mailbox \<Rightarrow> string list" where
  "pending_tool_ids m = map snd (sort_key fst (map (\<lambda>(t, p). (pi_sequence p, t)) (mb_pending m)))"

text \<open>The set of sessions an entry counts for, without repetition.\<close>

definition counted_sessions :: "pending_input \<Rightarrow> string list" where
  "counted_sessions p =
     (case pi_question p of
        None \<Rightarrow> []
      | Some q \<Rightarrow> remdups (pq_session_id q # map qc_session_id (pi_controllers p)))"

definition count_session :: "string \<Rightarrow> (string, nat) kv \<Rightarrow> (string, nat) kv" where
  "count_session s counts = kv_put s (Suc (case map_of counts s of Some n \<Rightarrow> n | None \<Rightarrow> 0)) counts"

definition pending_question_counts :: "mailbox \<Rightarrow> (string, nat) kv" where
  "pending_question_counts m =
     fold (\<lambda>(_, p) counts. fold count_session (counted_sessions p) counts) (mb_pending m) []"

text \<open>
  \<open>question.questions["responseHostNowMs"] = now\<close>, reached only when the payload is an object.
\<close>

definition with_host_now :: "nat \<Rightarrow> pending_user_question \<Rightarrow> pending_user_question" where
  "with_host_now now_ms q =
     (case pq_questions q of
        JObject payload \<Rightarrow>
          if map_of payload ''responseDeadlineMs'' \<noteq> None
          then q\<lparr>pq_questions := JObject (kv_put ''responseHostNowMs'' (JNumber (PosInt (now_ms mod (u64_max + 1)))) payload)\<rparr>
          else q
      | _ \<Rightarrow> q)"

definition projected_question :: "string \<Rightarrow> nat \<Rightarrow> pending_input \<Rightarrow> (nat \<times> pending_user_question) option" where
  "projected_question s now_ms p =
     (if \<not> controlled_by p s then None
      else map_option (\<lambda>q0.
        (let q = with_host_now now_ms q0 in
         (pi_sequence p,
          if pq_session_id q \<noteq> s
          then (case find (\<lambda>c. qc_session_id c = s) (pi_controllers p) of
                  Some c \<Rightarrow> q\<lparr>pq_session_id := qc_session_id c, pq_dialog_turn_id := qc_dialog_turn_id c,
                             pq_model_round_id := None\<rparr>
                | None \<Rightarrow> q)
          else q))) (pi_question p))"

definition pending_question_snapshot :: "string \<Rightarrow> nat \<Rightarrow> mailbox \<Rightarrow> question_snapshot" where
  "pending_question_snapshot s now_ms m =
     \<lparr>qs_revision = mb_revision m,
      qs_questions = map snd (sort_key fst
        (List.map_filter (\<lambda>(_, p). projected_question s now_ms p) (mb_pending m)))\<rparr>"

section \<open>Availability and validation\<close>

definition ask_available_for_acp_transport :: "json option \<Rightarrow> bool" where
  "ask_available_for_acp_transport acp \<longleftrightarrow> \<not> (acp = Some (JString ''true'') \<or> acp = Some (JBool True))"

definition ask_available_in_context :: "json option \<Rightarrow> json option \<Rightarrow> bool" where
  "ask_available_in_context acp available \<longleftrightarrow>
     ask_available_for_acp_transport acp
     \<and> \<not> (available = Some (JString ''false'') \<or> available = Some (JBool False))"

fun validate_options :: "nat \<Rightarrow> nat \<Rightarrow> question_option list \<Rightarrow> string + unit" where
  "validate_options q_num i [] = Inr ()"
| "validate_options q_num i (opt # opts) =
     (if trim (qo_label opt) = []
      then Inl (''Question '' @ decimal q_num @ '' option '' @ decimal (i + 1) @ '' label is required'')
      else if trim (qo_description opt) = []
      then Inl (''Question '' @ decimal q_num @ '' option '' @ decimal (i + 1) @ '' description is required'')
      else validate_options q_num (Suc i) opts)"

definition validate_question :: "nat \<Rightarrow> question \<Rightarrow> string + unit" where
  "validate_question q_num q =
     (if trim (qu_question q) = [] then Inl (''Question '' @ decimal q_num @ '' text is required'')
      else if trim (qu_header q) = [] then Inl (''Question '' @ decimal q_num @ '' header is required'')
      else if chars_count (qu_header q) > 20
      then Inl (''Question '' @ decimal q_num @ '' header must be less than 20 characters'')
      else if length (qu_options q) < 2 \<or> length (qu_options q) > 10
      then Inl (''Question '' @ decimal q_num @ '' must have 2-10 options'')
      else validate_options q_num 0 (qu_options q))"

fun validate_questions :: "nat \<Rightarrow> question list \<Rightarrow> string + unit" where
  "validate_questions i [] = Inr ()"
| "validate_questions i (q # qs) =
     (case validate_question (i + 1) q of Inl e \<Rightarrow> Inl e | Inr _ \<Rightarrow> validate_questions (Suc i) qs)"

definition validate_input :: "question list \<Rightarrow> string + unit" where
  "validate_input qs =
     (if qs = [] then Inl ''At least one question is required''
      else if length qs > 4 then Inl ''Maximum 4 questions allowed''
      else validate_questions 0 qs)"

section \<open>Results for the model\<close>

definition newline :: string where
  "newline = [CHR 0x0A]"

definition answer_text :: "json_map \<Rightarrow> nat \<Rightarrow> string" where
  "answer_text answers i =
     (case map_of answers (decimal i) of
        Some (JArray vs) \<Rightarrow> join '', '' (List.map_filter json_as_str vs)
      | Some (JString s) \<Rightarrow> s
      | _ \<Rightarrow> ''N/A'')"

definition answer_line :: "json_map \<Rightarrow> nat \<times> question \<Rightarrow> string" where
  "answer_line answers = (\<lambda>(i, q).
     ''- '' @ qu_question q @ '' ('' @ qu_header q @ ''): '' @ [CHR 0x22] @ answer_text answers i @ [CHR 0x22])"

definition answers_object :: "json \<Rightarrow> json_map option" where
  "answers_object answers =
     (case json_as_object answers of
        Some obj \<Rightarrow> Some obj
      | None \<Rightarrow> (case json_get answers ''answers'' of Some v \<Rightarrow> json_as_object v | None \<Rightarrow> None))"

definition format_result_for_assistant :: "question list \<Rightarrow> json \<Rightarrow> string" where
  "format_result_for_assistant qs answers =
     (case answers_object answers of
        Some m \<Rightarrow> join newline
          ([''User has answered your questions:''] @ map (answer_line m) (enumerate 0 qs)
           @ [newline @ ''You can now continue with the user'' @ [CHR 0x27] @ ''s answers in mind.''])
      | None \<Rightarrow> ''User has answered your questions (no valid answers received).'')"

definition build_answered_result :: "question list \<Rightarrow> json \<Rightarrow> user_question_tool_result" where
  "build_answered_result qs answers =
     \<lparr>ur_data = JObject
        [(''questions'', JArray (map (\<lambda>q. JObject [(''question'', JString (qu_question q)),
            (''header'', JString (qu_header q))]) qs)),
         (''answers'', answers), (''status'', JString ''answered'')],
      ur_result_for_assistant = format_result_for_assistant qs answers\<rparr>"

definition build_cancelled_result :: "question list \<Rightarrow> user_question_tool_result" where
  "build_cancelled_result qs =
     \<lparr>ur_data = JObject [(''questions_count'', JNumber (PosInt (length qs))), (''status'', JString ''cancelled'')],
      ur_result_for_assistant = ''User input request was cancelled.''\<rparr>"

definition build_timed_out_result :: "question list \<Rightarrow> user_question_tool_result" where
  "build_timed_out_result qs =
     \<lparr>ur_data = JObject [(''questions_count'', JNumber (PosInt (length qs))), (''status'', JString ''timeout'')],
      ur_result_for_assistant =
        ''The user did not respond before the timeout. Skip the questions and continue execution.''\<rparr>"

section \<open>Waiting for the answer\<close>

datatype wait_outcome = Answered json | WaitCancelled | WaitTimedOut

text \<open>
  The tool in \<open>wait_for_user_question_response_until\<close>: in the \<open>select!\<close> with its three branches, past it in
  \<open>response.await\<close>, or returned.
\<close>

datatype wait_phase = Selecting | AwaitingResponse | Finished wait_outcome

record waiter =
  wt_tool :: string
  wt_phase :: wait_phase

text \<open>A one-shot channel: the sender not used yet, an answer in it, or the sender dropped.\<close>

datatype wire = WireOpen | WireSent json | WireClosed

record uq_world =
  w_mail :: mailbox
  w_wires :: "nat \<Rightarrow> wire"
  w_waiters :: "nat \<rightharpoonup> waiter"
  w_hands :: "(nat \<times> json) list"
  w_attended :: "nat set"

definition empty_world :: uq_world where
  "empty_world = \<lparr>w_mail = empty_mailbox, w_wires = (\<lambda>_. WireClosed), w_waiters = (\<lambda>_. None),
     w_hands = [], w_attended = {}\<rparr>"

text \<open>Dropping the entry stored under a tool id drops its sender.\<close>

definition close_of :: "string \<Rightarrow> mailbox \<Rightarrow> (nat \<Rightarrow> wire) \<Rightarrow> nat \<Rightarrow> wire" where
  "close_of t m ws =
     (case map_of (mb_pending m) t of Some p \<Rightarrow> ws(pi_sequence p := WireClosed) | None \<Rightarrow> ws)"

datatype uq_event =
    EvAsk pending_user_question "question_controller list"
  | EvChannel string
  | EvAttend string string
  | EvTake string json
  | EvSend nat
  | EvCancelFor string string
  | EvCancelQuestion string
  | EvPollResponse nat
  | EvPollActivity nat
  | EvPollDeadline nat
  | EvDropWaiter nat

definition set_phase :: "nat \<Rightarrow> waiter \<Rightarrow> wait_phase \<Rightarrow> uq_world \<Rightarrow> uq_world" where
  "set_phase n w ph W = W\<lparr>w_waiters := (w_waiters W)(n \<mapsto> w\<lparr>wt_phase := ph\<rparr>)\<rparr>"

text \<open>
  One step of the system; \<open>None\<close> where the event cannot happen.  Registrations are counted by a \<open>u64\<close>
  that saturates: the steps stop before it does, that is after 2 to the 64 questions of one process.
\<close>

fun uq_step :: "uq_event \<Rightarrow> uq_world \<Rightarrow> uq_world option" where
  "uq_step (EvAsk q cs) W =
     (if mb_next_sequence (w_mail W) \<ge> u64_max then None
      else case register_question q cs (w_mail W) of
        (n, m) \<Rightarrow> Some (W\<lparr>w_mail := m,
           w_wires := (close_of (pq_tool_id q) (w_mail W) (w_wires W))(n := WireOpen),
           w_waiters := (w_waiters W)(n \<mapsto> \<lparr>wt_tool = pq_tool_id q, wt_phase = Selecting\<rparr>)\<rparr>))"
| "uq_step (EvChannel t) W =
     (if mb_next_sequence (w_mail W) \<ge> u64_max then None
      else case register_channel t (w_mail W) of
        (n, m) \<Rightarrow> Some (W\<lparr>w_mail := m,
           w_wires := (close_of t (w_mail W) (w_wires W))(n := WireOpen)\<rparr>))"
| "uq_step (EvAttend s t) W =
     (case start_interaction s t (w_mail W) of
        (Inl _, _) \<Rightarrow> Some W
      | (Inr _, m) \<Rightarrow> Some (W\<lparr>w_mail := m,
           w_attended := (case map_of (mb_pending (w_mail W)) t of
               Some p \<Rightarrow> insert (pi_sequence p) (w_attended W) | None \<Rightarrow> w_attended W)\<rparr>))"
| "uq_step (EvTake t v) W =
     (case take_pending t (w_mail W) of
        (None, _) \<Rightarrow> Some W
      | (Some p, m) \<Rightarrow> Some (W\<lparr>w_mail := m, w_hands := (pi_sequence p, v) # w_hands W\<rparr>))"
| "uq_step (EvSend n) W =
     (case map_of (w_hands W) n of
        None \<Rightarrow> None
      | Some v \<Rightarrow> Some (W\<lparr>w_hands := kv_del n (w_hands W),
           w_wires := (if w_wires W n = WireOpen then (w_wires W)(n := WireSent v) else w_wires W)\<rparr>))"
| "uq_step (EvCancelFor s t) W =
     (case cancel_for_session s t (w_mail W) of
        (Inl _, _) \<Rightarrow> Some W
      | (Inr _, m) \<Rightarrow> Some (W\<lparr>w_mail := m, w_wires := close_of t (w_mail W) (w_wires W)\<rparr>))"
| "uq_step (EvCancelQuestion t) W =
     (case cancel_question t (w_mail W) of
        (_, m) \<Rightarrow> Some (W\<lparr>w_mail := m, w_wires := close_of t (w_mail W) (w_wires W)\<rparr>))"
| "uq_step (EvPollResponse n) W =
     (case w_waiters W n of
        None \<Rightarrow> None
      | Some w \<Rightarrow>
          (case wt_phase w of
             Finished _ \<Rightarrow> None
           | _ \<Rightarrow>
               (case w_wires W n of
                  WireOpen \<Rightarrow> None
                | WireSent v \<Rightarrow> Some (set_phase n w (Finished (Answered v)) W)
                | WireClosed \<Rightarrow> Some (set_phase n w (Finished WaitCancelled) W))))"
| "uq_step (EvPollActivity n) W =
     (case w_waiters W n of
        None \<Rightarrow> None
      | Some w \<Rightarrow>
          (if wt_phase w = Selecting
              \<and> (n \<in> w_attended W
                 \<or> (n \<notin> fst ` set (w_hands W)
                    \<and> \<not> list_ex (\<lambda>(_, p). pi_sequence p = n) (mb_pending (w_mail W))))
           then Some (set_phase n w AwaitingResponse W) else None))"
| "uq_step (EvPollDeadline n) W =
     (case w_waiters W n of
        None \<Rightarrow> None
      | Some w \<Rightarrow>
          (if wt_phase w \<noteq> Selecting then None
           else case expire_if_unstarted (wt_tool w) n (w_mail W) of
             (True, m) \<Rightarrow> Some (set_phase n w (Finished WaitTimedOut)
                (W\<lparr>w_mail := m, w_wires := close_of (wt_tool w) (w_mail W) (w_wires W)\<rparr>))
           | (False, _) \<Rightarrow> Some (set_phase n w AwaitingResponse W)))"
| "uq_step (EvDropWaiter n) W =
     (case w_waiters W n of
        None \<Rightarrow> None
      | Some w \<Rightarrow> Some (W\<lparr>w_mail := drop_registration (wt_tool w) n (w_mail W),
          w_wires := (w_wires W)(n := WireClosed), w_waiters := (w_waiters W)(n := None)\<rparr>))"

inductive uq_reachable :: "uq_world \<Rightarrow> bool" where
  start: "uq_reachable empty_world"
| step: "uq_reachable W \<Longrightarrow> uq_step e W = Some W' \<Longrightarrow> uq_reachable W'"

section \<open>The invariant of the race\<close>

abbreviation pend :: "uq_world \<Rightarrow> string \<Rightarrow> pending_input option" where
  "pend W t \<equiv> map_of (mb_pending (w_mail W)) t"

abbreviation in_hand :: "uq_world \<Rightarrow> nat \<Rightarrow> bool" where
  "in_hand W n \<equiv> n \<in> fst ` set (w_hands W)"

definition entries_ok :: "uq_world \<Rightarrow> bool" where
  "entries_ok W \<longleftrightarrow> kv_ok (mb_pending (w_mail W))
     \<and> (\<forall>t p. pend W t = Some p \<longrightarrow>
          pi_sequence p < mb_next_sequence (w_mail W) \<and> w_wires W (pi_sequence p) = WireOpen
          \<and> (pi_started p \<longleftrightarrow> pi_sequence p \<in> w_attended W) \<and> \<not> in_hand W (pi_sequence p))
     \<and> (\<forall>t p t' p'. pend W t = Some p \<longrightarrow> pend W t' = Some p' \<longrightarrow> pi_sequence p = pi_sequence p' \<longrightarrow> t = t')"

definition guarded_ok :: "uq_world \<Rightarrow> bool" where
  "guarded_ok W \<longleftrightarrow> (\<forall>t p. pend W t = Some p \<longrightarrow> pi_question p \<noteq> None \<longrightarrow>
     (\<exists>w. w_waiters W (pi_sequence p) = Some w \<and> wt_tool w = t
        \<and> (wt_phase w = Selecting \<or> wt_phase w = AwaitingResponse)))"

definition hands_ok :: "uq_world \<Rightarrow> bool" where
  "hands_ok W \<longleftrightarrow> kv_ok (w_hands W)
     \<and> (\<forall>n. in_hand W n \<longrightarrow> n < mb_next_sequence (w_mail W)
          \<and> (w_wires W n = WireOpen \<or> w_waiters W n = None))"

definition waiter_ok :: "uq_world \<Rightarrow> nat \<Rightarrow> waiter \<Rightarrow> bool" where
  "waiter_ok W n w \<longleftrightarrow> n < mb_next_sequence (w_mail W)
     \<and> (case wt_phase w of
          Finished (Answered v) \<Rightarrow> w_wires W n = WireSent v
        | Finished WaitCancelled \<Rightarrow> w_wires W n = WireClosed
        | Finished WaitTimedOut \<Rightarrow> w_wires W n = WireClosed \<and> n \<notin> w_attended W
        | _ \<Rightarrow> w_wires W n = WireOpen \<longrightarrow>
            in_hand W n \<or> (\<exists>p. pend W (wt_tool w) = Some p \<and> pi_sequence p = n))"

definition sequences_ok :: "uq_world \<Rightarrow> bool" where
  "sequences_ok W \<longleftrightarrow> (\<forall>n. n \<in> w_attended W \<or> w_wires W n \<noteq> WireClosed \<longrightarrow> n < mb_next_sequence (w_mail W))"

definition uq_ok :: "uq_world \<Rightarrow> bool" where
  "uq_ok W \<longleftrightarrow> entries_ok W \<and> guarded_ok W \<and> hands_ok W
     \<and> (\<forall>n w. w_waiters W n = Some w \<longrightarrow> waiter_ok W n w) \<and> sequences_ok W"

lemmas uq_defs = uq_ok_def entries_ok_def guarded_ok_def hands_ok_def waiter_ok_def sequences_ok_def

lemma bump_fields [simp]:
  "mb_pending (bump_mailbox m) = mb_pending m"
  "mb_next_sequence (bump_mailbox m) = mb_next_sequence m"
  by (simp_all add: bump_mailbox_def Let_def)

lemma remove_fields [simp]:
  "mb_pending (remove_pending t m) = kv_del t (mb_pending m)"
  "mb_next_sequence (remove_pending t m) = mb_next_sequence m"
  by (simp_all add: remove_pending_def)

lemma uq_ok_empty: "uq_ok empty_world"
  by (simp add: uq_defs empty_world_def empty_mailbox_def)

lemma entryD:
  assumes "uq_ok W" and "pend W t = Some p"
  shows "pi_sequence p < mb_next_sequence (w_mail W)" and "w_wires W (pi_sequence p) = WireOpen"
    and "pi_started p \<longleftrightarrow> pi_sequence p \<in> w_attended W" and "\<not> in_hand W (pi_sequence p)"
  using assms by (simp_all add: uq_ok_def entries_ok_def)

lemma entry_unique:
  "uq_ok W \<Longrightarrow> pend W t = Some p \<Longrightarrow> pend W t' = Some p' \<Longrightarrow> pi_sequence p = pi_sequence p' \<Longrightarrow> t = t'"
  by (simp add: uq_ok_def entries_ok_def)

text \<open>An entry leaves the mailbox and its sender is dropped.\<close>

lemma uq_ok_drop_entry:
  assumes ok: "uq_ok W" and p: "pend W t = Some p"
  shows "uq_ok (W\<lparr>w_mail := remove_pending t (w_mail W), w_wires := (w_wires W)(pi_sequence p := WireClosed)\<rparr>)"
proof -
  have other: "pi_sequence p' \<noteq> pi_sequence p" if "pend W t' = Some p'" "t' \<noteq> t" for t' p'
    using entry_unique [OF ok that(1) p] that(2) by auto
  note e = entryD [OF ok p]
  have "waiter_ok (W\<lparr>w_mail := remove_pending t (w_mail W),
      w_wires := (w_wires W)(pi_sequence p := WireClosed)\<rparr>) n w" if w: "w_waiters W n = Some w" for n w
  proof -
    have "waiter_ok W n w"
      using ok w by (simp add: uq_ok_def)
    then show ?thesis
      using e(2) p by (auto simp: waiter_ok_def split: wait_phase.splits wait_outcome.splits)
  qed
  moreover have "entries_ok W" "guarded_ok W" "hands_ok W" "sequences_ok W"
    using ok by (simp_all add: uq_ok_def)
  ultimately show ?thesis
    using other e
    by (auto simp: uq_ok_def entries_ok_def guarded_ok_def hands_ok_def sequences_ok_def)
qed

lemma uq_ok_close_of:
  assumes "uq_ok W" and "pend W t \<noteq> None"
  shows "uq_ok (W\<lparr>w_mail := remove_pending t (w_mail W), w_wires := close_of t (w_mail W) (w_wires W)\<rparr>)"
  using assms uq_ok_drop_entry [OF assms(1)] by (auto simp: close_of_def)

lemma uq_ok_take:
  assumes ok: "uq_ok W" and p: "pend W t = Some p"
  shows "uq_ok (W\<lparr>w_mail := remove_pending t (w_mail W), w_hands := (pi_sequence p, v) # w_hands W\<rparr>)"
proof -
  have other: "pi_sequence p' \<noteq> pi_sequence p" if "pend W t' = Some p'" "t' \<noteq> t" for t' p'
    using entry_unique [OF ok that(1) p] that(2) by auto
  note e = entryD [OF ok p]
  have "waiter_ok (W\<lparr>w_mail := remove_pending t (w_mail W),
      w_hands := (pi_sequence p, v) # w_hands W\<rparr>) n w" if w: "w_waiters W n = Some w" for n w
  proof -
    have "waiter_ok W n w"
      using ok w by (simp add: uq_ok_def)
    then show ?thesis
      using e(2) p by (auto simp: waiter_ok_def split: wait_phase.splits wait_outcome.splits)
  qed
  moreover have "entries_ok W" "guarded_ok W" "hands_ok W" "sequences_ok W"
    using ok by (simp_all add: uq_ok_def)
  moreover have "kv_ok ((pi_sequence p, v) # w_hands W)"
    using e(4) \<open>hands_ok W\<close> by (simp add: hands_ok_def kv_ok_def)
  ultimately show ?thesis
    using other e
    by (auto simp: uq_ok_def entries_ok_def guarded_ok_def hands_ok_def sequences_ok_def)
qed

text \<open>A new entry under a tool id that has none.\<close>

lemma uq_ok_insert:
  assumes ok: "uq_ok W" and none: "pend W t = None" and n: "n = mb_next_sequence (w_mail W)"
    and bound: "n < u64_max" and m: "insert_pending t q cs (w_mail W) = (n, m)"
    and ws: "q \<noteq> None \<Longrightarrow> ws = (w_waiters W)(n \<mapsto> \<lparr>wt_tool = t, wt_phase = Selecting\<rparr>)"
      "q = None \<Longrightarrow> ws = w_waiters W"
  shows "uq_ok (W\<lparr>w_mail := m, w_wires := (w_wires W)(n := WireOpen), w_waiters := ws\<rparr>)"
proof -
  let ?p = "\<lparr>pi_question = q, pi_controllers = cs, pi_sequence = n, pi_started = False\<rparr>"
  have mp: "mb_pending m = kv_put t ?p (mb_pending (w_mail W))" and mn: "mb_next_sequence m = Suc n"
    using m n bound by (auto simp: insert_pending_def Let_def sat_add_u64_def)
  have parts: "entries_ok W" "guarded_ok W" "hands_ok W" "sequences_ok W"
    using ok by (simp_all add: uq_ok_def)
  have fresh: "n \<notin> w_attended W" "w_wires W n = WireClosed" "\<not> in_hand W n"
    using parts n by (auto simp: sequences_ok_def hands_ok_def)
  have old: "pi_sequence p < n" if "pend W t' = Some p" for t' p
    using entryD(1) [OF ok that] n by simp
  have w_old: "waiter_ok W k w" if "w_waiters W k = Some w" for k w
    using ok that by (simp add: uq_ok_def)
  have no_w: "w_waiters W n = None"
    using w_old [of n] n by (cases "w_waiters W n") (auto simp: waiter_ok_def)
  have ws_other: "ws k = w_waiters W k" if "k \<noteq> n" for k
    using ws that by (cases q) auto
  let ?W = "W\<lparr>w_mail := m, w_wires := (w_wires W)(n := WireOpen), w_waiters := ws\<rparr>"
  have "waiter_ok ?W k w" if "ws k = Some w" for k w
  proof (cases "k = n")
    case True
    then have "q \<noteq> None"
      using that no_w ws by (cases q) auto
    then show ?thesis
      using that ws(1) True mp mn by (auto simp: waiter_ok_def)
  next
    case False
    then have "w_waiters W k = Some w"
      using that ws by (cases q) auto
    from w_old [OF this] show ?thesis
      using False mp mn n none by (auto simp: waiter_ok_def split: wait_phase.splits wait_outcome.splits)
  qed
  moreover have "entries_ok ?W"
    unfolding entries_ok_def
  proof (intro conjI)
    show "kv_ok (mb_pending (w_mail ?W))"
      using parts(1) mp by (simp add: entries_ok_def)
    show "\<forall>t' p. pend ?W t' = Some p \<longrightarrow> pi_sequence p < mb_next_sequence (w_mail ?W)
        \<and> w_wires ?W (pi_sequence p) = WireOpen
        \<and> (pi_started p \<longleftrightarrow> pi_sequence p \<in> w_attended ?W) \<and> \<not> in_hand ?W (pi_sequence p)"
      using parts(1) fresh n mp mn by (auto simp: entries_ok_def less_Suc_eq)
    show "\<forall>t1 p1 t2 p2. pend ?W t1 = Some p1 \<longrightarrow> pend ?W t2 = Some p2
        \<longrightarrow> pi_sequence p1 = pi_sequence p2 \<longrightarrow> t1 = t2"
    proof (intro allI impI)
      fix t1 p1 t2 p2
      assume l: "pend ?W t1 = Some p1" "pend ?W t2 = Some p2" and e: "pi_sequence p1 = pi_sequence p2"
      show "t1 = t2"
      proof (cases "t1 = t"; cases "t2 = t")
        assume "t1 \<noteq> t" "t2 \<noteq> t"
        then show ?thesis
          using l e mp entry_unique [OF ok] by simp
      next
        assume "t1 = t" "t2 \<noteq> t"
        then show ?thesis
          using l e mp old [of t2 p2] by auto
      next
        assume "t1 \<noteq> t" "t2 = t"
        then show ?thesis
          using l e mp old [of t1 p1] by auto
      qed simp
    qed
  qed
  moreover have "guarded_ok ?W"
    unfolding guarded_ok_def
  proof (intro allI impI)
    fix t' p assume l: "pend ?W t' = Some p" and q: "pi_question p \<noteq> None"
    show "\<exists>w. w_waiters ?W (pi_sequence p) = Some w \<and> wt_tool w = t'
        \<and> (wt_phase w = Selecting \<or> wt_phase w = AwaitingResponse)"
    proof (cases "t' = t")
      case True
      then show ?thesis
        using l q mp ws(1) by auto
    next
      case False
      then have p: "pend W t' = Some p"
        using l mp by simp
      then show ?thesis
        using parts(2) q ws_other [of "pi_sequence p"] old [OF p] by (auto simp: guarded_ok_def)
    qed
  qed
  moreover have "hands_ok ?W"
    using parts(3) mn n fresh(3) ws_other by (fastforce simp: hands_ok_def)
  moreover have "sequences_ok ?W"
    using parts(4) mn n by (fastforce simp: sequences_ok_def)
  ultimately show ?thesis
    by (simp add: uq_ok_def)
qed

text \<open>Only what the entries say matters, not where they stand in the list.\<close>

lemma uq_ok_mail_cong:
  assumes "uq_ok (W\<lparr>w_mail := m\<rparr>)" and "kv_ok (mb_pending m')"
    and "map_of (mb_pending m') = map_of (mb_pending m)" and "mb_next_sequence m' = mb_next_sequence m"
  shows "uq_ok (W\<lparr>w_mail := m'\<rparr>)"
  using assms by (simp add: uq_defs cong: wait_phase.case_cong wait_outcome.case_cong)

lemma uq_ok_register:
  assumes ok: "uq_ok W" and bound: "mb_next_sequence (w_mail W) < u64_max"
    and m: "insert_pending t q cs (w_mail W) = (n, m)"
    and ws: "q \<noteq> None \<Longrightarrow> ws = (w_waiters W)(n \<mapsto> \<lparr>wt_tool = t, wt_phase = Selecting\<rparr>)"
      "q = None \<Longrightarrow> ws = w_waiters W"
  shows "uq_ok (W\<lparr>w_mail := m, w_wires := (close_of t (w_mail W) (w_wires W))(n := WireOpen), w_waiters := ws\<rparr>)"
proof (cases "pend W t")
  case None
  have "n = mb_next_sequence (w_mail W)"
    using m by (simp add: insert_pending_def Let_def)
  then show ?thesis
    using uq_ok_insert [OF ok None _ _ m, of ws] ws bound None by (simp add: close_of_def)
next
  case (Some p)
  let ?W0 = "W\<lparr>w_mail := remove_pending t (w_mail W), w_wires := close_of t (w_mail W) (w_wires W)\<rparr>"
  have ok0: "uq_ok ?W0"
    using uq_ok_close_of [OF ok] Some by simp
  have n: "n = mb_next_sequence (w_mail ?W0)"
    using m by (simp add: insert_pending_def Let_def)
  obtain m0 where m0: "insert_pending t q cs (w_mail ?W0) = (n, m0)"
    using n by (simp add: insert_pending_def Let_def)
  have "pend ?W0 t = None"
    by simp
  have commute: "W\<lparr>w_mail := a, w_wires := b, w_waiters := c\<rparr> = (W\<lparr>w_wires := b, w_waiters := c\<rparr>)\<lparr>w_mail := a\<rparr>"
    for a b c
    by (cases W) simp
  from uq_ok_insert [OF ok0 \<open>pend ?W0 t = None\<close> n _ m0, of ws]
  have ok1: "uq_ok ((W\<lparr>w_wires := (close_of t (w_mail W) (w_wires W))(n := WireOpen), w_waiters := ws\<rparr>)\<lparr>w_mail := m0\<rparr>)"
    using ws bound n by (simp add: commute)
  have "kv_ok (mb_pending (w_mail W))"
    using ok by (simp add: uq_ok_def entries_ok_def)
  then have "uq_ok ((W\<lparr>w_wires := (close_of t (w_mail W) (w_wires W))(n := WireOpen), w_waiters := ws\<rparr>)\<lparr>w_mail := m\<rparr>)"
    using m m0 by (intro uq_ok_mail_cong [OF ok1]) (auto simp: insert_pending_def Let_def fun_eq_iff)
  then show ?thesis
    by (simp add: commute)
qed

lemma uq_ok_attend:
  assumes ok: "uq_ok W" and p: "pend W t = Some p" and "\<not> pi_started p"
    and m: "mb_pending m = kv_put t (p\<lparr>pi_started := True, pi_question := map_option attended_question (pi_question p)\<rparr>)
        (mb_pending (w_mail W))" "mb_next_sequence m = mb_next_sequence (w_mail W)"
  shows "uq_ok (W\<lparr>w_mail := m, w_attended := insert (pi_sequence p) (w_attended W)\<rparr>)"
proof -
  let ?W = "W\<lparr>w_mail := m, w_attended := insert (pi_sequence p) (w_attended W)\<rparr>"
  have other: "pi_sequence p' \<noteq> pi_sequence p" if "pend W t' = Some p'" "t' \<noteq> t" for t' p'
    using entry_unique [OF ok that(1) p] that(2) by auto
  note e = entryD [OF ok p]
  have parts: "entries_ok W" "guarded_ok W" "hands_ok W" "sequences_ok W"
    using ok by (simp_all add: uq_ok_def)
  have "waiter_ok ?W n w" if w: "w_waiters W n = Some w" for n w
  proof -
    have "waiter_ok W n w"
      using ok w by (simp add: uq_ok_def)
    then show ?thesis
      using e(2) p m by (auto simp: waiter_ok_def split: wait_phase.splits wait_outcome.splits if_splits)
  qed
  moreover have "entries_ok ?W"
    using parts(1) other e m p by (auto simp: entries_ok_def)
  moreover have "guarded_ok ?W"
    using parts(2) m p by (auto simp: guarded_ok_def)
  moreover have "hands_ok ?W" "sequences_ok ?W"
    using parts(3,4) e(1) m by (auto simp: hands_ok_def sequences_ok_def)
  ultimately show ?thesis
    by (simp add: uq_ok_def)
qed

lemma uq_ok_send:
  assumes ok: "uq_ok W" and v: "map_of (w_hands W) n = Some v"
  shows "uq_ok (W\<lparr>w_hands := kv_del n (w_hands W),
    w_wires := (if w_wires W n = WireOpen then (w_wires W)(n := WireSent v) else w_wires W)\<rparr>)"
proof -
  let ?W = "W\<lparr>w_hands := kv_del n (w_hands W),
    w_wires := (if w_wires W n = WireOpen then (w_wires W)(n := WireSent v) else w_wires W)\<rparr>"
  have parts: "entries_ok W" "guarded_ok W" "hands_ok W" "sequences_ok W"
    using ok by (simp_all add: uq_ok_def)
  have hand: "in_hand W n"
    using map_of_SomeD [OF v] by (simp add: rev_image_eqI)
  have not_n: "pi_sequence p \<noteq> n" if "pend W t = Some p" for t p
    using entryD(4) [OF ok that] hand by blast
  have open_n: "w_wires W n = WireOpen \<or> w_waiters W n = None"
    using parts(3) hand by (simp add: hands_ok_def)
  have "waiter_ok ?W k w" if w: "w_waiters W k = Some w" for k w
  proof -
    have "waiter_ok W k w"
      using ok w by (simp add: uq_ok_def)
    then show ?thesis
      using w open_n by (auto simp: waiter_ok_def kv_keys_del split: wait_phase.splits wait_outcome.splits)
  qed
  moreover have "entries_ok ?W"
    using parts(1) not_n by (auto simp: entries_ok_def kv_keys_del)
  moreover have "guarded_ok ?W"
    using parts(2) by (simp add: guarded_ok_def)
  moreover have "hands_ok ?W" "sequences_ok ?W"
    using parts(3,4) by (auto simp: hands_ok_def sequences_ok_def kv_keys_del)
  ultimately show ?thesis
    by (simp add: uq_ok_def)
qed

text \<open>A waiter moves on without touching the mailbox.\<close>

lemma uq_ok_phase:
  assumes ok: "uq_ok W" and w: "w_waiters W n = Some w"
    and keeps: "ph = AwaitingResponse \<or> (\<exists>v. ph = Finished (Answered v) \<and> w_wires W n = WireSent v)
      \<or> (ph = Finished WaitCancelled \<and> w_wires W n = WireClosed)
      \<or> (ph = Finished WaitTimedOut \<and> w_wires W n = WireClosed \<and> n \<notin> w_attended W)"
    and alive: "wt_phase w = Selecting \<or> wt_phase w = AwaitingResponse"
  shows "uq_ok (set_phase n w ph W)"
proof -
  let ?W = "set_phase n w ph W"
  have parts: "entries_ok W" "guarded_ok W" "hands_ok W" "sequences_ok W"
    using ok by (simp_all add: uq_ok_def)
  have wn: "waiter_ok W n w"
    using ok w by (simp add: uq_ok_def)
  have "waiter_ok ?W k x" if x: "w_waiters ?W k = Some x" for k x
  proof (cases "k = n")
    case True
    then show ?thesis
      using x wn keeps alive by (auto simp: waiter_ok_def set_phase_def split: wait_phase.splits)
  next
    case False
    then have "waiter_ok W k x"
      using ok x by (simp add: uq_ok_def set_phase_def)
    then show ?thesis
      by (simp add: waiter_ok_def set_phase_def cong: wait_phase.case_cong wait_outcome.case_cong)
  qed
  moreover have "guarded_ok ?W"
    unfolding guarded_ok_def
  proof (intro allI impI)
    fix t p assume l: "pend ?W t = Some p" and q: "pi_question p \<noteq> None"
    then have p: "pend W t = Some p"
      by (simp add: set_phase_def)
    then obtain x where x: "w_waiters W (pi_sequence p) = Some x" "wt_tool x = t"
        "wt_phase x = Selecting \<or> wt_phase x = AwaitingResponse"
      using parts(2) q by (auto simp: guarded_ok_def)
    show "\<exists>w. w_waiters ?W (pi_sequence p) = Some w \<and> wt_tool w = t
        \<and> (wt_phase w = Selecting \<or> wt_phase w = AwaitingResponse)"
    proof (cases "pi_sequence p = n")
      case True
      then have "ph = AwaitingResponse"
        using keeps entryD(2) [OF ok p] by auto
      then show ?thesis
        using True w x by (simp add: set_phase_def)
    next
      case False
      then show ?thesis
        using x by (simp add: set_phase_def)
    qed
  qed
  moreover have "entries_ok ?W"
    using parts(1) by (simp add: entries_ok_def set_phase_def)
  moreover have "hands_ok ?W"
    unfolding hands_ok_def
  proof (intro conjI allI impI)
    show "kv_ok (w_hands ?W)"
      using parts(3) by (simp add: hands_ok_def set_phase_def)
    fix k assume k: "in_hand ?W k"
    then have "in_hand W k"
      by (simp add: set_phase_def)
    then have h: "k < mb_next_sequence (w_mail W)" "w_wires W k = WireOpen \<or> w_waiters W k = None"
      using parts(3) by (simp_all add: hands_ok_def)
    show "k < mb_next_sequence (w_mail ?W)"
      using h(1) by (simp add: set_phase_def)
    show "w_wires ?W k = WireOpen \<or> w_waiters ?W k = None"
      using h(2) w by (cases "k = n") (auto simp: set_phase_def)
  qed
  moreover have "sequences_ok ?W"
    using parts(4) by (simp add: sequences_ok_def set_phase_def)
  ultimately show ?thesis
    by (simp add: uq_ok_def)
qed

lemma entry_of_waiter:
  assumes ok: "uq_ok W" and w: "w_waiters W n = Some w" and p: "pend W t = Some p" "pi_sequence p = n"
  shows "wt_tool w = t"
proof -
  have "waiter_ok W n w"
    using ok w by (simp add: uq_ok_def)
  then obtain p' where "pend W (wt_tool w) = Some p'" "pi_sequence p' = n"
    using entryD(2,4) [OF ok p(1)] p(2)
    by (auto simp: waiter_ok_def split: wait_phase.splits wait_outcome.splits)
  then show ?thesis
    using entry_unique [OF ok, of "wt_tool w" p' t p] p by simp
qed

lemma uq_ok_forget:
  assumes ok: "uq_ok W" and none: "\<And>t p. pend W t = Some p \<Longrightarrow> pi_sequence p \<noteq> n"
  shows "uq_ok (W\<lparr>w_wires := (w_wires W)(n := WireClosed), w_waiters := (w_waiters W)(n := None)\<rparr>)"
proof -
  let ?W = "W\<lparr>w_wires := (w_wires W)(n := WireClosed), w_waiters := (w_waiters W)(n := None)\<rparr>"
  have parts: "entries_ok W" "guarded_ok W" "hands_ok W" "sequences_ok W"
    using ok by (simp_all add: uq_ok_def)
  have "waiter_ok ?W k w" if w: "w_waiters ?W k = Some w" for k w
  proof -
    have "k \<noteq> n" "waiter_ok W k w"
      using ok w by (auto simp: uq_ok_def split: if_splits)
    then show ?thesis
      by (simp add: waiter_ok_def cong: wait_phase.case_cong wait_outcome.case_cong)
  qed
  moreover have "entries_ok ?W"
    using parts(1) none by (auto simp: entries_ok_def)
  moreover have "guarded_ok ?W"
    using parts(2) none by (simp add: guarded_ok_def)
  moreover have "hands_ok ?W" "sequences_ok ?W"
    using parts(3,4) by (auto simp: hands_ok_def sequences_ok_def)
  ultimately show ?thesis
    by (simp add: uq_ok_def)
qed

lemma uq_ok_drop_waiter:
  assumes ok: "uq_ok W" and w: "w_waiters W n = Some w"
  shows "uq_ok (W\<lparr>w_mail := drop_registration (wt_tool w) n (w_mail W),
    w_wires := (w_wires W)(n := WireClosed), w_waiters := (w_waiters W)(n := None)\<rparr>)"
proof (cases "\<exists>p. pend W (wt_tool w) = Some p \<and> pi_sequence p = n")
  case True
  then obtain p where p: "pend W (wt_tool w) = Some p" "pi_sequence p = n"
    by blast
  let ?W1 = "W\<lparr>w_mail := remove_pending (wt_tool w) (w_mail W), w_wires := (w_wires W)(pi_sequence p := WireClosed)\<rparr>"
  have ok1: "uq_ok ?W1"
    by (rule uq_ok_drop_entry [OF ok p(1)])
  have "pi_sequence p' \<noteq> n" if "pend ?W1 t' = Some p'" for t' p'
    using entryD(2) [OF ok1 that] p(2) by auto
  from uq_ok_forget [OF ok1 this] show ?thesis
    using p by (simp add: drop_registration_def)
next
  case False
  then have "drop_registration (wt_tool w) n (w_mail W) = w_mail W"
    by (auto simp: drop_registration_def split: option.splits)
  moreover have "pi_sequence p' \<noteq> n" if "pend W t' = Some p'" for t' p'
    using False entry_of_waiter [OF ok w that] that by auto
  ultimately show ?thesis
    using uq_ok_forget [OF ok] by simp
qed

lemma uq_ok_deadline:
  assumes ok: "uq_ok W" and w: "w_waiters W n = Some w" and ph: "wt_phase w = Selecting"
    and ex: "expire_if_unstarted (wt_tool w) n (w_mail W) = (True, m)"
  shows "uq_ok (set_phase n w (Finished WaitTimedOut)
    (W\<lparr>w_mail := m, w_wires := close_of (wt_tool w) (w_mail W) (w_wires W)\<rparr>))"
proof -
  from ex obtain p where p: "pend W (wt_tool w) = Some p" "pi_sequence p = n" "\<not> pi_started p"
      and m: "m = remove_pending (wt_tool w) (w_mail W)"
    by (auto simp: expire_if_unstarted_def split: option.splits if_splits)
  have "uq_ok (W\<lparr>w_mail := m, w_wires := close_of (wt_tool w) (w_mail W) (w_wires W)\<rparr>)"
    unfolding m using uq_ok_close_of [OF ok] p(1) by simp
  then show ?thesis
    using w ph p entryD(3) [OF ok p(1)] by (intro uq_ok_phase) (auto simp: close_of_def)
qed

lemma uq_ok_step:
  assumes ok: "uq_ok W" and st: "uq_step e W = Some W'"
  shows "uq_ok W'"
proof (cases e)
  case (EvAsk q cs)
  obtain n m where m: "insert_pending (pq_tool_id q) (Some q) cs (w_mail W) = (n, m)"
    by fastforce
  show ?thesis
    using st uq_ok_register [OF ok _ m, of "(w_waiters W)(n \<mapsto> \<lparr>wt_tool = pq_tool_id q, wt_phase = Selecting\<rparr>)"] m
    by (auto simp: EvAsk register_question_def split: if_splits)
next
  case (EvChannel t)
  obtain n m where m: "insert_pending t None [] (w_mail W) = (n, m)"
    by fastforce
  show ?thesis
    using st uq_ok_register [OF ok _ m, of "w_waiters W"] m
    by (auto simp: EvChannel register_channel_def split: if_splits)
next
  case (EvAttend s t)
  show ?thesis
  proof (cases "pend W t")
    case None
    then show ?thesis
      using st ok by (simp add: EvAttend start_interaction_def)
  next
    case (Some p)
    show ?thesis
    proof (cases "controlled_by p s \<and> \<not> pi_started p")
      case True
      then show ?thesis
        using st Some uq_ok_attend [OF ok Some] by (auto simp: EvAttend start_interaction_def)
    next
      case False
      moreover have "insert (pi_sequence p) (w_attended W) = w_attended W" if "pi_started p"
        using entryD(3) [OF ok Some] that by auto
      ultimately show ?thesis
        using st Some ok by (auto simp: EvAttend start_interaction_def split: if_splits)
    qed
  qed
next
  case (EvTake t v)
  then show ?thesis
    using st ok uq_ok_take [OF ok, of t] by (auto simp: take_pending_def split: option.splits)
next
  case (EvSend n)
  then show ?thesis
    using st uq_ok_send [OF ok] by (auto split: option.splits)
next
  case (EvCancelFor s t)
  then show ?thesis
    using st ok uq_ok_close_of [OF ok, of t]
    by (auto simp: cancel_for_session_def split: option.splits if_splits)
next
  case (EvCancelQuestion t)
  then show ?thesis
    using st ok uq_ok_close_of [OF ok, of t]
    by (auto simp: cancel_question_def close_of_def split: option.splits)
next
  case (EvPollResponse n)
  then show ?thesis
    using st uq_ok_phase [OF ok] by (auto split: option.splits wait_phase.splits wire.splits)
next
  case (EvPollActivity n)
  then show ?thesis
    using st uq_ok_phase [OF ok, of n _ AwaitingResponse] by (auto split: option.splits if_splits)
next
  case (EvPollDeadline n)
  then show ?thesis
    using st uq_ok_phase [OF ok, of n _ AwaitingResponse] uq_ok_deadline [OF ok]
    by (auto split: option.splits if_splits prod.splits bool.splits)
next
  case (EvDropWaiter n)
  then show ?thesis
    using st uq_ok_drop_waiter [OF ok] by (auto split: option.splits)
qed

lemma uq_reachable_ok: "uq_reachable W \<Longrightarrow> uq_ok W"
  by (induction rule: uq_reachable.induct) (simp_all add: uq_ok_empty uq_ok_step)

section \<open>Runs\<close>

fun uq_run :: "uq_event list \<Rightarrow> uq_world \<Rightarrow> uq_world option" where
  "uq_run [] W = Some W"
| "uq_run (e # es) W = (case uq_step e W of None \<Rightarrow> None | Some W1 \<Rightarrow> uq_run es W1)"

lemma uq_run_ok: "uq_ok W \<Longrightarrow> uq_run es W = Some W' \<Longrightarrow> uq_ok W'"
  by (induction es arbitrary: W) (auto split: option.splits dest: uq_ok_step)

lemma uq_run_reachable: "uq_reachable W \<Longrightarrow> uq_run es W = Some W' \<Longrightarrow> uq_reachable W'"
  by (induction es arbitrary: W) (auto split: option.splits intro: uq_reachable.step)

lemma attended_step: "uq_step e W = Some W' \<Longrightarrow> w_attended W \<subseteq> w_attended W'"
  by (cases e) (auto simp: set_phase_def split: option.splits prod.splits sum.splits if_splits wait_phase.splits
    wire.splits bool.splits)

lemma attended_run: "uq_run es W = Some W' \<Longrightarrow> w_attended W \<subseteq> w_attended W'"
  by (induction es arbitrary: W) (auto split: option.splits dest: attended_step)

text \<open>An answer that was taken out for a registration is still on its way to it, or has arrived.\<close>

definition delivering :: "nat \<Rightarrow> json \<Rightarrow> uq_world \<Rightarrow> bool" where
  "delivering n v W \<longleftrightarrow> n < mb_next_sequence (w_mail W)
     \<and> (w_waiters W n = None \<or> (map_of (w_hands W) n = Some v \<and> w_wires W n = WireOpen)
        \<or> w_wires W n = WireSent v)"

lemma close_of_other:
  assumes "uq_ok W" and "in_hand W n \<or> w_wires W n \<noteq> WireOpen"
  shows "close_of t (w_mail W) (w_wires W) n = w_wires W n"
  using entryD(2,4) [OF assms(1), of t] assms(2) by (auto simp: close_of_def split: option.splits)

lemma in_handI: "map_of (w_hands W) n = Some v \<Longrightarrow> in_hand W n"
  by (force dest: map_of_SomeD)

lemma delivering_close:
  assumes "uq_ok W" and "delivering n v W"
  shows "w_waiters W n = None \<or> (map_of (w_hands W) n = Some v \<and> close_of t (w_mail W) (w_wires W) n = WireOpen)
    \<or> close_of t (w_mail W) (w_wires W) n = WireSent v"
proof (cases "w_waiters W n")
  case (Some w)
  then consider "map_of (w_hands W) n = Some v" "w_wires W n = WireOpen" | "w_wires W n = WireSent v"
    using assms(2) by (auto simp: delivering_def)
  then show ?thesis
  proof cases
    case 1
    then show ?thesis
      using close_of_other [OF assms(1), of n t] in_handI [of W n v] by simp
  next
    case 2
    then show ?thesis
      using close_of_other [OF assms(1), of n t] by simp
  qed
qed simp

lemma delivering_step:
  assumes ok: "uq_ok W" and d: "delivering n v W" and st: "uq_step e W = Some W'"
  shows "delivering n v W'"
proof (cases e)
  case (EvAsk q cs)
  then show ?thesis
    using st d delivering_close [OF ok d, of "pq_tool_id q"]
    by (auto simp: register_question_def insert_pending_def Let_def delivering_def sat_add_u64_def split: if_splits)
next
  case (EvChannel t)
  then show ?thesis
    using st d delivering_close [OF ok d, of t]
    by (auto simp: register_channel_def insert_pending_def Let_def delivering_def sat_add_u64_def split: if_splits)
next
  case (EvAttend s t)
  then show ?thesis
    using st d by (auto simp: start_interaction_def delivering_def split: option.splits if_splits)
next
  case (EvTake t x)
  show ?thesis
  proof (cases "pend W t")
    case None
    then show ?thesis
      using st d EvTake by (simp add: take_pending_def)
  next
    case (Some p)
    have "pi_sequence p \<noteq> n \<or> \<not> in_hand W n"
      using entryD(4) [OF ok Some] by auto
    then show ?thesis
      using st d EvTake Some in_handI [of W n v] by (auto simp: take_pending_def delivering_def)
  qed
next
  case (EvSend k)
  then show ?thesis
    using st d by (auto simp: delivering_def split: option.splits if_splits)
next
  case (EvCancelFor s t)
  then show ?thesis
    using st d delivering_close [OF ok d, of t]
    by (auto simp: cancel_for_session_def delivering_def split: option.splits if_splits)
next
  case (EvCancelQuestion t)
  then show ?thesis
    using st d delivering_close [OF ok d, of t]
    by (auto simp: cancel_question_def delivering_def split: option.splits)
next
  case (EvPollResponse k)
  then show ?thesis
    using st d by (auto simp: delivering_def set_phase_def split: option.splits wait_phase.splits wire.splits if_splits)
next
  case (EvPollActivity k)
  then show ?thesis
    using st d by (auto simp: delivering_def set_phase_def split: option.splits if_splits)
next
  case (EvPollDeadline k)
  then obtain w where w: "w_waiters W k = Some w" "wt_phase w = Selecting"
    using st by (auto split: option.splits if_splits)
  show ?thesis
  proof (cases "expire_if_unstarted (wt_tool w) k (w_mail W)")
    case (Pair b m)
    have "mb_next_sequence m = mb_next_sequence (w_mail W)"
      using Pair by (auto simp: expire_if_unstarted_def split: option.splits if_splits)
    then show ?thesis
      using st d w Pair EvPollDeadline delivering_close [OF ok d, of "wt_tool w"]
      by (auto simp: delivering_def set_phase_def split: bool.splits if_splits)
  qed
next
  case (EvDropWaiter k)
  then show ?thesis
    using st d by (auto simp: delivering_def drop_registration_def split: option.splits if_splits)
qed

lemma delivering_run:
  "uq_ok W \<Longrightarrow> delivering n v W \<Longrightarrow> uq_run es W = Some W' \<Longrightarrow> delivering n v W'"
  by (induction es arbitrary: W) (auto split: option.splits dest: uq_ok_step delivering_step)

section \<open>Counts and snapshots\<close>

definition count_of :: "(string, nat) kv \<Rightarrow> string \<Rightarrow> nat" where
  "count_of counts s = (case map_of counts s of Some n \<Rightarrow> n | None \<Rightarrow> 0)"

definition counts_ok :: "(string, nat) kv \<Rightarrow> bool" where
  "counts_ok counts \<longleftrightarrow> (\<forall>s n. map_of counts s = Some n \<longrightarrow> 0 < n)"

lemma count_of_Nil: "count_of [] s = 0"
  by (simp add: count_of_def)

lemma count_session_count: "count_of (count_session s counts) s' = count_of counts s' + (if s' = s then 1 else 0)"
  by (simp add: count_of_def count_session_def)

lemma count_sessions_count:
  "distinct ss \<Longrightarrow> count_of (fold count_session ss counts) s = count_of counts s + (if s \<in> set ss then 1 else 0)"
  by (induction ss arbitrary: counts) (auto simp: count_session_count)

lemma counts_ok_session: "counts_ok counts \<Longrightarrow> counts_ok (count_session s counts)"
  by (simp add: counts_ok_def count_session_def)

lemma counts_ok_sessions: "counts_ok counts \<Longrightarrow> counts_ok (fold count_session ss counts)"
  by (induction ss arbitrary: counts) (simp_all add: counts_ok_session)

lemma counts_ok_entries:
  "counts_ok counts \<Longrightarrow> counts_ok (fold (\<lambda>(_, p) c. fold count_session (counted_sessions p) c) ps counts)"
  by (induction ps arbitrary: counts) (auto simp: counts_ok_sessions)

lemma counted_iff: "s \<in> set (counted_sessions p) \<longleftrightarrow> projected_question s now p \<noteq> None"
  by (auto simp: counted_sessions_def projected_question_def controlled_by_def list_ex_iff Let_def
      split: option.splits)

lemma counts_entries:
  "count_of (fold (\<lambda>(_, p) c. fold count_session (counted_sessions p) c) ps counts) s
   = count_of counts s + length (List.map_filter (\<lambda>(_, p). projected_question s now p) ps)"
proof (induction ps arbitrary: counts)
  case (Cons x ps)
  obtain t p where x: "x = (t, p)"
    by (cases x)
  have "distinct (counted_sessions p)"
    by (simp add: counted_sessions_def split: option.splits)
  then show ?case
    using Cons.IH counted_iff [of s p now] x
    by (cases "projected_question s now p") (simp_all add: count_sessions_count map_filter_simps)
qed (simp add: map_filter_simps)

section \<open>Answers\<close>

text \<open>The second branch of the unwrapping is never taken: a value that is no object has no members.\<close>

lemma answers_object_eq: "answers_object v = json_as_object v"
  by (cases v) (simp_all add: answers_object_def json_as_object_def json_get_def)

section \<open>Properties\<close>

text \<open>
  C10. The race over a question is decided once and the right way: however registrations, answers,
  cancellations, acknowledgements, deadlines and dropped turns interleave at their locked sections, a
  question somebody attended to does not time out, and when an answer was taken for a tool that still
  waits, whatever it returns is that answer.
\<close>

theorem question_race_outcome:
  assumes "uq_reachable W" and "uq_run es W = Some W'" and "w_waiters W' n = Some w"
    and "wt_phase w = Finished out"
  shows "(if n \<in> w_attended W then out \<noteq> WaitTimedOut else True)
    \<and> (if w_waiters W n \<noteq> None \<and> map_of (w_hands W) n = Some v then out = Answered v else True)"
proof -
  have ok: "uq_ok W" and ok': "uq_ok W'"
    using uq_reachable_ok [OF assms(1)] uq_run_ok assms(2) by blast+
  have w: "waiter_ok W' n w"
    using ok' assms(3) by (simp add: uq_ok_def)
  have "out \<noteq> WaitTimedOut" if "n \<in> w_attended W"
    using that attended_run [OF assms(2)] w assms(4) by (auto simp: waiter_ok_def)
  moreover have "out = Answered v" if "w_waiters W n \<noteq> None" "map_of (w_hands W) n = Some v"
  proof -
    have "hands_ok W"
      using ok by (simp add: uq_ok_def)
    then have "delivering n v W"
      using that in_handI [OF that(2)] by (auto simp: delivering_def hands_ok_def)
    then have "delivering n v W'"
      by (rule delivering_run [OF ok _ assms(2)])
    moreover have "\<not> (in_hand W' n \<and> w_wires W' n = WireOpen)"
      using w assms(4) by (auto simp: waiter_ok_def split: wait_outcome.splits)
    ultimately have "w_wires W' n = WireSent v"
      using assms(3) in_handI [of W' n v] by (auto simp: delivering_def)
    then show ?thesis
      using w assms(4) by (auto simp: waiter_ok_def split: wait_outcome.splits)
  qed
  ultimately show ?thesis
    by simp
qed

definition example_question :: pending_user_question where
  "example_question = new_pending_question ''tool'' ''session'' None None (JObject []) 0"

text \<open>
  The user starts to type, the deadline fires before the answer is sent, and the answer is taken and sent
  while the tool already waits for it alone.
\<close>

definition example_taken :: uq_world where
  "example_taken =
     \<lparr>w_mail = \<lparr>mb_pending = [], mb_next_sequence = 1, mb_revision = 3, mb_changes = 3\<rparr>,
      w_wires = (\<lambda>_. WireClosed)(0 := WireOpen),
      w_waiters = [0 \<mapsto> \<lparr>wt_tool = ''tool'', wt_phase = AwaitingResponse\<rparr>],
      w_hands = [(0, JString ''yes'')], w_attended = {0}\<rparr>"

lemmas uq_eval = register_question_def insert_pending_def Let_def bump_mailbox_def sat_add_u64_def u64_max_def
  close_of_def set_phase_def start_interaction_def controlled_by_def attended_question_def take_pending_def
  remove_pending_def expire_if_unstarted_def empty_world_def empty_mailbox_def new_pending_question_def

lemma example_taken_run:
  "uq_run [EvAsk example_question [], EvAttend ''session'' ''tool'', EvPollDeadline 0,
     EvTake ''tool'' (JString ''yes'')] empty_world = Some example_taken"
  by (simp add: uq_eval example_question_def example_taken_def)

theorem question_race_outcome_witness:
  "\<exists>W w. uq_run [EvSend 0, EvPollResponse 0] example_taken = Some W \<and> w_waiters W 0 = Some w
     \<and> wt_phase w = Finished (Answered (JString ''yes''))"
proof -
  have r: "uq_reachable example_taken"
    by (rule uq_run_reachable [OF uq_reachable.start example_taken_run])
  let ?W = "example_taken\<lparr>w_hands := [], w_wires := (\<lambda>_. WireClosed)(0 := WireSent (JString ''yes'')),
      w_waiters := [0 \<mapsto> \<lparr>wt_tool = ''tool'', wt_phase = Finished (Answered (JString ''yes''))\<rparr>]\<rparr>"
  have run: "uq_run [EvSend 0, EvPollResponse 0] example_taken = Some ?W"
    by (simp add: example_taken_def set_phase_def)
  have "Answered (JString ''yes'') = Answered (JString ''yes'')"
    using question_race_outcome [OF r run, of 0 "\<lparr>wt_tool = ''tool'', wt_phase = Finished (Answered (JString ''yes''))\<rparr>"
        "Answered (JString ''yes'')" "JString ''yes''"]
    by (simp add: example_taken_def)
  with run show ?thesis
    by (intro exI [of _ ?W]) simp
qed

text \<open>
  C11. A question that is pending has a tool that waits for it, and a tool that waits has its question
  pending, or an answer on its way, or can return at once: nothing unanswerable is offered and nobody
  waits for nothing.
\<close>

theorem pending_questions_are_live:
  assumes "uq_reachable W"
  shows "(\<nexists>t p. pend W t = Some p \<and> pi_question p \<noteq> None
       \<and> \<not> (\<exists>w. w_waiters W (pi_sequence p) = Some w \<and> wt_tool w = t
              \<and> (wt_phase w = Selecting \<or> wt_phase w = AwaitingResponse)))
    \<and> (\<nexists>n w. w_waiters W n = Some w \<and> (wt_phase w = Selecting \<or> wt_phase w = AwaitingResponse)
       \<and> \<not> ((\<exists>p. pend W (wt_tool w) = Some p \<and> pi_sequence p = n) \<or> in_hand W n
            \<or> uq_step (EvPollResponse n) W \<noteq> None))"
proof -
  have ok: "uq_ok W"
    by (rule uq_reachable_ok [OF assms])
  have "(\<exists>p. pend W (wt_tool w) = Some p \<and> pi_sequence p = n) \<or> in_hand W n
      \<or> uq_step (EvPollResponse n) W \<noteq> None"
    if w: "w_waiters W n = Some w" "wt_phase w = Selecting \<or> wt_phase w = AwaitingResponse" for n w
  proof (cases "w_wires W n")
    case WireOpen
    have "waiter_ok W n w"
      using ok w(1) by (simp add: uq_ok_def)
    then show ?thesis
      using WireOpen w(2) by (auto simp: waiter_ok_def)
  qed (use w in auto)
  moreover have "\<exists>w. w_waiters W (pi_sequence p) = Some w \<and> wt_tool w = t
      \<and> (wt_phase w = Selecting \<or> wt_phase w = AwaitingResponse)"
    if "pend W t = Some p" "pi_question p \<noteq> None" for t p
    using ok that unfolding uq_ok_def guarded_ok_def by blast
  ultimately show ?thesis
    by blast
qed

text \<open>
  C12. The navigation counts and the snapshots show the same questions: the count of a session is the
  number of questions in its snapshot, and a session without a count has an empty snapshot.
\<close>

theorem counts_match_snapshots:
  "(case map_of (pending_question_counts m) s of Some n \<Rightarrow> n | None \<Rightarrow> 0)
     = length (qs_questions (pending_question_snapshot s now m))
   \<and> (map_of (pending_question_counts m) s = None \<longleftrightarrow> qs_questions (pending_question_snapshot s now m) = [])"
proof -
  have c: "count_of (pending_question_counts m) s = length (qs_questions (pending_question_snapshot s now m))"
    using counts_entries [where counts = "[]" and s = s and ps = "mb_pending m" and now = now]
    by (simp add: pending_question_counts_def pending_question_snapshot_def count_of_Nil)
  have "counts_ok (pending_question_counts m)"
    unfolding pending_question_counts_def by (rule counts_ok_entries) (simp add: counts_ok_def)
  then show ?thesis
    using c by (auto simp: count_of_def counts_ok_def split: option.splits)
qed

theorem pending_questions_are_live_witness:
  "\<exists>W. uq_run [EvAsk example_question []] empty_world = Some W \<and> pend W ''tool'' \<noteq> None
     \<and> (\<nexists>n w. w_waiters W n = Some w \<and> (wt_phase w = Selecting \<or> wt_phase w = AwaitingResponse)
       \<and> \<not> ((\<exists>p. pend W (wt_tool w) = Some p \<and> pi_sequence p = n) \<or> in_hand W n
            \<or> uq_step (EvPollResponse n) W \<noteq> None))"
proof -
  obtain W where W: "uq_run [EvAsk example_question []] empty_world = Some W"
    by (simp add: uq_eval)
  then have "uq_reachable W"
    by (rule uq_run_reachable [OF uq_reachable.start])
  moreover have "pend W ''tool'' \<noteq> None"
    using W by (auto simp: uq_eval example_question_def)
  ultimately show ?thesis
    using W pending_questions_are_live [of W] by blast
qed

section \<open>Validation\<close>

lemma validate_options_ok:
  "validate_options k i opts = Inr () \<longleftrightarrow>
   list_all (\<lambda>opt. trim (qo_label opt) \<noteq> [] \<and> trim (qo_description opt) \<noteq> []) opts"
  by (induction opts arbitrary: i) auto

lemma validate_question_ok:
  "validate_question k q = Inr () \<longleftrightarrow>
   trim (qu_question q) \<noteq> [] \<and> trim (qu_header q) \<noteq> [] \<and> chars_count (qu_header q) \<le> 20
     \<and> 2 \<le> length (qu_options q) \<and> length (qu_options q) \<le> 10
     \<and> list_all (\<lambda>opt. trim (qo_label opt) \<noteq> [] \<and> trim (qo_description opt) \<noteq> []) (qu_options q)"
  by (auto simp: validate_question_def validate_options_ok)

lemma validate_questions_Cons:
  "validate_questions i (q # qs) = Inr () \<longleftrightarrow>
   validate_question (Suc i) q = Inr () \<and> validate_questions (Suc i) qs = Inr ()"
  by (auto split: sum.splits)

lemma validate_questions_ok:
  "validate_questions i qs = Inr () \<longleftrightarrow>
   list_all (\<lambda>q. trim (qu_question q) \<noteq> [] \<and> trim (qu_header q) \<noteq> [] \<and> chars_count (qu_header q) \<le> 20
     \<and> 2 \<le> length (qu_options q) \<and> length (qu_options q) \<le> 10
     \<and> list_all (\<lambda>opt. trim (qo_label opt) \<noteq> [] \<and> trim (qo_description opt) \<noteq> []) (qu_options q)) qs"
proof (induction qs arbitrary: i)
  case (Cons q qs)
  then show ?case
    unfolding validate_questions_Cons validate_question_ok by simp
qed simp

text \<open>What the validation lets through, exactly; a header of 20 characters passes.\<close>

lemma validate_input_ok:
  "validate_input qs = Inr () \<longleftrightarrow> 1 \<le> length qs \<and> length qs \<le> 4 \<and>
   list_all (\<lambda>q. trim (qu_question q) \<noteq> [] \<and> trim (qu_header q) \<noteq> [] \<and> chars_count (qu_header q) \<le> 20
     \<and> 2 \<le> length (qu_options q) \<and> length (qu_options q) \<le> 10
     \<and> list_all (\<lambda>opt. trim (qo_label opt) \<noteq> [] \<and> trim (qo_description opt) \<noteq> []) (qu_options q)) qs"
  unfolding validate_questions_ok [of 0, symmetric] by (cases qs) (auto simp: validate_input_def)

text \<open>Answers wrapped in an object under \<open>answers\<close> are reported as missing.\<close>

lemma wrapped_answers_are_lost:
  "answers_object (JObject [(''answers'', JObject [(''0'', JString ''Yes'')])])
     = Some [(''answers'', JObject [(''0'', JString ''Yes'')])]"
  "answer_text [(''answers'', JObject [(''0'', JString ''Yes'')])] 0 = ''N/A''"
  by (simp_all add: answers_object_eq json_as_object_def answer_text_def decimal.simps digit_char_def)

end
