(* ===== verification/Spec2Isabelle.thy ===== *)
theory Spec2Isabelle
  imports Round_Injection Dialog_Queue Dialog_Turn Event_Queue Projection_Store Router_Summary_Queue Permission_Manager Shell_Quoting Edit_Guard Account_Routing User_Questions
begin

text \<open>
  Verification library of the agent runtime of OpenBitFun, the crates
  \<open>src/crates/execution/agent-runtime\<close> and \<open>src/crates/contracts/*\<close> with the parts of
  \<open>src/crates/assembly/core\<close> and \<open>src/crates/services\<close> that implement their interfaces.
  The runtime accepts dialog turns of many sessions, runs one turn per session, injects messages
  into running rounds, publishes the events of every turn to live and reconnecting clients, decides
  what tools may do, and schedules background work. Its concrete executors (model calls, tools,
  persistence, user interfaces) are injected through traits.

  \<^bold>\<open>Parts and how they interact.\<close> A client submits a message; the scheduler either starts a turn,
  steers the running turn or queues the message (\<open>Dialog_Queue\<close>, \<open>Dialog_Turn\<close>). Steering
  messages and results of background work wait in the injection buffer until the round executor
  takes them (\<open>Round_Injection\<close>). A turn's events go to the event queue (\<open>Event_Queue\<close>), which
  broadcasts them to the channels of subscribed sessions (\<open>Session_Channels\<close>) and keeps them for
  the legacy dispatcher; the host's ordered delivery stream records them in the session event
  journal (\<open>Session_Journal\<close>), from which a reconnecting client catches up, and the journal
  appends them to a durable log (\<open>Projection_Store\<close>), from which a restarted host rebuilds the
  turn in flight. When a turn ends, its outcome settles the registered turn, the buffered
  injections and the queue (\<open>Dialog_Turn\<close>). Router summaries run in the background through a fair
  admission queue (\<open>Router_Summary_Queue\<close>).
  Before a tool runs, its intents are planned against the policy resolved from presets, modes and
  rule layers (\<open>Permission_Policy\<close>); intents that need approval become pending requests, which the
  user replies to or the runtime cancels (\<open>Permission_Manager\<close>), over a store that remembers grants
  and keeps a bounded audit (\<open>Permission_Store\<close>). A shell command is analysed without being run
  (\<open>Shell_Lexer\<close>, \<open>Shell_Parser\<close>, \<open>Shell_Effects\<close>) into the files it writes and the
  effects it cannot resolve, and command lines for remote hosts are built with quoting that the same lexer
  reads back (\<open>Shell_Quoting\<close>). What the user forbids to edit is extracted from each message
  (\<open>Edit_Extraction\<close>), kept per session through rollbacks and forks (\<open>Edit_Constraints\<close>), and
  enforced on file tools and, through the shell analysis, on commands (\<open>Edit_Guard\<close>).
  A failed model call is classified (\<open>Ai_Errors\<close>); from the category alone the pool of models decides
  which member serves the next request of a session (\<open>Model_Pool\<close>) and the account routing which account
  does (\<open>Account_Routing\<close>). A tool that asks the user something waits in a mailbox that every surface reads
  (\<open>User_Questions\<close>).

  \<^bold>\<open>Theories.\<close> Each theory names its source files, and its definitions carry the names of the code's
  functions and fields (with a prefix where a name is taken).

    \<^item> \<open>Prelude\<close>: maps as the interface \<open>keyed_store\<close> with association lists and functions as its
      instances, positions in sequences, maxima, unsigned integers with saturation, wrap-around and
      checked addition, UTF-8 strings. \<open>Json\<close>: \<open>serde_json::Value\<close> with the accessors the code uses.
    \<^item> \<open>Round_Injection\<close>: \<open>runtime-ports/src/agent_api.rs\<close> and the buffer of \<open>scheduler.rs\<close>.
      Lemmas: draining splits the buffer by turn and keeps order, cancellation keeps exactly the
      messages bound to their turn, and the locale \<open>injection_source\<close> states what the round
      executor relies on, with the buffer and the no-op source as its instances.
    \<^item> \<open>Dialog_Queue\<close>: \<open>DialogTurnQueue\<close> of \<open>scheduler.rs\<close>. The deque that inserts by position
      refines three lanes, one per priority (locale \<open>lane_queue\<close>).
    \<^item> \<open>Dialog_Turn\<close>: active turns, reply suppression, steering, outcomes and background delivery of
      \<open>scheduler.rs\<close>, \<open>background_delivery.rs\<close> and \<open>core-types\<close>.
    \<^item> \<open>Agentic_Events\<close>: the event vocabulary of \<open>contracts/events/src/agentic.rs\<close>.
    \<^item> \<open>Session_Channels\<close>, \<open>Event_Queue\<close>: \<open>event_queue.rs\<close>. The heap is a list with the interface
      \<open>min_heap\<close>; subscriptions and drops are single lock sections of an interleaving step relation.
    \<^item> \<open>Session_Journal\<close>: \<open>session_event_journal.rs\<close>. \<open>journal_inv\<close> relates the state after any
      sequence of recorded events to the \<open>history\<close> of each session.
    \<^item> \<open>Projection_Store\<close>: \<open>session_projection_store.rs\<close> and \<open>session_projection_format.rs\<close> on a file
      system of inodes. The trait is the locale \<open>projection_store\<close>, the file store its instance, and
      the journal with a store is proved correct inside the locale.
    \<^item> \<open>Router_Summary_Queue\<close>: \<open>router_summary_queue.rs\<close> with tickets and permits as a step relation.
    \<^item> \<open>Permission_Policy\<close>: \<open>tool_permissions.rs\<close> and \<open>plan_permission_intents\<close> of \<open>permission.rs\<close>.
      Effects are a linear order; the constraint layers are a maximum, and the wildcard program is
      proved equal to a declarative match.
    \<^item> \<open>Permission_Store\<close>: \<open>permission_store.rs\<close> on two tables; the store ports are the locale
      \<open>permission_stores\<close>, the SQLite store its instance. \<open>Permission_Manager\<close>:
      \<open>PermissionRequestManager\<close>, whose registration and reply are proved inside that locale.
    \<^item> \<open>Shell_Lexer\<close>, \<open>Shell_Parser\<close>, \<open>Shell_Effects\<close>: \<open>shell_analysis/lexer.rs\<close>,
      \<open>mod.rs\<close> and \<open>program.rs\<close> of the crate \<open>tool-execution\<close>, up to the entry point \<open>analyze\<close>.
      \<open>Shell_Analysis\<close>: the locale \<open>analysis_relation\<close> proves once that a reflexive, transitive relation kept
      by adding a diagnostic, a file or a descriptor fact holds between the analysis before and after every
      operation; its instances are the invariant \<open>analysis_ok\<close> and the order \<open>extends\<close>.
    \<^item> \<open>Shell_Quoting\<close>: \<open>remote_ssh/shell.rs\<close> and \<open>remote_git.rs\<close>, with the lexer as the reader.
    \<^item> \<open>Edit_Constraints\<close>, \<open>Edit_Extraction\<close>, \<open>Edit_Guard\<close>:
      \<open>assembly/core/src/agentic/execution/edit_constraint_guard.rs\<close> with \<open>model.rs\<close> and
      \<open>complete_shell.rs\<close>, and the store of the session manager. A rollback refines a replay of the surviving
      turns; the inspection of a recursive deletion is a worklist whose result is related to the inductive
      relation \<open>below\<close>; the shell check is composed with \<open>analyze\<close>.
    \<^item> \<open>Ai_Errors\<close>: \<open>core-types/src/errors.rs\<close>. \<open>Model_Pool\<close>: \<open>model_pool.rs\<close> of the crates
      \<open>agent-runtime\<close>, \<open>core-types\<close> and \<open>config-contracts\<close>; the locale \<open>forward_steps\<close> (steps that keep an
      invariant and never go back in an order) is interpreted for health evidence and for ended
      reservations. \<open>Account_Routing\<close>: \<open>account_routing.rs\<close>, with lemmas that relate its recoveries
      to those of the pool.
    \<^item> \<open>User_Questions\<close>: \<open>user_questions.rs\<close>; the lock sections of the mailbox, the sends of answers and the
      branches of the waiting tool are the steps of \<open>uq_step\<close>.

  \<^bold>\<open>What the lemmas show.\<close> For every component: an invariant of its state that every operation
  keeps (\<open>queue_ok\<close>, \<open>event_queue_inv\<close>, \<open>journal_inv\<close>, \<open>stored_inv\<close>, \<open>sq_ok\<close> and
  \<open>runtime_inv\<close>), the result of each operation on each branch, and what its callers rely on: order of dispatch,
  exactly-once settling and acknowledgement, exact catch-up, restart from the log, bounds, fairness.
  The properties of the development are the theorems numbered C1, C2 and so on.

  \<^bold>\<open>Bounds and termination.\<close> No fuel is used: every loop of the code that is modelled terminates, by
  structural recursion or by a measure (the pending controls of \<open>evict_controls\<close>, the heap of
  \<open>retain_loop\<close>, the waiting work of \<open>summary_dispatch\<close>, the characters left for the lexer, the
  tokens left for the parser, the nesting budget of \<open>analyze_into\<close>, the entries and directories left to
  \<open>inspect_directories\<close>). Counters are \<open>nat\<close> with the width of the code
  written out (\<open>sat_add_u64\<close>, \<open>wrap_add_u64\<close>, \<open>checked_add_u64\<close>); where a theorem needs that a counter
  has not saturated, the bound is a hypothesis (\<open>length es \<le> u64_max\<close>).

  \<^bold>\<open>Environment.\<close> Generated identifiers and clock readings are arguments. \<open>serde_json\<close> is a pair of
  parameters where text matters; regular expressions (the \<open>regex\<close> crate) and Unicode character classes are
  parameters. Locks are atomicity: one function per lock section, and a step
  relation where sections interleave. Channels, log output and metrics are reduced to what later
  code reads of them.

  \<^bold>\<open>Not modelled.\<close> The coordinator, session manager and persistence of \<open>assembly/core\<close> (asynchronous
  glue over services that are themselves parameters), the model round executor and AI adapters
  (network protocols of providers), remote workspaces and SSH, the terminal, the review platforms,
  external session import, the product surfaces (desktop, CLI, server, web and mobile code) and the
  build tooling. PROJECT.json lists them with the reason.
\<close>

end
